(* ===== verification/C_Prelude.thy ===== *)
theory C_Prelude
  imports Main "HOL-Library.Word" "HOL-Library.Monad_Syntax"
begin

text \<open>
  Shared vocabulary of the development: the machine types of the C code, the option monad in
  which every access to C memory is written (\<open>None\<close> stands for an access C leaves undefined: a
  read or write outside an object, a dereference of a null or freed pointer), byte buffers,
  NUL-terminated strings, and the generic lemmas on lists, maps and words used by all components.
  Statements are written with the \<open>do\<close> notation of the option monad from Monad_Syntax, passing
  the state explicitly.
\<close>

unbundle bit_operations_syntax

section \<open>Machine types\<close>

type_synonym byte = "8 word"
type_synonym u16 = "16 word"
type_synonym u32 = "32 word"
type_synonym i32 = "32 word"
type_synonym u64 = "64 word"
type_synonym i64 = "64 word"

text \<open>Addresses; address 0 is the null pointer.\<close>

type_synonym addr = nat

abbreviation (input) NULL :: addr where "NULL \<equiv> 0"

named_theorems mem_simps \<open>evaluation of memory accesses\<close>
named_theorems frame_simps \<open>facts an operation leaves unchanged\<close>

section \<open>Guards\<close>

definition ensure :: "bool \<Rightarrow> unit option" where
  "ensure b = (if b then Some () else None)"

lemma ensure_simps [simp]:
  "ensure True = Some ()"
  "ensure False = None"
  "(ensure b = None) = (\<not> b)"
  "(ensure b = Some u) = b"
  by (simp_all add: ensure_def)

lemma ensure_bind [simp]:
  "((ensure b \<bind> f) = Some r) = (b \<and> f () = Some r)"
  by (cases b) simp_all

lemma bind_Some_iff:
  "((m \<bind> f) = Some r) = (\<exists>x. m = Some x \<and> f x = Some r)"
  by (cases m) auto

section \<open>Byte buffers\<close>

text \<open>An object of C memory seen as its bytes: reads and writes outside it are undefined.\<close>

definition rd :: "'a list \<Rightarrow> nat \<Rightarrow> 'a option" where
  "rd b i = (if i < length b then Some (b ! i) else None)"

definition wr :: "'a list \<Rightarrow> nat \<Rightarrow> 'a \<Rightarrow> 'a list option" where
  "wr b i v = (if i < length b then Some (b[i := v]) else None)"

text \<open>\<open>memcpy\<close> of all of \<open>src\<close> to offset \<open>i\<close> of \<open>b\<close>.\<close>

definition wr_block :: "'a list \<Rightarrow> nat \<Rightarrow> 'a list \<Rightarrow> 'a list option" where
  "wr_block b i src =
     (if i + length src \<le> length b
      then Some (take i b @ src @ drop (i + length src) b) else None)"

text \<open>The \<open>n\<close> bytes of \<open>b\<close> from offset \<open>i\<close>.\<close>

definition rd_block :: "'a list \<Rightarrow> nat \<Rightarrow> nat \<Rightarrow> 'a list option" where
  "rd_block b i n = (if i + n \<le> length b then Some (take n (drop i b)) else None)"

lemma rd_Some [mem_simps]: "i < length b \<Longrightarrow> rd b i = Some (b ! i)"
  by (simp add: rd_def)

lemma wr_Some [mem_simps]: "i < length b \<Longrightarrow> wr b i v = Some (b[i := v])"
  by (simp add: wr_def)

lemma wr_block_Some [mem_simps]:
  "i + length src \<le> length b \<Longrightarrow>
     wr_block b i src = Some (take i b @ src @ drop (i + length src) b)"
  by (simp add: wr_block_def)

lemma rd_block_Some [mem_simps]:
  "i + n \<le> length b \<Longrightarrow> rd_block b i n = Some (take n (drop i b))"
  by (simp add: rd_block_def)

lemma wr_length: "wr b i v = Some b' \<Longrightarrow> length b' = length b"
  by (auto simp: wr_def split: if_splits)

lemma wr_block_length: "wr_block b i src = Some b' \<Longrightarrow> length b' = length b"
  by (auto simp: wr_block_def split: if_splits)

section \<open>Maps with pointers as keys\<close>

definition deref :: "('a \<rightharpoonup> 'b) \<Rightarrow> 'a \<Rightarrow> 'b option" where
  "deref h p = h p"

definition modify :: "('a \<rightharpoonup> 'b) \<Rightarrow> 'a \<Rightarrow> ('b \<Rightarrow> 'b) \<Rightarrow> ('a \<rightharpoonup> 'b) option" where
  "modify h p f = (case h p of None \<Rightarrow> None | Some x \<Rightarrow> Some (h(p \<mapsto> f x)))"

lemma modify_Some [mem_simps]: "h p = Some x \<Longrightarrow> modify h p f = Some (h(p \<mapsto> f x))"
  by (simp add: modify_def)

lemma restrict_map_UNIV [simp]: "m |` UNIV = m"
  by (simp add: restrict_map_def)

lemma modify_dom: "modify h p f = Some h' \<Longrightarrow> dom h' = dom h"
  by (force simp: modify_def split: option.splits if_splits)

section \<open>Bytes read as wider words\<close>

lemma unat_byte_u32 [simp]: "unat (ucast (b :: byte) :: u32) = unat b"
  by transfer simp

lemma of_nat_unat_byte: "of_nat (unat (b :: byte)) = (ucast b :: u32)"
  by simp

lemma unat_byte_less: "unat (b :: byte) < 256"
  using unsigned_less [of b] by simp

section \<open>Decimal numerals, as \<open>printf\<close> writes them\<close>

definition digit_char :: "nat \<Rightarrow> char" where
  "digit_char d = ''0123456789'' ! d"

fun dec_nat :: "nat \<Rightarrow> string" where
  "dec_nat n = (if n < 10 then [digit_char n] else dec_nat (n div 10) @ [digit_char (n mod 10)])"

declare dec_nat.simps [simp del]

definition dec_int :: "int \<Rightarrow> string" where
  "dec_int i = (if i < 0 then CHR ''-'' # dec_nat (nat (- i)) else dec_nat (nat i))"

lemma dec_nat_small: "n < 10 \<Longrightarrow> dec_nat n = [digit_char n]"
  by (simp add: dec_nat.simps)

text \<open>\<open>%02X\<close>, \<open>%02x\<close> of a byte.\<close>

definition hex_upper :: "nat \<Rightarrow> char" where
  "hex_upper d = ''0123456789ABCDEF'' ! d"

definition hex_lower :: "nat \<Rightarrow> char" where
  "hex_lower d = ''0123456789abcdef'' ! d"

definition hex2_upper :: "byte \<Rightarrow> string" where
  "hex2_upper b = [hex_upper (unat b div 16), hex_upper (unat b mod 16)]"

definition hex2_lower :: "byte \<Rightarrow> string" where
  "hex2_lower b = [hex_lower (unat b div 16), hex_lower (unat b mod 16)]"

abbreviation LF :: char where "LF \<equiv> CHR 0x0A"

section \<open>Running a fallible step over a list\<close>

fun run_list :: "('a \<Rightarrow> 's \<Rightarrow> 's option) \<Rightarrow> 'a list \<Rightarrow> 's \<Rightarrow> 's option" where
  "run_list f [] s = Some s"
| "run_list f (x # xs) s = do { s \<leftarrow> f x s; run_list f xs s }"

lemma run_list_append:
  "run_list f (xs @ ys) s = do { s \<leftarrow> run_list f xs s; run_list f ys s }"
proof (induction xs arbitrary: s)
  case (Cons x xs)
  then show ?case by (cases "f x s") simp_all
qed simp

section \<open>Interfaces that keep an invariant\<close>

text \<open>Every call of the list is allowed in the state in which it is made.\<close>

fun allowed_all :: "('c \<Rightarrow> 's \<Rightarrow> bool) \<Rightarrow> ('c \<Rightarrow> 's \<Rightarrow> 's option) \<Rightarrow> 'c list \<Rightarrow> 's \<Rightarrow> bool" where
  "allowed_all allowed call [] s = True"
| "allowed_all allowed call (c # cs) s =
     (allowed c s \<and> (case call c s of None \<Rightarrow> True | Some s' \<Rightarrow> allowed_all allowed call cs s'))"

text \<open>Every call made in a good state in which it is allowed succeeds and leads to a good state.\<close>

locale safe_interface =
  fixes good :: "'s \<Rightarrow> bool"
    and allowed :: "'c \<Rightarrow> 's \<Rightarrow> bool"
    and call :: "'c \<Rightarrow> 's \<Rightarrow> 's option"
  assumes call_good: "good s \<Longrightarrow> allowed c s \<Longrightarrow> \<exists>s'. call c s = Some s' \<and> good s'"
begin

lemma calls_good:
  assumes "good s" and "allowed_all allowed call cs s"
  shows "\<exists>s'. run_list call cs s = Some s' \<and> good s'"
  using assms
proof (induction cs arbitrary: s)
  case (Cons c cs)
  then obtain s' where "call c s = Some s'" "good s'" using call_good [of s c] by auto
  with Cons show ?case by auto
qed simp

end

end
