(* ===== verification/Kernel_List.thy ===== *)
theory Kernel_List
  imports C_Prelude
begin

text \<open>
  The circular doubly linked list of \<open>linux/linux_kernel_list/list.h\<close> and the demonstration in
  \<open>main.c\<close>. A heap maps the address of each \<open>struct list_head\<close> to its two pointers; every
  operation performs the pointer writes of the code in the code's order and is \<open>None\<close> where it
  would dereference an address that holds no node. \<open>ring h hd xs\<close> says that the list with head
  \<open>hd\<close> holds exactly the nodes \<open>xs\<close>, in this order, linked both ways.
\<close>

section \<open>The structure and its operations\<close>

record list_head =
  nxt :: addr
  prv :: addr

type_synonym lheap = "addr \<rightharpoonup> list_head"

definition get_next :: "lheap \<Rightarrow> addr \<Rightarrow> addr option" where
  "get_next h p = map_option nxt (h p)"

definition get_prev :: "lheap \<Rightarrow> addr \<Rightarrow> addr option" where
  "get_prev h p = map_option prv (h p)"

definition set_next :: "lheap \<Rightarrow> addr \<Rightarrow> addr \<Rightarrow> lheap option" where
  "set_next h p v = modify h p (\<lambda>n. n\<lparr>nxt := v\<rparr>)"

definition set_prev :: "lheap \<Rightarrow> addr \<Rightarrow> addr \<Rightarrow> lheap option" where
  "set_prev h p v = modify h p (\<lambda>n. n\<lparr>prv := v\<rparr>)"

definition LIST_HEAD_INIT :: "addr \<Rightarrow> list_head" where
  "LIST_HEAD_INIT name = \<lparr>nxt = name, prv = name\<rparr>"

text \<open>\<open>LIST_HEAD(name)\<close> declares the object and initialises it; the address is the object's.\<close>

definition LIST_HEAD :: "addr \<Rightarrow> lheap \<Rightarrow> lheap" where
  "LIST_HEAD name h = h(name \<mapsto> LIST_HEAD_INIT name)"

definition INIT_LIST_HEAD :: "addr \<Rightarrow> lheap \<Rightarrow> lheap option" where
  "INIT_LIST_HEAD p h = do {
     h \<leftarrow> set_next h p p;
     set_prev h p p
   }"

definition list_add_between :: "addr \<Rightarrow> addr \<Rightarrow> addr \<Rightarrow> lheap \<Rightarrow> lheap option" where
  "list_add_between new prev next h = do {
     h \<leftarrow> set_prev h next new;
     h \<leftarrow> set_next h new next;
     h \<leftarrow> set_prev h new prev;
     set_next h prev new
   }"

definition list_add :: "addr \<Rightarrow> addr \<Rightarrow> lheap \<Rightarrow> lheap option" where
  "list_add new head h = do {
     n \<leftarrow> get_next h head;
     list_add_between new head n h
   }"

definition list_add_tail :: "addr \<Rightarrow> addr \<Rightarrow> lheap \<Rightarrow> lheap option" where
  "list_add_tail new head h = do {
     p \<leftarrow> get_prev h head;
     list_add_between new p head h
   }"

definition list_del_between :: "addr \<Rightarrow> addr \<Rightarrow> lheap \<Rightarrow> lheap option" where
  "list_del_between prev next h = do {
     h \<leftarrow> set_prev h next prev;
     set_next h prev next
   }"

definition list_del :: "addr \<Rightarrow> lheap \<Rightarrow> lheap option" where
  "list_del entry h = do {
     p \<leftarrow> get_prev h entry;
     n \<leftarrow> get_next h entry;
     h \<leftarrow> list_del_between p n h;
     h \<leftarrow> set_next h entry NULL;
     set_prev h entry NULL
   }"

definition list_del_init :: "addr \<Rightarrow> lheap \<Rightarrow> lheap option" where
  "list_del_init entry h = do {
     p \<leftarrow> get_prev h entry;
     n \<leftarrow> get_next h entry;
     h \<leftarrow> list_del_between p n h;
     INIT_LIST_HEAD entry h
   }"

definition list_move :: "addr \<Rightarrow> addr \<Rightarrow> lheap \<Rightarrow> lheap option" where
  "list_move entry head h = do {
     p \<leftarrow> get_prev h entry;
     n \<leftarrow> get_next h entry;
     h \<leftarrow> list_del_between p n h;
     list_add entry head h
   }"

definition list_move_tail :: "addr \<Rightarrow> addr \<Rightarrow> lheap \<Rightarrow> lheap option" where
  "list_move_tail entry head h = do {
     p \<leftarrow> get_prev h entry;
     n \<leftarrow> get_next h entry;
     h \<leftarrow> list_del_between p n h;
     list_add_tail entry head h
   }"

definition list_empty :: "addr \<Rightarrow> lheap \<Rightarrow> bool option" where
  "list_empty head h = map_option (\<lambda>n. n = head) (get_next h head)"

definition list_splice_between :: "addr \<Rightarrow> addr \<Rightarrow> lheap \<Rightarrow> lheap option" where
  "list_splice_between lst head h = do {
     first \<leftarrow> get_next h lst;
     last \<leftarrow> get_prev h lst;
     at \<leftarrow> get_next h head;
     h \<leftarrow> set_prev h first head;
     h \<leftarrow> set_next h head first;
     h \<leftarrow> set_next h last at;
     set_prev h at last
   }"

definition list_splice :: "addr \<Rightarrow> addr \<Rightarrow> lheap \<Rightarrow> lheap option" where
  "list_splice lst head h = do {
     e \<leftarrow> list_empty lst h;
     if \<not> e then list_splice_between lst head h else Some h
   }"

definition list_splice_init :: "addr \<Rightarrow> addr \<Rightarrow> lheap \<Rightarrow> lheap option" where
  "list_splice_init lst head h = do {
     e \<leftarrow> list_empty lst h;
     if \<not> e then do {
       h \<leftarrow> list_splice_between lst head h;
       INIT_LIST_HEAD lst h
     } else Some h
   }"

section \<open>Iteration\<close>

text \<open>
  The iteration macros run a loop body at every node. The body is a state transformer
  \<open>body pos h\<close>; the loop may run for ever on a broken list, so it is a partial function, whose
  value \<open>None\<close> covers both an undefined access and a loop that does not end.
\<close>

partial_function (option) for_each_from ::
  "(addr \<Rightarrow> 'a \<Rightarrow> 'a) \<Rightarrow> addr \<Rightarrow> lheap \<Rightarrow> addr \<Rightarrow> 'a \<Rightarrow> 'a option" where
  "for_each_from body head h pos s =
     (if pos = head then Some s
      else Option.bind (get_next h pos) (\<lambda>n. for_each_from body head h n (body pos s)))"

definition list_for_each :: "(addr \<Rightarrow> 'a \<Rightarrow> 'a) \<Rightarrow> addr \<Rightarrow> lheap \<Rightarrow> 'a \<Rightarrow> 'a option" where
  "list_for_each body head h s = do {
     pos \<leftarrow> get_next h head;
     for_each_from body head h pos s
   }"

partial_function (option) for_each_prev_from ::
  "(addr \<Rightarrow> 'a \<Rightarrow> 'a) \<Rightarrow> addr \<Rightarrow> lheap \<Rightarrow> addr \<Rightarrow> 'a \<Rightarrow> 'a option" where
  "for_each_prev_from body head h pos s =
     (if pos = head then Some s
      else Option.bind (get_prev h pos) (\<lambda>n. for_each_prev_from body head h n (body pos s)))"

definition list_for_each_prev ::
  "(addr \<Rightarrow> 'a \<Rightarrow> 'a) \<Rightarrow> addr \<Rightarrow> lheap \<Rightarrow> 'a \<Rightarrow> 'a option" where
  "list_for_each_prev body head h s = do {
     pos \<leftarrow> get_prev h head;
     for_each_prev_from body head h pos s
   }"

text \<open>In the safe variant the body may change the list: it receives and returns the heap, and
  the successor \<open>n\<close> has been read before it runs.\<close>

partial_function (option) for_each_safe_from ::
  "(addr \<Rightarrow> lheap \<Rightarrow> lheap option) \<Rightarrow> addr \<Rightarrow> addr \<Rightarrow> addr \<Rightarrow> lheap \<Rightarrow> lheap option" where
  "for_each_safe_from body head pos n h =
     (if pos = head then Some h
      else Option.bind (body pos h) (\<lambda>h.
           Option.bind (get_next h n) (\<lambda>n'. for_each_safe_from body head n n' h)))"

definition list_for_each_safe ::
  "(addr \<Rightarrow> lheap \<Rightarrow> lheap option) \<Rightarrow> addr \<Rightarrow> lheap \<Rightarrow> lheap option" where
  "list_for_each_safe body head h = do {
     pos \<leftarrow> get_next h head;
     n \<leftarrow> get_next h pos;
     for_each_safe_from body head pos n h
   }"

text \<open>
  \<open>list_entry\<close> goes from the address of the embedded \<open>struct list_head\<close> to the structure that
  contains it, \<open>off\<close> being the offset of the member.
\<close>

definition list_entry :: "addr \<Rightarrow> nat \<Rightarrow> addr" where
  "list_entry p off = p - off"

partial_function (option) for_each_entry_from ::
  "(addr \<Rightarrow> 'a \<Rightarrow> 'a) \<Rightarrow> addr \<Rightarrow> nat \<Rightarrow> lheap \<Rightarrow> addr \<Rightarrow> 'a \<Rightarrow> 'a option" where
  "for_each_entry_from body head off h pos s =
     (if pos + off = head then Some s
      else Option.bind (get_next h (pos + off))
             (\<lambda>n. for_each_entry_from body head off h (list_entry n off) (body pos s)))"

definition list_for_each_entry ::
  "(addr \<Rightarrow> 'a \<Rightarrow> 'a) \<Rightarrow> addr \<Rightarrow> nat \<Rightarrow> lheap \<Rightarrow> 'a \<Rightarrow> 'a option" where
  "list_for_each_entry body head off h s = do {
     n \<leftarrow> get_next h head;
     for_each_entry_from body head off h (list_entry n off) s
   }"

text \<open>The safe variant for entries: the next entry \<open>n\<close> has been found before the body runs.\<close>

partial_function (option) for_each_entry_safe_from ::
  "(addr \<Rightarrow> lheap \<Rightarrow> lheap option) \<Rightarrow> addr \<Rightarrow> nat \<Rightarrow> addr \<Rightarrow> addr \<Rightarrow> lheap \<Rightarrow> lheap option" where
  "for_each_entry_safe_from body head off pos n h =
     (if pos + off = head then Some h
      else Option.bind (body pos h) (\<lambda>h.
           Option.bind (get_next h (n + off)) (\<lambda>m. for_each_entry_safe_from body head off n (list_entry m off) h)))"

definition list_for_each_entry_safe ::
  "(addr \<Rightarrow> lheap \<Rightarrow> lheap option) \<Rightarrow> addr \<Rightarrow> nat \<Rightarrow> lheap \<Rightarrow> lheap option" where
  "list_for_each_entry_safe body head off h = do {
     p \<leftarrow> get_next h head;
     let pos = list_entry p off;
     n \<leftarrow> get_next h (pos + off);
     for_each_entry_safe_from body head off pos (list_entry n off) h
   }"

section \<open>Pointer updates as total functions on allocated nodes\<close>

definition upd_next :: "lheap \<Rightarrow> addr \<Rightarrow> addr \<Rightarrow> lheap" where
  "upd_next h p v = h(p \<mapsto> (the (h p))\<lparr>nxt := v\<rparr>)"

definition upd_prev :: "lheap \<Rightarrow> addr \<Rightarrow> addr \<Rightarrow> lheap" where
  "upd_prev h p v = h(p \<mapsto> (the (h p))\<lparr>prv := v\<rparr>)"

lemma set_next_dom [mem_simps]: "p \<in> dom h \<Longrightarrow> set_next h p v = Some (upd_next h p v)"
  by (auto simp: set_next_def modify_def upd_next_def)

lemma set_prev_dom [mem_simps]: "p \<in> dom h \<Longrightarrow> set_prev h p v = Some (upd_prev h p v)"
  by (auto simp: set_prev_def modify_def upd_prev_def)

lemma upd_dom [mem_simps]:
  "p \<in> dom h \<Longrightarrow> dom (upd_next h p v) = dom h"
  "p \<in> dom h \<Longrightarrow> dom (upd_prev h p v) = dom h"
  by (auto simp: upd_next_def upd_prev_def)

lemma get_upd [mem_simps]:
  "get_next (upd_next h p v) q = (if q = p then Some v else get_next h q)"
  "get_prev (upd_prev h p v) q = (if q = p then Some v else get_prev h q)"
  "p \<in> dom h \<Longrightarrow> get_next (upd_prev h p v) q = get_next h q"
  "p \<in> dom h \<Longrightarrow> get_prev (upd_next h p v) q = get_prev h q"
  by (auto simp: upd_next_def upd_prev_def get_next_def get_prev_def)

lemma get_next_dom: "get_next h p = Some x \<Longrightarrow> p \<in> dom h"
  by (auto simp: get_next_def)

lemma get_prev_dom: "get_prev h p = Some x \<Longrightarrow> p \<in> dom h"
  by (auto simp: get_prev_def)

section \<open>The abstraction: linked sequences and rings\<close>

text \<open>\<open>linked h ps\<close>: each node of \<open>ps\<close> is linked to the next one, forwards and backwards.\<close>

definition link :: "lheap \<Rightarrow> addr \<Rightarrow> addr \<Rightarrow> bool" where
  "link h p q \<longleftrightarrow> get_next h p = Some q \<and> get_prev h q = Some p"

fun linked :: "lheap \<Rightarrow> addr list \<Rightarrow> bool" where
  "linked h [] \<longleftrightarrow> True"
| "linked h [p] \<longleftrightarrow> True"
| "linked h (p # q # qs) \<longleftrightarrow> link h p q \<and> linked h (q # qs)"

definition ring :: "lheap \<Rightarrow> addr \<Rightarrow> addr list \<Rightarrow> bool" where
  "ring h head xs \<longleftrightarrow> linked h (head # xs @ [head]) \<and> distinct (head # xs)"

lemma linked_append:
  "ps \<noteq> [] \<Longrightarrow> qs \<noteq> [] \<Longrightarrow>
     linked h (ps @ qs) \<longleftrightarrow> linked h ps \<and> link h (last ps) (hd qs) \<and> linked h qs"
proof (induction h ps rule: linked.induct)
  case (2 h p)
  then show ?case by (cases qs) auto
qed auto

lemma linked_Cons: "qs \<noteq> [] \<Longrightarrow> linked h (p # qs) \<longleftrightarrow> link h p (hd qs) \<and> linked h qs"
  by (cases qs) auto

lemma linked_snoc: "ps \<noteq> [] \<Longrightarrow> linked h (ps @ [q]) \<longleftrightarrow> linked h ps \<and> link h (last ps) q"
  by (simp add: linked_append)

lemma linked_mid:
  "ps \<noteq> [] \<Longrightarrow> qs \<noteq> [] \<Longrightarrow> linked h (ps @ e # qs) \<longleftrightarrow>
     linked h ps \<and> link h (last ps) e \<and> link h e (hd qs) \<and> linked h qs"
  by (simp add: linked_append linked_Cons)

lemmas linked_split = linked_append linked_Cons linked_snoc

lemma linked_cong:
  assumes "\<And>p. p \<in> set (butlast ps) \<Longrightarrow> get_next h' p = get_next h p"
    and "\<And>p. p \<in> set (tl ps) \<Longrightarrow> get_prev h' p = get_prev h p"
  shows "linked h' ps = linked h ps"
  using assms by (induction h ps rule: linked.induct) (auto simp: link_def)

lemma link_dom: "link h p q \<Longrightarrow> p \<in> dom h \<and> q \<in> dom h"
  by (auto simp: link_def dest: get_next_dom get_prev_dom)

lemma linked_dom: "linked h ps \<Longrightarrow> 2 \<le> length ps \<Longrightarrow> set ps \<subseteq> dom h"
proof (induction h ps rule: linked.induct)
  case (3 h p q qs)
  then show ?case by (cases qs) (auto dest: link_dom)
qed auto

lemma ring_dom: "ring h head xs \<Longrightarrow> insert head (set xs) \<subseteq> dom h"
  using linked_dom [of h "head # xs @ [head]"] by (auto simp: ring_def)

lemma ring_next: "ring h head xs \<Longrightarrow> get_next h head = Some (hd (xs @ [head]))"
  by (cases xs) (auto simp: ring_def link_def)

lemma ring_prev: "ring h head xs \<Longrightarrow> get_prev h head = Some (last (head # xs))"
  by (auto simp: ring_def linked_split link_def)

text \<open>Around a node of the list.\<close>

lemma ring_at:
  assumes "ring h head (as @ e # bs)"
  shows "get_prev h e = Some (last (head # as)) \<and> get_next h e = Some (hd (bs @ [head]))"
  using assms linked_mid [of "head # as" "bs @ [head]" h e] by (simp add: ring_def link_def)

lemma ring_LIST_HEAD: "ring (LIST_HEAD name h) name []"
  by (simp add: ring_def LIST_HEAD_def LIST_HEAD_INIT_def link_def get_next_def get_prev_def)

text \<open>
  \<open>unchanged S h h'\<close>: only the nodes of \<open>S\<close> may differ. Another list of the heap is untouched
  when none of its nodes is in \<open>S\<close>.
\<close>

definition unchanged :: "addr set \<Rightarrow> lheap \<Rightarrow> lheap \<Rightarrow> bool" where
  "unchanged S h h' \<longleftrightarrow> dom h' = dom h \<and> (\<forall>q. q \<notin> S \<longrightarrow> h' q = h q)"

lemma unchanged_mono: "unchanged S h h' \<Longrightarrow> S \<subseteq> T \<Longrightarrow> unchanged T h h'"
  by (auto simp: unchanged_def)

lemma unchanged_trans: "unchanged S h h' \<Longrightarrow> unchanged T h' h'' \<Longrightarrow> unchanged (S \<union> T) h h''"
  by (simp add: unchanged_def)

lemma unchanged_dom: "unchanged S h h' \<Longrightarrow> dom h' = dom h"
  by (simp add: unchanged_def)

lemma ring_frame:
  assumes "ring h head xs" and "unchanged S h h'" and "S \<inter> insert head (set xs) = {}"
  shows "ring h' head xs"
proof -
  have same: "h' p = h p" if "p \<in> insert head (set xs)" for p
    using that assms(2,3) by (auto simp: unchanged_def)
  have "linked h' (head # xs @ [head]) = linked h (head # xs @ [head])"
    by (rule linked_cong)
       (use same in \<open>auto simp: get_next_def get_prev_def butlast_append split: if_splits dest: in_set_butlastD\<close>)
  with assms(1) show ?thesis by (simp add: ring_def)
qed

lemma INIT_LIST_HEAD_ring:
  assumes "p \<in> dom h"
  obtains h' where "INIT_LIST_HEAD p h = Some h'" and "ring h' p []" and "unchanged {p} h h'"
proof
  let ?h = "upd_prev (upd_next h p p) p p"
  show "INIT_LIST_HEAD p h = Some ?h" and "ring ?h p []"
    using assms by (simp_all add: INIT_LIST_HEAD_def mem_simps ring_def link_def)
  show "unchanged {p} h ?h" using assms by (auto simp: unchanged_def upd_next_def upd_prev_def)
qed

section \<open>Insertion and deletion refine the list operations\<close>

lemma list_add_between_effect:
  assumes "{prev, next, new} \<subseteq> dom h"
  obtains h' where "list_add_between new prev next h = Some h'"
    and "unchanged {prev, next, new} h h'"
    and "\<And>q. get_next h' q = (if q = prev then Some new else if q = new then Some next else get_next h q)"
    and "\<And>q. get_prev h' q = (if q = new then Some prev else if q = next then Some new else get_prev h q)"
proof
  let ?h = "upd_next (upd_prev (upd_next (upd_prev h next new) new next) new prev) prev new"
  show "list_add_between new prev next h = Some ?h"
    using assms by (simp add: list_add_between_def mem_simps)
  show "unchanged {prev, next, new} h ?h"
    using assms by (auto simp: unchanged_def upd_next_def upd_prev_def)
  show "get_next ?h q = (if q = prev then Some new else if q = new then Some next else get_next h q)"
    and "get_prev ?h q = (if q = new then Some prev else if q = next then Some new else get_prev h q)"
    for q using assms by (simp_all add: mem_simps)
qed

lemma ring_insert:
  assumes "ring h head (as @ bs)" and "new \<notin> insert head (set (as @ bs))"
    and nx: "\<And>q. get_next h' q = (if q = last (head # as) then Some new
                 else if q = new then Some (hd (bs @ [head])) else get_next h q)"
    and pv: "\<And>q. get_prev h' q = (if q = new then Some (last (head # as))
                 else if q = hd (bs @ [head]) then Some new else get_prev h q)"
  shows "ring h' head (as @ new # bs)"
proof -
  have L: "linked h (head # as)" "linked h (bs @ [head])"
    using assms(1) linked_append [of "head # as" "bs @ [head]" h] by (simp_all add: ring_def)
  have dist: "distinct (head # as @ bs)" using assms(1) by (simp add: ring_def)
  have "last (head # as) \<notin> set (butlast (head # as))"
    using dist by (metis append_Cons append_butlast_last_id distinct_append
        distinct_butlast list.distinct(1) not_distinct_conv_prefix)
  then have 1: "linked h' (head # as)"
    using dist assms(2)
    by (subst linked_cong [OF _ _, of _ h' h]) (auto simp: L nx pv hd_append dest: in_set_butlastD split: if_splits list.splits)
  have "last (head # as) \<notin> set bs"
    using dist last_in_set [of "head # as"] by (auto simp del: last.simps)
  then have 2: "linked h' (bs @ [head])"
    using dist assms(2)
    by (subst linked_cong [OF _ _, of _ h' h]) (auto simp: L nx pv hd_append butlast_append tl_append split: if_splits list.splits)
  have "link h' (last (head # as)) new" "link h' new (hd (bs @ [head]))"
    using assms(2) by (auto simp: link_def nx pv hd_append)
  with 1 2 show ?thesis
    using dist assms(2) linked_mid [of "head # as" "bs @ [head]" h' new] by (auto simp: ring_def)
qed

lemma list_add_ring:
  assumes "ring h head xs" and "new \<in> dom h" and "new \<notin> insert head (set xs)"
  obtains h' where "list_add new head h = Some h'" and "ring h' head (new # xs)"
    and "unchanged (insert new (insert head (set xs))) h h'"
proof -
  let ?n = "hd (xs @ [head])"
  have n: "?n \<in> insert head (set xs)" by (cases xs) auto
  with assms have "{head, ?n, new} \<subseteq> dom h" using ring_dom [OF assms(1)] by auto
  then obtain h' where h': "list_add_between new head ?n h = Some h'" "unchanged {head, ?n, new} h h'"
    "\<And>q. get_next h' q = (if q = head then Some new else if q = new then Some ?n else get_next h q)"
    "\<And>q. get_prev h' q = (if q = new then Some head else if q = ?n then Some new else get_prev h q)"
    by (rule list_add_between_effect) blast
  have "ring h' head ([] @ new # xs)"
    by (rule ring_insert [where h = h]) (use assms(1,3) in \<open>simp_all add: h'(3,4)\<close>)
  moreover have "list_add new head h = Some h'"
    by (simp add: list_add_def ring_next [OF assms(1)] h'(1))
  moreover have "unchanged (insert new (insert head (set xs))) h h'"
    by (rule unchanged_mono [OF h'(2)]) (use n in auto)
  ultimately show ?thesis using that by auto
qed

lemma list_add_tail_ring:
  assumes "ring h head xs" and "new \<in> dom h" and "new \<notin> insert head (set xs)"
  obtains h' where "list_add_tail new head h = Some h'" and "ring h' head (xs @ [new])"
    and "unchanged (insert new (insert head (set xs))) h h'"
proof -
  let ?p = "last (head # xs)"
  have p: "?p \<in> insert head (set xs)" by (cases xs rule: rev_cases) auto
  with assms have "{?p, head, new} \<subseteq> dom h" using ring_dom [OF assms(1)] by auto
  then obtain h' where h': "list_add_between new ?p head h = Some h'" "unchanged {?p, head, new} h h'"
    "\<And>q. get_next h' q = (if q = ?p then Some new else if q = new then Some head else get_next h q)"
    "\<And>q. get_prev h' q = (if q = new then Some ?p else if q = head then Some new else get_prev h q)"
    by (rule list_add_between_effect) blast
  have "ring h' head (xs @ new # [])"
    by (rule ring_insert [where h = h]) (use assms(1,3) in \<open>simp_all add: h'(3,4)\<close>)
  moreover have "list_add_tail new head h = Some h'"
    using h'(1) by (simp add: list_add_tail_def ring_prev [OF assms(1)] del: last.simps)
  moreover have "unchanged (insert new (insert head (set xs))) h h'"
    by (rule unchanged_mono [OF h'(2)]) (use p in auto)
  ultimately show ?thesis using that by auto
qed

lemma list_del_between_effect:
  assumes "{prev, next} \<subseteq> dom h"
  obtains h' where "list_del_between prev next h = Some h'"
    and "unchanged {prev, next} h h'"
    and "\<And>q. get_next h' q = (if q = prev then Some next else get_next h q)"
    and "\<And>q. get_prev h' q = (if q = next then Some prev else get_prev h q)"
proof
  let ?h = "upd_next (upd_prev h next prev) prev next"
  show "list_del_between prev next h = Some ?h"
    using assms by (simp add: list_del_between_def mem_simps)
  show "unchanged {prev, next} h ?h"
    using assms by (auto simp: unchanged_def upd_next_def upd_prev_def)
  show "get_next ?h q = (if q = prev then Some next else get_next h q)"
    and "get_prev ?h q = (if q = next then Some prev else get_prev h q)"
    for q using assms by (simp_all add: mem_simps)
qed

lemma ring_remove:
  assumes "ring h head (as @ e # bs)"
    and nx: "\<And>q. get_next h' q = (if q = last (head # as) then Some (hd (bs @ [head])) else get_next h q)"
    and pv: "\<And>q. get_prev h' q = (if q = hd (bs @ [head]) then Some (last (head # as)) else get_prev h q)"
  shows "ring h' head (as @ bs)"
proof -
  have L: "linked h (head # as)" "linked h (bs @ [head])"
    using assms(1) linked_mid [of "head # as" "bs @ [head]" h e] by (simp_all add: ring_def)
  have dist: "distinct (head # as @ bs)" using assms(1) by (auto simp: ring_def)
  have "last (head # as) \<notin> set (butlast (head # as))"
    using dist by (metis append_Cons append_butlast_last_id distinct_append
        distinct_butlast list.distinct(1) not_distinct_conv_prefix)
  then have 1: "linked h' (head # as)"
    using dist
    by (subst linked_cong [OF _ _, of _ h' h]) (auto simp: L nx pv hd_append dest: in_set_butlastD split: if_splits list.splits)
  have "last (head # as) \<notin> set bs"
    using dist last_in_set [of "head # as"] by (auto simp del: last.simps)
  then have 2: "linked h' (bs @ [head])"
    using dist
    by (subst linked_cong [OF _ _, of _ h' h]) (auto simp: L nx pv hd_append butlast_append tl_append split: if_splits list.splits)
  have "link h' (last (head # as)) (hd (bs @ [head]))"
    by (auto simp: link_def nx pv)
  with 1 2 show ?thesis
    using dist linked_append [of "head # as" "bs @ [head]" h'] by (auto simp: ring_def)
qed

text \<open>Unlinking an entry of a list, the common core of deletion and of the moves.\<close>

lemma unlink_ring:
  assumes "ring h head (as @ e # bs)"
  obtains p n h' where "get_prev h e = Some p" and "get_next h e = Some n"
    and "list_del_between p n h = Some h'"
    and "ring h' head (as @ bs)" and "unchanged (insert head (set (as @ bs))) h h'"
proof -
  let ?p = "last (head # as)" and ?n = "hd (bs @ [head])"
  have mem: "?p \<in> insert head (set as)" "?n \<in> insert head (set bs)"
    using last_in_set [of "head # as"] hd_in_set [of "bs @ [head]"] by (auto simp del: last.simps)
  with ring_dom [OF assms] have "{?p, ?n} \<subseteq> dom h" by auto
  then obtain h' where h': "list_del_between ?p ?n h = Some h'" "unchanged {?p, ?n} h h'"
    "\<And>q. get_next h' q = (if q = ?p then Some ?n else get_next h q)"
    "\<And>q. get_prev h' q = (if q = ?n then Some ?p else get_prev h q)"
    by (rule list_del_between_effect) blast
  have "ring h' head (as @ bs)"
    by (rule ring_remove [where h = h and e = e]) (use assms in \<open>simp_all add: h'(3,4)\<close>)
  moreover have "unchanged (insert head (set (as @ bs))) h h'"
    by (rule unchanged_mono [OF h'(2)]) (use mem in auto)
  ultimately show ?thesis using that ring_at [OF assms] h'(1) by blast
qed

lemma ring_entry:
  "ring h head (as @ e # bs) \<Longrightarrow> e \<in> dom h \<and> e \<notin> insert head (set (as @ bs))"
  using ring_dom [of h head "as @ e # bs"] by (auto simp: ring_def)

lemma list_del_ring:
  assumes "ring h head (as @ e # bs)"
  obtains h' where "list_del e h = Some h'" and "ring h' head (as @ bs)"
    and "h' e = Some \<lparr>nxt = NULL, prv = NULL\<rparr>"
    and "unchanged (insert head (set (as @ e # bs))) h h'"
proof -
  obtain p n h1 where h1: "get_prev h e = Some p" "get_next h e = Some n"
    "list_del_between p n h = Some h1"
    "ring h1 head (as @ bs)" "unchanged (insert head (set (as @ bs))) h h1"
    by (rule unlink_ring [OF assms])
  have e: "e \<in> dom h1" "e \<notin> insert head (set (as @ bs))"
    using ring_entry [OF assms] unchanged_dom [OF h1(5)] by auto
  let ?h = "upd_prev (upd_next h1 e NULL) e NULL"
  have "list_del e h = Some ?h"
    using e(1) by (simp add: list_del_def h1(1-3) set_next_dom set_prev_dom upd_dom)
  moreover have u: "unchanged {e} h1 ?h"
    using e(1) by (auto simp: unchanged_def upd_next_def upd_prev_def)
  moreover have "ring ?h head (as @ bs)"
    by (rule ring_frame [OF h1(4) u]) (use e(2) in blast)
  moreover have "?h e = Some \<lparr>nxt = NULL, prv = NULL\<rparr>"
    by (simp add: upd_next_def upd_prev_def)
  moreover have "unchanged (insert head (set (as @ e # bs))) h ?h"
    by (rule unchanged_mono [OF unchanged_trans [OF h1(5) u]]) auto
  ultimately show ?thesis using that by blast
qed

lemma list_del_init_ring:
  assumes "ring h head (as @ e # bs)"
  obtains h' where "list_del_init e h = Some h'" and "ring h' head (as @ bs)" and "ring h' e []"
    and "unchanged (insert head (set (as @ e # bs))) h h'"
proof -
  obtain p n h1 where h1: "get_prev h e = Some p" "get_next h e = Some n"
    "list_del_between p n h = Some h1"
    "ring h1 head (as @ bs)" "unchanged (insert head (set (as @ bs))) h h1"
    by (rule unlink_ring [OF assms])
  have e: "e \<in> dom h1" "e \<notin> insert head (set (as @ bs))"
    using ring_entry [OF assms] unchanged_dom [OF h1(5)] by auto
  obtain h2 where h2: "INIT_LIST_HEAD e h1 = Some h2" "ring h2 e []" "unchanged {e} h1 h2"
    by (rule INIT_LIST_HEAD_ring [OF e(1)])
  have "ring h2 head (as @ bs)"
    by (rule ring_frame [OF h1(4) h2(3)]) (use e(2) in blast)
  moreover have "list_del_init e h = Some h2"
    by (simp add: list_del_init_def h1(1-3) h2(1))
  moreover have "unchanged (insert head (set (as @ e # bs))) h h2"
    by (rule unchanged_mono [OF unchanged_trans [OF h1(5) h2(3)]]) auto
  ultimately show ?thesis using that h2(2) by blast
qed

text \<open>Moving an entry to the front, or to the back, of another list of the heap.\<close>

lemma move_unlinked:
  assumes "ring h hd1 (as @ e # bs)" and "ring h hd2 ys"
    and disj: "insert hd1 (set (as @ e # bs)) \<inter> insert hd2 (set ys) = {}"
  obtains p n h1 where "get_prev h e = Some p" and "get_next h e = Some n"
    and "list_del_between p n h = Some h1" and "ring h1 hd1 (as @ bs)" and "ring h1 hd2 ys"
    and "e \<in> dom h1" and "e \<notin> insert hd2 (set ys)"
    and "insert e (insert hd2 (set ys)) \<inter> insert hd1 (set (as @ bs)) = {}"
proof -
  obtain p n h1 where h1: "get_prev h e = Some p" "get_next h e = Some n"
    "list_del_between p n h = Some h1"
    "ring h1 hd1 (as @ bs)" "unchanged (insert hd1 (set (as @ bs))) h h1"
    by (rule unlink_ring [OF assms(1)])
  have "ring h1 hd2 ys"
    by (rule ring_frame [OF assms(2) h1(5)]) (use disj in auto)
  moreover have "e \<in> dom h1" and "e \<notin> insert hd2 (set ys)"
    using ring_entry [OF assms(1)] unchanged_dom [OF h1(5)] disj by auto
  moreover have "insert e (insert hd2 (set ys)) \<inter> insert hd1 (set (as @ bs)) = {}"
    using ring_entry [OF assms(1)] disj by auto
  ultimately show ?thesis using that h1(1-4) by blast
qed

lemma list_move_ring:
  assumes "ring h hd1 (as @ e # bs)" and "ring h hd2 ys"
    and "insert hd1 (set (as @ e # bs)) \<inter> insert hd2 (set ys) = {}"
  obtains h' where "list_move e hd2 h = Some h'" and "ring h' hd1 (as @ bs)" and "ring h' hd2 (e # ys)"
proof -
  obtain p n h1 where h1: "get_prev h e = Some p" "get_next h e = Some n"
    "list_del_between p n h = Some h1" "ring h1 hd1 (as @ bs)" "ring h1 hd2 ys" "e \<in> dom h1"
    "e \<notin> insert hd2 (set ys)" "insert e (insert hd2 (set ys)) \<inter> insert hd1 (set (as @ bs)) = {}"
    by (rule move_unlinked [OF assms])
  obtain h2 where h2: "list_add e hd2 h1 = Some h2" "ring h2 hd2 (e # ys)"
    "unchanged (insert e (insert hd2 (set ys))) h1 h2"
    by (rule list_add_ring [OF h1(5-7)])
  have "ring h2 hd1 (as @ bs)" by (rule ring_frame [OF h1(4) h2(3) h1(8)])
  moreover have "list_move e hd2 h = Some h2" by (simp add: list_move_def h1(1-3) h2(1))
  ultimately show ?thesis using that h2(2) by blast
qed

lemma list_move_tail_ring:
  assumes "ring h hd1 (as @ e # bs)" and "ring h hd2 ys"
    and "insert hd1 (set (as @ e # bs)) \<inter> insert hd2 (set ys) = {}"
  obtains h' where "list_move_tail e hd2 h = Some h'" and "ring h' hd1 (as @ bs)"
    and "ring h' hd2 (ys @ [e])"
proof -
  obtain p n h1 where h1: "get_prev h e = Some p" "get_next h e = Some n"
    "list_del_between p n h = Some h1" "ring h1 hd1 (as @ bs)" "ring h1 hd2 ys" "e \<in> dom h1"
    "e \<notin> insert hd2 (set ys)" "insert e (insert hd2 (set ys)) \<inter> insert hd1 (set (as @ bs)) = {}"
    by (rule move_unlinked [OF assms])
  obtain h2 where h2: "list_add_tail e hd2 h1 = Some h2" "ring h2 hd2 (ys @ [e])"
    "unchanged (insert e (insert hd2 (set ys))) h1 h2"
    by (rule list_add_tail_ring [OF h1(5-7)])
  have "ring h2 hd1 (as @ bs)" by (rule ring_frame [OF h1(4) h2(3) h1(8)])
  moreover have "list_move_tail e hd2 h = Some h2" by (simp add: list_move_tail_def h1(1-3) h2(1))
  ultimately show ?thesis using that h2(2) by blast
qed

section \<open>Splicing\<close>

lemma list_empty_ring: "ring h head xs \<Longrightarrow> list_empty head h = Some (xs = [])"
  using ring_next [of h head xs] by (cases xs) (auto simp: list_empty_def ring_def)

lemma list_splice_between_effect:
  assumes "get_next h l = Some f" and "get_prev h l = Some z" and "get_next h head = Some at"
    and "{f, z, at} \<subseteq> dom h" and "f \<noteq> l" and "z \<noteq> l"
  obtains h' where "list_splice_between l head h = Some h'"
    and "unchanged {f, z, at, head} h h'"
    and "\<And>q. get_next h' q = (if q = z then Some at else if q = head then Some f else get_next h q)"
    and "\<And>q. get_prev h' q = (if q = at then Some z else if q = f then Some head else get_prev h q)"
proof
  have D: "{f, z, at, head} \<subseteq> dom h" using assms(3,4) get_next_dom by auto
  let ?h = "upd_prev (upd_next (upd_next (upd_prev h f head) head f) z at) at z"
  show "list_splice_between l head h = Some ?h"
    using D by (simp add: assms(1-3) list_splice_between_def mem_simps)
  show "unchanged {f, z, at, head} h ?h"
    using D by (auto simp: unchanged_def upd_next_def upd_prev_def)
  show "get_next ?h q = (if q = z then Some at else if q = head then Some f else get_next h q)"
    and "get_prev ?h q = (if q = at then Some z else if q = f then Some head else get_prev h q)" for q
    using D by (simp_all add: mem_simps)
qed

lemma list_splice_between_ring:
  assumes "ring h l xs" and "ring h head ys" and ne: "xs \<noteq> []"
    and disj: "insert l (set xs) \<inter> insert head (set ys) = {}"
  obtains h' where "list_splice_between l head h = Some h'" and "ring h' head (xs @ ys)"
    and "unchanged (insert head (set (xs @ ys))) h h'"
proof -
  let ?f = "hd xs" and ?z = "last xs" and ?at = "hd (ys @ [head])"
  have at: "?at \<in> insert head (set ys)" using hd_in_set [of "ys @ [head]"] by auto
  have fz: "?f \<in> set xs" "?z \<in> set xs" using ne by simp_all
  have fin: "{?f, ?z, ?at} \<subseteq> dom h"
    using ring_dom [OF assms(1)] ring_dom [OF assms(2)] at fz by auto
  have nl: "?f \<noteq> l" "?z \<noteq> l" using assms(1) fz by (auto simp: ring_def)
  have rd: "get_next h l = Some ?f" "get_prev h l = Some ?z" "get_next h head = Some ?at"
    using ring_next [OF assms(1)] ring_prev [OF assms(1)] ring_next [OF assms(2)] ne by simp_all
  obtain h' where h': "list_splice_between l head h = Some h'" "unchanged {?f, ?z, ?at, head} h h'"
    "\<And>q. get_next h' q = (if q = ?z then Some ?at else if q = head then Some ?f else get_next h q)"
    "\<And>q. get_prev h' q = (if q = ?at then Some ?z else if q = ?f then Some head else get_prev h q)"
    using list_splice_between_effect [OF rd fin nl] by blast
  have dx: "distinct xs" and dy: "distinct (head # ys)" and X: "linked h xs" and Y: "linked h (ys @ [head])"
    using assms(1-3) linked_append [of xs "[l]" h] by (auto simp: ring_def linked_Cons)
  have "?z \<notin> set (butlast xs)" "?f \<notin> set (tl xs)"
    using dx ne by (metis append_butlast_last_id distinct_append not_distinct_conv_prefix distinct_butlast)
      (use dx ne in \<open>cases xs; auto\<close>)
  then have 1: "linked h' xs"
    using X disj at by (subst linked_cong [of _ h' h])
      (auto simp: h'(3,4) dest: in_set_butlastD list.set_sel(2) [OF ne])
  have 2: "linked h' (ys @ [head])"
    using Y disj fz dy by (subst linked_cong [of _ h' h])
      (auto simp: h'(3,4) hd_append butlast_append tl_append split: if_splits list.splits)
  have "link h' head ?f" "link h' ?z ?at"
    using disj fz at by (auto simp: link_def h'(3,4))
  with 1 2 have "linked h' (head # xs @ ys @ [head])"
    using ne by (simp add: linked_Cons linked_append [of xs])
  then have "ring h' head (xs @ ys)" using dx dy disj by (auto simp: ring_def)
  moreover have "unchanged (insert head (set (xs @ ys))) h h'"
    by (rule unchanged_mono [OF h'(2)]) (use at fz in auto)
  ultimately show ?thesis using that h'(1) by blast
qed

section \<open>Iteration visits the nodes in order\<close>

lemma for_each_from_fold:
  assumes "linked h (pos # xs @ [head])" and "head \<notin> set (pos # xs)"
  shows "for_each_from body head h pos s = Some (fold body (pos # xs) s)"
  using assms
proof (induction xs arbitrary: pos s)
  case Nil
  then show ?case
    by (simp add: link_def for_each_from.simps [of _ _ _ pos] for_each_from.simps [of _ _ _ head])
next
  case (Cons x xs)
  then show ?case by (simp add: link_def for_each_from.simps [of _ _ _ pos])
qed

lemma for_each_prev_from_fold:
  assumes "linked h (head # xs @ [pos])" and "head \<notin> set (xs @ [pos])"
  shows "for_each_prev_from body head h pos s = Some (fold body (pos # rev xs) s)"
  using assms
proof (induction xs arbitrary: pos s rule: rev_induct)
  case Nil
  then show ?case
    by (simp add: link_def for_each_prev_from.simps [of _ _ _ pos] for_each_prev_from.simps [of _ _ _ head])
next
  case (snoc x xs)
  then have "linked h (head # xs @ [x])" and "get_prev h pos = Some x"
    using linked_append [of "head # xs @ [x]" "[pos]" h] by (simp_all add: link_def)
  with snoc show ?case by (simp add: for_each_prev_from.simps [of _ _ _ pos])
qed

lemma list_for_each_ring: "ring h head xs \<Longrightarrow> list_for_each body head h s = Some (fold body xs s)"
  using ring_next [of h head xs] for_each_from_fold [of h "hd xs" "tl xs" head body s]
  by (cases xs) (auto simp: list_for_each_def ring_def for_each_from.simps [of _ _ _ head])

lemma list_for_each_prev_ring:
  assumes "ring h head xs"
  shows "list_for_each_prev body head h s = Some (fold body (rev xs) s)"
proof (cases xs rule: rev_cases)
  case Nil
  with ring_prev [OF assms] show ?thesis
    by (simp add: list_for_each_prev_def for_each_prev_from.simps [of _ _ _ head])
next
  case (snoc ys y)
  with assms have "linked h (head # ys @ [y])" "head \<notin> set (ys @ [y])"
    using linked_append [of "head # ys @ [y]" "[head]" h] by (auto simp: ring_def)
  from for_each_prev_from_fold [OF this, of body s] show ?thesis
    using ring_prev [OF assms] snoc by (simp add: list_for_each_prev_def)
qed

text \<open>Deleting the current entry, when \<open>P\<close> holds of it, inside the safe iteration.\<close>

definition del_if :: "(addr \<Rightarrow> bool) \<Rightarrow> addr \<Rightarrow> lheap \<Rightarrow> lheap option" where
  "del_if P pos h = (if P pos then list_del pos h else Some h)"

lemma del_if_ring:
  assumes "ring h head (as @ pos # bs)"
  obtains h' where "del_if P pos h = Some h'"
    and "ring h' head ((as @ filter (\<lambda>p. \<not> P p) [pos]) @ bs)"
proof (cases "P pos")
  case True
  obtain h' where "list_del pos h = Some h'" "ring h' head (as @ bs)"
    by (rule list_del_ring [OF assms])
  with True that show ?thesis by (simp add: del_if_def)
next
  case False
  with assms that show ?thesis by (simp add: del_if_def)
qed

lemma for_each_safe_from_filter:
  assumes "ring h head (as @ pos # bs)" and "n = hd (bs @ [head])"
  shows "\<exists>h'. for_each_safe_from (del_if P) head pos n h = Some h'
           \<and> ring h' head (as @ filter (\<lambda>p. \<not> P p) (pos # bs))"
  using assms
proof (induction bs arbitrary: as pos n h)
  case Nil
  have ne: "pos \<noteq> head" using Nil by (auto simp: ring_def)
  obtain h1 where h1: "del_if P pos h = Some h1" "ring h1 head ((as @ filter (\<lambda>p. \<not> P p) [pos]) @ [])"
    by (rule del_if_ring [OF Nil(1)])
  then show ?case
    using ne Nil(2) ring_next [OF h1(2)] for_each_safe_from.simps [of _ head head]
    by (simp add: for_each_safe_from.simps [of _ head pos])
next
  case (Cons b bs)
  have ne: "pos \<noteq> head" using Cons.prems by (auto simp: ring_def)
  obtain h1 where h1: "del_if P pos h = Some h1"
    "ring h1 head ((as @ filter (\<lambda>p. \<not> P p) [pos]) @ b # bs)"
    by (rule del_if_ring [OF Cons.prems(1)])
  obtain h2 where "for_each_safe_from (del_if P) head b (hd (bs @ [head])) h1 = Some h2"
    "ring h2 head ((as @ filter (\<lambda>p. \<not> P p) [pos]) @ filter (\<lambda>p. \<not> P p) (b # bs))"
    using Cons.IH [OF h1(2) refl] by blast
  moreover have "get_next h1 b = Some (hd (bs @ [head]))" using ring_at [OF h1(2)] by simp
  ultimately show ?case
    using ne h1(1) Cons.prems(2)
    by (simp add: for_each_safe_from.simps [of _ head pos] split: if_splits)
qed

lemma list_for_each_safe_filter:
  assumes "ring h head xs"
  shows "\<exists>h'. list_for_each_safe (del_if P) head h = Some h' \<and> ring h' head (filter (\<lambda>p. \<not> P p) xs)"
proof (cases xs)
  case Nil
  with assms ring_next [OF assms] show ?thesis
    by (simp add: list_for_each_safe_def for_each_safe_from.simps [of _ head head])
next
  case (Cons x ys)
  then have r: "ring h head ([] @ x # ys)" using assms by simp
  have "get_next h head = Some x" "get_next h x = Some (hd (ys @ [head]))"
    using ring_next [OF assms] ring_at [OF r] Cons by simp_all
  then show ?thesis
    using for_each_safe_from_filter [OF r refl, of P] Cons by (simp add: list_for_each_safe_def)
qed

text \<open>Iterating over the enclosing structures, whose member sits \<open>off\<close> bytes into them.\<close>

lemma for_each_entry_from_fold:
  assumes "linked h ((pos + off) # xs @ [head])" and "head \<notin> set ((pos + off) # xs)"
    and "\<forall>p \<in> insert head (set xs). off \<le> p"
  shows "for_each_entry_from body head off h pos s
       = Some (fold body (pos # map (\<lambda>p. list_entry p off) xs) s)"
  using assms
proof (induction xs arbitrary: pos s)
  case Nil
  then show ?case
    by (simp add: link_def list_entry_def for_each_entry_from.simps [of _ _ _ _ pos]
        for_each_entry_from.simps [of _ _ _ _ "head - off"])
next
  case (Cons x xs)
  then show ?case
    by (simp add: link_def list_entry_def for_each_entry_from.simps [of _ _ _ _ pos])
qed

lemma list_for_each_entry_ring:
  assumes "ring h head xs" and "\<forall>p \<in> insert head (set xs). off \<le> p"
  shows "list_for_each_entry body head off h s = Some (fold body (map (\<lambda>p. list_entry p off) xs) s)"
proof (cases xs)
  case Nil
  with assms ring_next [OF assms(1)] show ?thesis
    by (simp add: list_for_each_entry_def list_entry_def for_each_entry_from.simps [of _ _ _ _ "head - off"])
next
  case (Cons y ys)
  with assms ring_next [OF assms(1)] for_each_entry_from_fold [of h "y - off" off ys head body s]
  show ?thesis by (simp add: list_for_each_entry_def ring_def list_entry_def)
qed

text \<open>Deleting entries inside the safe iteration over entries is the safe iteration over their nodes.\<close>

lemma for_each_entry_safe_from_filter:
  assumes "ring h head (as @ (pos + off) # bs)" and "n + off = hd (bs @ [head])"
    and "\<forall>p \<in> insert head (set bs). off \<le> p"
  shows "\<exists>h'. for_each_entry_safe_from (\<lambda>e. del_if P (e + off)) head off pos n h = Some h'
           \<and> ring h' head (as @ filter (\<lambda>p. \<not> P p) ((pos + off) # bs))"
  using assms
proof (induction bs arbitrary: as pos n h)
  case Nil
  have ne: "pos + off \<noteq> head" using Nil by (auto simp: ring_def)
  obtain h1 where h1: "del_if P (pos + off) h = Some h1" "ring h1 head ((as @ filter (\<lambda>p. \<not> P p) [pos + off]) @ [])"
    by (rule del_if_ring [OF Nil(1)])
  have end_reached: "for_each_entry_safe_from f head off n m g = Some g" if "n + off = head" for f m g
    using that by (simp add: for_each_entry_safe_from.simps [of _ _ _ n])
  then show ?case
    using ne Nil(2) h1 ring_next [OF h1(2)] by (auto simp: for_each_entry_safe_from.simps [of _ head off pos])
next
  case (Cons b bs)
  have ne: "pos + off \<noteq> head" using Cons.prems by (auto simp: ring_def)
  obtain h1 where h1: "del_if P (pos + off) h = Some h1"
    "ring h1 head ((as @ filter (\<lambda>p. \<not> P p) [pos + off]) @ b # bs)"
    by (rule del_if_ring [OF Cons.prems(1)])
  have n: "n + off = b" using Cons.prems(2) by simp
  let ?m = "list_entry (hd (bs @ [head])) off"
  have m: "?m + off = hd (bs @ [head])" using Cons.prems(3) by (cases bs) (auto simp: list_entry_def)
  obtain h2 where "for_each_entry_safe_from (\<lambda>e. del_if P (e + off)) head off n ?m h1 = Some h2"
    "ring h2 head ((as @ filter (\<lambda>p. \<not> P p) [pos + off]) @ filter (\<lambda>p. \<not> P p) (b # bs))"
    using Cons.IH [OF _ m, of h1 "as @ filter (\<lambda>p. \<not> P p) [pos + off]" n] h1(2) n Cons.prems(3) by auto
  moreover have "get_next h1 b = Some (hd (bs @ [head]))" using ring_at [OF h1(2)] by simp
  ultimately show ?case
    using ne h1(1) n by (simp add: for_each_entry_safe_from.simps [of _ head off pos] split: if_splits)
qed

lemma list_for_each_entry_safe_filter:
  assumes "ring h head xs" and "\<forall>p \<in> insert head (set xs). off \<le> p"
  shows "\<exists>h'. list_for_each_entry_safe (\<lambda>e. del_if P (e + off)) head off h = Some h'
           \<and> ring h' head (filter (\<lambda>p. \<not> P p) xs)"
proof (cases xs)
  case Nil
  with assms ring_next [OF assms(1)] show ?thesis
    by (simp add: list_for_each_entry_safe_def list_entry_def for_each_entry_safe_from.simps [of _ _ _ "head - off"])
next
  case (Cons x ys)
  then have e: "list_entry x off + off = x" using assms(2) by (simp add: list_entry_def)
  have r: "ring h head ([] @ x # ys)" using assms(1) Cons by simp
  have "get_next h head = Some x" "get_next h x = Some (hd (ys @ [head]))"
    using ring_next [OF assms(1)] ring_at [OF r] Cons by simp_all
  moreover have "list_entry (hd (ys @ [head])) off + off = hd (ys @ [head])"
    using assms(2) Cons by (cases ys) (auto simp: list_entry_def)
  ultimately show ?thesis
    using for_each_entry_safe_from_filter [of h head "[]" "list_entry x off" off ys "list_entry (hd (ys @ [head])) off" P] r e assms(2) Cons
    by (simp add: list_for_each_entry_safe_def Let_def)
qed

section \<open>The interface: a list to which nodes are pushed at either end\<close>

text \<open>
  The comments of \<open>list_add\<close> and \<open>list_add_tail\<close> promise a stack and a queue. The contract:
  \<open>content h d xs\<close> says what the list \<open>d\<close> holds, \<open>avail h d xs x\<close> that \<open>x\<close> may be pushed.
\<close>

locale two_ended =
  fixes content :: "'h \<Rightarrow> 'd \<Rightarrow> 'a list \<Rightarrow> bool"
    and avail :: "'h \<Rightarrow> 'd \<Rightarrow> 'a list \<Rightarrow> 'a \<Rightarrow> bool"
    and push_front :: "'a \<Rightarrow> 'd \<Rightarrow> 'h \<Rightarrow> 'h option"
    and push_back :: "'a \<Rightarrow> 'd \<Rightarrow> 'h \<Rightarrow> 'h option"
  assumes at_front: "content h d xs \<Longrightarrow> avail h d xs x \<Longrightarrow>
      \<exists>h'. push_front x d h = Some h' \<and> content h' d (x # xs)
           \<and> (\<forall>y. avail h d xs y \<and> y \<noteq> x \<longrightarrow> avail h' d (x # xs) y)"
    and at_back: "content h d xs \<Longrightarrow> avail h d xs x \<Longrightarrow>
      \<exists>h'. push_back x d h = Some h' \<and> content h' d (xs @ [x])
           \<and> (\<forall>y. avail h d xs y \<and> y \<noteq> x \<longrightarrow> avail h' d (xs @ [x]) y)"
begin

lemma stack_order:
  "content h d xs \<Longrightarrow> distinct ns \<Longrightarrow> \<forall>n \<in> set ns. avail h d xs n \<Longrightarrow>
     \<exists>h'. run_list (\<lambda>n. push_front n d) ns h = Some h' \<and> content h' d (rev ns @ xs)"
proof (induction ns arbitrary: h xs)
  case (Cons n ns)
  then obtain h1 where h1: "push_front n d h = Some h1" "content h1 d (n # xs)"
    "\<forall>y. avail h d xs y \<and> y \<noteq> n \<longrightarrow> avail h1 d (n # xs) y"
    using at_front by (metis list.set_intros(1))
  moreover have "\<forall>y \<in> set ns. avail h1 d (n # xs) y"
    using Cons.prems h1(3) by auto
  ultimately show ?case using Cons.IH [OF h1(2)] Cons.prems(2) by auto
qed simp

lemma queue_order:
  "content h d xs \<Longrightarrow> distinct ns \<Longrightarrow> \<forall>n \<in> set ns. avail h d xs n \<Longrightarrow>
     \<exists>h'. run_list (\<lambda>n. push_back n d) ns h = Some h' \<and> content h' d (xs @ ns)"
proof (induction ns arbitrary: h xs)
  case (Cons n ns)
  then obtain h1 where h1: "push_back n d h = Some h1" "content h1 d (xs @ [n])"
    "\<forall>y. avail h d xs y \<and> y \<noteq> n \<longrightarrow> avail h1 d (xs @ [n]) y"
    using at_back by (metis list.set_intros(1))
  moreover have "\<forall>y \<in> set ns. avail h1 d (xs @ [n]) y"
    using Cons.prems h1(3) by auto
  ultimately show ?case using Cons.IH [OF h1(2)] Cons.prems(2) by auto
qed simp

end

definition pushable :: "lheap \<Rightarrow> addr \<Rightarrow> addr list \<Rightarrow> addr \<Rightarrow> bool" where
  "pushable h head xs x \<longleftrightarrow> x \<in> dom h \<and> x \<notin> insert head (set xs)"

lemma list_add_contract:
  assumes "ring h head xs" and "pushable h head xs x"
  shows "\<exists>h'. list_add x head h = Some h' \<and> ring h' head (x # xs)
           \<and> (\<forall>y. pushable h head xs y \<and> y \<noteq> x \<longrightarrow> pushable h' head (x # xs) y)"
proof -
  obtain h' where "list_add x head h = Some h'" "ring h' head (x # xs)"
    "unchanged (insert x (insert head (set xs))) h h'"
    using list_add_ring [OF assms(1), of x] assms(2) by (auto simp: pushable_def)
  then show ?thesis by (auto simp: pushable_def dest: unchanged_dom)
qed

lemma list_add_tail_contract:
  assumes "ring h head xs" and "pushable h head xs x"
  shows "\<exists>h'. list_add_tail x head h = Some h' \<and> ring h' head (xs @ [x])
           \<and> (\<forall>y. pushable h head xs y \<and> y \<noteq> x \<longrightarrow> pushable h' head (xs @ [x]) y)"
proof -
  obtain h' where "list_add_tail x head h = Some h'" "ring h' head (xs @ [x])"
    "unchanged (insert x (insert head (set xs))) h h'"
    using list_add_tail_ring [OF assms(1), of x] assms(2) by (auto simp: pushable_def)
  then show ?thesis by (auto simp: pushable_def dest: unchanged_dom)
qed

interpretation klist: two_ended ring pushable list_add list_add_tail
  by unfold_locales (use list_add_contract list_add_tail_contract in blast)+

section \<open>Properties of the list\<close>

text \<open>C1. Pushing nodes with \<open>list_add\<close> makes a stack and with \<open>list_add_tail\<close> a queue: from a
  well-linked list, pushing the distinct unused nodes \<open>ns\<close> in turn never dereferences an invalid
  pointer and leaves a well-linked list holding them in reverse order in front of the old contents,
  respectively in order behind them.\<close>

theorem list_push_order:
  assumes "ring h head xs" and "distinct ns" and "\<forall>n \<in> set ns. pushable h head xs n"
  shows "(\<exists>h'. run_list (\<lambda>n. list_add n head) ns h = Some h' \<and> ring h' head (rev ns @ xs))
       \<and> (\<exists>h'. run_list (\<lambda>n. list_add_tail n head) ns h = Some h' \<and> ring h' head (xs @ ns))"
  using klist.stack_order [OF assms] klist.queue_order [OF assms] by blast

definition demo_nodes :: lheap where
  "demo_nodes = LIST_HEAD 1 (LIST_HEAD 2 (LIST_HEAD 3 (LIST_HEAD 4 Map.empty)))"

lemma demo_nodes_dom: "dom demo_nodes = {1, 2, 3, 4}"
  by (auto simp: demo_nodes_def LIST_HEAD_def)

lemma demo_nodes_ring: "ring demo_nodes 1 []" "ring demo_nodes 2 []"
  by (simp_all add: demo_nodes_def ring_LIST_HEAD)
     (simp add: ring_def LIST_HEAD_def LIST_HEAD_INIT_def link_def get_next_def get_prev_def)

theorem list_push_order_witness:
  "\<exists>h'. run_list (\<lambda>n. list_add n 1) [2, 3] demo_nodes = Some h' \<and> ring h' 1 [3, 2]"
  using list_push_order [OF demo_nodes_ring(1), of "[2, 3]"]
  by (simp add: pushable_def demo_nodes_dom del: domIff)

text \<open>C2. Deleting entries during \<open>list_for_each_safe\<close> is sound: whatever entries the body
  chooses to \<open>list_del\<close>, the loop ends without an invalid access, the list then holds exactly the
  kept entries in their order, and both directions of iteration visit exactly them.\<close>

theorem list_del_during_safe_iteration:
  assumes "ring h head xs"
  shows "\<exists>h'. list_for_each_safe (del_if P) head h = Some h'
           \<and> ring h' head (filter (\<lambda>p. \<not> P p) xs)
           \<and> list_for_each (\<lambda>p seen. seen @ [p]) head h' [] = Some (filter (\<lambda>p. \<not> P p) xs)
           \<and> list_for_each_prev (\<lambda>p seen. p # seen) head h' [] = Some (filter (\<lambda>p. \<not> P p) xs)"
proof -
  obtain h' where h': "list_for_each_safe (del_if P) head h = Some h'"
    "ring h' head (filter (\<lambda>p. \<not> P p) xs)"
    using list_for_each_safe_filter [OF assms] by blast
  have snocs: "fold (\<lambda>p seen. seen @ [p]) ys zs = zs @ ys" for ys zs :: "addr list"
    by (induction ys arbitrary: zs) simp_all
  have conses: "fold (\<lambda>p seen. p # seen) (rev ys) zs = ys @ zs" for ys zs :: "addr list"
    by (induction ys arbitrary: zs) simp_all
  show ?thesis
    using h' list_for_each_ring [OF h'(2), of "\<lambda>p seen. seen @ [p]" "[]"]
      list_for_each_prev_ring [OF h'(2), of "\<lambda>p seen. p # seen" "[]"]
    by (simp add: snocs conses)
qed

theorem list_del_during_safe_iteration_witness:
  "\<exists>h h'. ring h 1 [3, 2] \<and> list_for_each_safe (del_if (\<lambda>p. p = 3)) 1 h = Some h' \<and> ring h' 1 [2]"
proof -
  obtain h where "ring h 1 [3, 2]"
    using klist.stack_order [OF demo_nodes_ring(1), of "[2, 3]"]
    by (auto simp: pushable_def demo_nodes_dom simp del: domIff)
  with list_del_during_safe_iteration [OF this, of "\<lambda>p. p = 3"] show ?thesis by auto
qed

text \<open>C3. \<open>list_splice_init\<close> joins two lists that share no node: the entries of the spliced list,
  none or many, end up in order at the front of the other, and the spliced list is left empty and
  well linked; no node outside the two lists is written.\<close>

theorem list_splice_init_joins:
  assumes "ring h l xs" and "ring h head ys" and "insert l (set xs) \<inter> insert head (set ys) = {}"
  shows "\<exists>h'. list_splice_init l head h = Some h' \<and> ring h' head (xs @ ys) \<and> ring h' l []
           \<and> unchanged (insert l (set xs) \<union> insert head (set ys)) h h'"
proof (cases "xs = []")
  case True
  with assms list_empty_ring [OF assms(1)] show ?thesis
    by (simp add: list_splice_init_def unchanged_def)
next
  case False
  obtain h1 where h1: "list_splice_between l head h = Some h1" "ring h1 head (xs @ ys)"
    "unchanged (insert head (set (xs @ ys))) h h1"
    by (rule list_splice_between_ring [OF assms(1,2) False assms(3)])
  have "l \<in> dom h1" using ring_dom [OF assms(1)] unchanged_dom [OF h1(3)] by auto
  then obtain h2 where h2: "INIT_LIST_HEAD l h1 = Some h2" "ring h2 l []" "unchanged {l} h1 h2"
    by (rule INIT_LIST_HEAD_ring)
  have "ring h2 head (xs @ ys)"
    by (rule ring_frame [OF h1(2) h2(3)]) (use assms(1,3) in \<open>auto simp: ring_def\<close>)
  moreover have "unchanged (insert l (set xs) \<union> insert head (set ys)) h h2"
    by (rule unchanged_mono [OF unchanged_trans [OF h1(3) h2(3)]]) auto
  ultimately show ?thesis
    using h1(1) h2(1,2) list_empty_ring [OF assms(1)] False by (simp add: list_splice_init_def)
qed

theorem list_splice_init_joins_witness:
  "\<exists>h h'. ring h 1 [3] \<and> ring h 2 [] \<and> list_splice_init 1 2 h = Some h' \<and> ring h' 2 [3] \<and> ring h' 1 []"
proof -
  obtain h where h: "ring h 1 [3]" "unchanged {3, 1} demo_nodes h"
    using list_add_ring [OF demo_nodes_ring(1), of 3]
    by (auto simp: demo_nodes_dom simp del: domIff)
  then have "ring h 2 []" using ring_frame [OF demo_nodes_ring(2)] by simp
  with h(1) list_splice_init_joins [OF h(1) this] show ?thesis by auto
qed

text \<open>C4. \<open>list_move\<close> and \<open>list_move_tail\<close> transfer one entry between two lists that share no
  node, to the front respectively the back of the destination, and keep both lists well linked.\<close>

theorem list_move_transfers:
  assumes "ring h hd1 (as @ e # bs)" and "ring h hd2 ys"
    and "insert hd1 (set (as @ e # bs)) \<inter> insert hd2 (set ys) = {}"
  shows "(\<exists>h'. list_move e hd2 h = Some h' \<and> ring h' hd1 (as @ bs) \<and> ring h' hd2 (e # ys))
       \<and> (\<exists>h'. list_move_tail e hd2 h = Some h' \<and> ring h' hd1 (as @ bs) \<and> ring h' hd2 (ys @ [e]))"
  by (meson list_move_ring [OF assms] list_move_tail_ring [OF assms])

theorem list_move_transfers_witness:
  "\<exists>h h'. ring h 1 [3] \<and> ring h 2 [] \<and> list_move 3 2 h = Some h' \<and> ring h' 1 [] \<and> ring h' 2 [3]"
proof -
  obtain h where h: "ring h 1 [3]" "unchanged {3, 1} demo_nodes h"
    using list_add_ring [OF demo_nodes_ring(1), of 3]
    by (auto simp: demo_nodes_dom simp del: domIff)
  then have "ring h 2 []" using ring_frame [OF demo_nodes_ring(2)] by simp
  with h(1) list_move_transfers [of h 1 "[]" 3 "[]" 2 "[]"] show ?thesis by auto
qed

end
