(* ===== verification/Kernel_List_Demo.thy ===== *)
theory Kernel_List_Demo
  imports Kernel_List
begin

text \<open>
  The demonstration program of \<open>linux/linux_kernel_list/main.c\<close>: two arrays of ten entries are
  linked into two lists, the first with \<open>list_add\<close>, the second with \<open>list_add_tail\<close>, and printed
  with \<open>list_for_each_entry\<close>. The addresses of the stack objects are parameters; an entry is 24
  bytes (an \<open>int\<close>, padding, two pointers) with its \<open>list\<close> member at offset 8.
\<close>

section \<open>The program\<close>

record demo =
  links :: lheap
  index :: "addr \<rightharpoonup> int"

abbreviation list_off :: nat where "list_off \<equiv> 8"

definition entry_at :: "addr \<Rightarrow> nat \<Rightarrow> addr" where
  "entry_at arr i = arr + 24 * i"

definition node_at :: "addr \<Rightarrow> nat \<Rightarrow> addr" where
  "node_at arr i = entry_at arr i + list_off"

definition demo_step :: "addr \<Rightarrow> addr \<Rightarrow> addr \<Rightarrow> addr \<Rightarrow> nat \<Rightarrow> demo \<Rightarrow> demo option" where
  "demo_step arr arr1 head head1 i s = do {
     let idx = (index s)(entry_at arr i \<mapsto> int i, entry_at arr1 i \<mapsto> int i);
     h \<leftarrow> INIT_LIST_HEAD (node_at arr i) (links s);
     h \<leftarrow> INIT_LIST_HEAD (node_at arr1 i) h;
     h \<leftarrow> list_add (node_at arr i) head h;
     h \<leftarrow> list_add_tail (node_at arr1 i) head1 h;
     Some \<lparr>links = h, index = idx\<rparr>
   }"

definition entry_line :: "int \<Rightarrow> string" where
  "entry_line i = ''index is '' @ dec_int i @ [LF]"

definition print_entry :: "demo \<Rightarrow> addr \<Rightarrow> string option \<Rightarrow> string option" where
  "print_entry s p out = do {
     o' \<leftarrow> out;
     i \<leftarrow> index s p;
     Some (o' @ entry_line i)
   }"

definition print_list :: "demo \<Rightarrow> addr \<Rightarrow> string option" where
  "print_list s head = do {
     r \<leftarrow> list_for_each_entry (print_entry s) head list_off (links s) (Some []);
     r
   }"

text \<open>\<open>h0\<close> is the stack before the run: the arrays and heads exist, their contents are arbitrary.\<close>

definition demo_main :: "addr \<Rightarrow> addr \<Rightarrow> addr \<Rightarrow> addr \<Rightarrow> lheap \<Rightarrow> string option" where
  "demo_main arr arr1 head head1 h0 = do {
     let h = LIST_HEAD head1 (LIST_HEAD head h0);
     s \<leftarrow> run_list (demo_step arr arr1 head head1) [0..<10] \<lparr>links = h, index = Map.empty\<rparr>;
     i3 \<leftarrow> index s (list_entry (node_at arr 3) list_off);
     out \<leftarrow> print_list s head;
     out1 \<leftarrow> print_list s head1;
     Some (''index of list entry 3 is '' @ dec_int i3 @ [LF] @ [LF, LF] @ out @ [LF, LF] @ out1)
   }"

section \<open>Correctness\<close>

definition demo_layout :: "addr \<Rightarrow> addr \<Rightarrow> addr \<Rightarrow> addr \<Rightarrow> lheap \<Rightarrow> bool" where
  "demo_layout arr arr1 head head1 h0 \<longleftrightarrow>
     list_off \<le> head \<and> list_off \<le> head1
     \<and> distinct (head # head1 # map (node_at arr) [0..<10] @ map (node_at arr1) [0..<10])
     \<and> node_at arr ` {..<10} \<union> node_at arr1 ` {..<10} \<subseteq> dom h0"

definition demo_inv :: "addr \<Rightarrow> addr \<Rightarrow> addr \<Rightarrow> addr \<Rightarrow> nat \<Rightarrow> demo \<Rightarrow> bool" where
  "demo_inv arr arr1 head head1 k s \<longleftrightarrow>
     ring (links s) head (rev (map (node_at arr) [0..<k]))
     \<and> ring (links s) head1 (map (node_at arr1) [0..<k])
     \<and> node_at arr ` {..<10} \<union> node_at arr1 ` {..<10} \<subseteq> dom (links s)
     \<and> (\<forall>i < k. index s (entry_at arr i) = Some (int i) \<and> index s (entry_at arr1 i) = Some (int i))"

lemma layout_facts:
  assumes "demo_layout arr arr1 head head1 h0"
  shows "head \<noteq> head1"
    and "i < 10 \<Longrightarrow> node_at arr i \<noteq> head \<and> node_at arr i \<noteq> head1
                   \<and> node_at arr1 i \<noteq> head \<and> node_at arr1 i \<noteq> head1"
    and "i < 10 \<Longrightarrow> j < 10 \<Longrightarrow> node_at arr i \<noteq> node_at arr1 j"
    and "i < 10 \<Longrightarrow> j < 10 \<Longrightarrow> entry_at arr i \<noteq> entry_at arr1 j"
  using assms by (force simp: demo_layout_def node_at_def)+

lemma node_at_eq: "node_at arr i = node_at arr j \<longleftrightarrow> i = j"
  by (simp add: node_at_def entry_at_def)

lemma entry_at_eq: "entry_at arr i = entry_at arr j \<longleftrightarrow> i = j"
  by (simp add: entry_at_def)

text \<open>The four list calls of one round, on any two lists that share no node.\<close>

definition push_both :: "addr \<Rightarrow> addr \<Rightarrow> addr \<Rightarrow> addr \<Rightarrow> lheap \<Rightarrow> lheap option" where
  "push_both a head b head1 h = do {
     h \<leftarrow> INIT_LIST_HEAD a h;
     h \<leftarrow> INIT_LIST_HEAD b h;
     h \<leftarrow> list_add a head h;
     list_add_tail b head1 h
   }"

lemma push_both_rings:
  assumes "ring h head xs" and "ring h head1 ys" and "a \<in> dom h" and "b \<in> dom h"
    and disj: "insert head (set xs) \<inter> insert head1 (set ys) = {}"
    and out: "a \<notin> insert head (set xs)" "a \<notin> insert head1 (set ys)"
      "b \<notin> insert head (set xs)" "b \<notin> insert head1 (set ys)" "a \<noteq> b"
  obtains h' where "push_both a head b head1 h = Some h'"
    and "ring h' head (a # xs)" and "ring h' head1 (ys @ [b])" and "dom h' = dom h"
proof -
  obtain h1 where h1: "INIT_LIST_HEAD a h = Some h1" "unchanged {a} h h1"
    using INIT_LIST_HEAD_ring [OF assms(3)] by blast
  note d1 = unchanged_dom [OF h1(2)]
  have "b \<in> dom h1" using d1 assms(4) by blast
  then obtain h2 where h2: "INIT_LIST_HEAD b h1 = Some h2" "unchanged {b} h1 h2"
    using INIT_LIST_HEAD_ring by blast
  note d2 = unchanged_dom [OF h2(2)]
  have r2: "ring h2 head xs" "ring h2 head1 ys"
    using ring_frame [OF ring_frame [OF assms(1) h1(2)] h2(2)]
      ring_frame [OF ring_frame [OF assms(2) h1(2)] h2(2)] out by blast+
  have "a \<in> dom h2" using d1 d2 assms(3) by blast
  then obtain h3 where h3: "list_add a head h2 = Some h3" "ring h3 head (a # xs)"
    "unchanged (insert a (insert head (set xs))) h2 h3"
    using list_add_ring [OF r2(1) _ out(1)] by blast
  note d3 = unchanged_dom [OF h3(3)]
  have r3: "ring h3 head1 ys" by (rule ring_frame [OF r2(2) h3(3)]) (use disj out in blast)
  have "b \<in> dom h3" using d1 d2 d3 assms(4) by blast
  then obtain h4 where h4: "list_add_tail b head1 h3 = Some h4" "ring h4 head1 (ys @ [b])"
    "unchanged (insert b (insert head1 (set ys))) h3 h4"
    using list_add_tail_ring [OF r3 _ out(4)] by blast
  have "ring h4 head (a # xs)"
    by (rule ring_frame [OF h3(2) h4(3)]) (use disj out in \<open>simp; blast\<close>)
  moreover have "push_both a head b head1 h = Some h4"
    by (simp add: push_both_def h1(1) h2(1) h3(1) h4(1))
  ultimately show ?thesis using that h4(2) d1 d2 d3 unchanged_dom [OF h4(3)] by simp
qed

lemma demo_step_inv:
  assumes L: "demo_layout arr arr1 head head1 h0" and "k < 10"
    and I: "demo_inv arr arr1 head head1 k s"
  shows "\<exists>s'. demo_step arr arr1 head head1 k s = Some s' \<and> demo_inv arr arr1 head head1 (Suc k) s'"
proof -
  let ?a = "node_at arr k" and ?b = "node_at arr1 k"
  let ?xs = "rev (map (node_at arr) [0..<k])" and ?ys = "map (node_at arr1) [0..<k]"
  have d: "node_at arr i \<noteq> head" "node_at arr i \<noteq> head1" "node_at arr1 i \<noteq> head" "node_at arr1 i \<noteq> head1"
    if "i < 10" for i using layout_facts(2) [OF L that] by blast+
  have x: "node_at arr i \<noteq> node_at arr1 j" if "i < 10" "j < 10" for i j
    using layout_facts(3) [OF L that] .
  have lt: "i < 10" if "i < k" for i using that \<open>k < 10\<close> by simp
  have xk: "node_at arr k \<noteq> node_at arr1 i" "node_at arr i \<noteq> node_at arr1 k" if "i < k" for i
    using x lt [OF that] \<open>k < 10\<close> by blast+
  have X: "set ?xs = node_at arr ` {i. i < k}" and Y: "set ?ys = node_at arr1 ` {i. i < k}"
    by auto
  have "?a \<notin> insert head (set ?xs)" "?b \<notin> insert head1 (set ?ys)"
    using d [OF \<open>k < 10\<close>] by (auto simp: node_at_eq)
  moreover have "?a \<notin> insert head1 (set ?ys)" "?b \<notin> insert head (set ?xs)" "?a \<noteq> ?b"
    unfolding X Y using d [OF \<open>k < 10\<close>] x [OF \<open>k < 10\<close> \<open>k < 10\<close>] xk by fastforce+
  moreover have "insert head (set ?xs) \<inter> insert head1 (set ?ys) = {}"
    unfolding X Y using layout_facts(1) [OF L] d [OF lt] x [OF lt lt] by blast
  ultimately have out: "?a \<notin> insert head (set ?xs) \<union> insert head1 (set ?ys)"
    "?b \<notin> insert head (set ?xs) \<union> insert head1 (set ?ys)"
    "insert head (set ?xs) \<inter> insert head1 (set ?ys) = {}" "?a \<noteq> ?b"
    by blast+
  have r0: "ring (links s) head ?xs" "ring (links s) head1 ?ys" "?a \<in> dom (links s)" "?b \<in> dom (links s)"
    using I \<open>k < 10\<close> by (auto simp: demo_inv_def)
  obtain h4 where h4: "push_both ?a head ?b head1 (links s) = Some h4"
    "ring h4 head (?a # ?xs)" "ring h4 head1 (?ys @ [?b])" "dom h4 = dom (links s)"
    by (rule push_both_rings [OF r0 out(3)]) (use out in simp_all)
  have ent: "entry_at arr i \<noteq> entry_at arr1 j" if "i < 10" "j < 10" for i j
    using layout_facts(4) [OF L that] .
  let ?s = "\<lparr>links = h4, index = (index s)(entry_at arr k \<mapsto> int k, entry_at arr1 k \<mapsto> int k)\<rparr>"
  have "demo_step arr arr1 head head1 k s = Some ?s"
    using h4(1) by (auto simp: demo_step_def push_both_def bind_Some_iff)
  moreover have "\<forall>i < Suc k. index ?s (entry_at arr i) = Some (int i) \<and> index ?s (entry_at arr1 i) = Some (int i)"
  proof (intro allI impI)
    fix i assume "i < Suc k"
    then consider "i = k" | "i < k" by linarith
    then show "index ?s (entry_at arr i) = Some (int i) \<and> index ?s (entry_at arr1 i) = Some (int i)"
    proof cases
      case 2
      with ent [of i k] ent [of k i] I \<open>k < 10\<close> show ?thesis
        by (auto simp: demo_inv_def entry_at_eq)
    qed (use ent [of k k] \<open>k < 10\<close> in simp)
  qed
  moreover have "node_at arr ` {..<10} \<union> node_at arr1 ` {..<10} \<subseteq> dom (links ?s)"
    using I h4(4) by (simp add: demo_inv_def)
  ultimately show ?thesis using h4(2,3) by (simp add: demo_inv_def)
qed

lemma demo_fill_inv:
  assumes "demo_layout arr arr1 head head1 h0" and "k \<le> 10" and "demo_inv arr arr1 head head1 0 s"
  shows "\<exists>s'. run_list (demo_step arr arr1 head head1) [0..<k] s = Some s' \<and> demo_inv arr arr1 head head1 k s'"
  using assms(2)
proof (induction k)
  case (Suc k)
  then obtain s' where "run_list (demo_step arr arr1 head head1) [0..<k] s = Some s'"
    "demo_inv arr arr1 head head1 k s'" by auto
  with demo_step_inv [OF assms(1), of k s'] Suc.prems show ?case
    by (auto simp: run_list_append)
qed (use assms(3) in simp)

text \<open>Printing a list of entries whose indices are known.\<close>

lemma print_entries:
  assumes "\<And>i. i \<in> set is \<Longrightarrow> index s (entry_at arr i) = Some (int i)"
  shows "fold (print_entry s) (map (entry_at arr) is) (Some out)
       = Some (out @ concat (map (\<lambda>i. entry_line (int i)) is))"
  using assms by (induction "is" arbitrary: out) (simp_all add: print_entry_def)

lemma print_list_ring:
  assumes "ring (links s) head (map (node_at arr) is)" and "list_off \<le> head"
    and "\<And>i. i \<in> set is \<Longrightarrow> index s (entry_at arr i) = Some (int i)"
  shows "print_list s head = Some (concat (map (\<lambda>i. entry_line (int i)) is))"
proof -
  have "map (\<lambda>p. list_entry p list_off) (map (node_at arr) is) = map (entry_at arr) is"
    by (simp add: list_entry_def node_at_def)
  moreover have "\<forall>p \<in> insert head (set (map (node_at arr) is)). list_off \<le> p"
    using assms(2) by (auto simp: node_at_def)
  ultimately show ?thesis
    using list_for_each_entry_ring [OF assms(1), of list_off "print_entry s" "Some []"]
      print_entries [OF assms(3), of "is" "[]"]
    by (simp only: print_list_def bind.bind_lunit append_Nil)
qed

text \<open>C5. The demonstration program runs without an invalid access and prints 3, then the indices
  of the stack-like list from 9 down to 0, then those of the queue-like list from 0 up to 9,
  wherever the compiler puts its (disjoint) objects and whatever they contained before.\<close>

theorem demo_main_prints:
  assumes "demo_layout arr arr1 head head1 h0"
  shows "demo_main arr arr1 head head1 h0 =
    Some (''index of list entry 3 is 3'' @ [LF, LF, LF]
          @ concat (map (\<lambda>i. entry_line (int i)) (rev [0..<10])) @ [LF, LF]
          @ concat (map (\<lambda>i. entry_line (int i)) [0..<10]))"
proof -
  let ?h = "LIST_HEAD head1 (LIST_HEAD head h0)"
  let ?s0 = "\<lparr>links = ?h, index = Map.empty\<rparr>"
  have ne: "head \<noteq> head1" using layout_facts(1) [OF assms] .
  have "demo_inv arr arr1 head head1 0 ?s0"
    using assms ne ring_LIST_HEAD [of head1]
    by (auto simp: demo_inv_def demo_layout_def)
      (auto simp: ring_def LIST_HEAD_def LIST_HEAD_INIT_def link_def get_next_def get_prev_def)
  then obtain s where s: "run_list (demo_step arr arr1 head head1) [0..<10] ?s0 = Some s"
    "demo_inv arr arr1 head head1 10 s"
    using demo_fill_inv [OF assms, of 10] by blast
  have off: "list_off \<le> head" "list_off \<le> head1" using assms by (auto simp: demo_layout_def)
  have "print_list s head = Some (concat (map (\<lambda>i. entry_line (int i)) (rev [0..<10])))"
    by (rule print_list_ring [OF _ off(1), of _ arr]) (use s(2) in \<open>auto simp: demo_inv_def rev_map\<close>)
  moreover have "print_list s head1 = Some (concat (map (\<lambda>i. entry_line (int i)) [0..<10]))"
    by (rule print_list_ring [OF _ off(2), of _ arr1]) (use s(2) in \<open>auto simp: demo_inv_def\<close>)
  moreover have "index s (list_entry (node_at arr 3) list_off) = Some 3"
    using s(2) by (simp add: demo_inv_def list_entry_def node_at_def)
  moreover have "dec_int 3 = ''3''"
    by (simp add: dec_int_def dec_nat_small digit_char_def)
  ultimately show ?thesis
    by (simp add: demo_main_def Let_def s(1) del: upt_rec_numeral)
qed

theorem demo_main_prints_witness:
  "\<exists>out. demo_main 1000 2000 100 200 (\<lambda>_. Some \<lparr>nxt = 0, prv = 0\<rparr>) = Some out"
proof -
  have "demo_layout 1000 2000 100 200 (\<lambda>_. Some \<lparr>nxt = 0, prv = 0\<rparr>)"
    by (auto simp: demo_layout_def node_at_def entry_at_def distinct_map inj_on_def)
  from demo_main_prints [OF this] show ?thesis by blast
qed

end
