(* ===== verification/C_Blocks.thy ===== *)
theory C_Blocks
  imports C_Prelude
begin

text \<open>
  Dynamic memory as \<open>malloc\<close> and \<open>free\<close> present it: a block is a list of bytes found at an
  address that is never reused; what a new block contains and whether an allocation succeeds is
  decided by the environment (\<open>env_malloc\<close>, indexed by the number of the call and the size). Accesses
  outside a live block, a second \<open>free\<close> and a \<open>free\<close> of a wild pointer are \<open>None\<close>. Programs extend
  the record \<open>mem\<close> with their own variables.
\<close>

section \<open>The allocator\<close>

record mem =
  blocks :: "addr \<rightharpoonup> byte list"
  calls :: nat
  env_malloc :: "nat \<Rightarrow> nat \<Rightarrow> (nat \<Rightarrow> byte) option"

definition malloc :: "nat \<Rightarrow> 'a mem_scheme \<Rightarrow> addr \<times> 'a mem_scheme" where
  "malloc n m =
     (case env_malloc m (calls m) n of
        None \<Rightarrow> (NULL, m\<lparr>calls := Suc (calls m)\<rparr>)
      | Some c \<Rightarrow> (Suc (calls m),
          m\<lparr>blocks := (blocks m)(Suc (calls m) \<mapsto> map c [0..<n]), calls := Suc (calls m)\<rparr>))"

definition free :: "addr \<Rightarrow> 'a mem_scheme \<Rightarrow> 'a mem_scheme option" where
  "free p m =
     (if p = NULL then Some m
      else if blocks m p = None then None
      else Some (m\<lparr>blocks := (blocks m)(p := None)\<rparr>))"

definition ld :: "addr \<Rightarrow> nat \<Rightarrow> 'a mem_scheme \<Rightarrow> byte option" where
  "ld p i m = do { b \<leftarrow> blocks m p; rd b i }"

definition st :: "addr \<Rightarrow> nat \<Rightarrow> byte \<Rightarrow> 'a mem_scheme \<Rightarrow> 'a mem_scheme option" where
  "st p i v m = do { b \<leftarrow> blocks m p; b' \<leftarrow> wr b i v; Some (m\<lparr>blocks := (blocks m)(p \<mapsto> b')\<rparr>) }"

definition ld_block :: "addr \<Rightarrow> nat \<Rightarrow> nat \<Rightarrow> 'a mem_scheme \<Rightarrow> byte list option" where
  "ld_block p i n m = do { b \<leftarrow> blocks m p; rd_block b i n }"

definition st_block :: "addr \<Rightarrow> nat \<Rightarrow> byte list \<Rightarrow> 'a mem_scheme \<Rightarrow> 'a mem_scheme option" where
  "st_block p i src m =
     do { b \<leftarrow> blocks m p; b' \<leftarrow> wr_block b i src; Some (m\<lparr>blocks := (blocks m)(p \<mapsto> b')\<rparr>) }"

section \<open>Well-formed memory\<close>

text \<open>Live blocks have been allocated by an earlier call; so a new block is never a live one.\<close>

definition mem_ok :: "'a mem_scheme \<Rightarrow> bool" where
  "mem_ok m \<longleftrightarrow> (\<forall>p b. blocks m p = Some b \<longrightarrow> 0 < p \<and> p \<le> calls m)"

lemma mem_ok_NULL: "mem_ok m \<Longrightarrow> blocks m NULL = None"
  by (cases "blocks m NULL") (auto simp: mem_ok_def)

lemma mem_ok_fresh: "mem_ok m \<Longrightarrow> blocks m (Suc (calls m)) = None"
  by (cases "blocks m (Suc (calls m))") (auto simp: mem_ok_def)

lemma mem_ok_live:
  "mem_ok m \<Longrightarrow> blocks m p = Some b \<Longrightarrow> p \<noteq> NULL \<and> p \<le> calls m \<and> p \<noteq> Suc (calls m)"
  by (auto simp: mem_ok_def dest: spec [of _ p])

lemma mem_ok_one: "mem_ok (m\<lparr>calls := 1, blocks := [1 \<mapsto> b]\<rparr>)"
  by (simp add: mem_ok_def)

lemma malloc_ok:
  "mem_ok m \<Longrightarrow> malloc n m = (p, m') \<Longrightarrow> mem_ok m'"
  by (auto simp: malloc_def mem_ok_def le_Suc_eq split: option.splits if_splits)

lemma free_ok: "mem_ok m \<Longrightarrow> free p m = Some m' \<Longrightarrow> mem_ok m'"
  by (auto simp: free_def mem_ok_def split: if_splits)

lemma malloc_cases:
  assumes "mem_ok m"
  obtains (fail) "malloc n m = (NULL, m\<lparr>calls := Suc (calls m)\<rparr>)"
  | (ok) p c where "p \<noteq> NULL" "blocks m p = None" "length c = n" "p = Suc (calls m)"
      "malloc n m = (p, m\<lparr>blocks := (blocks m)(p \<mapsto> c), calls := p\<rparr>)"
proof (cases "env_malloc m (calls m) n")
  case None
  then show ?thesis using fail by (simp add: malloc_def)
next
  case (Some c)
  then show ?thesis
    using ok [of "Suc (calls m)" "map c [0..<n]"] mem_ok_fresh [OF assms]
    by (simp add: malloc_def)
qed

lemma ld_Some [mem_simps]: "blocks m p = Some b \<Longrightarrow> i < length b \<Longrightarrow> ld p i m = Some (b ! i)"
  by (simp add: ld_def rd_def)

lemma st_Some [mem_simps]:
  "blocks m p = Some b \<Longrightarrow> i < length b \<Longrightarrow>
     st p i v m = Some (m\<lparr>blocks := (blocks m)(p \<mapsto> b[i := v])\<rparr>)"
  by (simp add: st_def wr_def)

lemma ld_block_Some [mem_simps]:
  "blocks m p = Some b \<Longrightarrow> i + n \<le> length b \<Longrightarrow> ld_block p i n m = Some (take n (drop i b))"
  by (simp add: ld_block_def rd_block_def)

lemma st_block_Some [mem_simps]:
  "blocks m p = Some b \<Longrightarrow> i + length src \<le> length b \<Longrightarrow>
     st_block p i src m =
       Some (m\<lparr>blocks := (blocks m)(p \<mapsto> take i b @ src @ drop (i + length src) b)\<rparr>)"
  by (simp add: st_block_def wr_block_def)

lemma free_Some [mem_simps]:
  "blocks m p = Some b \<Longrightarrow> p \<noteq> NULL \<Longrightarrow> free p m = Some (m\<lparr>blocks := (blocks m)(p := None)\<rparr>)"
  by (simp add: free_def)

lemma free_NULL [mem_simps]: "free NULL m = Some m"
  by (simp add: free_def)

text \<open>Updates of different fields commute; they are brought into one order.\<close>

lemma mem_upd_order [simp]:
  "m\<lparr>blocks := b, calls := c\<rparr> = m\<lparr>calls := c, blocks := b\<rparr>"
  by simp

end
