(* ===== verification/Uart_Packet.thy ===== *)
theory Uart_Packet
  imports C_Blocks
begin

text \<open>
  The packet layer of \<open>linux/uart_communicate_protocol/ser_cmd.c\<close> and \<open>ser_cmd.h\<close>, and the state
  shared by all theories of the protocol. A packet \<open>PKT\<close> is a block of bytes: head (2), length,
  checksum, sequence number, command, data; every field is a byte, so the structure has no padding.
\<close>

section \<open>The program's state\<close>

text \<open>What the code does to the serial device: one \<open>write\<close> call, or a flush after a short one.\<close>

datatype dev_event = TxWrite "byte list" | TxFlush

text \<open>
  The globals of \<open>ser_cmd.c\<close> and \<open>ser_hal.c\<close>, the static variables of \<open>ser_cmd_rcv\<close> (\<open>g_...\<close>), the
  trace of the device, the standard output, and what the \<open>write\<close> system call returns for
  a number of bytes after that many device events (\<open>wr_accept\<close>).
\<close>

record uart = mem +
  send_sn :: byte
  timeout :: u32
  replied :: byte
  replied_pkt :: addr
  g_head :: "byte list"
  g_buf :: addr
  g_ch :: byte
  g_pkt_len :: byte
  g_i :: byte
  dev :: "dev_event list"
  console :: string
  wr_accept :: "nat \<Rightarrow> nat \<Rightarrow> int"

lemma uart_upd_order [simp]:
  "s\<lparr>blocks := b, dev := d\<rparr> = s\<lparr>dev := d, blocks := b\<rparr>"
  "s\<lparr>calls := c, dev := d\<rparr> = s\<lparr>dev := d, calls := c\<rparr>"
  "s\<lparr>blocks := b, console := out\<rparr> = s\<lparr>console := out, blocks := b\<rparr>"
  "s\<lparr>calls := c, console := out\<rparr> = s\<lparr>console := out, calls := c\<rparr>"
  "s\<lparr>dev := d, console := out\<rparr> = s\<lparr>console := out, dev := d\<rparr>"
  by simp_all

text \<open>The values the variables start with.\<close>

definition uart_init :: "(nat \<Rightarrow> nat \<Rightarrow> (nat \<Rightarrow> byte) option) \<Rightarrow> (nat \<Rightarrow> nat \<Rightarrow> int) \<Rightarrow> uart" where
  "uart_init env acc =
     \<lparr>blocks = Map.empty, calls = 0, env_malloc = env, send_sn = 0, timeout = 100, replied = 0,
      replied_pkt = NULL, g_head = [0, 0, 0, 0], g_buf = NULL, g_ch = 0, g_pkt_len = 0, g_i = 0,
      dev = [], console = [], wr_accept = acc\<rparr>"

text \<open>An environment that grants every request with zeroed blocks and writes everything.\<close>

definition uart_calm :: uart where
  "uart_calm = uart_init (\<lambda>_ _. Some (\<lambda>_. 0)) (\<lambda>_ n. int n)"

datatype err_code =
  err_ok | err_err | err_sum | err_fmt | err_ver | err_nomem | err_noans | err_busy | err_notimplement

fun err_byte :: "err_code \<Rightarrow> byte" where
  "err_byte err_ok = 0"
| "err_byte err_err = 1"
| "err_byte err_sum = 2"
| "err_byte err_fmt = 3"
| "err_byte err_ver = 4"
| "err_byte err_nomem = 5"
| "err_byte err_noans = 6"
| "err_byte err_busy = 7"
| "err_byte err_notimplement = 8"

abbreviation (input) HDR_LEN :: nat where "HDR_LEN \<equiv> 6"
abbreviation (input) PKT_SIZE :: nat where "PKT_SIZE \<equiv> 6"
abbreviation (input) PKT_DATA_SIZE :: nat where "PKT_DATA_SIZE \<equiv> 1"
abbreviation (input) REPLY_MASK :: byte where "REPLY_MASK \<equiv> 0x80"

abbreviation (input) off_len :: nat where "off_len \<equiv> 2"
abbreviation (input) off_sum :: nat where "off_sum \<equiv> 3"
abbreviation (input) off_sn :: nat where "off_sn \<equiv> 4"
abbreviation (input) off_cmd :: nat where "off_cmd \<equiv> 5"
abbreviation (input) off_data :: nat where "off_data \<equiv> 6"

text \<open>\<open>_mac_head\<close>: the characters @ and >.\<close>

definition mac_head :: "byte list" where
  "mac_head = [0x40, 0x3E]"

section \<open>Building and checking packets\<close>

fun xor_bytes :: "addr \<Rightarrow> nat \<Rightarrow> 'a mem_scheme \<Rightarrow> byte option" where
  "xor_bytes p 0 m = Some 0"
| "xor_bytes p (Suc n) m = do {
     sum \<leftarrow> xor_bytes p n m;
     b \<leftarrow> ld p n m;
     Some (sum XOR b)
   }"

definition ser_calc_checksum :: "addr \<Rightarrow> 'a mem_scheme \<Rightarrow> byte option" where
  "ser_calc_checksum pkt m = do {
     len \<leftarrow> ld pkt off_len m;
     sum \<leftarrow> xor_bytes pkt (unat len) m;
     cs \<leftarrow> ld pkt off_sum m;
     Some (sum XOR cs)
   }"

definition mac_parse :: "addr \<Rightarrow> 'a mem_scheme \<Rightarrow> err_code option" where
  "mac_parse pkt m = do {
     head \<leftarrow> ld_block pkt 0 2 m;
     if head \<noteq> mac_head then Some err_fmt
     else do {
       sum \<leftarrow> ser_calc_checksum pkt m;
       cs \<leftarrow> ld pkt off_sum m;
       if sum \<noteq> cs then Some err_sum else Some err_ok
     }
   }"

text \<open>
  \<open>pkt_data\<close> is \<open>None\<close> for the null pointer and otherwise the bytes that can be read at it; the
  length field is a byte and takes \<open>HDR_LEN + len\<close> modulo 256.
\<close>

definition build_pkt ::
  "byte \<Rightarrow> byte \<Rightarrow> addr \<Rightarrow> byte list option \<Rightarrow> u32 \<Rightarrow> 'a mem_scheme \<Rightarrow> 'a mem_scheme option" where
  "build_pkt cmd sn pkt pkt_data len m = do {
     m \<leftarrow> st_block pkt 0 mac_head m;
     m \<leftarrow> st pkt off_len (of_nat (HDR_LEN + unat len)) m;
     m \<leftarrow> st pkt off_sn sn m;
     m \<leftarrow> st pkt off_cmd cmd m;
     m \<leftarrow> (case pkt_data of
             None \<Rightarrow> Some m
           | Some src \<Rightarrow> do { bs \<leftarrow> rd_block src 0 (unat len); st_block pkt off_data bs m });
     sum \<leftarrow> ser_calc_checksum pkt m;
     st pkt off_sum sum m
   }"

section \<open>The frame a packet is\<close>

definition xor_list :: "byte list \<Rightarrow> byte" where
  "xor_list bs = foldr (XOR) bs 0"

definition frame :: "byte \<Rightarrow> byte \<Rightarrow> byte list \<Rightarrow> byte list" where
  "frame cmd sn data =
     (let len = of_nat (HDR_LEN + length data)
      in mac_head @ [len, xor_list (mac_head @ [len, sn, cmd] @ data), sn, cmd] @ data)"

lemma xor_list_simps [simp]:
  "xor_list [] = 0"
  "xor_list (b # bs) = b XOR xor_list bs"
  "xor_list (as @ bs) = xor_list as XOR xor_list bs"
proof -
  show "xor_list [] = 0" and "xor_list (b # bs) = b XOR xor_list bs" for b bs
    by (simp_all add: xor_list_def)
  then show "xor_list (as @ bs) = xor_list as XOR xor_list bs"
    by (induction as) (simp_all add: xor.assoc)
qed

lemma xor_bytes_block:
  "blocks m p = Some b \<Longrightarrow> n \<le> length b \<Longrightarrow> xor_bytes p n m = Some (xor_list (take n b))"
  by (induction n) (simp_all add: mem_simps take_Suc_conv_app_nth)

lemma length_frame [simp]: "length (frame cmd sn data) = HDR_LEN + length data"
  by (simp add: frame_def Let_def mac_head_def)

text \<open>The checksum of a block is the exclusive or of its first \<open>len\<close> bytes and of the field.\<close>

lemma ser_calc_checksum_block:
  assumes "blocks m p = Some b" and "HDR_LEN \<le> length b" and "unat (b ! 2) \<le> length b"
  shows "ser_calc_checksum p m = Some (xor_list (take (unat (b ! 2)) b) XOR b ! 3)"
  using assms by (simp add: ser_calc_checksum_def mem_simps xor_bytes_block)

lemma mac_parse_block:
  assumes "blocks m p = Some b" and "HDR_LEN \<le> length b" and "unat (b ! 2) \<le> length b"
  shows "mac_parse p m =
    Some (if take 2 b \<noteq> mac_head then err_fmt
          else if xor_list (take (unat (b ! 2)) b) \<noteq> 0 then err_sum else err_ok)"
proof -
  have "x XOR y \<noteq> y \<longleftrightarrow> x \<noteq> 0" for x y :: byte
    by (metis bit.xor_left_self xor.commute xor.left_neutral xor_self_eq)
  then show ?thesis
    using assms by (simp add: mac_parse_def mem_simps ser_calc_checksum_block)
qed

lemma six_bytes:
  assumes "6 \<le> length b"
  obtains x0 x1 x2 x3 x4 x5 r where "b = x0 # x1 # x2 # x3 # x4 # x5 # r"
  using assms by (auto simp: eval_nat_numeral Suc_le_length_iff)

lemma unat_len_byte:
  assumes "n \<le> 249"
  shows "unat (6 + of_nat n :: byte) = 6 + n"
proof -
  have "unat (of_nat (6 + n) :: byte) = 6 + n"
    using assms by (simp only: unat_of_nat) simp
  then show ?thesis by simp
qed

text \<open>A frame is self-consistent: its bytes cancel, so its checksum verifies.\<close>

lemma xor_frame: "xor_list (frame cmd sn data) = 0"
  by (simp add: frame_def Let_def ac_simps)

lemma frame_nth:
  "frame cmd sn data ! 2 = of_nat (HDR_LEN + length data)"
  "frame cmd sn data ! 3 = xor_list (mac_head @ [of_nat (HDR_LEN + length data), sn, cmd] @ data)"
  "frame cmd sn data ! 4 = sn"
  "frame cmd sn data ! 5 = cmd"
  "take 2 (frame cmd sn data) = mac_head"
  "drop 6 (frame cmd sn data) = data"
  by (simp_all add: frame_def Let_def mac_head_def)

lemma frame_nonempty: "frame cmd sn data \<noteq> []"
  by (simp add: frame_def Let_def mac_head_def)

text \<open>Every block that verifies is the frame of its own fields.\<close>

lemma block_is_frame:
  assumes "HDR_LEN \<le> length b" and "unat (b ! 2) = length b" and "take 2 b = mac_head" and "xor_list b = 0"
  shows "b = frame (b ! 5) (b ! 4) (drop HDR_LEN b)"
proof -
  obtain x0 x1 x2 x3 x4 x5 r where b: "b = x0 # x1 # x2 # x3 # x4 # x5 # r"
    by (rule six_bytes [OF assms(1)])
  have "of_nat (unat x2) = x2" by simp
  then have x2: "x2 = of_nat (length b)" using assms(2) b by (simp only: nth_Cons_0 nth_Cons_Suc numeral_2_eq_2)
  have "x3 = xor_list ([x0, x1, x2, x4, x5] @ r)"
  proof -
    have "x3 XOR xor_list ([x0, x1, x2, x4, x5] @ r) = 0"
      using assms(4) b by (simp add: ac_simps)
    then show ?thesis by (metis bit.xor_left_self xor.right_neutral)
  qed
  with x2 show ?thesis
    using assms(3) b by (simp add: frame_def Let_def mac_head_def)
qed

lemma build_pkt_frame:
  assumes "blocks m p = Some b" and "length b = PKT_SIZE + length data" and "length data \<le> 249"
    and "unat len = length data"
    and src: "(src = None \<and> data = []) \<or> src = Some (data @ extra)"
  shows "build_pkt cmd sn p src len m = Some (m\<lparr>blocks := (blocks m)(p \<mapsto> frame cmd sn data)\<rparr>)"
proof -
  obtain x0 x1 x2 x3 x4 x5 r where b: "b = x0 # x1 # x2 # x3 # x4 # x5 # r"
    by (rule six_bytes [of b]) (use assms(2) in auto)
  with assms(2) have r: "length r = length data" by simp
  let ?len = "of_nat (HDR_LEN + length data) :: byte"
  let ?b = "mac_head @ [?len, x3, sn, cmd] @ data"
  have L: "unat ?len = length ?b" using unat_len_byte [OF assms(3)] by (simp add: mac_head_def)
  have cs: "ser_calc_checksum p (m\<lparr>blocks := (blocks m)(p \<mapsto> ?b)\<rparr>)
      = Some (xor_list (mac_head @ [?len, sn, cmd] @ data))"
    using L ser_calc_checksum_block [of "m\<lparr>blocks := (blocks m)(p \<mapsto> ?b)\<rparr>" p ?b]
    by (simp add: mac_head_def xor.assoc) (simp add: ac_simps)
  have body: "(case src of None \<Rightarrow> Some m' | Some src \<Rightarrow>
        do { bs \<leftarrow> rd_block src 0 (unat len); st_block p off_data bs m' })
      = Some (m\<lparr>blocks := (blocks m)(p \<mapsto> ?b)\<rparr>)"
    if "m' = m\<lparr>blocks := (blocks m)(p \<mapsto> [0x40, 0x3E, ?len, x3, sn, cmd] @ r)\<rparr>" for m'
    using src r assms(4) that
    by (auto simp: mem_simps mac_head_def split: if_splits)
  show ?thesis
    using assms(1,4) body cs
    by (simp add: build_pkt_def b mem_simps mac_head_def frame_def Let_def)
qed

lemma mac_parse_frame:
  assumes "blocks m p = Some (frame cmd sn data)" and "length data \<le> 249"
  shows "mac_parse p m = Some err_ok"
  using assms mac_parse_block [OF assms(1)] unat_len_byte [OF assms(2)]
  by (simp add: frame_nth xor_frame)

lemma xor_list_update:
  "i < length bs \<Longrightarrow> xor_list (bs[i := v]) = xor_list bs XOR (bs ! i XOR v)"
proof (induction bs arbitrary: i)
  case (Cons b bs)
  then show ?case by (cases i) (simp_all add: ac_simps)
qed simp

section \<open>Properties of the packet layer\<close>

text \<open>C11. A packet built by \<open>_build_pkt\<close> in a block of the right size carries the header
  characters, its length, the sequence number, the command and the data unchanged, whatever the
  fresh block contained, and \<open>_mac_parse\<close> accepts it; nothing else in memory changes. The payload is
  at most 249 bytes, the largest whose packet length still fits the length byte. The format is the one of the code
  (\<open>MAC_HDR\<close> in \<open>ser_cmd.h\<close>): one length byte, which counts the whole packet. The protocol's README describes another
  one, with a length of two bytes, big endian, that counts the data.\<close>

theorem build_pkt_then_mac_parse:
  assumes "blocks m p = Some b" and "length b = PKT_SIZE + length data" and "length data \<le> 249"
    and "unat len = length data"
  shows "\<exists>m'. build_pkt cmd sn p (Some (data @ extra)) len m = Some m'
           \<and> (\<exists>cs. blocks m' p = Some (mac_head @ [of_nat (HDR_LEN + length data), cs, sn, cmd] @ data))
           \<and> (\<forall>q. q \<noteq> p \<longrightarrow> blocks m' q = blocks m q)
           \<and> mac_parse p m' = Some err_ok"
proof -
  let ?m = "m\<lparr>blocks := (blocks m)(p \<mapsto> frame cmd sn data)\<rparr>"
  have "build_pkt cmd sn p (Some (data @ extra)) len m = Some ?m"
    by (rule build_pkt_frame [OF assms, where extra = extra]) simp
  moreover have "mac_parse p ?m = Some err_ok"
    by (rule mac_parse_frame [OF _ assms(3)]) simp
  ultimately show ?thesis by (auto simp: frame_def Let_def)
qed

theorem build_pkt_then_mac_parse_witness:
  "\<exists>m'. build_pkt 0x61 7 1 (Some [0xAA, 0xBB]) 2
          \<lparr>blocks = [1 \<mapsto> [9, 9, 9, 9, 9, 9, 9, 9]], calls = 1, env_malloc = (\<lambda>_ _. None)\<rparr> = Some m'
     \<and> mac_parse 1 m' = Some err_ok"
  using build_pkt_then_mac_parse
    [of "\<lparr>blocks = [1 \<mapsto> [9, 9, 9, 9, 9, 9, 9, 9]], calls = 1, env_malloc = (\<lambda>_ _. None)\<rparr>" 1
        "[9, 9, 9, 9, 9, 9, 9, 9]" "[0xAA, 0xBB]" 2 "0x61" 7 "[]"]
  by auto

text \<open>C12. Every corruption of a single byte of a received packet, other than its length byte, is
  detected: \<open>_mac_parse\<close> reports a format error for the two header characters and a checksum error
  for any other byte.\<close>

theorem corrupted_byte_rejected:
  assumes "blocks m p = Some ((frame cmd sn data)[i := v])" and "length data \<le> 249"
    and "i < HDR_LEN + length data" and "i \<noteq> 2" and "v \<noteq> frame cmd sn data ! i"
  shows "mac_parse p m = Some (if i < 2 then err_fmt else err_sum)"
proof -
  let ?f = "frame cmd sn data" and ?b = "(frame cmd sn data)[i := v]"
  have len: "unat (?b ! 2) = length ?b"
    using assms(2,4) unat_len_byte [OF assms(2)] by (simp add: frame_nth)
  have diff: "xor_list ?b \<noteq> 0"
    using assms(3,5) by (simp add: xor_list_update xor_frame)
      (metis xor.right_neutral bit.xor_left_self)
  have head: "take 2 ?b = mac_head \<longleftrightarrow> 2 \<le> i"
  proof (cases "2 \<le> i")
    case False
    then have "take 2 ?b ! i = v" and "mac_head ! i = ?f ! i"
      using assms(3) nth_take [of i 2 ?f] by (simp_all add: frame_nth)
    with False assms(5) show ?thesis by metis
  qed (simp add: frame_nth)
  show ?thesis
    using mac_parse_block [OF assms(1)] len diff head by auto
qed

theorem corrupted_byte_rejected_witness:
  "mac_parse 1 \<lparr>blocks = [1 \<mapsto> (frame 0x61 7 [0xAA, 0xBB])[7 := 0xBA]], calls = 1,
                env_malloc = (\<lambda>_ _. None)\<rparr> = Some err_sum"
  using corrupted_byte_rejected
    [of "\<lparr>blocks = [1 \<mapsto> (frame 0x61 7 [0xAA, 0xBB])[7 := 0xBA]], calls = 1, env_malloc = (\<lambda>_ _. None)\<rparr>"
        1 "0x61" 7 "[0xAA, 0xBB]" 7 "0xBA"]
  by (simp add: frame_def Let_def mac_head_def)

end
