(* ===== verification/Uart_Hal.thy ===== *)
theory Uart_Hal
  imports Uart_Packet
begin

text \<open>
  The hardware layer of the protocol (\<open>ser_hal.c\<close>) and the packet dump (\<open>debug.c\<close>): allocation,
  the write to the serial device with its flush after a short write, the blocking read, and the
  one-place mailbox through which the receiving thread hands a reply to the sending one. Opening
  and configuring the device (\<open>init_serial\<close>, \<open>ser_hal_init\<close>) is in \<open>Uart_Main\<close>.
\<close>

section \<open>Memory and output\<close>

definition ser_hal_malloc :: "u32 \<Rightarrow> uart \<Rightarrow> addr \<times> uart" where
  "ser_hal_malloc sz s = malloc (unat sz) s"

definition ser_hal_free :: "addr \<Rightarrow> uart \<Rightarrow> uart option" where
  "ser_hal_free ptr s = free ptr s"

definition ser_hal_write :: "addr \<Rightarrow> u32 \<Rightarrow> uart \<Rightarrow> uart option" where
  "ser_hal_write buf len s = do {
     bs \<leftarrow> ld_block buf 0 (unat len) s;
     let write_len = wr_accept s (length (dev s)) (unat len);
     let s = s\<lparr>dev := dev s @ [TxWrite (take (nat write_len) bs)]\<rparr>;
     Some (if word_of_int write_len = len then s else s\<lparr>dev := dev s @ [TxFlush]\<rparr>)
   }"

section \<open>Input\<close>

text \<open>One attempt of \<open>ser_hal_read\<close> to get a byte: \<open>select\<close> or \<open>read\<close> fails, or a byte arrives.\<close>

datatype rx_event = RxFail | RxByte byte

text \<open>\<open>None\<close>: the call is still waiting when the events are used up.\<close>

fun ser_hal_read :: "nat \<Rightarrow> rx_event list \<Rightarrow> (byte list \<times> rx_event list) option" where
  "ser_hal_read 0 evs = Some ([], evs)"
| "ser_hal_read (Suc n) [] = None"
| "ser_hal_read (Suc n) (RxFail # evs) = ser_hal_read (Suc n) evs"
| "ser_hal_read (Suc n) (RxByte b # evs) =
     map_option (\<lambda>(bs, rest). (b # bs, rest)) (ser_hal_read n evs)"

fun rx_bytes :: "rx_event list \<Rightarrow> byte list" where
  "rx_bytes [] = []"
| "rx_bytes (RxFail # evs) = rx_bytes evs"
| "rx_bytes (RxByte b # evs) = b # rx_bytes evs"

lemma ser_hal_read_bytes:
  "ser_hal_read n evs = Some (bs, rest) \<Longrightarrow> length bs = n \<and> rx_bytes evs = bs @ rx_bytes rest"
  by (induction n evs arbitrary: bs rest rule: ser_hal_read.induct) auto

lemma ser_hal_read_shrinks:
  "ser_hal_read (Suc n) evs = Some (bs, rest) \<Longrightarrow> length rest < length evs"
proof (induction "Suc n" evs arbitrary: n bs rest rule: ser_hal_read.induct)
  case (4 n b evs)
  then show ?case by (cases n) (auto intro: less_SucI)
qed auto

lemma ser_hal_read_waits: "ser_hal_read (Suc 0) evs = None \<longleftrightarrow> rx_bytes evs = []"
  by (induction "Suc 0" evs rule: ser_hal_read.induct) auto

section \<open>Dumping a packet\<close>

fun dump_bytes :: "nat \<Rightarrow> byte list \<Rightarrow> string" where
  "dump_bytes i [] = []"
| "dump_bytes i (b # bs) =
     hex2_upper b @ '' '' @ (if i mod 8 = 7 then '' '' else [])
       @ (if i mod 16 = 15 then [LF] else []) @ dump_bytes (Suc i) bs"

definition dump_text :: "byte list \<Rightarrow> string" where
  "dump_text bs = ''************************************************'' @ [LF]
     @ dump_bytes 0 bs @ [LF]"

text \<open>The macro \<open>_dump\<close> prints the place of the call first.\<close>

definition dump :: "string \<Rightarrow> nat \<Rightarrow> addr \<Rightarrow> byte \<Rightarrow> uart \<Rightarrow> uart option" where
  "dump file line buf len s = do {
     bs \<leftarrow> ld_block buf 0 (unat len) s;
     Some (s\<lparr>console := console s @ file @ '' '' @ dec_nat line @ [LF] @ dump_text bs\<rparr>)
   }"

section \<open>The mailbox\<close>

datatype 'a progress = Waiting | Returned 'a

definition ser_hal_tellsend :: "addr \<Rightarrow> uart \<Rightarrow> err_code \<times> uart" where
  "ser_hal_tellsend pkt s = (err_ok, s\<lparr>replied_pkt := pkt, replied := 1\<rparr>)"

text \<open>
  \<open>want\<close> says whether the caller passed a place for the reply. While nothing has been posted the
  loop goes on: the result is \<open>Waiting\<close>. The sequence number and the timeout are not used.
\<close>

definition ser_hal_rcvreply ::
  "bool \<Rightarrow> byte \<Rightarrow> u32 \<Rightarrow> uart \<Rightarrow> (err_code \<times> addr \<times> uart) progress option" where
  "ser_hal_rcvreply want sn tmo s =
     (if replied s = 0 then Some Waiting
      else do {
        let s = s\<lparr>replied := 0\<rparr>;
        len \<leftarrow> ld (replied_pkt s) off_len s;
        s \<leftarrow> dump ''ser_hal.c'' 155 (replied_pkt s) len s;
        if \<not> want then do {
          s \<leftarrow> ser_hal_free (replied_pkt s) s;
          Some (Returned (err_ok, NULL, s))
        } else Some (Returned (err_ok, replied_pkt s, s))
      })"

end
