(* ===== verification/Uart_Commands.thy ===== *)
theory Uart_Commands
  imports Uart_Hal
begin

text \<open>
  The command handlers (\<open>ser_handler.c\<close>) and the operations of \<open>ser_cmd.c\<close> that build and send
  packets: the handler table and its search, replying, sending a request, dispatching a received
  one. A call through a null function pointer is \<open>None\<close>.
\<close>

section \<open>Handlers\<close>

datatype cmd_func = Discover | Send_05 | Echo_back | Notimplement

definition bytes_of :: "string \<Rightarrow> byte list" where
  "bytes_of cs = map (\<lambda>c. of_nat (of_char c)) cs"

text \<open>Each handler returns the error code and what it stored in \<open>*pkt\<close>, \<open>NULL\<close> for nothing. The
  input is \<open>len\<close> bytes at offset \<open>off_data\<close> of the packet \<open>input\<close>.\<close>

definition reply_text :: "string \<Rightarrow> uart \<Rightarrow> ((err_code \<times> addr) \<times> uart) option" where
  "reply_text t s =
     (let (p, s) = ser_hal_malloc (of_nat PKT_DATA_SIZE + 20) s
      in if p = NULL then Some ((err_nomem, NULL), s)
         else do {
           s \<leftarrow> st p 0 (of_nat (length t)) s;
           s \<leftarrow> st_block p 1 (bytes_of t @ [0]) s;
           Some ((err_ok, p), s)
         })"

definition ser_cmd_discover :: "addr \<Rightarrow> u32 \<Rightarrow> uart \<Rightarrow> ((err_code \<times> addr) \<times> uart) option" where
  "ser_cmd_discover input len s = reply_text ''discover'' s"

definition ser_cmd_send_05 :: "addr \<Rightarrow> u32 \<Rightarrow> uart \<Rightarrow> ((err_code \<times> addr) \<times> uart) option" where
  "ser_cmd_send_05 input len s =
     (let (p, s) = ser_hal_malloc (of_nat PKT_DATA_SIZE + 1) s
      in if p = NULL then Some ((err_nomem, NULL), s)
         else do {
           s \<leftarrow> st p 0 1 s;
           s \<leftarrow> st p 1 5 s;
           Some ((err_ok, p), s)
         })"

definition ser_cmd_notimplement :: "addr \<Rightarrow> u32 \<Rightarrow> uart \<Rightarrow> ((err_code \<times> addr) \<times> uart) option" where
  "ser_cmd_notimplement input len s = reply_text ''notimplement'' s"

definition ser_cmd_echo_back :: "addr \<Rightarrow> u32 \<Rightarrow> uart \<Rightarrow> ((err_code \<times> addr) \<times> uart) option" where
  "ser_cmd_echo_back input len s =
     (let (p, s) = ser_hal_malloc (of_nat PKT_DATA_SIZE + len) s
      in if p = NULL then Some ((err_nomem, NULL), s)
         else do {
           s \<leftarrow> st p 0 (ucast len) s;
           bs \<leftarrow> ld_block input off_data (unat len) s;
           s \<leftarrow> st_block p 1 bs s;
           Some ((err_ok, p), s)
         })"

fun call_handler :: "cmd_func \<Rightarrow> addr \<Rightarrow> u32 \<Rightarrow> uart \<Rightarrow> ((err_code \<times> addr) \<times> uart) option" where
  "call_handler Discover = ser_cmd_discover"
| "call_handler Send_05 = ser_cmd_send_05"
| "call_handler Echo_back = ser_cmd_echo_back"
| "call_handler Notimplement = ser_cmd_notimplement"

type_synonym cmd_map = "(byte \<times> cmd_func option) list"

definition ser_rcvcmd_funcs :: cmd_map where
  "ser_rcvcmd_funcs =
     [(0x01, Some Discover), (0x02, Some Send_05), (0x61, Some Echo_back),
      (0x7f, Some Notimplement), (0x00, None)]"

definition cmd_np_index :: nat where
  "cmd_np_index = length ser_rcvcmd_funcs - 2"

text \<open>\<open>_find_handler\<close>: \<open>- 1\<close> when the end mark comes first; running off the table is \<open>None\<close>.\<close>

fun find_handler_from :: "cmd_map \<Rightarrow> byte \<Rightarrow> int \<Rightarrow> int option" where
  "find_handler_from [] cmd i = None"
| "find_handler_from ((c, f) # rest) cmd i =
     (if c = cmd then Some i
      else if c = 0 \<and> f = None then Some (- 1)
      else find_handler_from rest cmd (i + 1))"

definition find_handler :: "cmd_map \<Rightarrow> byte \<Rightarrow> int option" where
  "find_handler fmap cmd = find_handler_from fmap cmd 0"

section \<open>Replying and sending\<close>

definition ser_cmd_settimeout :: "u32 \<Rightarrow> uart \<Rightarrow> uart" where
  "ser_cmd_settimeout t s = s\<lparr>timeout := t\<rparr>"

definition ser_cmd_reply ::
  "addr \<Rightarrow> byte \<Rightarrow> byte list option \<Rightarrow> u32 \<Rightarrow> uart \<Rightarrow> (err_code \<times> uart) option" where
  "ser_cmd_reply pkt cmd pkt_data len s =
     (if pkt = NULL then Some (err_err, s)
      else let (new_pkt, s) = ser_hal_malloc (of_nat PKT_SIZE + len) s
        in if new_pkt = NULL then Some (err_nomem, s)
           else do {
             sn \<leftarrow> ld pkt off_sn s;
             s \<leftarrow> build_pkt cmd sn new_pkt pkt_data len s;
             n \<leftarrow> ld new_pkt off_len s;
             s \<leftarrow> ser_hal_write new_pkt (ucast n) s;
             s \<leftarrow> ser_hal_free new_pkt s;
             Some (err_ok, s)
           })"

text \<open>
  \<open>ser_cmd_send\<close> up to the wait for the reply, and from there on. \<open>junk\<close> is what the uninitialised
  variable \<open>ret_res\<close> happens to hold.
\<close>

definition ser_cmd_send_begin ::
  "byte \<Rightarrow> byte list option \<Rightarrow> u32 \<Rightarrow> uart \<Rightarrow> (addr \<times> uart) option" where
  "ser_cmd_send_begin cmd pkt_data len s =
     (let (pkt, s) = ser_hal_malloc (of_nat PKT_SIZE + len) s
      in if pkt = NULL then Some (NULL, s)
         else do {
           s \<leftarrow> build_pkt cmd (send_sn s) pkt pkt_data len s;
           let s = s\<lparr>send_sn := send_sn s + 1\<rparr>;
           s \<leftarrow> ser_hal_write pkt (of_nat PKT_SIZE + len) s;
           Some (pkt, s)
         })"

definition ser_cmd_send_end ::
  "addr \<Rightarrow> bool \<Rightarrow> err_code \<Rightarrow> uart \<Rightarrow> (err_code \<times> addr \<times> uart) progress option" where
  "ser_cmd_send_end pkt want junk s = do {
     sn \<leftarrow> ld pkt off_sn s;
     r \<leftarrow> ser_hal_rcvreply want sn (timeout s) s;
     case r of
       Waiting \<Rightarrow> Some Waiting
     | Returned (res, reply, s) \<Rightarrow> do {
         let ret_res = (if res \<noteq> err_ok then res else junk);
         s \<leftarrow> ser_hal_free pkt s;
         Some (Returned (ret_res, reply, s))
       }
   }"

definition ser_cmd_send ::
  "byte \<Rightarrow> byte list option \<Rightarrow> u32 \<Rightarrow> bool \<Rightarrow> err_code \<Rightarrow> uart
     \<Rightarrow> (err_code \<times> addr \<times> uart) progress option" where
  "ser_cmd_send cmd pkt_data len want junk s = do {
     (pkt, s) \<leftarrow> ser_cmd_send_begin cmd pkt_data len s;
     if pkt = NULL then Some (Returned (err_nomem, NULL, s))
     else ser_cmd_send_end pkt want junk s
   }"

section \<open>Dispatching a received packet\<close>

definition ser_cmd_dealcmd :: "addr \<Rightarrow> uart \<Rightarrow> (err_code \<times> uart) option" where
  "ser_cmd_dealcmd pkt s =
     (if pkt = NULL then Some (err_err, s)
      else do {
        len \<leftarrow> ld pkt off_len s;
        s \<leftarrow> dump ''ser_cmd.c'' 255 pkt len s;
        cmd \<leftarrow> ld pkt off_cmd s;
        found \<leftarrow> find_handler ser_rcvcmd_funcs cmd;
        let fun_index = (if found < 0 then int cmd_np_index else found);
        entry \<leftarrow> rd ser_rcvcmd_funcs (nat fun_index);
        f \<leftarrow> snd entry;
        ((res_code, data_out), s) \<leftarrow> call_handler f pkt (ucast len - of_nat HDR_LEN) s;
        let (data_out, s) =
          (if res_code \<noteq> err_ok
           then (NULL, s\<lparr>console := console s @ ''ser_cmd.c 265: error!''\<rparr>) else (data_out, s));
        (_, s) \<leftarrow> (if data_out \<noteq> NULL then do {
                     out \<leftarrow> blocks s data_out;
                     n \<leftarrow> ld data_out 0 s;
                     ser_cmd_reply pkt (err_byte res_code OR REPLY_MASK) (Some (drop 1 out)) (ucast n) s
                   } else ser_cmd_reply pkt (err_byte res_code OR REPLY_MASK) None 0 s);
        s \<leftarrow> ser_hal_free data_out s;
        Some (err_ok, s)
      })"

section \<open>Effects\<close>

text \<open>The bytes a handler answers with, and the handler of a command.\<close>

fun answer :: "cmd_func \<Rightarrow> byte list \<Rightarrow> byte list" where
  "answer Discover data = bytes_of ''discover''"
| "answer Send_05 data = [5]"
| "answer Echo_back data = data"
| "answer Notimplement data = bytes_of ''notimplement''"

definition handler_of :: "byte \<Rightarrow> cmd_func" where
  "handler_of cmd =
     (if cmd = 0x01 then Discover else if cmd = 0x02 then Send_05
      else if cmd = 0x61 then Echo_back else Notimplement)"

lemma find_handler_table:
  "find_handler ser_rcvcmd_funcs cmd =
     Some (if cmd = 0x01 then 0 else if cmd = 0x02 then 1 else if cmd = 0x61 then 2
           else if cmd = 0x7f then 3 else if cmd = 0 then 4 else - 1)"
  by (simp add: find_handler_def ser_rcvcmd_funcs_def)

text \<open>The entry the dispatcher ends up with: command 0 finds the end mark itself.\<close>

lemma dispatch_entry:
  assumes "find_handler ser_rcvcmd_funcs cmd = Some found"
  shows "\<exists>c. rd ser_rcvcmd_funcs (nat (if found < 0 then int cmd_np_index else found))
           = Some (c, if cmd = 0 then None else Some (handler_of cmd))"
  using assms unfolding find_handler_table
  by (auto simp: ser_rcvcmd_funcs_def cmd_np_index_def rd_def handler_of_def split: if_splits)

text \<open>Where allocation cannot fail.\<close>

definition malloc_total :: "'a mem_scheme \<Rightarrow> bool" where
  "malloc_total m \<longleftrightarrow> (\<forall>k n. env_malloc m k n \<noteq> None)"

lemma malloc_total_cases:
  assumes "mem_ok m" and "malloc_total m"
  obtains p c where "p \<noteq> NULL" "blocks m p = None" "length c = n" "p = Suc (calls m)"
      "malloc n m = (p, m\<lparr>blocks := (blocks m)(p \<mapsto> c), calls := p\<rparr>)"
proof -
  obtain c where "env_malloc m (calls m) n = Some c"
    using assms(2) by (auto simp: malloc_total_def)
  then show ?thesis
    using that [of "Suc (calls m)" "map c [0..<n]"] mem_ok_fresh [OF assms(1)]
    by (simp add: malloc_def)
qed

text \<open>What writing \<open>bs\<close> adds to the device's trace.\<close>

definition tx_events :: "uart \<Rightarrow> byte list \<Rightarrow> dev_event list" where
  "tx_events s bs =
     (let w = wr_accept s (length (dev s)) (length bs)
      in TxWrite (take (nat w) bs) # (if word_of_int w = (of_nat (length bs) :: u32) then [] else [TxFlush]))"

lemma ser_hal_write_block:
  assumes "blocks s p = Some b" and "length b = unat len"
  shows "ser_hal_write p len s = Some (s\<lparr>dev := dev s @ tx_events s b\<rparr>)"
proof -
  have "of_nat (length b) = len" using assms(2) by simp
  then show ?thesis
    using assms by (simp add: ser_hal_write_def mem_simps Let_def tx_events_def)
qed

text \<open>What a handler does to memory: nothing, or one new block that starts with the length of the
  answer and the answer.\<close>

definition handled :: "uart \<Rightarrow> byte list \<Rightarrow> (err_code \<times> addr) \<times> uart \<Rightarrow> bool" where
  "handled s ans r \<longleftrightarrow>
     r = ((err_nomem, NULL), s\<lparr>calls := Suc (calls s)\<rparr>) \<and> \<not> malloc_total s
     \<or> (\<exists>p slack. p = Suc (calls s) \<and> blocks s p = None
          \<and> r = ((err_ok, p), s\<lparr>calls := p,
                                 blocks := (blocks s)(p \<mapsto> of_nat (length ans) # ans @ slack)\<rparr>))"

lemma handled_fail:
  "malloc n s = (NULL, s\<lparr>calls := Suc (calls s)\<rparr>) \<Longrightarrow>
     handled s ans ((err_nomem, NULL), s\<lparr>calls := Suc (calls s)\<rparr>)"
  by (auto simp: handled_def malloc_total_def malloc_def split: option.splits)

lemma handled_ok:
  "p = Suc (calls s) \<Longrightarrow> blocks s p = None \<Longrightarrow>
     handled s ans ((err_ok, p),
       s\<lparr>calls := p, blocks := (blocks s)(p \<mapsto> of_nat (length ans) # ans @ slack)\<rparr>)"
  by (auto simp: handled_def)

lemma reply_text_handled:
  assumes "mem_ok s" and "length t < 20"
  shows "\<exists>r. reply_text t s = Some r \<and> handled s (bytes_of t) r"
  using assms(1)
proof (cases rule: malloc_cases [where n = 21])
  case fail
  then show ?thesis by (simp add: reply_text_def ser_hal_malloc_def handled_fail)
next
  case (ok p c)
  have l: "length (bytes_of t) = length t" by (simp add: bytes_of_def)
  obtain c0 cs where "c = c0 # cs" "length cs = 20" using ok(3) by (cases c) auto
  with ok assms(2) l
    handled_ok [OF ok(4,2), of "bytes_of t" "0 # drop (Suc (length t)) cs"]
  show ?thesis by (simp add: reply_text_def ser_hal_malloc_def mem_simps)
qed

lemma send_05_handled:
  assumes "mem_ok s"
  shows "\<exists>r. ser_cmd_send_05 input len s = Some r \<and> handled s [5] r"
  using assms(1)
proof (cases rule: malloc_cases [where n = 2])
  case fail
  then show ?thesis by (simp add: ser_cmd_send_05_def ser_hal_malloc_def handled_fail)
next
  case (ok p c)
  obtain c0 c1 where "c = [c0, c1]" using ok(3) by (auto simp: numeral_2_eq_2 length_Suc_conv)
  with ok handled_ok [OF ok(4,2), of "[5]" "[]"]
  show ?thesis by (simp add: ser_cmd_send_05_def ser_hal_malloc_def mem_simps)
qed

lemma echo_back_handled:
  assumes "mem_ok s" and "blocks s input = Some b" and "length b = HDR_LEN + unat len"
    and "unat len \<le> 249"
  shows "\<exists>r. ser_cmd_echo_back input len s = Some r \<and> handled s (drop HDR_LEN b) r"
proof -
  have sz: "unat (1 + len) = Suc (unat len)"
    using assms(4) by (simp add: unat_word_ariths)
  have ne: "input \<noteq> Suc (calls s)" using assms(2) mem_ok_fresh [OF assms(1)] by auto
  have u: "ucast len = (of_nat (unat len) :: byte)" by simp
  from assms(1) show ?thesis
  proof (cases rule: malloc_cases [where n = "Suc (unat len)"])
    case fail
    with sz show ?thesis by (simp add: ser_cmd_echo_back_def ser_hal_malloc_def handled_fail)
  next
    case (ok p c)
    obtain c0 cs where "c = c0 # cs" "length cs = unat len" using ok(3) by (cases c) auto
    with ok sz ne assms(2,3) u handled_ok [OF ok(4,2), of "drop HDR_LEN b" "[]"]
    show ?thesis by (simp add: ser_cmd_echo_back_def ser_hal_malloc_def mem_simps)
  qed
qed

lemma call_handler_handled:
  assumes "mem_ok s" and "blocks s p = Some b" and "length b = HDR_LEN + unat len" and "unat len \<le> 249"
  shows "\<exists>r. call_handler f p len s = Some r \<and> handled s (answer f (drop HDR_LEN b)) r"
  using reply_text_handled [OF assms(1), of "''discover''"]
    reply_text_handled [OF assms(1), of "''notimplement''"]
    send_05_handled [OF assms(1)] echo_back_handled [OF assms]
  by (cases f) (simp_all add: ser_cmd_discover_def ser_cmd_notimplement_def)

lemma ser_cmd_reply_effect:
  assumes "mem_ok s" and "blocks s pkt = Some b" and "4 < length b" and "unat len = length ans"
    and "length ans \<le> 249" and "(src = None \<and> ans = []) \<or> src = Some (ans @ extra)"
  shows "ser_cmd_reply pkt cmd src len s = Some (err_nomem, s\<lparr>calls := Suc (calls s)\<rparr>) \<and> \<not> malloc_total s
    \<or> ser_cmd_reply pkt cmd src len s =
        Some (err_ok, s\<lparr>dev := dev s @ tx_events s (frame cmd (b ! 4) ans), calls := Suc (calls s)\<rparr>)"
proof -
  have pkt: "pkt \<noteq> NULL" using mem_ok_live [OF assms(1,2)] by simp
  have sz: "unat (6 + len) = 6 + length ans"
    using assms(4,5) by (simp add: unat_word_ariths)
  have ne: "pkt \<noteq> Suc (calls s)" using assms(2) mem_ok_fresh [OF assms(1)] by auto
  from assms(1) show ?thesis
  proof (cases rule: malloc_cases [where n = "6 + length ans"])
    case fail
    then have "\<not> malloc_total s"
      by (auto simp: malloc_total_def malloc_def split: option.splits)
    with fail sz pkt show ?thesis by (simp add: ser_cmd_reply_def ser_hal_malloc_def)
  next
    case (ok p c)
    let ?f = "frame cmd (b ! 4) ans"
    let ?m = "s\<lparr>calls := p, blocks := (blocks s)(p \<mapsto> c)\<rparr>"
    let ?m' = "s\<lparr>calls := p, blocks := (blocks s)(p \<mapsto> ?f)\<rparr>"
    have build: "build_pkt cmd (b ! 4) p src len ?m = Some ?m'"
      using build_pkt_frame [of ?m p c ans len src extra cmd "b ! 4"] ok(3) assms(4,5,6) by simp
    have "length ?f = unat (ucast (6 + of_nat (length ans) :: byte) :: u32)"
      using unat_len_byte [OF assms(5)] by simp
    then have wrote: "ser_hal_write p (ucast (?f ! 2)) ?m' = Some (?m'\<lparr>dev := dev s @ tx_events s ?f\<rparr>)"
      using ser_hal_write_block [of ?m' p ?f] by (simp add: frame_nth tx_events_def)
    have "(blocks s)(p := None) = blocks s" using ok(2) by (simp add: fun_upd_idem)
    with ok pkt sz ne assms(2,3) build wrote show ?thesis
      by (simp add: ser_cmd_reply_def ser_hal_malloc_def ser_hal_free_def mem_simps)
  qed
qed

lemma tx_events_cong [simp]:
  "tx_events (s\<lparr>blocks := b\<rparr>) bs = tx_events s bs"
  "tx_events (s\<lparr>calls := c\<rparr>) bs = tx_events s bs"
  "tx_events (s\<lparr>console := out\<rparr>) bs = tx_events s bs"
  by (simp_all add: tx_events_def)

lemma mem_ok_more_calls:
  "mem_ok m \<Longrightarrow> calls m \<le> c \<Longrightarrow> mem_ok (m\<lparr>calls := c\<rparr>)"
  by (fastforce simp: mem_ok_def)

text \<open>Dispatching changes the console, the device trace and the call counter only.\<close>

definition dispatched :: "uart \<Rightarrow> uart \<Rightarrow> bool" where
  "dispatched s s' \<longleftrightarrow>
     calls s \<le> calls s' \<and> s'\<lparr>console := console s, dev := dev s, calls := calls s\<rparr> = s"

lemma dispatched_simps:
  "calls s \<le> c \<Longrightarrow> dispatched s (s\<lparr>calls := c\<rparr>)"
  "calls s \<le> c \<Longrightarrow> dispatched s (s\<lparr>console := out, calls := c\<rparr>)"
  "calls s \<le> c \<Longrightarrow> dispatched s (s\<lparr>console := out, dev := d, calls := c\<rparr>)"
  by (simp_all add: dispatched_def)

lemma dispatched_frame:
  assumes "dispatched s s'"
  shows "blocks s' = blocks s" "env_malloc s' = env_malloc s" "send_sn s' = send_sn s"
    "replied s' = replied s" "replied_pkt s' = replied_pkt s" "g_head s' = g_head s"
    "g_buf s' = g_buf s" "g_ch s' = g_ch s" "g_pkt_len s' = g_pkt_len s" "g_i s' = g_i s"
    "timeout s' = timeout s" "wr_accept s' = wr_accept s" "calls s \<le> calls s'"
proof -
  have e: "s = s'\<lparr>console := console s, dev := dev s, calls := calls s\<rparr>"
    and "calls s \<le> calls s'" using assms by (simp_all add: dispatched_def)
  then show "calls s \<le> calls s'" by simp
  show "blocks s' = blocks s" "env_malloc s' = env_malloc s" "send_sn s' = send_sn s"
    "replied s' = replied s" "replied_pkt s' = replied_pkt s" "g_head s' = g_head s"
    "g_buf s' = g_buf s" "g_ch s' = g_ch s" "g_pkt_len s' = g_pkt_len s" "g_i s' = g_i s"
    "timeout s' = timeout s" "wr_accept s' = wr_accept s"
    by (subst e, simp)+
qed

lemma dispatched_mem_ok: "dispatched s s' \<Longrightarrow> mem_ok s \<Longrightarrow> mem_ok s'"
  using dispatched_frame [of s s'] by (fastforce simp: mem_ok_def)

lemma answer_bound: "length data \<le> 249 \<Longrightarrow> length (answer f data) \<le> 249"
  by (cases f) (simp_all add: bytes_of_def)

lemma dealcmd_effect:
  assumes ok: "mem_ok s" and blk: "blocks s p = Some (frame cmd sn data)"
    and len: "length data \<le> 249" and cmd: "cmd \<noteq> 0"
  obtains s' where "ser_cmd_dealcmd p s = Some (err_ok, s')" and "dispatched s s'"
    and "malloc_total s \<Longrightarrow>
           dev s' = dev s @ tx_events s (frame REPLY_MASK sn (answer (handler_of cmd) data))"
proof -
  let ?f = "frame cmd sn data" and ?ans = "answer (handler_of cmd) data"
  obtain out where dump: "dump ''ser_cmd.c'' 255 p (?f ! 2) s = Some (s\<lparr>console := out\<rparr>)"
    using blk unat_len_byte [OF len] by (simp add: dump_def mem_simps frame_nth)
  let ?s = "s\<lparr>console := out\<rparr>"
  let ?n = "ucast (?f ! 2) - of_nat HDR_LEN :: u32"
  have n: "unat ?n = length data"
  proof -
    have "ucast (?f ! 2) = (of_nat (unat (?f ! 2)) :: u32)" by simp
    then have "?n = of_nat (length data)"
      using unat_len_byte [OF len] by (simp add: frame_nth del: of_nat_unat)
    then show ?thesis using len by (simp add: unat_of_nat)
  qed
  have ok': "mem_ok ?s" using ok by (simp add: mem_ok_def)
  obtain r where r: "call_handler (handler_of cmd) p ?n ?s = Some r" "handled ?s ?ans r"
    using call_handler_handled [OF ok', of p ?f ?n "handler_of cmd"] blk n len by (auto simp: frame_nth)
  have p0: "p \<noteq> NULL" using mem_ok_live [OF ok blk] by simp
  obtain found c0 where fe: "find_handler ser_rcvcmd_funcs cmd = Some found"
      "rd ser_rcvcmd_funcs (nat (if found < 0 then int cmd_np_index else found)) = Some (c0, Some (handler_of cmd))"
    using dispatch_entry [of cmd] cmd by (auto simp: find_handler_table)
  have blk': "blocks ?s p = Some ?f" using blk by simp
  have ld: "ld p off_len s = Some (?f ! 2)" "ld p off_cmd ?s = Some cmd"
    using blk by (simp_all add: mem_simps frame_nth)
  have sn: "?f ! 4 = sn" by (simp add: frame_nth)
  from r(2) consider (nomem) "r = ((err_nomem, NULL), ?s\<lparr>calls := Suc (calls s)\<rparr>)" "\<not> malloc_total s"
    | (fine) q slack where "q = Suc (calls s)" "blocks s q = None"
        "r = ((err_ok, q), ?s\<lparr>calls := q,
                blocks := (blocks s)(q \<mapsto> of_nat (length ?ans) # ?ans @ slack)\<rparr>)"
    by (auto simp: handled_def malloc_total_def)
  then show ?thesis
  proof cases
    case nomem
    let ?s2 = "?s\<lparr>calls := Suc (calls s), console := out @ ''ser_cmd.c 265: error!''\<rparr>"
    have ok2: "mem_ok ?s2" using ok by (auto simp: mem_ok_def le_Suc_eq)
    have "ser_cmd_dealcmd p s = do {
        (_, s) \<leftarrow> ser_cmd_reply p (err_byte err_nomem OR REPLY_MASK) None 0 ?s2;
        Some (err_ok, s) }"
      using fe p0 ld dump r(1) nomem(1)
      by (simp add: ser_cmd_dealcmd_def ser_hal_free_def free_NULL)
    moreover obtain e s3 where
      "ser_cmd_reply p (err_byte err_nomem OR REPLY_MASK) None 0 ?s2 = Some (e, s3)" "dispatched s s3"
      using ser_cmd_reply_effect [OF ok2, of p ?f 0 "[]" None "[]" "err_byte err_nomem OR REPLY_MASK"] blk
      by (auto simp: dispatched_def)
    ultimately show ?thesis using that nomem(2) by simp
  next
    case fine
    let ?bs = "(blocks s)(q \<mapsto> of_nat (length ?ans) # ?ans @ slack)"
    let ?s2 = "?s\<lparr>calls := q, blocks := ?bs\<rparr>"
    let ?k = "ucast (of_nat (length ?ans) :: byte) :: u32"
    have pq: "p \<noteq> q" and q0: "q \<noteq> NULL" using blk fine(1,2) by auto
    have ok2: "mem_ok ?s2" using ok fine(1) by (auto simp: mem_ok_def le_Suc_eq)
    have al: "length ?ans \<le> 249" by (rule answer_bound [OF len])
    have "unat (of_nat (length ?ans) :: byte) = length ?ans" using al by (simp add: unat_of_nat)
    then have k: "unat ?k = length ?ans" by simp
    have rest: "(\<lambda>x. if x = q then None else ?bs x) = blocks s" using fine(2) by auto
    have deal: "ser_cmd_dealcmd p s = do {
        (_, s) \<leftarrow> ser_cmd_reply p (err_byte err_ok OR REPLY_MASK) (Some (?ans @ slack)) ?k ?s2;
        s \<leftarrow> ser_hal_free q s;
        Some (err_ok, s) }"
      using fe p0 q0 ld dump r(1) fine(3)
      by (simp add: ser_cmd_dealcmd_def mem_simps)
    have blk2: "blocks ?s2 p = Some ?f" using blk pq by simp
    have back_q: "(blocks s)(q := None) = blocks s" using fine(2) by (simp add: fun_upd_idem)
    have "ser_cmd_reply p REPLY_MASK (Some (?ans @ slack)) ?k ?s2
            = Some (err_nomem, ?s2\<lparr>calls := Suc q\<rparr>) \<and> \<not> malloc_total s
        \<or> ser_cmd_reply p REPLY_MASK (Some (?ans @ slack)) ?k ?s2
            = Some (err_ok, ?s2\<lparr>dev := dev s @ tx_events s (frame REPLY_MASK sn ?ans), calls := Suc q\<rparr>)"
      using ser_cmd_reply_effect [OF ok2 blk2 _ k al, of "Some (?ans @ slack)" slack REPLY_MASK] sn
      by (simp add: malloc_total_def)
    then show ?thesis
    proof (elim disjE conjE)
      assume "ser_cmd_reply p REPLY_MASK (Some (?ans @ slack)) ?k ?s2 = Some (err_nomem, ?s2\<lparr>calls := Suc q\<rparr>)"
        and "\<not> malloc_total s"
      then show thesis
        using that [of "?s\<lparr>calls := Suc q\<rparr>"] deal fine(1) q0 back_q
        by (simp add: dispatched_simps ser_hal_free_def mem_simps)
    next
      assume "ser_cmd_reply p REPLY_MASK (Some (?ans @ slack)) ?k ?s2
            = Some (err_ok, ?s2\<lparr>dev := dev s @ tx_events s (frame REPLY_MASK sn ?ans), calls := Suc q\<rparr>)"
      then show thesis
        using that [of "?s\<lparr>dev := dev s @ tx_events s (frame REPLY_MASK sn ?ans), calls := Suc q\<rparr>"]
          deal fine(1) q0 back_q
        by (simp add: dispatched_simps ser_hal_free_def mem_simps)
    qed
  qed
qed

lemma dealcmd_zero:
  assumes "mem_ok s" and "blocks s p = Some (frame 0 sn data)"
  shows "ser_cmd_dealcmd p s = None"
proof -
  have ld: "ld p off_len s = Some (frame 0 sn data ! 2)" "ld p off_cmd (s\<lparr>console := out\<rparr>) = Some 0" for out
    using assms(2) by (simp_all add: mem_simps frame_nth)
  have "find_handler ser_rcvcmd_funcs 0 = Some 4" by (simp add: find_handler_table)
  moreover have "rd ser_rcvcmd_funcs 4 = Some (0, None)" by (simp add: ser_rcvcmd_funcs_def rd_def)
  ultimately show ?thesis
    using ld mem_ok_live [OF assms]
    by (cases "dump ''ser_cmd.c'' 255 p (frame 0 sn data ! 2) s")
      (auto simp: ser_cmd_dealcmd_def dump_def bind_Some_iff)
qed

section \<open>Properties of the dispatcher\<close>

text \<open>C9. The dispatcher serves every well-formed request whose command is not 0: it never faults and
  leaves the heap as it found it (the handler's answer and the reply packet are both freed, also when
  an allocation fails half way). When every allocation succeeds (\<open>malloc_total\<close>; nothing is said of the reply
  otherwise) it writes to the device exactly one reply packet, which carries the request's sequence number and the
  answer of the handler that the table of the code assigns to the command, unknown commands being answered by
  \<open>ser_cmd_notimplement\<close>. The table is not the one of the protocol's README: there 0x00 is discover, 0x01 asks for the
  name of the device and 0x02 for its methods; the code has discover at 0x01, \<open>ser_cmd_send_05\<close> at 0x02 and
  nothing at 0x00.\<close>

theorem ser_cmd_dealcmd_serves:
  assumes "mem_ok s" and "blocks s p = Some (frame cmd sn data)" and "length data \<le> 249" and "cmd \<noteq> 0"
  shows "\<exists>s'. ser_cmd_dealcmd p s = Some (err_ok, s') \<and> blocks s' = blocks s
           \<and> send_sn s' = send_sn s \<and> replied_pkt s' = replied_pkt s \<and> replied s' = replied s
           \<and> (malloc_total s \<longrightarrow>
                dev s' = dev s @ tx_events s (frame REPLY_MASK sn (answer (handler_of cmd) data)))"
proof -
  obtain s' where "ser_cmd_dealcmd p s = Some (err_ok, s')" and "dispatched s s'"
    and "malloc_total s \<Longrightarrow>
           dev s' = dev s @ tx_events s (frame REPLY_MASK sn (answer (handler_of cmd) data))"
    using dealcmd_effect [OF assms] by blast
  then show ?thesis using dispatched_frame [of s s'] by auto
qed

theorem ser_cmd_dealcmd_serves_witness:
  "\<exists>s'. ser_cmd_dealcmd 1 (uart_calm\<lparr>calls := 1, blocks := [1 \<mapsto> frame 0x02 7 [0xAA]]\<rparr>) = Some (err_ok, s')
     \<and> blocks s' = [1 \<mapsto> frame 0x02 7 [0xAA]] \<and> dev s' = [TxWrite (frame 0x80 7 [5])]"
  using ser_cmd_dealcmd_serves [OF mem_ok_one [of "frame 0x02 7 [0xAA]" uart_calm],
        of 1 "0x02" 7 "[0xAA]"]
  by (auto simp: uart_calm_def uart_init_def malloc_total_def handler_of_def tx_events_def)

text \<open>C10. A well-formed request with command 0 makes the dispatcher call a null function pointer: the
  search for the handler compares the command before it looks for the end of the table, so command 0
  matches the end mark itself.\<close>

theorem ser_cmd_dealcmd_command_zero:
  assumes "mem_ok s" and "blocks s p = Some (frame 0 sn data)"
  shows "ser_cmd_dealcmd p s = None"
  using assms by (rule dealcmd_zero)

theorem ser_cmd_dealcmd_command_zero_witness:
  "ser_cmd_dealcmd 1 (uart_calm\<lparr>calls := 1, blocks := [1 \<mapsto> frame 0 7 [0xAA]]\<rparr>) = None"
  using ser_cmd_dealcmd_command_zero
    [of "uart_calm\<lparr>calls := 1, blocks := [1 \<mapsto> frame 0 7 [0xAA]]\<rparr>" 1 7 "[0xAA]"]
  by (simp add: mem_ok_def)

end
