(* ===== verification/Uart_Receiver.thy ===== *)
theory Uart_Receiver
  imports Uart_Commands "HOL-Library.Sublist"
begin

text \<open>
  The receiving loop \<open>ser_cmd_rcv\<close> of \<open>ser_cmd.c\<close>: one iteration (\<open>rcv_byte\<close>) over the function's
  static variables, the loop over the bytes the serial device delivers, and the specification it
  refines: a deframer that works on the bytes collected so far and has no memory of its own.
\<close>

section \<open>The loop\<close>

text \<open>One iteration, for the byte \<open>ch\<close> just read. \<open>continue\<close> leaves the iteration before the \<open>i++\<close>
  at its end.\<close>

definition rcv_byte :: "byte \<Rightarrow> uart \<Rightarrow> uart option" where
  "rcv_byte ch s =
     (let s = s\<lparr>g_ch := ch\<rparr>; i = unat (g_i s) in
      if i \<le> 2 then do {
        head \<leftarrow> wr (g_head s) i ch;
        let s = s\<lparr>g_head := head\<rparr>;
        if i \<le> 1 \<and> head ! i \<noteq> mac_head ! i then Some (s\<lparr>g_i := 0\<rparr>)
        else if i = 2 then
          let s = s\<lparr>g_pkt_len := ch\<rparr> in
          if unat ch < HDR_LEN then Some (s\<lparr>g_i := 0\<rparr>)
          else let (p, s) = ser_hal_malloc (ucast ch) s; s = s\<lparr>g_buf := p\<rparr> in
            if p = NULL then Some (s\<lparr>g_i := 0\<rparr>)
            else do {
              src \<leftarrow> rd_block (g_head s) 0 3;
              s \<leftarrow> st_block p 0 src s;
              Some (s\<lparr>g_i := g_i s + 1\<rparr>)
            }
        else Some (s\<lparr>g_i := g_i s + 1\<rparr>)
      } else do {
        s \<leftarrow> st (g_buf s) i ch s;
        if int i = int (unat (g_pkt_len s)) - 1 then do {
          res \<leftarrow> mac_parse (g_buf s) s;
          if res \<noteq> err_ok then ser_hal_free (g_buf s) (s\<lparr>g_i := 0\<rparr>)
          else do {
            cmd \<leftarrow> ld (g_buf s) off_cmd s;
            s \<leftarrow> (if cmd AND REPLY_MASK \<noteq> 0 then Some (snd (ser_hal_tellsend (g_buf s) s))
                  else do {
                    (_, s) \<leftarrow> ser_cmd_dealcmd (g_buf s) s;
                    let s = s\<lparr>console := console s @ [LF]\<rparr>;
                    ser_hal_free (g_buf s) s
                  });
            Some (s\<lparr>g_i := 0, g_buf := NULL\<rparr>)
          }
        } else Some (s\<lparr>g_i := g_i s + 1\<rparr>)
      })"

text \<open>The loop, until the device's events are used up (it then waits in \<open>ser_hal_read\<close>).\<close>

function ser_cmd_rcv :: "rx_event list \<Rightarrow> uart \<Rightarrow> uart option" where
  "ser_cmd_rcv evs s =
     (case ser_hal_read 1 evs of
        None \<Rightarrow> Some s
      | Some (bs, rest) \<Rightarrow> do { s \<leftarrow> rcv_byte (hd bs) s; ser_cmd_rcv rest s })"
  by pat_completeness auto
termination
  by (relation "measure (length \<circ> fst)") (auto dest: ser_hal_read_shrinks [of 0])

declare ser_cmd_rcv.simps [simp del]

lemma ser_cmd_rcv_run: "ser_cmd_rcv evs s = run_list rcv_byte (rx_bytes evs) s"
proof (induction evs s rule: ser_cmd_rcv.induct)
  case (1 evs s)
  show ?case
  proof (cases "ser_hal_read 1 evs")
    case None
    then have "rx_bytes evs = []" using ser_hal_read_waits [of evs] by simp
    with None show ?thesis by (simp add: ser_cmd_rcv.simps [of evs])
  next
    case (Some r)
    obtain bs rest where r: "r = (bs, rest)" by (cases r)
    with Some ser_hal_read_bytes [of 1 evs bs rest] obtain b where
      "bs = [b]" "rx_bytes evs = b # rx_bytes rest" by (auto simp: length_Suc_conv)
    with Some r 1 [OF Some r [symmetric]] show ?thesis
      by (subst ser_cmd_rcv.simps) (cases "rcv_byte b s"; simp)
  qed
qed

section \<open>The deframer\<close>

text \<open>\<open>acc\<close> are the bytes of the packet under way; a complete packet is handed out when its bytes
  cancel.\<close>

definition deframe :: "byte list \<Rightarrow> byte \<Rightarrow> byte list \<times> byte list option" where
  "deframe acc ch =
     (let acc' = acc @ [ch] in
      if length acc' \<le> 2 then (if acc' = take (length acc') mac_head then (acc', None) else ([], None))
      else if length acc' = 3 then (if unat ch < HDR_LEN then ([], None) else (acc', None))
      else if length acc' < unat (acc' ! 2) then (acc', None)
      else ([], if xor_list acc' = 0 then Some acc' else None))"

fun deframe_all :: "byte list \<Rightarrow> byte list \<Rightarrow> byte list list" where
  "deframe_all acc [] = []"
| "deframe_all acc (ch # bs) =
     (case deframe acc ch of
        (acc', None) \<Rightarrow> deframe_all acc' bs
      | (acc', Some pkt) \<Rightarrow> pkt # deframe_all acc' bs)"

text \<open>The bytes of an unfinished packet that are kept at the end.\<close>

definition deframe_end :: "byte list \<Rightarrow> byte list \<Rightarrow> byte list" where
  "deframe_end acc bs = foldl (\<lambda>acc ch. fst (deframe acc ch)) acc bs"

lemma deframe_end_simps [simp]:
  "deframe_end acc [] = acc"
  "deframe_end acc (ch # bs) = deframe_end (fst (deframe acc ch)) bs"
  by (simp_all add: deframe_end_def)

text \<open>Well-formed partial packets.\<close>

definition partial :: "byte list \<Rightarrow> bool" where
  "partial acc \<longleftrightarrow>
     (if length acc \<le> 2 then acc = take (length acc) mac_head
      else take 2 acc = mac_head \<and> HDR_LEN \<le> unat (acc ! 2) \<and> length acc < unat (acc ! 2))"

lemma partial_Nil [simp]: "partial []"
  by (simp add: partial_def)

lemma mac_head_nth [simp]: "length mac_head = 2"
  by (simp add: mac_head_def)

lemma deframe_partial:
  assumes "partial acc" and "deframe acc ch = (acc', r)"
  shows "partial acc'"
proof (cases "length acc \<le> 2")
  case True
  with assms show ?thesis
    by (auto simp: deframe_def Let_def partial_def nth_append take_Suc_conv_app_nth split: if_splits)
next
  case False
  with assms show ?thesis
    by (auto simp: deframe_def Let_def partial_def nth_append split: if_splits)
qed

section \<open>The loop refines the deframer\<close>

text \<open>\<open>h\<close> is the heap without the receive buffer.\<close>

definition rcv_rel :: "(addr \<rightharpoonup> byte list) \<Rightarrow> uart \<Rightarrow> byte list \<Rightarrow> bool" where
  "rcv_rel h s acc \<longleftrightarrow>
     mem_ok s \<and> length (g_head s) = 4 \<and> unat (g_i s) = length acc \<and> partial acc
     \<and> (if length acc \<le> 2 then blocks s = h \<and> take (length acc) (g_head s) = acc
        else h (g_buf s) = None \<and> g_pkt_len s = acc ! 2
           \<and> (\<exists>rest. length (acc @ rest) = unat (acc ! 2) \<and> blocks s = h(g_buf s \<mapsto> acc @ rest)))"

lemma rcv_rel_start: "rcv_rel Map.empty (uart_init env acc) []"
  by (simp add: rcv_rel_def uart_init_def mem_ok_def)

text \<open>What one byte does to the rest of the program: nothing, as long as no packet is complete.\<close>

definition quiet :: "uart \<Rightarrow> uart \<Rightarrow> bool" where
  "quiet s s' \<longleftrightarrow>
     env_malloc s' = env_malloc s \<and> wr_accept s' = wr_accept s \<and> dev s' = dev s
     \<and> console s' = console s \<and> send_sn s' = send_sn s \<and> replied s' = replied s
     \<and> replied_pkt s' = replied_pkt s"

lemma rcv_header:
  assumes "rcv_rel h s acc" and "length acc \<le> 1"
  shows "\<exists>s'. rcv_byte ch s = Some s' \<and> rcv_rel h s' (fst (deframe acc ch)) \<and> quiet s s'
    \<and> snd (deframe acc ch) = None"
proof -
  let ?i = "length acc"
  have i: "unat (g_i s) = ?i" "?i \<le> 1" and hd: "length (g_head s) = 4" and ok: "mem_ok s"
    and h: "blocks s = h" "take ?i (g_head s) = acc" "acc = take ?i mac_head"
    using assms by (auto simp: rcv_rel_def partial_def)
  have next_i: "unat (g_i s + 1) = Suc ?i"
    using i by (simp add: unat_word_ariths)
  have tk: "take (Suc ?i) ((g_head s)[?i := ch]) = acc @ [ch]"
    using h(2) hd i(2) by (simp add: take_Suc_conv_app_nth)
  have two: "take (Suc ?i) mac_head = acc @ [mac_head ! ?i]"
    using h(3) i(2) take_Suc_conv_app_nth [of ?i mac_head] by simp
  show ?thesis
  proof (cases "ch = mac_head ! ?i")
    case True
    then have "deframe acc ch = (acc @ [ch], None)" using i(2) two by (simp add: deframe_def)
    moreover have "partial (acc @ [ch])" using i(2) two True by (simp add: partial_def)
    ultimately show ?thesis
      using True i hd ok h next_i tk
      by (auto simp: rcv_byte_def Let_def wr_def rcv_rel_def quiet_def mem_ok_def)
  next
    case False
    then have "deframe acc ch = ([], None)" using i(2) two by (simp add: deframe_def)
    then show ?thesis
      using False i hd ok h by (auto simp: rcv_byte_def Let_def wr_def rcv_rel_def quiet_def mem_ok_def)
  qed
qed

lemma rcv_length:
  assumes "rcv_rel h s acc" and len: "length acc = 2"
  shows "\<exists>s'. rcv_byte ch s = Some s' \<and> quiet s s' \<and> snd (deframe acc ch) = None
    \<and> (rcv_rel h s' (fst (deframe acc ch)) \<or> \<not> malloc_total s \<and> rcv_rel h s' [])"
proof -
  let ?s = "s\<lparr>g_ch := ch, g_head := (g_head s)[2 := ch], g_pkt_len := ch\<rparr>"
  have i: "unat (g_i s) = 2" and hd: "length (g_head s) = 4" and ok: "mem_ok s"
    and h: "blocks s = h" "take 2 (g_head s) = acc" "acc = mac_head"
    using assms by (auto simp: rcv_rel_def partial_def)
  have ok': "mem_ok ?s" using ok by (simp add: mem_ok_def)
  have three: "take 3 ((g_head s)[2 := ch]) = acc @ [ch]"
  proof -
    have "Suc 2 = (3::nat)" by simp
    then show ?thesis using h(2) hd take_Suc_conv_app_nth [of 2 "(g_head s)[2 := ch]"] by simp
  qed
  show ?thesis
  proof (cases "unat ch < HDR_LEN")
    case True
    then show ?thesis
      using i hd ok h len
      by (auto simp: rcv_byte_def Let_def wr_def rcv_rel_def quiet_def mem_ok_def deframe_def)
  next
    case False
    have nexti: "unat (g_i s + 1) = 3" using i by (simp add: unat_word_ariths)
    have d: "deframe acc ch = (acc @ [ch], None)" using False len by (simp add: deframe_def)
    have part: "partial (acc @ [ch])" using False len h(3) by (simp add: partial_def nth_append)
    from ok' show ?thesis
    proof (cases rule: malloc_cases [where n = "unat ch"])
      case fail
      then have "\<not> malloc_total s" by (auto simp: malloc_total_def malloc_def split: option.splits)
      moreover have "rcv_byte ch s = Some (?s\<lparr>calls := Suc (calls s), g_buf := NULL, g_i := 0\<rparr>)"
        using False i hd fail by (simp add: rcv_byte_def Let_def wr_def ser_hal_malloc_def)
      ultimately show ?thesis
        using d hd ok h by (auto simp: rcv_rel_def quiet_def mem_ok_def le_Suc_eq)
    next
      case (ok p c)
      have "rcv_byte ch s = Some (?s\<lparr>calls := p, g_buf := p, g_i := g_i s + 1,
          blocks := (blocks s)(p \<mapsto> acc @ [ch] @ drop 3 c)\<rparr>)"
        using False i hd ok three len
        by (simp add: rcv_byte_def Let_def wr_def ser_hal_malloc_def mem_simps)
      moreover have "mem_ok (?s\<lparr>calls := p, g_buf := p, g_i := g_i s + 1,
          blocks := (blocks s)(p \<mapsto> acc @ [ch] @ drop 3 c)\<rparr>)"
        using ok' ok(1,4) by (auto simp: mem_ok_def le_Suc_eq)
      ultimately show ?thesis
        using d hd h ok nexti len part False
        by (auto simp: rcv_rel_def quiet_def nth_append intro!: exI [of _ "drop 3 c"])
    qed
  qed
qed

lemma rcv_body:
  assumes rel: "rcv_rel h s acc" and len: "3 \<le> length acc" and more: "Suc (length acc) < unat (acc ! 2)"
  shows "\<exists>s'. rcv_byte ch s = Some s' \<and> rcv_rel h s' (fst (deframe acc ch)) \<and> quiet s s'
    \<and> snd (deframe acc ch) = None"
proof -
  let ?i = "length acc"
  obtain rest where i: "unat (g_i s) = ?i" and hd: "length (g_head s) = 4" and ok: "mem_ok s"
    and part: "partial acc" and h: "h (g_buf s) = None" "g_pkt_len s = acc ! 2"
    and rest: "length (acc @ rest) = unat (acc ! 2)" and blk: "blocks s = h(g_buf s \<mapsto> acc @ rest)"
    using assms by (auto simp: rcv_rel_def)
  obtain r0 rs where r: "rest = r0 # rs" using rest more by (cases rest) auto
  have nexti: "unat (g_i s + 1) = Suc ?i"
    using i more unat_byte_less [of "acc ! 2"] by (simp add: unat_word_ariths)
  have nth: "(acc @ [ch]) ! 2 = acc ! 2" using len by (simp add: nth_append)
  have not_last: "int ?i \<noteq> int (unat (acc ! 2)) - 1" using more by linarith
  have d: "deframe acc ch = (acc @ [ch], None)" using len more nth by (simp add: deframe_def)
  have st: "st (g_buf s) ?i ch (s\<lparr>g_ch := ch\<rparr>)
      = Some (s\<lparr>g_ch := ch, blocks := h(g_buf s \<mapsto> (acc @ [ch]) @ rs)\<rparr>)"
    using blk r by (simp add: mem_simps)
  have "rcv_byte ch s = Some (s\<lparr>g_ch := ch, blocks := h(g_buf s \<mapsto> (acc @ [ch]) @ rs), g_i := g_i s + 1\<rparr>)"
    using i len not_last st h(2) by (simp add: rcv_byte_def Let_def)
  moreover have "mem_ok (s\<lparr>g_ch := ch, blocks := h(g_buf s \<mapsto> (acc @ [ch]) @ rs), g_i := g_i s + 1\<rparr>)"
    using ok blk by (auto simp: mem_ok_def split: if_splits)
  moreover have "partial (acc @ [ch])" using part len more by (auto simp: partial_def nth_append)
  ultimately show ?thesis
    using d hd nexti h nth rest r len by (auto simp: rcv_rel_def quiet_def)
qed

text \<open>What a complete packet \<open>pkt\<close> leads to: a reply is posted in the mailbox and stays allocated, a
  request is answered.\<close>

definition delivered ::
  "(addr \<rightharpoonup> byte list) \<Rightarrow> uart \<Rightarrow> byte list \<Rightarrow> (addr \<rightharpoonup> byte list) \<Rightarrow> uart \<Rightarrow> bool" where
  "delivered h s pkt h' s' \<longleftrightarrow>
     env_malloc s' = env_malloc s \<and> wr_accept s' = wr_accept s \<and> send_sn s' = send_sn s
     \<and> (if pkt ! 5 AND REPLY_MASK \<noteq> 0
        then dev s' = dev s \<and> replied s' = 1 \<and> h (replied_pkt s') = None
             \<and> h' = h(replied_pkt s' \<mapsto> pkt)
        else h' = h \<and> replied s' = replied s \<and> replied_pkt s' = replied_pkt s
             \<and> (malloc_total s \<longrightarrow> dev s' = dev s @
                  tx_events s (frame REPLY_MASK (pkt ! 4) (answer (handler_of (pkt ! 5)) (drop 6 pkt)))))"

lemma rcv_last:
  assumes rel: "rcv_rel h s acc" and len: "3 \<le> length acc" and last: "Suc (length acc) = unat (acc ! 2)"
  shows "(case snd (deframe acc ch) of
       None \<Rightarrow> \<exists>s'. rcv_byte ch s = Some s' \<and> rcv_rel h s' [] \<and> quiet s s'
     | Some pkt \<Rightarrow>
         pkt = acc @ [ch] \<and> pkt = frame (pkt ! 5) (pkt ! 4) (drop HDR_LEN pkt)
         \<and> (if pkt ! 5 = 0 then rcv_byte ch s = None
            else \<exists>s' h'. rcv_byte ch s = Some s' \<and> rcv_rel h' s' [] \<and> delivered h s pkt h' s'))
   \<and> fst (deframe acc ch) = []"
proof -
  let ?i = "length acc" and ?pkt = "acc @ [ch]"
  obtain rest where i: "unat (g_i s) = ?i" and hd: "length (g_head s) = 4" and ok: "mem_ok s"
    and part: "partial acc" and h: "h (g_buf s) = None" "g_pkt_len s = acc ! 2"
    and rest: "length (acc @ rest) = unat (acc ! 2)" and blk: "blocks s = h(g_buf s \<mapsto> acc @ rest)"
    using assms by (auto simp: rcv_rel_def)
  have "length rest = Suc 0" using rest last by simp
  then obtain r0 where r: "rest = [r0]" by (auto simp: length_Suc_conv)
  have six: "HDR_LEN \<le> length ?pkt" using part len last by (auto simp: partial_def)
  have nth: "?pkt ! 2 = acc ! 2" using len by (simp add: nth_append)
  have plen: "unat (?pkt ! 2) = length ?pkt" using nth last by simp
  have ph: "take 2 ?pkt = mac_head" using part len by (auto simp: partial_def)
  have d: "deframe acc ch = ([], if xor_list ?pkt = 0 then Some ?pkt else None)"
    using len last nth by (simp add: deframe_def Let_def)
  define p where "p = g_buf s"
  define s1 where "s1 = s\<lparr>g_ch := ch, blocks := h(p \<mapsto> ?pkt)\<rparr>"
  have p0: "p \<noteq> NULL" using ok blk mem_ok_NULL [of s] by (auto simp: p_def split: if_splits)
  have ok1: "mem_ok s1" using ok blk by (auto simp: mem_ok_def s1_def p_def split: if_splits)
  have b1: "blocks s1 p = Some ?pkt" by (simp add: s1_def)
  have st: "st p ?i ch (s\<lparr>g_ch := ch\<rparr>) = Some s1" using blk r by (simp add: mem_simps s1_def p_def)
  have parse: "mac_parse p s1 = Some (if xor_list ?pkt \<noteq> 0 then err_sum else err_ok)"
    using mac_parse_block [OF b1 six] plen ph by simp
  have lst: "int ?i = int (unat (acc ! 2)) - 1" using last by linarith
  have hp: "h(p := None) = h" using h(1) by (simp add: fun_upd_idem p_def)
  have buf: "g_buf s1 = p" "g_pkt_len s1 = g_pkt_len s" by (simp_all add: s1_def p_def)
  have body: "rcv_byte ch s =
      (if xor_list ?pkt \<noteq> 0 then ser_hal_free p (s1\<lparr>g_i := 0\<rparr>)
       else do {
         s \<leftarrow> (if ?pkt ! 5 AND REPLY_MASK \<noteq> 0 then Some (snd (ser_hal_tellsend p s1))
               else do {
                 (_, s) \<leftarrow> ser_cmd_dealcmd p s1;
                 let s = s\<lparr>console := console s @ [LF]\<rparr>;
                 ser_hal_free (g_buf s) s
               });
         Some (s\<lparr>g_i := 0, g_buf := NULL\<rparr>)
       })"
  proof -
    have "ld p off_cmd s1 = Some (?pkt ! 5)" using b1 six by (simp add: mem_simps)
    then show ?thesis
      using i len lst st h(2) parse buf by (simp add: rcv_byte_def Let_def p_def)
  qed
  show ?thesis
  proof (cases "xor_list ?pkt = 0")
    case False
    then have "rcv_byte ch s = Some (s1\<lparr>g_i := 0, blocks := h\<rparr>)"
      using body p0 b1 hp by (simp add: ser_hal_free_def mem_simps s1_def)
    moreover have "mem_ok (s1\<lparr>g_i := 0, blocks := h\<rparr>)"
      using ok1 h(1) by (auto simp: mem_ok_def s1_def p_def split: if_splits)
    ultimately show ?thesis
      using d False hd by (simp add: rcv_rel_def quiet_def s1_def)
  next
    case True
    have fr: "?pkt = frame (?pkt ! 5) (?pkt ! 4) (drop HDR_LEN ?pkt)"
      using block_is_frame [OF six plen ph] True by simp
    have "if ?pkt ! 5 = 0 then rcv_byte ch s = None
      else \<exists>s' h'. rcv_byte ch s = Some s' \<and> rcv_rel h' s' [] \<and> delivered h s ?pkt h' s'"
    proof (cases "?pkt ! 5 AND REPLY_MASK = 0")
      case False
      let ?s' = "s1\<lparr>replied_pkt := p, replied := 1, g_i := 0, g_buf := NULL\<rparr>"
      have "rcv_byte ch s = Some ?s'" using body True False by (simp add: ser_hal_tellsend_def)
      moreover have "rcv_rel (h(p \<mapsto> ?pkt)) ?s' []"
        using ok1 hd by (simp add: rcv_rel_def mem_ok_def s1_def)
      moreover have "delivered h s ?pkt (h(p \<mapsto> ?pkt)) ?s'"
        using False h(1) by (simp add: delivered_def s1_def p_def)
      moreover have "?pkt ! 5 \<noteq> 0" using False by auto
      ultimately show ?thesis by auto
    next
      case request: True
      show ?thesis
      proof (cases "?pkt ! 5 = 0")
        case zero: True
        then have "ser_cmd_dealcmd p s1 = None"
          using dealcmd_zero [OF ok1] b1 fr by metis
        with body True zero show ?thesis by simp
      next
        case False
        have "length (drop HDR_LEN ?pkt) \<le> 249"
          using plen unat_byte_less [of "?pkt ! 2"] by simp
        then obtain s2 where s2: "ser_cmd_dealcmd p s1 = Some (err_ok, s2)" "dispatched s1 s2"
          and ans: "malloc_total s1 \<Longrightarrow> dev s2 = dev s1 @ tx_events s1
            (frame REPLY_MASK (?pkt ! 4) (answer (handler_of (?pkt ! 5)) (drop HDR_LEN ?pkt)))"
          using dealcmd_effect [OF ok1, of p "?pkt ! 5" "?pkt ! 4" "drop HDR_LEN ?pkt"] b1 fr False by auto
        note fs = dispatched_frame [OF s2(2)]
        let ?s' = "s2\<lparr>console := console s2 @ [LF], blocks := h, g_i := 0, g_buf := NULL\<rparr>"
        have "rcv_byte ch s = Some ?s'"
          using body True request s2(1) fs p0 hp
          by (simp add: ser_hal_free_def mem_simps s1_def p_def)
        moreover have "rcv_rel h ?s' []"
          using dispatched_mem_ok [OF s2(2) ok1] fs hd h(1)
          by (auto simp: rcv_rel_def mem_ok_def s1_def p_def split: if_splits)
        moreover have "delivered h s ?pkt h ?s'"
          using request fs ans by (simp add: delivered_def s1_def malloc_total_def tx_events_def)
        ultimately show ?thesis using False by auto
      qed
    qed
    then show ?thesis using d True fr by simp
  qed
qed

lemma deframe_next:
  assumes "deframe acc ch = (acc', r)"
  shows "acc' = acc @ [ch] \<or> acc' = []"
  using assms by (auto simp: deframe_def Let_def split: if_splits)

lemma rcv_step:
  assumes rel: "rcv_rel h s acc"
  shows "case snd (deframe acc ch) of
       None \<Rightarrow> \<exists>s'. rcv_byte ch s = Some s' \<and> quiet s s'
         \<and> (rcv_rel h s' (fst (deframe acc ch)) \<or> \<not> malloc_total s \<and> rcv_rel h s' [])
     | Some pkt \<Rightarrow>
         pkt = acc @ [ch] \<and> pkt = frame (pkt ! 5) (pkt ! 4) (drop HDR_LEN pkt)
         \<and> fst (deframe acc ch) = []
         \<and> (if pkt ! 5 = 0 then rcv_byte ch s = None
            else \<exists>s' h'. rcv_byte ch s = Some s' \<and> rcv_rel h' s' [] \<and> delivered h s pkt h' s')"
proof -
  have part: "partial acc" using rel by (simp add: rcv_rel_def)
  consider (header) "length acc \<le> 1" | (len) "length acc = 2"
    | (body) "3 \<le> length acc" "Suc (length acc) < unat (acc ! 2)"
    | (last) "3 \<le> length acc" "Suc (length acc) = unat (acc ! 2)"
    using part by (fastforce simp: partial_def split: if_splits)
  then show ?thesis
  proof cases
    case header
    then show ?thesis using rcv_header [OF rel, of ch] by auto
  next
    case len
    then show ?thesis using rcv_length [OF rel, of ch] by auto
  next
    case body
    then show ?thesis using rcv_body [OF rel, of ch] by auto
  next
    case last
    then show ?thesis using rcv_last [OF rel, of ch] by (auto split: option.splits)
  qed
qed

lemma frame_in_stream:
  assumes "sublist xs ys"
  shows "sublist xs (zs @ ys)"
  using assms by (auto simp: sublist_append)

lemma receiver_fault:
  assumes "rcv_rel h s acc" and "run_list rcv_byte bs s = None"
  shows "\<exists>sn data. sublist (frame 0 sn data) (acc @ bs)"
  using assms
proof (induction bs arbitrary: h s acc)
  case (Cons ch bs)
  note step = rcv_step [OF Cons.prems(1), of ch]
  show ?case
  proof (cases "snd (deframe acc ch)")
    case None
    with step obtain s' acc' where s': "rcv_byte ch s = Some s'" "rcv_rel h s' acc'"
      and "acc' = fst (deframe acc ch) \<or> acc' = []" by auto
    then have "acc' = acc @ [ch] \<or> acc' = []"
      using deframe_next [of acc ch] by (cases "deframe acc ch") auto
    moreover obtain sn data where "sublist (frame 0 sn data) (acc' @ bs)"
      using Cons.IH [OF s'(2)] Cons.prems(2) s'(1) by auto
    ultimately have "sublist (frame 0 sn data) (acc @ ch # bs)"
      using frame_in_stream [of _ bs "acc @ [ch]"] by auto
    then show ?thesis by blast
  next
    case (Some pkt)
    show ?thesis
    proof (cases "pkt ! 5 = 0")
      case True
      with Some step have "frame 0 (pkt ! 4) (drop HDR_LEN pkt) = acc @ [ch]" by auto
      then have "sublist (frame 0 (pkt ! 4) (drop HDR_LEN pkt)) ((acc @ [ch]) @ bs)"
        by (simp only: sublist_append sublist_order.order_refl simp_thms)
      then show ?thesis by auto
    next
      case False
      with Some step obtain s' h' where s': "rcv_byte ch s = Some s'" "rcv_rel h' s' []" by auto
      then obtain sn data where "sublist (frame 0 sn data) ([] @ bs)"
        using Cons.IH [OF s'(2)] Cons.prems(2) by auto
      then have "sublist (frame 0 sn data) (acc @ ch # bs)"
        using frame_in_stream [of _ bs "acc @ [ch]"] by auto
      then show ?thesis by blast
    qed
  qed
qed simp

text \<open>A device that takes everything it is given.\<close>

definition device_ok :: "uart \<Rightarrow> bool" where
  "device_ok s \<longleftrightarrow> (\<forall>k n. wr_accept s k n = int n)"

lemma tx_events_ok: "device_ok s \<Longrightarrow> tx_events s bs = [TxWrite bs]"
  by (simp add: tx_events_def device_ok_def)

definition is_reply :: "byte list \<Rightarrow> bool" where
  "is_reply pkt \<longleftrightarrow> pkt ! 5 AND REPLY_MASK \<noteq> 0"

text \<open>The packet that answers a request.\<close>

definition reply_to :: "byte list \<Rightarrow> byte list" where
  "reply_to pkt = frame REPLY_MASK (pkt ! 4) (answer (handler_of (pkt ! 5)) (drop HDR_LEN pkt))"

lemma receiver_run:
  assumes "rcv_rel h s acc" and "malloc_total s" and "device_ok s"
    and "\<forall>pkt \<in> set (deframe_all acc bs). pkt ! 5 \<noteq> 0"
  shows "\<exists>s' h'. run_list rcv_byte bs s = Some s' \<and> rcv_rel h' s' (deframe_end acc bs)
    \<and> malloc_total s' \<and> device_ok s'
    \<and> dev s' = dev s @ map (TxWrite \<circ> reply_to) (filter (Not \<circ> is_reply) (deframe_all acc bs))
    \<and> (filter is_reply (deframe_all acc bs) = [] \<longrightarrow> h' = h)
    \<and> (finite (dom h) \<longrightarrow> finite (dom h')
         \<and> card (dom h') = card (dom h) + length (filter is_reply (deframe_all acc bs)))"
  using assms
proof (induction bs arbitrary: h s acc)
  case (Cons ch bs)
  note step = rcv_step [OF Cons.prems(1), of ch]
  obtain acc' r where d: "deframe acc ch = (acc', r)" by (cases "deframe acc ch")
  show ?case
  proof (cases r)
    case None
    with step d Cons.prems(2) obtain s1 where s1: "rcv_byte ch s = Some s1" "quiet s s1" "rcv_rel h s1 acc'"
      by auto
    moreover have "malloc_total s1" "device_ok s1" "dev s1 = dev s"
      using s1(2) Cons.prems(2,3) by (auto simp: quiet_def malloc_total_def device_ok_def)
    ultimately show ?thesis
      using Cons.IH [of h s1 acc'] Cons.prems(4) d None by auto
  next
    case (Some pkt)
    with step d Cons.prems(4) obtain s1 h1 where s1: "rcv_byte ch s = Some s1" "rcv_rel h1 s1 []"
        "delivered h s pkt h1 s1" and a: "acc' = []"
      by auto
    have "malloc_total s1" "device_ok s1"
      using s1(3) Cons.prems(2,3) by (auto simp: delivered_def malloc_total_def device_ok_def)
    then obtain s2 h2 where s2: "run_list rcv_byte bs s1 = Some s2" "rcv_rel h2 s2 (deframe_end [] bs)"
      "malloc_total s2" "device_ok s2"
      "dev s2 = dev s1 @ map (TxWrite \<circ> reply_to) (filter (Not \<circ> is_reply) (deframe_all [] bs))"
      "filter is_reply (deframe_all [] bs) = [] \<longrightarrow> h2 = h1"
      "finite (dom h1) \<longrightarrow> finite (dom h2)
         \<and> card (dom h2) = card (dom h1) + length (filter is_reply (deframe_all [] bs))"
      using Cons.IH [OF s1(2)] Cons.prems(4) d Some a by (auto simp: comp_def)
    moreover have "dev s1 = dev s @ (if is_reply pkt then [] else [TxWrite (reply_to pkt)])"
      using s1(3) Cons.prems(2,3) by (auto simp: delivered_def is_reply_def reply_to_def tx_events_ok)
    moreover have "\<not> is_reply pkt \<Longrightarrow> h1 = h"
      using s1(3) by (simp add: delivered_def is_reply_def)
    moreover have "finite (dom h) \<longrightarrow> finite (dom h1) \<and> card (dom h1) = card (dom h) + (if is_reply pkt then 1 else 0)"
      using s1(3) by (auto simp: delivered_def is_reply_def domIff card_insert_if)
    ultimately show ?thesis using s1(1) d Some a by (auto simp: comp_def)
  qed
qed (auto simp: rcv_rel_def)

text \<open>A packet with command 0 stops the program, whatever follows it.\<close>

lemma receiver_run_zero:
  assumes "rcv_rel h s acc" and "malloc_total s"
    and "\<exists>pkt \<in> set (deframe_all acc bs). pkt ! 5 = 0"
  shows "run_list rcv_byte bs s = None"
  using assms
proof (induction bs arbitrary: h s acc)
  case (Cons ch bs)
  note step = rcv_step [OF Cons.prems(1), of ch]
  obtain acc' r where d: "deframe acc ch = (acc', r)" by (cases "deframe acc ch")
  show ?case
  proof (cases r)
    case None
    with step d Cons.prems(2) obtain s1 where s1: "rcv_byte ch s = Some s1" "quiet s s1" "rcv_rel h s1 acc'"
      by auto
    moreover have "malloc_total s1" using s1(2) Cons.prems(2) by (auto simp: quiet_def malloc_total_def)
    ultimately show ?thesis using Cons.IH [of h s1 acc'] Cons.prems(3) d None by auto
  next
    case (Some pkt)
    show ?thesis
    proof (cases "pkt ! 5 = 0")
      case False
      with step d Some obtain s1 h1 where s1: "rcv_byte ch s = Some s1" "rcv_rel h1 s1 []"
          "delivered h s pkt h1 s1" and a: "acc' = []" by auto
      moreover have "malloc_total s1" using s1(3) Cons.prems(2) by (auto simp: delivered_def malloc_total_def)
      ultimately show ?thesis using Cons.IH [of h1 s1 "[]"] Cons.prems(3) d Some a False by auto
    qed (use step d Some in auto)
  qed
qed simp

section \<open>Deframing\<close>

lemma deframe_all_noise:
  "0x40 \<notin> set noise \<Longrightarrow> deframe_all [] (noise @ bs) = deframe_all [] bs"
  by (induction noise) (auto simp: deframe_def mac_head_def)

lemma deframe_all_rest:
  assumes "3 \<le> length pre" and "rest \<noteq> []" and "length (pre @ rest) = unat (pre ! 2)"
    and "xor_list (pre @ rest) = 0"
  shows "deframe_all pre (rest @ bs) = (pre @ rest) # deframe_all [] bs
    \<and> deframe_end pre (rest @ bs) = deframe_end [] bs"
  using assms
proof (induction rest arbitrary: pre)
  case (Cons b rest)
  have nth: "(pre @ [b]) ! 2 = pre ! 2" using Cons.prems(1) by (simp add: nth_append)
  show ?case
  proof (cases rest)
    case Nil
    then show ?thesis using Cons.prems nth by (auto simp: deframe_def Let_def)
  next
    case (Cons b' rest')
    then have "deframe pre b = (pre @ [b], None)"
      using Cons.prems nth by (auto simp: deframe_def Let_def)
    then show ?thesis
      using Cons.IH [of "pre @ [b]"] Cons.prems nth Cons by simp
  qed
qed simp

lemma deframe_frame:
  assumes "length data \<le> 249"
  shows "deframe_all [] (frame cmd sn data @ bs) = frame cmd sn data # deframe_all [] bs
    \<and> deframe_end [] (frame cmd sn data @ bs) = deframe_end [] bs"
proof -
  let ?len = "6 + of_nat (length data) :: byte"
  obtain rest where f: "frame cmd sn data = [0x40, 0x3E, ?len] @ rest" and rest: "rest \<noteq> []"
    by (simp add: frame_def Let_def mac_head_def)
  have len: "unat ?len = 6 + length data" by (rule unat_len_byte [OF assms])
  have "deframe_all [0x40, 0x3E, ?len] (rest @ bs) = ([0x40, 0x3E, ?len] @ rest) # deframe_all [] bs
    \<and> deframe_end [0x40, 0x3E, ?len] (rest @ bs) = deframe_end [] bs"
    by (rule deframe_all_rest) (use rest len f [symmetric] xor_frame [of cmd sn data] in
      \<open>auto simp del: append.simps\<close>)
  then show ?thesis using len by (simp add: f deframe_def mac_head_def)
qed

lemmas deframe_all_frame = deframe_frame [THEN conjunct1]
  and deframe_end_frame = deframe_frame [THEN conjunct2]

lemma deframe_end_noise:
  "0x40 \<notin> set noise \<Longrightarrow> deframe_end [] (noise @ bs) = deframe_end [] bs"
  by (induction noise) (auto simp: deframe_def mac_head_def)

lemma deframe_noisy_frames:
  assumes "\<forall>(noise, cmd, sn, data) \<in> set pkts. 0x40 \<notin> set noise \<and> length data \<le> 249"
  shows "deframe_all [] (concat (map (\<lambda>(noise, cmd, sn, data). noise @ frame cmd sn data) pkts))
      = map (\<lambda>(noise, cmd, sn, data). frame cmd sn data) pkts
    \<and> deframe_end [] (concat (map (\<lambda>(noise, cmd, sn, data). noise @ frame cmd sn data) pkts)) = []"
  using assms
  by (induction pkts) (auto simp: deframe_all_noise deframe_all_frame deframe_end_noise deframe_end_frame)

lemma rx_bytes_append: "rx_bytes (evs @ evs') = rx_bytes evs @ rx_bytes evs'"
  by (induction evs rule: rx_bytes.induct) simp_all

lemma rx_bytes_all: "rx_bytes (map RxByte bs) = bs"
  by (induction bs) simp_all

text \<open>At the start of a header, other characters than the first of the header are skipped.\<close>

lemma noise_ignored:
  assumes "rcv_rel h s []" and "0x40 \<notin> set noise"
  shows "\<exists>s'. run_list rcv_byte noise s = Some s' \<and> rcv_rel h s' [] \<and> quiet s s'"
  using assms
proof (induction noise arbitrary: s)
  case Nil
  then show ?case by (simp add: quiet_def)
next
  case (Cons ch noise)
  obtain s1 where s1: "rcv_byte ch s = Some s1" "rcv_rel h s1 []" "quiet s s1"
    using rcv_header [OF Cons.prems(1), of ch] Cons.prems(2) by (auto simp: deframe_def mac_head_def)
  with Cons.IH [OF s1(2)] Cons.prems(2) show ?case by (auto simp: quiet_def)
qed

section \<open>Properties of the receiver\<close>

text \<open>C7. Provided that every allocation succeeds, that the device takes all bytes it is given and that no
  complete packet has command 0: whatever the events of the device, the receiver's loop answers exactly the
  requests contained in the byte stream, in their order, one reply packet each. The packets are those the
  deframer specification finds; replies are not answered, bytes that belong to no packet have no effect.
  The blocks allocated at the end are one for each reply packet of the stream (\<open>keep\<close>: they were handed to the
  mailbox, which holds one, so that of two replies one is lost), and possibly the buffer of a packet under way;
  nothing is left of the requests.\<close>

theorem ser_cmd_rcv_answers_requests:
  assumes "malloc_total (uart_init env acc)" and "device_ok (uart_init env acc)"
    and "\<forall>pkt \<in> set (deframe_all [] (rx_bytes evs)). pkt ! 5 \<noteq> 0"
  shows "\<exists>s' keep. ser_cmd_rcv evs (uart_init env acc) = Some s'
    \<and> dev s' = map (TxWrite \<circ> reply_to) (filter (Not \<circ> is_reply) (deframe_all [] (rx_bytes evs)))
    \<and> finite keep \<and> card keep = length (filter is_reply (deframe_all [] (rx_bytes evs)))
    \<and> keep \<subseteq> dom (blocks s') \<and> dom (blocks s') \<subseteq> insert (g_buf s') keep"
proof -
  have "dev (uart_init env acc) = []" by (simp add: uart_init_def)
  then obtain s' h' acc' where "run_list rcv_byte (rx_bytes evs) (uart_init env acc) = Some s'"
    and rel: "rcv_rel h' s' acc'"
    and "dev s' = map (TxWrite \<circ> reply_to) (filter (Not \<circ> is_reply) (deframe_all [] (rx_bytes evs)))"
    and "finite (dom h')" "card (dom h') = length (filter is_reply (deframe_all [] (rx_bytes evs)))"
    using receiver_run [OF rcv_rel_start assms] by auto
  moreover have "dom h' \<subseteq> dom (blocks s') \<and> dom (blocks s') \<subseteq> insert (g_buf s') (dom h')"
    using rel by (auto simp: rcv_rel_def split: if_splits)
  ultimately show ?thesis by (auto simp: ser_cmd_rcv_run)
qed

theorem ser_cmd_rcv_answers_requests_witness:
  "\<exists>s'. ser_cmd_rcv [RxByte 0x55, RxFail, RxByte 0x40, RxByte 0x3E, RxByte 6, RxByte 0x7D, RxByte 7, RxByte 2]
          uart_calm = Some s' \<and> dev s' = [TxWrite (frame 0x80 7 [5])]"
  using ser_cmd_rcv_answers_requests [of "\<lambda>_ _. Some (\<lambda>_. 0)" "\<lambda>_ n. int n"
      "[RxByte 0x55, RxFail, RxByte 0x40, RxByte 0x3E, RxByte 6, RxByte 0x7D, RxByte 7, RxByte 2]"]
  by (auto simp: uart_calm_def uart_init_def malloc_total_def device_ok_def deframe_def mac_head_def
      is_reply_def reply_to_def handler_of_def)

text \<open>C8. The receiver is memory safe in every environment (allocations may fail, writes may be
  short, the stream is arbitrary): if it ever makes an undefined access, then the stream contains, byte
  for byte, a well-formed packet with command 0.\<close>

theorem ser_cmd_rcv_faults_only_on_command_zero:
  assumes "ser_cmd_rcv evs (uart_init env acc) = None"
  shows "\<exists>sn data. sublist (frame 0 sn data) (rx_bytes evs)"
  using receiver_fault [OF rcv_rel_start] assms by (simp add: ser_cmd_rcv_run)

theorem ser_cmd_rcv_faults_only_on_command_zero_witness:
  "\<exists>sn data. sublist (frame 0 sn data)
     (rx_bytes [RxByte 0x40, RxByte 0x3E, RxByte 6, RxByte 0x7F, RxByte 7, RxByte 0])"
proof -
  let ?evs = "[RxByte 0x40, RxByte 0x3E, RxByte 6, RxByte 0x7F, RxByte 7, RxByte 0]"
  have "run_list rcv_byte (rx_bytes ?evs) (uart_init (\<lambda>_ _. Some (\<lambda>_. 0)) (\<lambda>_ n. int n)) = None"
    by (rule receiver_run_zero [OF rcv_rel_start])
      (simp_all add: malloc_total_def uart_init_def deframe_def mac_head_def)
  then show ?thesis
    by (intro ser_cmd_rcv_faults_only_on_command_zero) (simp add: ser_cmd_rcv_run)
qed

text \<open>C13. Requests sent over a line with noise between them are all served: the receiver, started anew,
  writes one reply for each of them, in their order, with its sequence number and the answer of its handler,
  and keeps no memory. The noise must not contain the first header character; the commands are not 0 and not those
  of replies; every allocation succeeds, and the device takes what it is given.\<close>

theorem frames_survive_noise:
  assumes "malloc_total (uart_init env acc)" and "device_ok (uart_init env acc)"
    and "rx_bytes evs = concat (map (\<lambda>(noise, cmd, sn, data). noise @ frame cmd sn data) pkts)"
    and "\<forall>(noise, cmd, sn, data) \<in> set pkts.
           0x40 \<notin> set noise \<and> length data \<le> 249 \<and> cmd \<noteq> 0 \<and> cmd AND REPLY_MASK = 0"
  shows "\<exists>s'. ser_cmd_rcv evs (uart_init env acc) = Some s' \<and> blocks s' = Map.empty
    \<and> dev s' = map (\<lambda>(noise, cmd, sn, data).
                      TxWrite (frame REPLY_MASK sn (answer (handler_of cmd) data))) pkts"
proof -
  have "\<forall>(noise, cmd, sn, data) \<in> set pkts. 0x40 \<notin> set noise \<and> length data \<le> 249"
    using assms(4) by auto
  from deframe_noisy_frames [OF this]
  have bs: "deframe_all [] (rx_bytes evs) = map (\<lambda>(noise, cmd, sn, data). frame cmd sn data) pkts"
    and acc0: "deframe_end [] (rx_bytes evs) = []"
    unfolding assms(3) by blast+
  have "\<forall>pkt \<in> set (deframe_all [] (rx_bytes evs)). pkt ! 5 \<noteq> 0 \<and> \<not> is_reply pkt"
    using assms(4) by (auto simp: bs is_reply_def frame_nth)
  then have run: "\<forall>pkt \<in> set (deframe_all [] (rx_bytes evs)). pkt ! 5 \<noteq> 0"
    and none: "filter is_reply (deframe_all [] (rx_bytes evs)) = []"
    and all: "filter (Not \<circ> is_reply) (deframe_all [] (rx_bytes evs)) = deframe_all [] (rx_bytes evs)"
    by (auto simp: filter_empty_conv)
  have "map (TxWrite \<circ> reply_to) (deframe_all [] (rx_bytes evs))
      = map (\<lambda>(noise, cmd, sn, data). TxWrite (frame REPLY_MASK sn (answer (handler_of cmd) data))) pkts"
    by (auto simp: bs reply_to_def frame_nth)
  then show ?thesis
    using receiver_run [OF rcv_rel_start assms(1,2) run] none all acc0
    by (auto simp: ser_cmd_rcv_run rcv_rel_def uart_init_def)
qed

theorem frames_survive_noise_witness:
  "\<exists>s'. ser_cmd_rcv (map RxByte ([0x00, 0x3E] @ frame 0x61 1 [0xAA] @ [0x41] @ frame 0x02 2 [])) uart_calm = Some s'
     \<and> blocks s' = Map.empty \<and> dev s' = [TxWrite (frame REPLY_MASK 1 [0xAA]), TxWrite (frame REPLY_MASK 2 [5])]"
  using frames_survive_noise [of "\<lambda>_ _. Some (\<lambda>_. 0)" "\<lambda>_ n. int n"
      "map RxByte ([0x00, 0x3E] @ frame 0x61 1 [0xAA] @ [0x41] @ frame 0x02 2 [])"
      "[([0x00, 0x3E], 0x61, 1, [0xAA]), ([0x41], 0x02, 2, [])]"]
  by (simp add: rx_bytes_append rx_bytes_all uart_calm_def uart_init_def malloc_total_def device_ok_def handler_of_def)

text \<open>C14. Resynchronisation loses a packet: when the byte before a packet happens to be the first
  header character, the receiver takes it for the start of a header, and, having compared the packet's
  own first character with the second header character only, throws both away. If that character does not
  recur in the packet, the packet is lost as a whole, in every environment: nothing is written to the device (the
  same packet without the stray character is answered), nothing is posted in the mailbox or allocated, and the
  receiver is back at the start of a header.\<close>

theorem stray_head_character_loses_packet:
  assumes "rx_bytes evs = 0x40 # frame cmd sn data" and "0x40 \<notin> set (tl (frame cmd sn data))"
  shows "\<exists>s'. ser_cmd_rcv evs (uart_init env acc) = Some s' \<and> dev s' = [] \<and> replied s' = 0
    \<and> blocks s' = Map.empty \<and> g_i s' = 0"
proof -
  obtain f where f: "frame cmd sn data = 0x40 # f" and nof: "0x40 \<notin> set f"
    using assms(2) by (simp add: frame_def Let_def mac_head_def)
  let ?s = "uart_init env acc"
  obtain s1 where s1: "rcv_byte 0x40 ?s = Some s1" "rcv_rel Map.empty s1 [0x40]" "quiet ?s s1"
    using rcv_header [OF rcv_rel_start, of "0x40" env acc] by (auto simp: deframe_def mac_head_def)
  obtain s2 where s2: "rcv_byte 0x40 s1 = Some s2" "rcv_rel Map.empty s2 []" "quiet s1 s2"
    using rcv_header [OF s1(2), of "0x40"] by (auto simp: deframe_def mac_head_def)
  obtain s3 where s3: "run_list rcv_byte f s2 = Some s3" "rcv_rel Map.empty s3 []" "quiet s2 s3"
    using noise_ignored [OF s2(2) nof] by blast
  have "ser_cmd_rcv evs ?s = Some s3"
    using s1(1) s2(1) s3(1) by (simp add: ser_cmd_rcv_run assms(1) f)
  moreover have "dev ?s = []" "replied ?s = 0" by (simp_all add: uart_init_def)
  ultimately show ?thesis
    using s1(3) s2(3) s3(2,3) by (auto simp: quiet_def rcv_rel_def unat_eq_0)
qed

theorem stray_head_character_loses_packet_witness:
  "\<exists>s'. ser_cmd_rcv (map RxByte (0x40 # frame 0x61 1 [0xAA])) uart_calm = Some s' \<and> dev s' = [] \<and> replied s' = 0
     \<and> blocks s' = Map.empty \<and> g_i s' = 0"
  using stray_head_character_loses_packet [of "map RxByte (0x40 # frame 0x61 1 [0xAA])" "0x61" 1 "[0xAA]"
      "\<lambda>_ _. Some (\<lambda>_. 0)" "\<lambda>_ n. int n"]
  by (simp add: rx_bytes_all uart_calm_def frame_def Let_def mac_head_def)

section \<open>A request and its reply over the wire\<close>

lemma send_begin_effect:
  assumes "mem_ok s" and "malloc_total s" and "device_ok s" and "length data \<le> 249"
    and "unat len = length data"
  shows "\<exists>p s'. ser_cmd_send_begin cmd (Some data) len s = Some (p, s') \<and> p \<noteq> NULL \<and> blocks s p = None
    \<and> s' = s\<lparr>send_sn := send_sn s + 1, dev := dev s @ [TxWrite (frame cmd (send_sn s) data)],
             calls := p, blocks := (blocks s)(p \<mapsto> frame cmd (send_sn s) data)\<rparr> \<and> p = Suc (calls s)"
proof -
  have sz: "unat (6 + len) = 6 + length data"
    using assms(4,5) by (simp add: unat_word_ariths)
  obtain p c where p: "p \<noteq> NULL" "blocks s p = None" "length c = 6 + length data" "p = Suc (calls s)"
      "malloc (6 + length data) s = (p, s\<lparr>blocks := (blocks s)(p \<mapsto> c), calls := p\<rparr>)"
    by (rule malloc_total_cases [OF assms(1,2)])
  let ?f = "frame cmd (send_sn s) data"
  let ?m = "s\<lparr>blocks := (blocks s)(p \<mapsto> c), calls := p\<rparr>"
  have build: "build_pkt cmd (send_sn s) p (Some data) len ?m
      = Some (s\<lparr>calls := p, blocks := (blocks s)(p \<mapsto> ?f)\<rparr>)"
    using build_pkt_frame [of ?m p c data len "Some data" "[]"] p(3) assms(4,5) by simp
  let ?m' = "s\<lparr>calls := p, blocks := (blocks s)(p \<mapsto> ?f), send_sn := send_sn s + 1\<rparr>"
  have "device_ok ?m'" using assms(3) by (simp add: device_ok_def)
  then have "ser_hal_write p (6 + len) ?m' = Some (?m'\<lparr>dev := dev s @ [TxWrite ?f]\<rparr>)"
    using ser_hal_write_block [of ?m' p ?f "6 + len"] sz by (simp add: tx_events_ok)
  then show ?thesis
    using p sz build by (simp add: ser_cmd_send_begin_def ser_hal_malloc_def)
qed

end
