(* ===== verification/Uart_Mailbox.thy ===== *)
theory Uart_Mailbox
  imports Uart_Receiver
begin

text \<open>
  The two ends of the protocol together: a request travels to the peer, its reply comes back and is
  handed by the receiving thread to the sending one (\<open>main.c\<close> runs \<open>ser_cmd_rcv\<close> in a second thread).
  The hand-over through \<open>replied\<close> and \<open>replied_pkt\<close> (\<open>ser_hal.c\<close>) is then modelled statement by
  statement, as interleaved steps of the two threads.
\<close>

section \<open>A request and its reply\<close>

lemma rcv_frame:
  assumes "rcv_rel h s []" and "malloc_total s" and "device_ok s" and "length data \<le> 249"
    and "cmd \<noteq> 0" and "cmd AND REPLY_MASK = 0"
  shows "\<exists>s'. run_list rcv_byte (frame cmd sn data) s = Some s' \<and> rcv_rel h s' []
    \<and> malloc_total s' \<and> device_ok s'
    \<and> dev s' = dev s @ [TxWrite (frame REPLY_MASK sn (answer (handler_of cmd) data))]"
proof -
  have one: "deframe_all [] (frame cmd sn data) = [frame cmd sn data]" "deframe_end [] (frame cmd sn data) = []"
    using deframe_all_frame [OF assms(4), of cmd sn "[]"] deframe_end_frame [OF assms(4), of cmd sn "[]"]
    by simp_all
  then have "\<forall>pkt \<in> set (deframe_all [] (frame cmd sn data)). pkt ! 5 \<noteq> 0"
    using assms(5) by (simp add: frame_nth)
  then show ?thesis
    using receiver_run [OF assms(1-3)] one assms(6)
    by (fastforce simp: is_reply_def reply_to_def frame_nth)
qed

text \<open>While a packet is under way nothing but the receiver's own variables changes.\<close>

lemma rcv_quiet_run:
  assumes "rcv_rel h s acc" and "malloc_total s" and "deframe_all acc bs = []"
  shows "\<exists>s'. run_list rcv_byte bs s = Some s' \<and> rcv_rel h s' (deframe_end acc bs) \<and> quiet s s'"
  using assms
proof (induction bs arbitrary: s acc)
  case (Cons ch bs)
  obtain acc1 r where d: "deframe acc ch = (acc1, r)" by (cases "deframe acc ch")
  with Cons.prems(3) have r: "r = None" by (cases r) auto
  with rcv_step [OF Cons.prems(1), of ch] d Cons.prems(2)
  obtain s1 where s1: "rcv_byte ch s = Some s1" "quiet s s1" "rcv_rel h s1 acc1" by auto
  have "malloc_total s1" using s1(2) Cons.prems(2) by (auto simp: quiet_def malloc_total_def)
  then obtain s' where "run_list rcv_byte bs s1 = Some s'" "rcv_rel h s' (deframe_end acc1 bs)" "quiet s1 s'"
    using Cons.IH [OF s1(3)] Cons.prems(3) d r by auto
  then show ?case using s1 d r by (auto simp: quiet_def)
qed (auto simp: quiet_def)

lemma rcv_reply:
  assumes "rcv_rel h s acc" and "malloc_total s" and "deframe_all acc bs = [pkt]" and "is_reply pkt"
  shows "\<exists>s' q. run_list rcv_byte bs s = Some s' \<and> replied s' = 1 \<and> replied_pkt s' = q
    \<and> h q = None \<and> rcv_rel (h(q \<mapsto> pkt)) s' (deframe_end acc bs) \<and> dev s' = dev s
    \<and> env_malloc s' = env_malloc s \<and> wr_accept s' = wr_accept s \<and> send_sn s' = send_sn s"
  using assms
proof (induction bs arbitrary: s acc)
  case (Cons ch bs)
  note step = rcv_step [OF Cons.prems(1), of ch]
  obtain acc1 r where d: "deframe acc ch = (acc1, r)" by (cases "deframe acc ch")
  show ?case
  proof (cases r)
    case None
    with step d Cons.prems(2) obtain s1 where s1: "rcv_byte ch s = Some s1" "quiet s s1" "rcv_rel h s1 acc1"
      by auto
    moreover have "malloc_total s1" "dev s1 = dev s" "env_malloc s1 = env_malloc s" "wr_accept s1 = wr_accept s"
        "send_sn s1 = send_sn s"
      using s1(2) Cons.prems(2) by (auto simp: quiet_def malloc_total_def)
    ultimately show ?thesis using Cons.IH [of s1 acc1] Cons.prems(3,4) d None by auto
  next
    case (Some pkt')
    then have p: "pkt' = pkt" and none: "deframe_all acc1 bs = []" using Cons.prems(3) d by auto
    have "pkt ! 5 \<noteq> 0" using Cons.prems(4) by (auto simp: is_reply_def)
    with step d Some p obtain s1 h1 where s1: "rcv_byte ch s = Some s1" "rcv_rel h1 s1 []"
        "delivered h s pkt h1 s1" and a: "acc1 = []" by auto
    have d1: "replied s1 = 1" "h (replied_pkt s1) = None" "h1 = h(replied_pkt s1 \<mapsto> pkt)" "dev s1 = dev s"
      "malloc_total s1" "env_malloc s1 = env_malloc s" "wr_accept s1 = wr_accept s" "send_sn s1 = send_sn s"
      using s1(3) Cons.prems(2,4) by (auto simp: delivered_def is_reply_def malloc_total_def)
    obtain s2 where "run_list rcv_byte bs s1 = Some s2" "rcv_rel h1 s2 (deframe_end [] bs)" "quiet s1 s2"
      using rcv_quiet_run [OF s1(2) d1(5), of bs] none a by auto
    then show ?thesis
      using s1(1) d1
      by (intro exI [of _ s2] exI [of _ "replied_pkt s1"]) (simp add: quiet_def d a del: fun_upd_apply)
  qed
qed simp

lemma rcv_rel_other_block:
  assumes "rcv_rel h s acc" and "h p = Some b"
  shows "blocks s p = Some b"
  using assms by (auto simp: rcv_rel_def split: if_splits)

text \<open>The end of \<open>ser_cmd_send\<close>, once a reply has been posted.\<close>

lemma send_end_effect:
  assumes "replied s \<noteq> 0" and "blocks s (replied_pkt s) = Some (frame cmd sn data)" and "length data \<le> 249"
    and "blocks s p = Some b" and "4 < length b" and "p \<noteq> NULL" and "p \<noteq> replied_pkt s"
  shows "\<exists>s'. ser_cmd_send_end p True junk s = Some (Returned (junk, replied_pkt s, s'))
    \<and> blocks s' = (blocks s)(p := None) \<and> replied s' = 0"
proof -
  let ?f = "frame cmd sn data"
  have len: "ld (replied_pkt s) off_len (s\<lparr>replied := 0\<rparr>) = Some (?f ! 2)"
    using assms(2) by (simp add: mem_simps)
  obtain out where dump: "dump ''ser_hal.c'' 155 (replied_pkt s) (?f ! 2) (s\<lparr>replied := 0\<rparr>)
      = Some (s\<lparr>replied := 0, console := out\<rparr>)"
    using assms(2) unat_len_byte [OF assms(3)] by (simp add: dump_def mem_simps frame_nth)
  have "ser_hal_rcvreply True sn' t s
      = Some (Returned (err_ok, replied_pkt s, s\<lparr>replied := 0, console := out\<rparr>))" for sn' t
    using assms(1) len dump by (simp add: ser_hal_rcvreply_def)
  then show ?thesis
    using assms(4,5,6) by (simp add: ser_cmd_send_end_def ser_hal_free_def mem_simps)
qed

text \<open>C6. A request and its reply make a round trip: the client's \<open>ser_cmd_send\<close> writes one packet;
  a peer that is between packets, receiving those bytes, answers with one packet; when the client's
  receiving thread has received the bytes of the answer, the waiting \<open>ser_cmd_send\<close> returns a live block
  that is the reply to this request (same sequence number, the handler's answer), and its own request
  packet has been freed. The code it returns is \<open>junk\<close>, the uninitialised \<open>ret_res\<close>: it says nothing.\<close>

theorem request_reply_round_trip:
  assumes client: "rcv_rel hc c []" "malloc_total c" "device_ok c"
    and server: "rcv_rel hs sv []" "malloc_total sv" "device_ok sv"
    and data: "length data \<le> 249" "unat len = length data" and cmd: "cmd \<noteq> 0" "cmd AND REPLY_MASK = 0"
  shows "\<exists>p c1 sv1 rep c2 q c3.
      ser_cmd_send_begin cmd (Some data) len c = Some (p, c1)
    \<and> dev c1 = dev c @ [TxWrite (frame cmd (send_sn c) data)] \<and> send_sn c1 = send_sn c + 1
    \<and> run_list rcv_byte (frame cmd (send_sn c) data) sv = Some sv1
    \<and> rep = frame REPLY_MASK (send_sn c) (answer (handler_of cmd) data)
    \<and> dev sv1 = dev sv @ [TxWrite rep]
    \<and> run_list rcv_byte rep c1 = Some c2
    \<and> ser_cmd_send_end p True junk c2 = Some (Returned (junk, q, c3))
    \<and> blocks c3 q = Some rep \<and> blocks c3 p = None \<and> q \<noteq> p"
proof -
  let ?f = "frame cmd (send_sn c) data" and ?ans = "answer (handler_of cmd) data"
  let ?rep = "frame REPLY_MASK (send_sn c) ?ans"
  have ok: "mem_ok c" and hc: "blocks c = hc" using client(1) by (simp_all add: rcv_rel_def)
  obtain p where p: "p \<noteq> NULL" "blocks c p = None" "p = Suc (calls c)" and begin':
    "ser_cmd_send_begin cmd (Some data) len c = Some (p, c\<lparr>send_sn := send_sn c + 1,
        dev := dev c @ [TxWrite ?f], calls := p, blocks := (blocks c)(p \<mapsto> ?f)\<rparr>)"
    using send_begin_effect [OF ok client(2,3) data] by blast
  define c1 where "c1 = c\<lparr>send_sn := send_sn c + 1,
        dev := dev c @ [TxWrite ?f], calls := p, blocks := (blocks c)(p \<mapsto> ?f)\<rparr>"
  have rel1: "rcv_rel (hc(p \<mapsto> ?f)) c1 []"
    using client(1) p(3) by (auto simp: rcv_rel_def c1_def mem_ok_def le_Suc_eq)
  have al: "length ?ans \<le> 249" by (rule answer_bound [OF data(1)])
  have one: "deframe_all [] ?rep = [?rep]"
    using deframe_all_frame [OF al, of REPLY_MASK "send_sn c" "[]"] by simp
  have "is_reply ?rep" by (simp add: is_reply_def frame_nth)
  moreover have "malloc_total c1" using client(2) by (simp add: malloc_total_def c1_def)
  ultimately obtain c2 q where c2: "run_list rcv_byte ?rep c1 = Some c2" "replied c2 = 1"
      "replied_pkt c2 = q" "(hc(p \<mapsto> ?f)) q = None" "rcv_rel (hc(p \<mapsto> ?f, q \<mapsto> ?rep)) c2 (deframe_end [] ?rep)"
    using rcv_reply [OF rel1 _ one] by blast
  have "q \<noteq> p" using c2(4) by auto
  have bq: "blocks c2 q = Some ?rep" and bp: "blocks c2 p = Some ?f"
    using rcv_rel_other_block [OF c2(5)] \<open>q \<noteq> p\<close> by auto
  obtain c3 where "ser_cmd_send_end p True junk c2 = Some (Returned (junk, q, c3))"
      "blocks c3 = (blocks c2)(p := None)"
    using send_end_effect [of c2 REPLY_MASK "send_sn c" ?ans p ?f junk] c2(2,3) bq bp al p(1) \<open>q \<noteq> p\<close>
    by auto
  moreover obtain sv1 where "run_list rcv_byte ?f sv = Some sv1" "dev sv1 = dev sv @ [TxWrite ?rep]"
    using rcv_frame [OF server data(1) cmd] by blast
  moreover have "dev c1 = dev c @ [TxWrite ?f]" "send_sn c1 = send_sn c + 1" by (simp_all add: c1_def)
  ultimately show ?thesis
    using begin' c2(1) bq \<open>q \<noteq> p\<close> unfolding c1_def [symmetric]
    by (intro exI conjI) (assumption | rule refl | simp)+
qed

theorem request_reply_round_trip_witness:
  "\<exists>p c1 sv1 c2 q c3.
      ser_cmd_send_begin 0x61 (Some [0xAA, 0xBB]) 2 uart_calm = Some (p, c1)
    \<and> run_list rcv_byte (frame 0x61 0 [0xAA, 0xBB]) uart_calm = Some sv1
    \<and> dev sv1 = [TxWrite (frame 0x80 0 [0xAA, 0xBB])]
    \<and> run_list rcv_byte (frame 0x80 0 [0xAA, 0xBB]) c1 = Some c2
    \<and> ser_cmd_send_end p True err_busy c2 = Some (Returned (err_busy, q, c3))
    \<and> blocks c3 q = Some (frame 0x80 0 [0xAA, 0xBB])"
proof -
  have "rcv_rel Map.empty uart_calm []" by (simp add: uart_calm_def rcv_rel_start)
  moreover have "malloc_total uart_calm" "device_ok uart_calm" "send_sn uart_calm = 0" "dev uart_calm = []"
    by (simp_all add: uart_calm_def uart_init_def malloc_total_def device_ok_def)
  ultimately show ?thesis
    using request_reply_round_trip [of Map.empty uart_calm Map.empty uart_calm "[0xAA, 0xBB]" 2 "0x61" err_busy]
    by (fastforce simp: handler_of_def)
qed

section \<open>The hand-over between the threads\<close>

text \<open>
  The receiving thread executes \<open>ser_hal_tellsend\<close> (two assignments), the sending thread
  \<open>ser_hal_rcvreply\<close> with a null \<open>pkt\<close>, which is how \<open>main.c\<close> uses it: it polls \<open>replied\<close>, clears it,
  reads \<open>replied_pkt\<close> to dump the packet and reads it again to free it. \<open>mb_live\<close> are the packets that
  are allocated; \<open>mb_fault\<close> records an access to a packet that is not. The accesses are taken to be
  sequentially consistent.
\<close>

datatype rcv_pc = RcvIdle | RcvStored
datatype send_pc = SendPoll | SendSeen | SendCleared | SendDumped

record mailbox =
  mb_replied :: bool
  mb_pkt :: addr
  mb_live :: "addr set"
  mb_rcv :: rcv_pc
  mb_send :: send_pc
  mb_fault :: bool

definition mb_init :: mailbox where
  "mb_init = \<lparr>mb_replied = False, mb_pkt = NULL, mb_live = {}, mb_rcv = RcvIdle, mb_send = SendPoll,
              mb_fault = False\<rparr>"

text \<open>\<open>polite\<close>: the peer sends a reply only once the previous one has been consumed.\<close>

inductive mb_step :: "bool \<Rightarrow> mailbox \<Rightarrow> mailbox \<Rightarrow> bool" for polite :: bool where
  store: "\<lbrakk>mb_rcv m = RcvIdle; q \<noteq> NULL; q \<notin> mb_live m;
           polite \<longrightarrow> \<not> mb_replied m \<and> mb_send m = SendPoll\<rbrakk> \<Longrightarrow>
    mb_step polite m (m\<lparr>mb_live := insert q (mb_live m), mb_pkt := q, mb_rcv := RcvStored\<rparr>)"
| raise: "mb_rcv m = RcvStored \<Longrightarrow>
    mb_step polite m (m\<lparr>mb_replied := True, mb_rcv := RcvIdle\<rparr>)"
| poll: "\<lbrakk>mb_send m = SendPoll; mb_replied m\<rbrakk> \<Longrightarrow> mb_step polite m (m\<lparr>mb_send := SendSeen\<rparr>)"
| clear: "mb_send m = SendSeen \<Longrightarrow>
    mb_step polite m (m\<lparr>mb_replied := False, mb_send := SendCleared\<rparr>)"
| show_pkt: "mb_send m = SendCleared \<Longrightarrow>
    mb_step polite m (m\<lparr>mb_fault := (mb_fault m \<or> mb_pkt m \<notin> mb_live m), mb_send := SendDumped\<rparr>)"
| release: "mb_send m = SendDumped \<Longrightarrow>
    mb_step polite m (m\<lparr>mb_fault := (mb_fault m \<or> mb_pkt m \<notin> mb_live m),
                        mb_live := mb_live m - {mb_pkt m}, mb_send := SendPoll\<rparr>)"

definition mb_reach :: "bool \<Rightarrow> mailbox \<Rightarrow> bool" where
  "mb_reach polite m = (mb_step polite)\<^sup>*\<^sup>* mb_init m"

inductive_cases mb_stepE: "mb_step polite m m'"

definition mb_pointer_ok :: "mailbox \<Rightarrow> bool" where
  "mb_pointer_ok m \<longleftrightarrow> (mb_replied m \<or> mb_send m \<noteq> SendPoll \<or> mb_rcv m = RcvStored \<longrightarrow> mb_pkt m \<noteq> NULL)"

lemma mb_pointer_step: "mb_step polite m m' \<Longrightarrow> mb_pointer_ok m \<Longrightarrow> mb_pointer_ok m'"
  by (induction rule: mb_step.induct) (auto simp: mb_pointer_ok_def)

definition mb_polite_ok :: "mailbox \<Rightarrow> bool" where
  "mb_polite_ok m \<longleftrightarrow> \<not> mb_fault m
     \<and> (mb_live m = {mb_pkt m} \<and> (mb_rcv m = RcvStored \<longrightarrow> \<not> mb_replied m \<and> mb_send m = SendPoll)
          \<and> (mb_send m = SendSeen \<longrightarrow> mb_replied m)
          \<and> (mb_send m = SendCleared \<or> mb_send m = SendDumped \<longrightarrow> \<not> mb_replied m)
          \<and> (mb_rcv m = RcvStored \<or> mb_replied m \<or> mb_send m \<noteq> SendPoll)
        \<or> mb_live m = {} \<and> \<not> mb_replied m \<and> mb_send m = SendPoll \<and> mb_rcv m = RcvIdle)"

lemma rcv_pc_not_stored: "r \<noteq> RcvStored \<longleftrightarrow> r = RcvIdle"
  by (cases r) auto

lemma mb_polite_step: "mb_step True m m' \<Longrightarrow> mb_polite_ok m \<Longrightarrow> mb_polite_ok m'"
  by (induction rule: mb_step.induct) (auto simp: mb_polite_ok_def rcv_pc_not_stored)

lemma mb_reach_invariant:
  assumes "mb_reach polite m" and "I mb_init" and "\<And>m m'. mb_step polite m m' \<Longrightarrow> I m \<Longrightarrow> I m'"
  shows "I m"
  using assms(1) unfolding mb_reach_def
  by (induction rule: rtranclp_induct) (use assms(2,3) in auto)

text \<open>C15. With a peer that sends a reply only once the previous one has been consumed, the hand-over
  is safe under every interleaving of the two threads: the sender never reads a null pointer or a
  freed packet, no packet is freed twice, and at most one packet is allocated at any time, the one the
  mailbox points to.\<close>

theorem mailbox_safe_with_polite_peer:
  assumes "mb_reach True m"
  shows "\<not> mb_fault m \<and> mb_live m \<subseteq> {mb_pkt m}
    \<and> (mb_send m = SendCleared \<or> mb_send m = SendDumped \<longrightarrow> mb_pkt m \<noteq> NULL \<and> mb_pkt m \<in> mb_live m)"
proof -
  have "mb_polite_ok m"
    by (rule mb_reach_invariant [OF assms _ mb_polite_step]) (simp add: mb_polite_ok_def mb_init_def)
  moreover have "mb_pointer_ok m"
    by (rule mb_reach_invariant [OF assms _ mb_pointer_step]) (simp add: mb_pointer_ok_def mb_init_def)
  ultimately show ?thesis by (auto simp: mb_polite_ok_def mb_pointer_ok_def)
qed

text \<open>One run through the mailbox, and the states on the way.\<close>

definition mb_seen :: "addr \<Rightarrow> mailbox" where
  "mb_seen q = \<lparr>mb_replied = False, mb_pkt = q, mb_live = {q}, mb_rcv = RcvIdle, mb_send = SendCleared,
                mb_fault = False\<rparr>"

lemma mb_reach_step: "mb_reach polite m \<Longrightarrow> mb_step polite m m' \<Longrightarrow> mb_reach polite m'"
  unfolding mb_reach_def by (rule rtranclp.rtrancl_into_rtrancl)

lemma mb_reach_seen: "q \<noteq> NULL \<Longrightarrow> mb_reach polite (mb_seen q)"
proof -
  assume q: "q \<noteq> NULL"
  have "mb_reach polite mb_init" by (simp add: mb_reach_def)
  then show ?thesis
    using q by - (drule mb_reach_step, rule mb_step.store [where q = q],
        simp_all add: mb_init_def,
        drule mb_reach_step, rule mb_step.raise, simp,
        drule mb_reach_step, rule mb_step.poll, simp, simp,
        drule mb_reach_step, rule mb_step.clear, simp, simp add: mb_seen_def)
qed

theorem mailbox_safe_with_polite_peer_witness:
  "mb_reach True (mb_seen 5) \<and> \<not> mb_fault (mb_seen 5) \<and> mb_pkt (mb_seen 5) \<in> mb_live (mb_seen 5)"
  using mailbox_safe_with_polite_peer [OF mb_reach_seen [of 5 True]] mb_reach_seen [of 5 True]
  by (simp add: mb_seen_def)

text \<open>C16. Without that discipline the hand-over is a race: when a second reply arrives while the sender
  is between clearing \<open>replied\<close> and reading \<open>replied_pkt\<close>, the sender consumes the second packet, the
  first is never freed, and the flag raised for the second makes the next call access a packet that
  has been freed.\<close>

theorem mailbox_race:
  "\<exists>m. mb_reach False m \<and> mb_fault m \<and> mb_pkt m \<notin> mb_live m \<and> mb_live m \<noteq> {}"
proof -
  define m1 where "m1 = \<lparr>mb_replied = False, mb_pkt = 2, mb_live = {2, 1}, mb_rcv = RcvStored,
    mb_send = SendCleared, mb_fault = False\<rparr>"
  define m2 where "m2 = \<lparr>mb_replied = False, mb_pkt = 2, mb_live = {1}, mb_rcv = RcvStored,
    mb_send = SendPoll, mb_fault = False\<rparr>"
  define m3 where "m3 = \<lparr>mb_replied = False, mb_pkt = 2, mb_live = {1}, mb_rcv = RcvIdle,
    mb_send = SendDumped, mb_fault = True\<rparr>"
  have "mb_step False (mb_seen 1) m1"
    using mb_step.store [of "mb_seen 1" 2 False] by (simp add: mb_seen_def m1_def)
  then have "mb_reach False m1" using mb_reach_step [OF mb_reach_seen [of 1 False]] by simp
  moreover have "mb_step False m1 (m1\<lparr>mb_send := SendDumped\<rparr>)"
    using mb_step.show_pkt [of m1 False] by (simp add: m1_def)
  ultimately have "mb_reach False (m1\<lparr>mb_send := SendDumped\<rparr>)" by (rule mb_reach_step)
  moreover have "mb_step False (m1\<lparr>mb_send := SendDumped\<rparr>) m2"
    using mb_step.release [of "m1\<lparr>mb_send := SendDumped\<rparr>" False] by (simp add: m1_def m2_def)
  ultimately have "mb_reach False m2" by (rule mb_reach_step)
  moreover have "mb_step False m2 (m2\<lparr>mb_replied := True, mb_rcv := RcvIdle\<rparr>)"
    by (rule mb_step.raise) (simp add: m2_def)
  ultimately have "mb_reach False (m2\<lparr>mb_replied := True, mb_rcv := RcvIdle\<rparr>)" by (rule mb_reach_step)
  moreover have "mb_step False (m2\<lparr>mb_replied := True, mb_rcv := RcvIdle\<rparr>)
      (m2\<lparr>mb_replied := True, mb_rcv := RcvIdle, mb_send := SendSeen\<rparr>)"
    using mb_step.poll [of "m2\<lparr>mb_replied := True, mb_rcv := RcvIdle\<rparr>" False] by (simp add: m2_def)
  ultimately have "mb_reach False (m2\<lparr>mb_replied := True, mb_rcv := RcvIdle, mb_send := SendSeen\<rparr>)"
    by (rule mb_reach_step)
  moreover have "mb_step False (m2\<lparr>mb_replied := True, mb_rcv := RcvIdle, mb_send := SendSeen\<rparr>)
      (m2\<lparr>mb_rcv := RcvIdle, mb_send := SendCleared\<rparr>)"
    using mb_step.clear [of "m2\<lparr>mb_replied := True, mb_rcv := RcvIdle, mb_send := SendSeen\<rparr>" False]
    by (simp add: m2_def)
  ultimately have "mb_reach False (m2\<lparr>mb_rcv := RcvIdle, mb_send := SendCleared\<rparr>)" by (rule mb_reach_step)
  moreover have "mb_step False (m2\<lparr>mb_rcv := RcvIdle, mb_send := SendCleared\<rparr>) m3"
    using mb_step.show_pkt [of "m2\<lparr>mb_rcv := RcvIdle, mb_send := SendCleared\<rparr>" False]
    by (simp add: m2_def m3_def)
  ultimately have "mb_reach False m3" by (rule mb_reach_step)
  then show ?thesis by (intro exI [of _ m3]) (simp add: m3_def)
qed

end
