(* ===== verification/Uart_Main.thy ===== *)
theory Uart_Main
  imports Uart_Mailbox
begin

text \<open>
  The program around the protocol (\<open>main.c\<close>) and the opening of the serial device (\<open>ser_hal.c\<close>): the
  options as \<open>getopt\<close> reports them, the attributes given to the device, the request \<open>_send_10\<close>
  assembles on its stack, and the loop that sends it, with a peer at the other end of the line. Words
  are stored least significant byte first and pointers have 8 bytes, as on x86-64.
\<close>

section \<open>The serial device\<close>

text \<open>The fields of \<open>struct termios\<close> the code sets; \<open>cfsetospeed\<close> sets the speed.\<close>

record termios =
  c_iflag :: u32
  c_oflag :: u32
  c_cflag :: u32
  c_lflag :: u32
  c_ospeed :: u32

abbreviation (input) CLOCAL :: u32 where "CLOCAL \<equiv> 0x800"
abbreviation (input) CREAD :: u32 where "CREAD \<equiv> 0x80"
abbreviation (input) CSIZE :: u32 where "CSIZE \<equiv> 0x30"
abbreviation (input) CRTSCTS :: u32 where "CRTSCTS \<equiv> 0x80000000"
abbreviation (input) CS8 :: u32 where "CS8 \<equiv> 0x30"
abbreviation (input) CSTOPB :: u32 where "CSTOPB \<equiv> 0x40"
abbreviation (input) IGNPAR :: u32 where "IGNPAR \<equiv> 0x4"
abbreviation (input) BRKINT :: u32 where "BRKINT \<equiv> 0x2"
abbreviation (input) ICRNL :: u32 where "ICRNL \<equiv> 0x100"
abbreviation (input) INPCK :: u32 where "INPCK \<equiv> 0x10"
abbreviation (input) ISTRIP :: u32 where "ISTRIP \<equiv> 0x20"
abbreviation (input) IXON :: u32 where "IXON \<equiv> 0x400"
abbreviation (input) ICANON :: u32 where "ICANON \<equiv> 0x2"
abbreviation (input) ECHO :: u32 where "ECHO \<equiv> 0x8"
abbreviation (input) ECHOE :: u32 where "ECHOE \<equiv> 0x10"
abbreviation (input) ISIG :: u32 where "ISIG \<equiv> 0x1"
abbreviation (input) B9600 :: u32 where "B9600 \<equiv> 0xD"

definition serial_options :: "termios \<Rightarrow> termios" where
  "serial_options t =
     t\<lparr>c_cflag := (((c_cflag t OR (CLOCAL OR CREAD)) AND NOT CSIZE) AND NOT CRTSCTS OR CS8) AND NOT CSTOPB,
       c_iflag := (c_iflag t OR IGNPAR) AND NOT (BRKINT OR ICRNL OR INPCK OR ISTRIP OR IXON),
       c_oflag := 0,
       c_lflag := 1 AND NOT (ICANON OR ECHO OR ECHOE OR ISIG),
       c_ospeed := B9600\<rparr>"

text \<open>
  The devices: what \<open>open\<close> gives for a name, negative when it fails, and the attributes of each
  descriptor; flushing it is not recorded. The attributes found are saved in \<open>init_options\<close>.
\<close>

record serial =
  dev_open :: "string \<Rightarrow> int"
  dev_attr :: "int \<Rightarrow> termios"
  serial_fd :: int
  init_options :: "termios option"

definition init_serial :: "string \<Rightarrow> serial \<Rightarrow> int \<times> serial" where
  "init_serial dev_name d =
     (let fd = dev_open d dev_name
      in if fd < 0 then (- 1, d)
         else (fd, d\<lparr>init_options := Some (dev_attr d fd),
                     dev_attr := (dev_attr d)(fd := serial_options (dev_attr d fd))\<rparr>))"

abbreviation (input) WRITE_DEV :: string where "WRITE_DEV \<equiv> ''/dev/console''"
abbreviation (input) READ_DEV :: string where "READ_DEV \<equiv> ''/dev/console''"

definition ser_hal_init :: "byte \<Rightarrow> serial \<Rightarrow> serial" where
  "ser_hal_init g_uartx d =
     (let (fd, d) = init_serial (if g_uartx = 0 then WRITE_DEV else READ_DEV) d in d\<lparr>serial_fd := fd\<rparr>)"

definition ser_cmd_init :: "byte \<Rightarrow> serial \<Rightarrow> err_code \<times> serial" where
  "ser_cmd_init g_uartx d = (err_ok, ser_hal_init g_uartx d)"

lemma serial_options_set:
  "c_cflag (serial_options t) AND CSIZE = CS8"
  "c_cflag (serial_options t) AND (CLOCAL OR CREAD) = CLOCAL OR CREAD"
  "c_cflag (serial_options t) AND (CSTOPB OR CRTSCTS) = 0"
  "c_iflag (serial_options t) AND (IGNPAR OR BRKINT OR ICRNL OR INPCK OR ISTRIP OR IXON) = IGNPAR"
  "c_lflag (serial_options t) = 0"
  by (simp_all add: serial_options_def word_bw_assocs bit.conj_disj_distrib2 bit.conj_disj_distrib)

section \<open>Options\<close>

text \<open>What \<open>getopt\<close> returns: \<open>s\<close> with its argument, \<open>r\<close>, or a question mark.\<close>

datatype opt = Opt_s string | Opt_r | Opt_bad

record main_opts =
  str_to_send :: string
  g_uartx :: byte
  send_or_receive :: nat

abbreviation (input) SEND :: nat where "SEND \<equiv> 0"
abbreviation (input) RECEIVE :: nat where "RECEIVE \<equiv> 1"

definition default_opts :: main_opts where
  "default_opts = \<lparr>str_to_send = ''default send string'', g_uartx = 1, send_or_receive = SEND\<rparr>"

text \<open>\<open>None\<close>: the program prints its usage and ends.\<close>

fun read_opts :: "opt list \<Rightarrow> main_opts \<Rightarrow> main_opts option" where
  "read_opts [] o' = Some o'"
| "read_opts (Opt_s arg # opts) o' =
     read_opts opts (o'\<lparr>str_to_send := arg, g_uartx := 0, send_or_receive := SEND\<rparr>)"
| "read_opts (Opt_r # opts) o' = read_opts opts (o'\<lparr>g_uartx := 1, send_or_receive := RECEIVE\<rparr>)"
| "read_opts (Opt_bad # opts) o' = None"

section \<open>The request \<open>_send_10\<close>\<close>

definition le_bytes :: "nat \<Rightarrow> nat \<Rightarrow> byte list" where
  "le_bytes n v = map (\<lambda>i. of_nat (v div 256 ^ i)) [0..<n]"

abbreviation (input) POINTER_SIZE :: nat where "POINTER_SIZE \<equiv> 8"

text \<open>
  The buffer is an array of 64 pointers, so that \<open>buf + 8\<close> is 8 pointers further on, not 8 bytes.
  \<open>stack\<close> is what its memory happens to hold.
\<close>

definition send_10_buf :: "byte list \<Rightarrow> byte list option" where
  "send_10_buf stack = do {
     buf \<leftarrow> wr_block stack 0 (le_bytes 8 123456789);
     buf \<leftarrow> wr_block buf (8 * POINTER_SIZE) (le_bytes 4 12345678);
     wr_block buf (12 * POINTER_SIZE) (le_bytes 4 87654321)
   }"

definition send_10_begin :: "byte list \<Rightarrow> uart \<Rightarrow> (addr \<times> uart) option" where
  "send_10_begin stack s = do { buf \<leftarrow> send_10_buf stack; ser_cmd_send_begin 0x10 (Some buf) 16 s }"

definition send_10_end :: "addr \<Rightarrow> err_code \<Rightarrow> uart \<Rightarrow> uart progress option" where
  "send_10_end pkt junk s =
     (if pkt = NULL then Some (Returned s)
      else do {
        r \<leftarrow> ser_cmd_send_end pkt False junk s;
        Some (case r of Waiting \<Rightarrow> Waiting | Returned (_, _, s) \<Rightarrow> Returned s)
      })"

section \<open>The loop of the sender, with its peer\<close>

text \<open>
  One round: the request is written, the peer reads it and answers, the receiving thread
  (\<open>ser_cmd_rcv_wrapper\<close>) reads the answer, and the sender goes on. \<open>sent\<close> are the bytes an end has
  written since it was in state \<open>s\<close>.
\<close>

fun event_bytes :: "dev_event \<Rightarrow> byte list" where
  "event_bytes (TxWrite bs) = bs"
| "event_bytes TxFlush = []"

definition sent :: "uart \<Rightarrow> uart \<Rightarrow> byte list" where
  "sent s s' = concat (map event_bytes (drop (length (dev s)) (dev s')))"

definition main_round :: "err_code \<Rightarrow> byte list \<Rightarrow> uart \<times> uart \<Rightarrow> (uart \<times> uart) option" where
  "main_round junk stack = (\<lambda>(c, sv). do {
     (p, c1) \<leftarrow> send_10_begin stack c;
     sv1 \<leftarrow> run_list rcv_byte (sent c c1) sv;
     c2 \<leftarrow> run_list rcv_byte (sent sv sv1) c1;
     r \<leftarrow> send_10_end p junk c2;
     case r of Waiting \<Rightarrow> None | Returned c3 \<Rightarrow> Some (c3, sv1)
   })"

text \<open>The start of the sending end: options, device, first message; then the rounds.\<close>

definition main_start :: "opt list \<Rightarrow> serial \<Rightarrow> uart \<Rightarrow> (serial \<times> uart) option" where
  "main_start opts d s = do {
     o' \<leftarrow> read_opts opts default_opts;
     let d = snd (ser_cmd_init (g_uartx o') d);
     Some (d, if send_or_receive o' = SEND
              then s\<lparr>console := console s @ ''main.c 94: '' @ str_to_send o' @ [LF]\<rparr> else s)
   }"

section \<open>What the request holds\<close>

text \<open>The data of the request: the card number, and eight bytes of the stack.\<close>

definition request_10 :: "byte list \<Rightarrow> byte list" where
  "request_10 stack = le_bytes 8 123456789 @ take 8 (drop 8 stack)"

lemma length_le_bytes [simp]: "length (le_bytes n v) = n"
  by (simp add: le_bytes_def)

lemma send_10_buf_head:
  assumes "length stack = 512"
  shows "\<exists>buf. send_10_buf stack = Some buf \<and> 16 \<le> length buf \<and> take 16 buf = request_10 stack"
  using assms by (simp add: send_10_buf_def mem_simps request_10_def drop_take)

lemma build_pkt_take:
  "unat len \<le> length src \<Longrightarrow> build_pkt cmd sn p (Some src) len m = build_pkt cmd sn p (Some (take (unat len) src)) len m"
  unfolding build_pkt_def by (simp add: rd_block_def)

lemma send_begin_take:
  "unat len \<le> length src \<Longrightarrow> ser_cmd_send_begin cmd (Some src) len s = ser_cmd_send_begin cmd (Some (take (unat len) src)) len s"
  unfolding ser_cmd_send_begin_def by (auto simp: build_pkt_take [of len src] split: prod.splits)

lemma send_10_begin_request:
  "length stack = 512 \<Longrightarrow> send_10_begin stack s = ser_cmd_send_begin 0x10 (Some (request_10 stack)) 16 s"
  using send_10_buf_head [of stack] by (auto simp: send_10_begin_def send_begin_take)

lemma length_request_10 [simp]: "length stack = 512 \<Longrightarrow> length (request_10 stack) = 16"
  by (simp add: request_10_def)

section \<open>The loop makes progress\<close>

text \<open>The end of \<open>ser_cmd_send\<close> for a caller that does not want the reply: both packets are freed.\<close>

lemma send_10_end_effect:
  assumes "replied s \<noteq> 0" and "blocks s (replied_pkt s) = Some (frame cmd sn data)" and "length data \<le> 249"
    and "blocks s p = Some b" and "4 < length b" and "p \<noteq> NULL" and "p \<noteq> replied_pkt s" and "replied_pkt s \<noteq> NULL"
  shows "\<exists>out. send_10_end p junk s = Some (Returned
     (s\<lparr>replied := 0, console := out, blocks := (blocks s)(replied_pkt s := None, p := None)\<rparr>))"
proof -
  let ?f = "frame cmd sn data"
  have len: "ld (replied_pkt s) off_len (s\<lparr>replied := 0\<rparr>) = Some (?f ! 2)"
    using assms(2) by (simp add: mem_simps)
  obtain out where dump: "dump ''ser_hal.c'' 155 (replied_pkt s) (?f ! 2) (s\<lparr>replied := 0\<rparr>)
      = Some (s\<lparr>replied := 0, console := out\<rparr>)"
    using assms(2) unat_len_byte [OF assms(3)] by (simp add: dump_def mem_simps frame_nth)
  have "ser_hal_rcvreply False sn' t s = Some (Returned (err_ok, NULL,
      s\<lparr>replied := 0, console := out, blocks := (blocks s)(replied_pkt s := None)\<rparr>))" for sn' t
    using assms(1,2,8) len dump by (simp add: ser_hal_rcvreply_def ser_hal_free_def mem_simps)
  then show ?thesis
    using assms(4-7) by (auto simp: send_10_end_def ser_cmd_send_end_def ser_hal_free_def mem_simps)
qed

lemma sent_one: "dev s' = dev s @ [TxWrite bs] \<Longrightarrow> sent s s' = bs"
  by (simp add: sent_def)

definition peers :: "(addr \<rightharpoonup> byte list) \<Rightarrow> (addr \<rightharpoonup> byte list) \<Rightarrow> uart \<times> uart \<Rightarrow> bool" where
  "peers hc hs = (\<lambda>(c, sv). rcv_rel hc c [] \<and> malloc_total c \<and> device_ok c
      \<and> rcv_rel hs sv [] \<and> malloc_total sv \<and> device_ok sv)"

lemma main_round_done:
  assumes "peers hc hs (c, sv)" and "length stack = 512"
  shows "\<exists>c' sv'. main_round junk stack (c, sv) = Some (c', sv') \<and> peers hc hs (c', sv')
    \<and> send_sn c' = send_sn c + 1 \<and> dev c' = dev c @ [TxWrite (frame 0x10 (send_sn c) (request_10 stack))]"
proof -
  let ?f = "frame 0x10 (send_sn c) (request_10 stack)"
  let ?ans = "answer (handler_of 0x10) (request_10 stack)"
  let ?rep = "frame REPLY_MASK (send_sn c) ?ans"
  have c: "rcv_rel hc c []" "malloc_total c" "device_ok c" and sv: "rcv_rel hs sv []" "malloc_total sv" "device_ok sv"
    and ok: "mem_ok c" and hc: "blocks c = hc"
    using assms(1) by (simp_all add: peers_def rcv_rel_def)
  have data: "length (request_10 stack) \<le> 249" "unat (16 :: u32) = length (request_10 stack)" using assms(2) by simp_all
  obtain p where p: "p \<noteq> NULL" "blocks c p = None" "p = Suc (calls c)" and b:
    "send_10_begin stack c = Some (p, c\<lparr>send_sn := send_sn c + 1,
        dev := dev c @ [TxWrite ?f], calls := p, blocks := (blocks c)(p \<mapsto> ?f)\<rparr>)"
    using send_begin_effect [OF ok c(2,3) data] unfolding send_10_begin_request [OF assms(2)] by blast
  define c1 where "c1 = c\<lparr>send_sn := send_sn c + 1,
        dev := dev c @ [TxWrite ?f], calls := p, blocks := (blocks c)(p \<mapsto> ?f)\<rparr>"
  have d1: "sent c c1 = ?f" by (rule sent_one) (simp add: c1_def)
  have rel1: "rcv_rel (hc(p \<mapsto> ?f)) c1 []"
    using c(1) p(3) by (auto simp: rcv_rel_def c1_def mem_ok_def le_Suc_eq)
  obtain sv1 where sv1: "run_list rcv_byte ?f sv = Some sv1" "rcv_rel hs sv1 []" "malloc_total sv1" "device_ok sv1"
      "dev sv1 = dev sv @ [TxWrite ?rep]"
    using rcv_frame [OF sv data(1), of "0x10" "send_sn c"] by auto
  have al: "length ?ans \<le> 249" by (rule answer_bound [OF data(1)])
  have one: "deframe_all [] ?rep = [?rep]" "deframe_end [] ?rep = []"
    using deframe_all_frame [OF al, of REPLY_MASK "send_sn c" "[]"] deframe_end_frame [OF al, of REPLY_MASK "send_sn c" "[]"]
    by simp_all
  have "is_reply ?rep" by (simp add: is_reply_def frame_nth)
  moreover have "malloc_total c1" using c(2) by (simp add: malloc_total_def c1_def)
  ultimately obtain c2 where c2: "run_list rcv_byte ?rep c1 = Some c2" "replied c2 = 1"
      "(hc(p \<mapsto> ?f)) (replied_pkt c2) = None" "rcv_rel (hc(p \<mapsto> ?f, replied_pkt c2 \<mapsto> ?rep)) c2 []"
      "dev c2 = dev c1" "env_malloc c2 = env_malloc c1" "wr_accept c2 = wr_accept c1" "send_sn c2 = send_sn c1"
    using rcv_reply [OF rel1 _ one(1)] one(2) by metis
  let ?q = "replied_pkt c2"
  have "?q \<noteq> p" using c2(3) by auto
  have b2: "blocks c2 = hc(p \<mapsto> ?f, ?q \<mapsto> ?rep)" "mem_ok c2" using c2(4) by (simp_all add: rcv_rel_def)
  have "?q \<noteq> NULL" using b2 mem_ok_NULL [OF b2(2)] by (metis fun_upd_same option.distinct(1))
  obtain out where e: "send_10_end p junk c2 = Some (Returned
      (c2\<lparr>replied := 0, console := out, blocks := (blocks c2)(?q := None, p := None)\<rparr>))"
    using send_10_end_effect [of c2 REPLY_MASK "send_sn c" ?ans p ?f junk] c2(2) b2(1) al p(1) \<open>?q \<noteq> p\<close> \<open>?q \<noteq> NULL\<close>
    by auto
  define c3 where "c3 = c2\<lparr>replied := 0, console := out, blocks := (blocks c2)(?q := None, p := None)\<rparr>"
  have "blocks c3 = hc" using b2(1) c2(3) p(2) hc \<open>?q \<noteq> p\<close> by (auto simp: c3_def fun_eq_iff)
  then have "rcv_rel hc c3 []" using c2(4) by (simp add: rcv_rel_def c3_def mem_ok_def)
  moreover have "malloc_total c3" "device_ok c3" "send_sn c3 = send_sn c + 1" "dev c3 = dev c @ [TxWrite ?f]"
    using c(2,3) c2(5-8) by (simp_all add: malloc_total_def device_ok_def c3_def c1_def)
  moreover have "main_round junk stack (c, sv) = Some (c3, sv1)"
    using b sv1(1) c2(1) e sent_one [OF sv1(5)] d1
    by (simp add: main_round_def c1_def [symmetric] c3_def [symmetric])
  ultimately show ?thesis using sv1(2-4) by (auto simp: peers_def)
qed

text \<open>The requests of a number of rounds, with consecutive sequence numbers.\<close>

fun requests :: "byte \<Rightarrow> byte list list \<Rightarrow> dev_event list" where
  "requests sn [] = []"
| "requests sn (stack # stacks) = TxWrite (frame 0x10 sn (request_10 stack)) # requests (sn + 1) stacks"

lemma main_rounds_done:
  "peers hc hs (c, sv) \<Longrightarrow> \<forall>stack \<in> set stacks. length stack = 512 \<Longrightarrow>
    \<exists>c' sv'. run_list (main_round junk) stacks (c, sv) = Some (c', sv') \<and> peers hc hs (c', sv')
      \<and> dev c' = dev c @ requests (send_sn c) stacks"
proof (induction stacks arbitrary: c sv)
  case (Cons stack stacks)
  obtain c1 sv1 where r: "main_round junk stack (c, sv) = Some (c1, sv1)" "peers hc hs (c1, sv1)"
    "send_sn c1 = send_sn c + 1" "dev c1 = dev c @ [TxWrite (frame 0x10 (send_sn c) (request_10 stack))]"
    using main_round_done [OF Cons.prems(1), of stack junk] Cons.prems(2) by auto
  with Cons.IH [OF r(2)] Cons.prems(2) show ?case by auto
qed (simp add: peers_def)

section \<open>Properties\<close>

text \<open>C17. The endless loop of the sending program makes progress, against a peer that runs the receive
  loop: any number of rounds gets through, each writes one request with the next sequence number, waits
  for the answer and gets it, and afterwards neither end has kept a block of memory. The requests do not
  hold the two times, though: after the card number come eight bytes of the stack.\<close>

theorem main_loop_progress:
  assumes "peers hc hs (c, sv)" and "\<forall>stack \<in> set stacks. length stack = 512"
  shows "\<exists>c' sv'. run_list (main_round junk) stacks (c, sv) = Some (c', sv')
    \<and> blocks c' = blocks c \<and> blocks sv' = blocks sv \<and> dev c' = dev c @ requests (send_sn c) stacks"
proof -
  from main_rounds_done [OF assms] obtain c' sv' where
    "run_list (main_round junk) stacks (c, sv) = Some (c', sv')" "peers hc hs (c', sv')"
    "dev c' = dev c @ requests (send_sn c) stacks" by blast
  with assms(1) show ?thesis by (auto simp: peers_def rcv_rel_def)
qed

theorem main_loop_progress_witness:
  "\<exists>c' sv'. run_list (main_round err_busy) [replicate 512 0, replicate 512 0xFF] (uart_calm, uart_calm) = Some (c', sv')
    \<and> blocks c' = Map.empty \<and> dev c' =
      [TxWrite (frame 0x10 0 (le_bytes 8 123456789 @ replicate 8 0)),
       TxWrite (frame 0x10 1 (le_bytes 8 123456789 @ replicate 8 0xFF))]"
proof -
  have "peers Map.empty Map.empty (uart_calm, uart_calm)"
    by (simp add: peers_def uart_calm_def uart_init_def rcv_rel_start [unfolded uart_init_def] malloc_total_def device_ok_def)
  from main_loop_progress [OF this, of "[replicate 512 0, replicate 512 0xFF]" err_busy] show ?thesis
    by (auto simp: request_10_def uart_calm_def uart_init_def)
qed

end
