(* ===== verification/C_Float.thy ===== *)
theory C_Float
  imports C_Prelude
begin

text \<open>
  The \<open>double\<close> values of C and the conversions libconfig uses: from \<open>int\<close> and \<open>long long\<close> to
  \<open>double\<close> and to \<open>float\<close> (round to nearest, ties to even), back by truncation (undefined when the
  result does not fit: \<open>None\<close>), and the text \<open>printf\<close> writes for \<open>%.*g\<close>. A finite value is a sign, a
  natural mantissa and a binary exponent.
\<close>

datatype double = Fin bool nat int | Inf bool | NaN

section \<open>Conversions\<close>

fun nbits :: "nat \<Rightarrow> nat" where
  "nbits n = (if n = 0 then 0 else Suc (nbits (n div 2)))"

declare nbits.simps [simp del]

text \<open>Rounding to \<open>k\<close> significant bits.\<close>

definition round_quot :: "nat \<Rightarrow> nat \<Rightarrow> nat" where
  "round_quot n d =
     (let q = n div d; r = n mod d
      in if 2 * r > d \<or> 2 * r = d \<and> odd q then Suc q else q)"

definition round_bits :: "nat \<Rightarrow> nat \<Rightarrow> nat" where
  "round_bits k m =
     (let d = nbits m - k in if d = 0 then m else round_quot m (2 ^ d) * 2 ^ d)"

definition int_to_double :: "int \<Rightarrow> double" where
  "int_to_double v = Fin (v < 0) (round_bits 53 (nat \<bar>v\<bar>)) 0"

text \<open>The conversion to \<open>float\<close>, the result read as a \<open>double\<close> again.\<close>

definition int_to_float :: "int \<Rightarrow> double" where
  "int_to_float v = Fin (v < 0) (round_bits 24 (nat \<bar>v\<bar>)) 0"

fun trunc_double :: "double \<Rightarrow> int option" where
  "trunc_double (Fin s m e) =
     Some ((if s then - 1 else 1) * int (if 0 \<le> e then m * 2 ^ nat e else m div 2 ^ nat (- e)))"
| "trunc_double _ = None"

definition double_to_i32 :: "double \<Rightarrow> i32 option" where
  "double_to_i32 x = do {
     v \<leftarrow> trunc_double x;
     if - (2 ^ 31) \<le> v \<and> v < 2 ^ 31 then Some (word_of_int v) else None
   }"

definition double_to_i64 :: "double \<Rightarrow> i64 option" where
  "double_to_i64 x = do {
     v \<leftarrow> trunc_double x;
     if - (2 ^ 63) \<le> v \<and> v < 2 ^ 63 then Some (word_of_int v) else None
   }"

lemma nbits_le: "n < 2 ^ k \<Longrightarrow> nbits n \<le> k"
proof (induction k arbitrary: n)
  case 0
  then show ?case by (simp add: nbits.simps)
next
  case (Suc k)
  then have "nbits (n div 2) \<le> k" by auto
  then show ?case by (subst nbits.simps) simp
qed

lemma round_bits_exact: "m < 2 ^ k \<Longrightarrow> round_bits k m = m"
  using nbits_le [of m k] by (simp add: round_bits_def)

lemma trunc_int_to_double: "\<bar>v\<bar> < 2 ^ 53 \<Longrightarrow> trunc_double (int_to_double v) = Some v"
  by (simp add: int_to_double_def round_bits_exact nat_less_iff)

lemma trunc_int_to_float: "\<bar>v\<bar> < 2 ^ 24 \<Longrightarrow> trunc_double (int_to_float v) = Some v"
  by (simp add: int_to_float_def round_bits_exact nat_less_iff)

section \<open>The text of \<open>%.*g\<close>\<close>

text \<open>The smallest \<open>k\<close> with \<open>d \<le> n * 10 ^ k\<close>, at most \<open>fuel\<close>; \<open>d\<close> itself is enough fuel.\<close>

fun scale_up :: "nat \<Rightarrow> nat \<Rightarrow> nat \<Rightarrow> nat" where
  "scale_up 0 n d = 0"
| "scale_up (Suc fuel) n d = (if d \<le> n then 0 else Suc (scale_up fuel (10 * n) d))"

text \<open>The decimal exponent of \<open>n / d\<close>.\<close>

definition dec_exponent :: "nat \<Rightarrow> nat \<Rightarrow> int" where
  "dec_exponent n d =
     (if d \<le> n then int (length (dec_nat (n div d))) - 1
      else - int (scale_up (length (dec_nat d)) n d))"

definition strip_zeros :: "string \<Rightarrow> string" where
  "strip_zeros cs = rev (dropWhile (\<lambda>c. c = CHR ''0'') (rev cs))"

definition with_fraction :: "string \<Rightarrow> string \<Rightarrow> string" where
  "with_fraction whole fraction =
     (let f = strip_zeros fraction in if f = [] then whole else whole @ ''.'' @ f)"

definition exponent_text :: "int \<Rightarrow> string" where
  "exponent_text x =
     (let t = dec_nat (nat \<bar>x\<bar>)
      in (if x < 0 then ''e-'' else ''e+'') @ (if length t < 2 then ''0'' else []) @ t)"

text \<open>\<open>prec\<close> significant digits of \<open>n / d\<close>, a positive number.\<close>

definition format_g_pos :: "nat \<Rightarrow> nat \<Rightarrow> nat \<Rightarrow> string" where
  "format_g_pos prec n d =
     (let x0 = dec_exponent n d;
          k = int prec - 1 - x0;
          ds0 = (if 0 \<le> k then round_quot (n * 10 ^ nat k) d else round_quot n (d * 10 ^ nat (- k)));
          over = (10 ^ prec \<le> ds0);
          x = (if over then x0 + 1 else x0);
          ds = dec_nat (if over then ds0 div 10 else ds0)
      in if x < - 4 \<or> int prec \<le> x then with_fraction (take 1 ds) (drop 1 ds) @ exponent_text x
         else if 0 \<le> x then with_fraction (take (nat x + 1) ds) (drop (nat x + 1) ds)
         else with_fraction ''0'' (replicate (nat (- x) - 1) CHR ''0'' @ ds))"

fun format_g :: "nat \<Rightarrow> double \<Rightarrow> string" where
  "format_g prec (Fin s m e) =
     (if s then ''-'' else []) @
     (if m = 0 then ''0''
      else if 0 \<le> e then format_g_pos prec (m * 2 ^ nat e) 1
      else format_g_pos prec m (2 ^ nat (- e)))"
| "format_g prec (Inf s) = (if s then ''-inf'' else ''inf'')"
| "format_g prec NaN = ''nan''"

end
