(* ===== verification/Config_State.thy ===== *)
theory Config_State
  imports C_Float
begin

text \<open>
  The data of libconfig (\<open>libconfig.h\<close>, \<open>libconfig.c\<close>): settings in memory, found by address, and
  the configuration object. The value union is a datatype whose constructor is the member written
  last; \<open>V_zero\<close> is a union all of whose bytes are zero, which is what \<open>calloc\<close> and the assignment of a
  null pointer leave. Reading another member than the one written is \<open>None\<close>. Strings owned by a setting are
  part of it. As in the code, allocation is taken to succeed; addresses are not reused. There is one
  configuration object, so the pointer to it that every setting carries is left out.
\<close>

section \<open>Types and values\<close>

datatype ctype =
  T_none | T_group | T_int | T_int64 | T_float | T_string | T_bool | T_array | T_list

fun ctype_code :: "ctype \<Rightarrow> int" where
  "ctype_code T_none = 0"
| "ctype_code T_group = 1"
| "ctype_code T_int = 2"
| "ctype_code T_int64 = 3"
| "ctype_code T_float = 4"
| "ctype_code T_string = 5"
| "ctype_code T_bool = 6"
| "ctype_code T_array = 7"
| "ctype_code T_list = 8"

definition all_ctypes :: "ctype list" where
  "all_ctypes = [T_none, T_group, T_int, T_int64, T_float, T_string, T_bool, T_array, T_list]"

definition ctype_of :: "int \<Rightarrow> ctype option" where
  "ctype_of i = (if 0 \<le> i \<and> i \<le> 8 then Some (all_ctypes ! nat i) else None)"

lemma ctype_of_code: "ctype_of (ctype_code t) = Some t"
  by (cases t) (simp_all add: ctype_of_def all_ctypes_def)

definition container :: "ctype \<Rightarrow> bool" where
  "container t \<longleftrightarrow> t = T_group \<or> t = T_array \<or> t = T_list"

text \<open>\<open>config_list_t\<close>: the elements in use and the number of elements allocated.\<close>

record clist =
  elems :: "addr list"
  lcap :: nat

datatype cvalue =
  V_zero | V_int i32 | V_int64 i64 | V_float double | V_string string | V_list clist

record csetting =
  s_name :: "string option"
  s_type :: ctype
  s_format :: int
  s_val :: cvalue
  s_parent :: addr
  s_hook :: addr
  s_line :: u32
  s_file :: "string option"

abbreviation (input) FORMAT_DEFAULT :: int where "FORMAT_DEFAULT \<equiv> 0"
abbreviation (input) FORMAT_HEX :: int where "FORMAT_HEX \<equiv> 1"

abbreviation (input) OPTION_AUTOCONVERT :: u32 where "OPTION_AUTOCONVERT \<equiv> 0x01"
abbreviation (input) OPTION_SEMICOLON_SEPARATORS :: u32 where "OPTION_SEMICOLON_SEPARATORS \<equiv> 0x02"
abbreviation (input) OPTION_COLON_GROUPS :: u32 where "OPTION_COLON_GROUPS \<equiv> 0x04"
abbreviation (input) OPTION_COLON_NON_GROUPS :: u32 where "OPTION_COLON_NON_GROUPS \<equiv> 0x08"
abbreviation (input) OPTION_OPEN_BRACE :: u32 where "OPTION_OPEN_BRACE \<equiv> 0x10"

datatype cerror = Err_none | Err_file_io | Err_parse

record config =
  c_root :: addr
  c_destructor :: bool
  c_options :: u32
  c_tab_width :: u16
  c_default_format :: int
  c_include_dir :: "string option"
  c_error_text :: "string option"
  c_error_file :: "string option"
  c_error_line :: int
  c_error_type :: cerror
  c_filenames :: "string list"

definition config_zero :: config where
  "config_zero = \<lparr>c_root = NULL, c_destructor = False, c_options = 0, c_tab_width = 0, c_default_format = 0,
     c_include_dir = None, c_error_text = None, c_error_file = None, c_error_line = 0,
     c_error_type = Err_none, c_filenames = []\<rparr>"

text \<open>\<open>destroyed\<close> lists the hooks passed to the destructor.\<close>

record cstate =
  settings :: "addr \<rightharpoonup> csetting"
  next_addr :: addr
  cfg :: config
  destroyed :: "addr list"

lemma cstate_upd_order [simp]:
  "s\<lparr>settings := b, next_addr := d\<rparr> = s\<lparr>next_addr := d, settings := b\<rparr>"
  "s\<lparr>settings := b, destroyed := ds\<rparr> = s\<lparr>destroyed := ds, settings := b\<rparr>"
  by simp_all

section \<open>Members of the union\<close>

fun ival :: "cvalue \<Rightarrow> i32 option" where
  "ival V_zero = Some 0"
| "ival (V_int i) = Some i"
| "ival _ = None"

fun llval :: "cvalue \<Rightarrow> i64 option" where
  "llval V_zero = Some 0"
| "llval (V_int64 i) = Some i"
| "llval _ = None"

fun fval :: "cvalue \<Rightarrow> double option" where
  "fval V_zero = Some (Fin False 0 0)"
| "fval (V_float x) = Some x"
| "fval _ = None"

text \<open>The pointers: \<open>Some None\<close> is the null pointer.\<close>

fun sval :: "cvalue \<Rightarrow> string option option" where
  "sval V_zero = Some None"
| "sval (V_string t) = Some (Some t)"
| "sval _ = None"

fun vlist :: "cvalue \<Rightarrow> clist option option" where
  "vlist V_zero = Some None"
| "vlist (V_list l) = Some (Some l)"
| "vlist _ = None"

definition kids :: "csetting \<Rightarrow> addr list" where
  "kids x = (case s_val x of V_list l \<Rightarrow> elems l | _ \<Rightarrow> [])"

section \<open>Well-formed configurations\<close>

text \<open>The array of a list has room for its elements, rounded up to a whole chunk.\<close>

definition list_ok :: "clist \<Rightarrow> bool" where
  "list_ok l \<longleftrightarrow> (length (elems l) + 15) div 16 * 16 \<le> lcap l"

fun value_ok :: "ctype \<Rightarrow> cvalue \<Rightarrow> bool" where
  "value_ok t V_zero = True"
| "value_ok t (V_int _) = (t = T_int \<or> t = T_bool)"
| "value_ok t (V_int64 _) = (t = T_int64)"
| "value_ok t (V_float _) = (t = T_float)"
| "value_ok t (V_string _) = (t = T_string)"
| "value_ok t (V_list l) = (container t \<and> list_ok l)"

text \<open>
  Every setting holds a value of its type, its children are distinct live settings that point back to
  it and were created later, and it is a child of its parent; the root, a group, is the only setting
  without one.
\<close>

definition setting_wf :: "cstate \<Rightarrow> addr \<Rightarrow> csetting \<Rightarrow> bool" where
  "setting_wf s p x \<longleftrightarrow>
     0 < p \<and> p < next_addr s \<and> value_ok (s_type x) (s_val x) \<and> distinct (kids x)
     \<and> (\<forall>c \<in> set (kids x). p < c \<and> (\<exists>y. settings s c = Some y \<and> s_parent y = p))
     \<and> (if s_parent x = NULL then p = c_root (cfg s)
        else \<exists>y. settings s (s_parent x) = Some y \<and> p \<in> set (kids y))"

definition cfg_ok :: "cstate \<Rightarrow> bool" where
  "cfg_ok s \<longleftrightarrow>
     (\<forall>p x. settings s p = Some x \<longrightarrow> setting_wf s p x)
     \<and> (\<exists>r. settings s (c_root (cfg s)) = Some r \<and> s_type r = T_group \<and> s_parent r = NULL)"

lemma wf_setting: "cfg_ok s \<Longrightarrow> settings s p = Some x \<Longrightarrow> setting_wf s p x"
  by (simp add: cfg_ok_def)

lemma wf_value: "cfg_ok s \<Longrightarrow> settings s p = Some x \<Longrightarrow> value_ok (s_type x) (s_val x)"
  by (drule (1) wf_setting) (simp add: setting_wf_def)

lemma wf_root:
  "cfg_ok s \<Longrightarrow> \<exists>r. settings s (c_root (cfg s)) = Some r \<and> s_type r = T_group \<and> s_parent r = NULL"
  by (simp add: cfg_ok_def)

lemma wf_child:
  "cfg_ok s \<Longrightarrow> settings s p = Some x \<Longrightarrow> c \<in> set (kids x) \<Longrightarrow>
     p < c \<and> (\<exists>y. settings s c = Some y \<and> s_parent y = p)"
  by (drule (1) wf_setting) (simp add: setting_wf_def)

lemma wf_fresh: "cfg_ok s \<Longrightarrow> next_addr s \<le> p \<Longrightarrow> settings s p = None"
  by (cases "settings s p") (auto dest!: wf_setting simp: setting_wf_def)

lemma wf_not_null: "cfg_ok s \<Longrightarrow> settings s p = Some x \<Longrightarrow> p \<noteq> NULL"
  by (drule (1) wf_setting) (simp add: setting_wf_def)

text \<open>The union members that a well-typed value lets one read.\<close>

lemma value_ok_reads:
  "value_ok T_int v \<Longrightarrow> \<exists>i. ival v = Some i"
  "value_ok T_bool v \<Longrightarrow> \<exists>i. ival v = Some i"
  "value_ok T_int64 v \<Longrightarrow> \<exists>i. llval v = Some i"
  "value_ok T_float v \<Longrightarrow> \<exists>x. fval v = Some x"
  "value_ok T_string v \<Longrightarrow> \<exists>t. sval v = Some t"
  "container t \<Longrightarrow> value_ok t v \<Longrightarrow> \<exists>l. vlist v = Some l"
  by (cases v; auto simp: container_def)+

lemma kids_list: "vlist (s_val x) = Some (Some l) \<Longrightarrow> kids x = elems l"
  "vlist (s_val x) = Some None \<Longrightarrow> kids x = []"
  by (cases "s_val x"; simp add: kids_def)+

text \<open>Changing a setting without touching its place in the tree keeps the configuration well formed.\<close>

lemma wf_update:
  assumes "cfg_ok s" and "settings s p = Some x" and "value_ok (s_type x') (s_val x')"
    and "kids x' = kids x" and "s_parent x' = s_parent x"
    and "s_type x = T_group \<Longrightarrow> s_type x' = T_group"
  shows "cfg_ok (s\<lparr>settings := (settings s)(p \<mapsto> x')\<rparr>)"
proof -
  let ?s = "s\<lparr>settings := (settings s)(p \<mapsto> x')\<rparr>"
  have "setting_wf ?s q y" if "settings ?s q = Some y" for q y
  proof -
    define z where "z = (if q = p then x else y)"
    have z: "settings s q = Some z" using that assms(2) by (auto simp: z_def split: if_splits)
    have sz: "setting_wf s q z" by (rule wf_setting [OF assms(1) z])
    have eq: "kids y = kids z" "s_parent y = s_parent z" and v: "value_ok (s_type y) (s_val y)"
      using that assms(3-5) wf_value [OF assms(1) z] by (auto simp: z_def split: if_splits)
    have child: "\<exists>w. settings ?s c = Some w \<and> s_parent w = q" if "c \<in> set (kids y)" for c
      using sz that eq assms(2,5) by (fastforce simp: setting_wf_def)
    then show ?thesis
      using sz eq v assms(2,4) by (auto simp: setting_wf_def)
  qed
  moreover have "\<exists>r. settings ?s (c_root (cfg ?s)) = Some r \<and> s_type r = T_group \<and> s_parent r = NULL"
    using wf_root [OF assms(1)] assms(2,5,6) by auto
  ultimately show ?thesis by (simp add: cfg_ok_def)
qed

end
