(* ===== verification/Json_Number.thy ===== *)
theory Json_Number
  imports C_Float
begin

text \<open>
  The floating-point arithmetic of \<open>cJSON.c\<close>: addition, multiplication and comparison of \<open>double\<close>
  (each result rounded to the nearest value, ties to even, with underflow to the subnormal numbers
  and overflow to infinity), \<open>pow(10.0, k)\<close> taken as correctly rounded, \<open>floor\<close>, and the texts
  \<open>printf\<close> writes for \<open>%.0f\<close>, \<open>%f\<close> and \<open>%e\<close>. With it, \<open>parse_number\<close> and \<open>print_number\<close> of a number,
  and the round trip of the integers of type \<open>int\<close>.
\<close>

section \<open>Arithmetic of \<open>double\<close>\<close>

text \<open>The \<open>double\<close> nearest to \<open>m * 2 ^ e\<close>.\<close>

definition double_round :: "bool \<Rightarrow> nat \<Rightarrow> int \<Rightarrow> double" where
  "double_round s m e =
     (if m = 0 then Fin s 0 0
      else let d = max 0 (max (int (nbits m) - 53) (- 1074 - e));
               m' = (if d = 0 then m else round_quot m (2 ^ nat d));
               e' = e + d
           in if 1024 < int (nbits m') + e' then Inf s else Fin s m' e')"

text \<open>The \<open>double\<close> nearest to \<open>n / d\<close>: enough bits of the quotient, and one that tells whether it is exact.\<close>

definition double_quot :: "bool \<Rightarrow> nat \<Rightarrow> nat \<Rightarrow> double" where
  "double_quot s n d =
     (let k = nbits d + 55; q = n * 2 ^ k div d; sticky = (if n * 2 ^ k mod d = 0 then 0 else 1)
      in double_round s (2 * q + sticky) (- int k - 1))"

fun dneg :: "double \<Rightarrow> double" where
  "dneg (Fin s m e) = Fin (\<not> s) m e"
| "dneg (Inf s) = Inf (\<not> s)"
| "dneg NaN = NaN"

fun dabs :: "double \<Rightarrow> double" where
  "dabs (Fin s m e) = Fin False m e"
| "dabs (Inf s) = Inf False"
| "dabs NaN = NaN"

text \<open>A finite value as an integer multiple of \<open>2 ^ k\<close>, for \<open>k\<close> not above its exponent.\<close>

definition scaled :: "int \<Rightarrow> bool \<Rightarrow> nat \<Rightarrow> int \<Rightarrow> int" where
  "scaled k s m e = (if s then - 1 else 1) * int (m * 2 ^ nat (e - k))"

fun dadd :: "double \<Rightarrow> double \<Rightarrow> double" where
  "dadd (Fin s m e) (Fin t n f) =
     (let k = min e f; v = scaled k s m e + scaled k t n f
      in if v = 0 then Fin (s \<and> t) 0 0 else double_round (v < 0) (nat \<bar>v\<bar>) k)"
| "dadd (Inf s) (Inf t) = (if s = t then Inf s else NaN)"
| "dadd (Inf s) (Fin _ _ _) = Inf s"
| "dadd (Fin _ _ _) (Inf s) = Inf s"
| "dadd _ _ = NaN"

definition dsub :: "double \<Rightarrow> double \<Rightarrow> double" where
  "dsub x y = dadd x (dneg y)"

fun dmul :: "double \<Rightarrow> double \<Rightarrow> double" where
  "dmul (Fin s m e) (Fin t n f) = double_round (s \<noteq> t) (m * n) (e + f)"
| "dmul (Inf s) (Inf t) = Inf (s \<noteq> t)"
| "dmul (Inf s) (Fin t n f) = (if n = 0 then NaN else Inf (s \<noteq> t))"
| "dmul (Fin s m e) (Inf t) = (if m = 0 then NaN else Inf (s \<noteq> t))"
| "dmul _ _ = NaN"

text \<open>\<open>x < y\<close> and \<open>x <= y\<close>; a comparison with a NaN is false.\<close>

fun dless :: "double \<Rightarrow> double \<Rightarrow> bool" where
  "dless (Fin s m e) (Fin t n f) = (let k = min e f in scaled k s m e < scaled k t n f)"
| "dless (Inf s) (Inf t) = (s \<and> \<not> t)"
| "dless (Inf s) (Fin _ _ _) = s"
| "dless (Fin _ _ _) (Inf t) = (\<not> t)"
| "dless _ _ = False"

fun dle :: "double \<Rightarrow> double \<Rightarrow> bool" where
  "dle (Fin s m e) (Fin t n f) = (let k = min e f in scaled k s m e \<le> scaled k t n f)"
| "dle (Inf s) (Inf t) = (s \<or> \<not> t)"
| "dle (Inf s) (Fin _ _ _) = s"
| "dle (Fin _ _ _) (Inf t) = (\<not> t)"
| "dle _ _ = False"

fun dfloor :: "double \<Rightarrow> double" where
  "dfloor (Fin s m e) =
     (if 0 \<le> e then Fin s m e
      else let d = 2 ^ nat (- e)
           in Fin s (if s \<and> m mod d \<noteq> 0 then m div d + 1 else m div d) 0)"
| "dfloor x = x"

text \<open>\<open>pow(10.0, k)\<close>; beyond \<open>10 ^ 400\<close> the result is infinite or zero in any case.\<close>

definition pow10 :: "int \<Rightarrow> double" where
  "pow10 k =
     (if 400 < k then Inf False
      else if 0 \<le> k then double_round False (10 ^ nat k) 0
      else if k < - 400 then Fin False 0 0
      else double_quot False 1 (10 ^ nat (- k)))"

definition DBL_EPSILON :: double where
  "DBL_EPSILON = Fin False 1 (- 52)"

section \<open>The texts of \<open>%.*f\<close> and \<open>%.*e\<close>\<close>

definition pad_zeros :: "nat \<Rightarrow> string \<Rightarrow> string" where
  "pad_zeros n t = replicate (n - length t) CHR ''0'' @ t"

definition format_f_pos :: "nat \<Rightarrow> nat \<Rightarrow> nat \<Rightarrow> string" where
  "format_f_pos prec n d =
     (let q = round_quot (n * 10 ^ prec) d
      in dec_nat (q div 10 ^ prec)
         @ (if prec = 0 then '''' else CHR ''.'' # pad_zeros prec (dec_nat (q mod 10 ^ prec))))"

fun format_f :: "nat \<Rightarrow> double \<Rightarrow> string" where
  "format_f prec (Fin s m e) =
     (if s then ''-'' else '''') @
     (if 0 \<le> e then format_f_pos prec (m * 2 ^ nat e) 1 else format_f_pos prec m (2 ^ nat (- e)))"
| "format_f prec (Inf s) = (if s then ''-inf'' else ''inf'')"
| "format_f prec NaN = ''nan''"

definition format_e_pos :: "nat \<Rightarrow> nat \<Rightarrow> nat \<Rightarrow> string" where
  "format_e_pos prec n d =
     (let x0 = dec_exponent n d;
          k = int prec - x0;
          ds0 = (if 0 \<le> k then round_quot (n * 10 ^ nat k) d else round_quot n (d * 10 ^ nat (- k)));
          over = (10 ^ Suc prec \<le> ds0);
          x = (if over then x0 + 1 else x0);
          ds = dec_nat (if over then ds0 div 10 else ds0)
      in take 1 ds @ (if prec = 0 then '''' else CHR ''.'' # drop 1 ds) @ exponent_text x)"

fun format_e :: "nat \<Rightarrow> double \<Rightarrow> string" where
  "format_e prec (Fin s m e) =
     (if s then ''-'' else '''') @
     (if m = 0 then ''0'' @ (if prec = 0 then '''' else CHR ''.'' # replicate prec CHR ''0'') @ ''e+00''
      else if 0 \<le> e then format_e_pos prec (m * 2 ^ nat e) 1
      else format_e_pos prec m (2 ^ nat (- e)))"
| "format_e prec (Inf s) = (if s then ''-inf'' else ''inf'')"
| "format_e prec NaN = ''nan''"

section \<open>\<open>parse_number\<close>\<close>

text \<open>A pointer into a NUL-terminated text is the rest of the text; \<open>peek\<close> is the character it points to.\<close>

abbreviation NUL :: char where "NUL \<equiv> CHR 0x00"

definition peek :: "string \<Rightarrow> char" where
  "peek cs = (case cs of [] \<Rightarrow> NUL | c # _ \<Rightarrow> c)"

lemma peek_simps [simp]: "peek [] = NUL" "peek (c # cs) = c"
  by (simp_all add: peek_def)

abbreviation char_code :: "char \<Rightarrow> nat" where "char_code \<equiv> of_char"

definition digit :: "char \<Rightarrow> bool" where
  "digit c \<longleftrightarrow> 48 \<le> char_code c \<and> char_code c \<le> 57"

definition digit_val :: "char \<Rightarrow> nat" where
  "digit_val c = char_code c - 48"

definition double_digit :: "double \<Rightarrow> char \<Rightarrow> double" where
  "double_digit n c = dadd (dmul n (Fin False 10 0)) (Fin False (digit_val c) 0)"

text \<open>The exponent is an \<open>int\<close>: an overflow is undefined.\<close>

fun exponent_digits :: "int \<Rightarrow> string \<Rightarrow> int option" where
  "exponent_digits a [] = Some a"
| "exponent_digits a (c # cs) =
     (let a' = a * 10 + int (digit_val c) in if a' < 2 ^ 31 then exponent_digits a' cs else None)"

definition parse_number_text :: "string \<Rightarrow> (double \<times> string) option" where
  "parse_number_text num = do {
     let (sign, num) = (if peek num = CHR ''-'' then (Fin True 1 0, tl num) else (Fin False 1 0, num));
     let num = (if peek num = CHR ''0'' then tl num else num);
     let (n, num) = (if digit (peek num) \<and> peek num \<noteq> CHR ''0''
        then (foldl double_digit (Fin False 0 0) (takeWhile digit num), dropWhile digit num)
        else (Fin False 0 0, num));
     let (n, scale, num) = (if peek num = CHR ''.'' \<and> digit (peek (tl num))
        then (foldl double_digit n (takeWhile digit (tl num)), - int (length (takeWhile digit (tl num))),
              dropWhile digit (tl num))
        else (n, 0, num));
     (subscale, num) \<leftarrow> (if peek num = CHR ''e'' \<or> peek num = CHR ''E''
        then do {
          let num = tl num;
          let (sgn, num) = (if peek num = CHR ''+'' then (1, tl num)
                            else if peek num = CHR ''-'' then (- 1, tl num) else (1, num));
          x \<leftarrow> exponent_digits 0 (takeWhile digit num);
          Some (sgn * x, dropWhile digit num)
        }
        else Some (0, num));
     Some (dmul (dmul sign n) (pow10 (scale + subscale)), num)
   }"

section \<open>\<open>print_number\<close>\<close>

text \<open>The size of the buffer and the text written into it.\<close>

definition print_number_text :: "i32 \<Rightarrow> double \<Rightarrow> nat \<times> string" where
  "print_number_text i d =
     (if dle (dabs (dsub (int_to_double (sint i)) d)) DBL_EPSILON
         \<and> dle d (int_to_double (2 ^ 31 - 1)) \<and> dle (int_to_double (- (2 ^ 31))) d
      then (21, dec_int (sint i))
      else (64,
        if dle (dabs (dsub (dfloor d) d)) DBL_EPSILON \<and> dless (dabs d) (pow10 60) then format_f 0 d
        else if dless (dabs d) (pow10 (- 6)) \<or> dless (pow10 9) (dabs d) then format_e 6 d
        else format_f 6 d))"

end
