(* ===== verification/Config_Strbuf.thy ===== *)
theory Config_Strbuf
  imports Config_State Json_Number
begin

text \<open>
  The string buffers of libconfig (\<open>strbuf.c\<close>): text is appended to a block of memory that grows in steps
  of 64 bytes. A cell of the block that has not been written is \<open>None\<close>; \<open>realloc\<close> is taken to succeed, as
  the code takes it to. The interface \<open>string_builder\<close> says what the scanner and the parser rely on.
\<close>

section \<open>The interface\<close>

locale string_builder =
  fixes fine :: "'b \<Rightarrow> bool"
    and empty :: 'b
    and append :: "'b \<Rightarrow> string \<Rightarrow> 'b option"
    and contents :: "'b \<Rightarrow> string option"
  assumes fine_empty: "fine empty"
    and contents_empty: "contents empty = Some []"
    and append_fine: "fine b \<Longrightarrow> NUL \<notin> set t \<Longrightarrow> contents b = Some u \<Longrightarrow>
          \<exists>b'. append b t = Some b' \<and> fine b' \<and> contents b' = Some (u @ t)"
begin

lemma appends:
  assumes "fine b" and "contents b = Some u" and "\<forall>t \<in> set ts. NUL \<notin> set t"
  shows "\<exists>b'. run_list (\<lambda>t b. append b t) ts b = Some b' \<and> fine b' \<and> contents b' = Some (u @ concat ts)"
  using assms
proof (induction ts arbitrary: b u)
  case (Cons t ts)
  then obtain b' where b': "append b t = Some b'" "fine b'" "contents b' = Some (u @ t)"
    using append_fine [of b t u] by auto
  have "\<forall>t \<in> set ts. NUL \<notin> set t" using Cons.prems by simp
  from Cons.IH [OF b'(2,3) this] b'(1) show ?case by simp
qed simp

lemma build:
  assumes "\<forall>t \<in> set ts. NUL \<notin> set t"
  shows "\<exists>b. run_list (\<lambda>t b. append b t) ts empty = Some b \<and> fine b \<and> contents b = Some (concat ts)"
  using appends [OF fine_empty contents_empty assms] by simp

end

section \<open>\<open>strbuf.c\<close>\<close>

abbreviation (input) STRING_BLOCK_SIZE :: nat where "STRING_BLOCK_SIZE \<equiv> 64"

text \<open>\<open>sb_string\<close> is \<open>None\<close> for the null pointer.\<close>

record strbuf =
  sb_string :: "char option list option"
  sb_length :: nat
  sb_capacity :: nat

definition strbuf_zero :: strbuf where
  "strbuf_zero = \<lparr>sb_string = None, sb_length = 0, sb_capacity = 0\<rparr>"

text \<open>The C string in a block of memory: reading a cell that has not been written is undefined.\<close>

fun read_string :: "char option list \<Rightarrow> string option" where
  "read_string [] = None"
| "read_string (None # b) = None"
| "read_string (Some c # b) = (if c = NUL then Some [] else map_option ((#) c) (read_string b))"

text \<open>The block handed over, as a string; the null pointer is \<open>Some None\<close>.\<close>

definition strbuf_release :: "strbuf \<Rightarrow> string option option \<times> strbuf" where
  "strbuf_release buf =
     ((case sb_string buf of None \<Rightarrow> Some None | Some b \<Rightarrow> map_option Some (read_string b)), strbuf_zero)"

definition realloc_cells :: "nat \<Rightarrow> char option list option \<Rightarrow> char option list" where
  "realloc_cells n b =
     (case b of None \<Rightarrow> replicate n None | Some b \<Rightarrow> take n b @ replicate (n - length b) None)"

definition strbuf_grow :: "nat \<Rightarrow> strbuf \<Rightarrow> strbuf" where
  "strbuf_grow newlen buf =
     (if sb_capacity buf < newlen
      then (let cap = (newlen + (STRING_BLOCK_SIZE - 1)) div STRING_BLOCK_SIZE * STRING_BLOCK_SIZE
            in buf\<lparr>sb_string := Some (realloc_cells cap (sb_string buf)), sb_capacity := cap\<rparr>)
      else buf)"

definition strbuf_append :: "strbuf \<Rightarrow> string \<Rightarrow> strbuf option" where
  "strbuf_append buf t = do {
     let buf = strbuf_grow (sb_length buf + length t + 1) buf;
     b \<leftarrow> sb_string buf;
     b \<leftarrow> wr_block b (sb_length buf) (map Some (t @ [NUL]));
     Some (buf\<lparr>sb_string := Some b, sb_length := sb_length buf + length t\<rparr>)
   }"

section \<open>Correctness\<close>

definition strbuf_ok :: "strbuf \<Rightarrow> bool" where
  "strbuf_ok buf \<longleftrightarrow>
     (case sb_string buf of
        None \<Rightarrow> sb_length buf = 0 \<and> sb_capacity buf = 0
      | Some b \<Rightarrow> length b = sb_capacity buf \<and> sb_length buf < sb_capacity buf
          \<and> sb_capacity buf mod STRING_BLOCK_SIZE = 0
          \<and> (\<exists>t. NUL \<notin> set t \<and> length t = sb_length buf
               \<and> take (Suc (sb_length buf)) b = map Some (t @ [NUL])))"

text \<open>The text collected so far.\<close>

definition strbuf_contents :: "strbuf \<Rightarrow> string option" where
  "strbuf_contents buf = map_option (\<lambda>t. case t of None \<Rightarrow> [] | Some t \<Rightarrow> t) (fst (strbuf_release buf))"

lemma read_string_text: "NUL \<notin> set t \<Longrightarrow> read_string (map Some (t @ [NUL]) @ r) = Some t"
  by (induction t) auto

lemma strbuf_text:
  assumes "strbuf_ok buf" and "sb_string buf = Some b"
  obtains t where "NUL \<notin> set t" "length t = sb_length buf" "length b = sb_capacity buf"
    "take (Suc (sb_length buf)) b = map Some (t @ [NUL])" "read_string b = Some t"
proof -
  from assms obtain t where t: "NUL \<notin> set t" "length t = sb_length buf" "length b = sb_capacity buf"
    "take (Suc (sb_length buf)) b = map Some (t @ [NUL])"
    by (auto simp: strbuf_ok_def)
  have "b = map Some (t @ [NUL]) @ drop (Suc (sb_length buf)) b"
    using t(4) append_take_drop_id [of "Suc (sb_length buf)" b] by simp
  then have "read_string b = Some t" using read_string_text [OF t(1)] by metis
  with t show ?thesis by (rule that)
qed

lemma round_up_block:
  fixes n :: nat
  shows "n \<le> (n + 63) div 64 * 64" and "(n + 63) div 64 * 64 mod 64 = 0"
proof -
  have "n + 63 = (n + 63) div 64 * 64 + (n + 63) mod 64" by simp
  moreover have "(n + 63) mod 64 \<le> 63" using mod_less_divisor [of 64 "n + 63"] by simp
  ultimately show "n \<le> (n + 63) div 64 * 64" by linarith
qed simp

lemma strbuf_append_ok:
  assumes ok: "strbuf_ok buf" and t: "NUL \<notin> set t" and u: "strbuf_contents buf = Some u"
  shows "\<exists>buf'. strbuf_append buf t = Some buf' \<and> strbuf_ok buf' \<and> strbuf_contents buf' = Some (u @ t)"
proof -
  let ?n = "sb_length buf + length t + 1"
  define cap where "cap = (if sb_capacity buf < ?n then (?n + 63) div 64 * 64 else sb_capacity buf)"
  define b where "b = (if sb_capacity buf < ?n then realloc_cells cap (sb_string buf) else the (sb_string buf))"
  have cap: "?n \<le> cap" and capm: "cap mod 64 = 0"
    using round_up_block [of ?n] ok by (auto simp: cap_def strbuf_ok_def split: option.splits)
  have u_nul: "NUL \<notin> set u" and u_len: "length u = sb_length buf"
    and b: "length b = cap" "take (sb_length buf) b = map Some u"
  proof -
    have "NUL \<notin> set u \<and> length u = sb_length buf \<and> length b = cap \<and> take (sb_length buf) b = map Some u"
    proof (cases "sb_string buf")
      case None
      then show ?thesis
        using ok u by (auto simp: strbuf_ok_def strbuf_contents_def strbuf_release_def b_def cap_def
            realloc_cells_def)
    next
      case (Some c)
      from strbuf_text [OF ok Some] obtain v where v: "NUL \<notin> set v" "length v = sb_length buf"
        "length c = sb_capacity buf" "take (Suc (sb_length buf)) c = map Some (v @ [NUL])"
        "read_string c = Some v" by blast
      have uv: "u = v" using u Some v(5) by (simp add: strbuf_contents_def strbuf_release_def)
      have tk: "take (sb_length buf) c = map Some v"
        using arg_cong [OF v(4), of "take (sb_length buf)"] v(2) by (simp add: min_def)
      have "sb_length buf \<le> length c" using ok Some by (auto simp: strbuf_ok_def)
      moreover have "sb_capacity buf \<le> cap" using cap by (auto simp: cap_def)
      ultimately show ?thesis
        using v uv tk Some by (auto simp: b_def cap_def realloc_cells_def min_def)
    qed
    then show "NUL \<notin> set u" "length u = sb_length buf" "length b = cap" "take (sb_length buf) b = map Some u"
      by auto
  qed
  let ?b = "take (sb_length buf) b @ map Some (t @ [NUL]) @ drop (sb_length buf + Suc (length t)) b"
  have grow: "strbuf_grow ?n buf = \<lparr>sb_string = Some b, sb_length = sb_length buf, sb_capacity = cap\<rparr>"
    using ok by (cases buf) (auto simp: strbuf_grow_def b_def cap_def strbuf_ok_def Let_def split: option.splits)
  have "wr_block b (sb_length buf) (map Some (t @ [NUL])) = Some ?b"
    using cap b(1) by (simp add: wr_block_def)
  then have eq: "strbuf_append buf t =
      Some \<lparr>sb_string = Some ?b, sb_length = sb_length buf + length t, sb_capacity = cap\<rparr>"
    unfolding strbuf_append_def grow by (simp del: map_append)
  have split: "?b = map Some ((u @ t) @ [NUL]) @ drop (sb_length buf + Suc (length t)) b"
    using b(2) by simp
  have "read_string ?b = Some (u @ t)"
    unfolding split by (rule read_string_text) (use u_nul t in auto)
  moreover have "take (Suc (sb_length buf + length t)) ?b = map Some ((u @ t) @ [NUL])"
    unfolding split using u_len by simp
  moreover have "length ?b = cap" using b(1) cap by simp
  ultimately have "strbuf_ok \<lparr>sb_string = Some ?b, sb_length = sb_length buf + length t, sb_capacity = cap\<rparr>"
      "strbuf_contents \<lparr>sb_string = Some ?b, sb_length = sb_length buf + length t, sb_capacity = cap\<rparr> = Some (u @ t)"
    using u_nul t u_len cap capm
    by (auto simp: strbuf_ok_def strbuf_contents_def strbuf_release_def intro!: exI [of _ "u @ t"])
  with eq show ?thesis by blast
qed

lemma strbuf_zero_ok: "strbuf_ok strbuf_zero" "strbuf_contents strbuf_zero = Some []"
  by (simp_all add: strbuf_ok_def strbuf_zero_def strbuf_contents_def strbuf_release_def)

interpretation sb: string_builder strbuf_ok strbuf_zero strbuf_append strbuf_contents
  by unfold_locales (rule strbuf_zero_ok strbuf_append_ok; assumption?)+

end
