(* ===== verification/Config_Access.thy ===== *)
theory Config_Access
  imports Config_State
begin

text \<open>
  Reading a configuration (\<open>libconfig.c\<close>): options, name comparison, members and elements, lookups by
  path, the typed getters, and the typed setters of a single setting. A result \<open>Some None\<close> of a
  getter is \<open>CONFIG_FALSE\<close> (the caller's variable is not written), \<open>Some (Some v)\<close> is \<open>CONFIG_TRUE\<close> with
  \<open>v\<close> stored; \<open>NULL\<close> is the null pointer.
\<close>

section \<open>Options\<close>

definition put :: "addr \<Rightarrow> csetting \<Rightarrow> cstate \<Rightarrow> cstate" where
  "put p x s = s\<lparr>settings := (settings s)(p \<mapsto> x)\<rparr>"

definition with_cfg :: "(config \<Rightarrow> config) \<Rightarrow> cstate \<Rightarrow> cstate" where
  "with_cfg f s = s\<lparr>cfg := f (cfg s)\<rparr>"

definition config_set_auto_convert :: "bool \<Rightarrow> cstate \<Rightarrow> cstate" where
  "config_set_auto_convert flag =
     with_cfg (\<lambda>c. c\<lparr>c_options :=
       (if flag then c_options c OR OPTION_AUTOCONVERT else c_options c AND NOT OPTION_AUTOCONVERT)\<rparr>)"

definition config_get_auto_convert :: "cstate \<Rightarrow> bool" where
  "config_get_auto_convert s \<longleftrightarrow> c_options (cfg s) AND OPTION_AUTOCONVERT \<noteq> 0"

definition config_set_options :: "u32 \<Rightarrow> cstate \<Rightarrow> cstate" where
  "config_set_options opts = with_cfg (\<lambda>c. c\<lparr>c_options := opts\<rparr>)"

definition config_get_options :: "cstate \<Rightarrow> u32" where
  "config_get_options s = c_options (cfg s)"

definition config_set_destructor :: "bool \<Rightarrow> cstate \<Rightarrow> cstate" where
  "config_set_destructor d = with_cfg (\<lambda>c. c\<lparr>c_destructor := d\<rparr>)"

definition config_set_include_dir :: "string \<Rightarrow> cstate \<Rightarrow> cstate" where
  "config_set_include_dir dir = with_cfg (\<lambda>c. c\<lparr>c_include_dir := Some dir\<rparr>)"

section \<open>Names\<close>

definition path_token :: "char \<Rightarrow> bool" where
  "path_token c \<longleftrightarrow> c \<in> set '':./''"

text \<open>\<open>char\<close> is signed.\<close>

definition schar :: "char \<Rightarrow> int" where
  "schar c = (let n = of_char c :: int in if n < 128 then n else n - 256)"

text \<open>The end of the list is the terminating NUL.\<close>

definition name_end :: "string \<Rightarrow> bool" where
  "name_end p \<longleftrightarrow> p = [] \<or> path_token (hd p)"

function config_name_compare :: "string \<Rightarrow> string \<Rightarrow> int" where
  "config_name_compare p q =
     (if name_end p \<and> name_end q then 0
      else if name_end p then - 1
      else if name_end q then 1
      else if schar (hd p) < schar (hd q) then - 1
      else if schar (hd p) > schar (hd q) then 1
      else config_name_compare (tl p) (tl q))"
  by pat_completeness auto
termination
  by (relation "measure (length \<circ> fst)") (auto simp: name_end_def neq_Nil_conv)

declare config_name_compare.simps [simp del]

definition is_alpha :: "char \<Rightarrow> bool" where
  "is_alpha c \<longleftrightarrow> (let n = of_char c :: nat in 65 \<le> n \<and> n \<le> 90 \<or> 97 \<le> n \<and> n \<le> 122)"

definition is_digit :: "char \<Rightarrow> bool" where
  "is_digit c \<longleftrightarrow> (let n = of_char c :: nat in 48 \<le> n \<and> n \<le> 57)"

definition config_validate_name :: "string \<Rightarrow> bool" where
  "config_validate_name name =
     (case name of
        [] \<Rightarrow> False
      | c # cs \<Rightarrow> (is_alpha c \<or> c = CHR ''*'')
          \<and> list_all (\<lambda>c. is_alpha c \<or> is_digit c \<or> c \<in> set ''*_-'') cs)"

section \<open>Members and elements\<close>

text \<open>The search of \<open>__config_list_search\<close> from element \<open>i\<close> on: index and element found.\<close>

fun list_search_from ::
  "addr list \<Rightarrow> nat \<Rightarrow> string option \<Rightarrow> cstate \<Rightarrow> (nat \<times> addr) option option" where
  "list_search_from [] i name s = Some None"
| "list_search_from (c # cs) i name s = do {
     x \<leftarrow> settings s c;
     case s_name x of
       None \<Rightarrow> list_search_from cs (Suc i) name s
     | Some m \<Rightarrow> do {
         n \<leftarrow> name;
         if config_name_compare n m = 0 then Some (Some (i, c))
         else list_search_from cs (Suc i) name s
       }
   }"

definition config_list_search ::
  "clist option \<Rightarrow> string option \<Rightarrow> cstate \<Rightarrow> (nat \<times> addr) option option" where
  "config_list_search list name s =
     (case list of None \<Rightarrow> Some None | Some l \<Rightarrow> list_search_from (elems l) 0 name s)"

definition config_setting_get_member :: "addr \<Rightarrow> string option \<Rightarrow> cstate \<Rightarrow> addr option" where
  "config_setting_get_member p name s = do {
     x \<leftarrow> settings s p;
     if s_type x \<noteq> T_group then Some NULL
     else do {
       l \<leftarrow> vlist (s_val x);
       r \<leftarrow> config_list_search l name s;
       Some (case r of None \<Rightarrow> NULL | Some (i, c) \<Rightarrow> c)
     }
   }"

definition config_setting_get_elem :: "addr \<Rightarrow> u32 \<Rightarrow> cstate \<Rightarrow> addr option" where
  "config_setting_get_elem p idx s = do {
     x \<leftarrow> settings s p;
     if \<not> container (s_type x) then Some NULL
     else do {
       l \<leftarrow> vlist (s_val x);
       case l of
         None \<Rightarrow> Some NULL
       | Some l \<Rightarrow> if length (elems l) \<le> unat idx then Some NULL else rd (elems l) (unat idx)
     }
   }"

definition config_setting_length :: "addr \<Rightarrow> cstate \<Rightarrow> nat option" where
  "config_setting_length p s = do {
     x \<leftarrow> settings s p;
     if \<not> container (s_type x) then Some 0
     else do {
       l \<leftarrow> vlist (s_val x);
       Some (case l of None \<Rightarrow> 0 | Some l \<Rightarrow> length (elems l))
     }
   }"

text \<open>The position of \<open>p\<close> among the elements of its parent.\<close>

fun index_from :: "addr list \<Rightarrow> int \<Rightarrow> addr \<Rightarrow> int" where
  "index_from [] i p = - 1"
| "index_from (c # cs) i p = (if c = p then i else index_from cs (i + 1) p)"

definition config_setting_index :: "addr \<Rightarrow> cstate \<Rightarrow> int option" where
  "config_setting_index p s = do {
     x \<leftarrow> settings s p;
     if s_parent x = NULL then Some (- 1)
     else do {
       y \<leftarrow> settings s (s_parent x);
       l \<leftarrow> vlist (s_val y);
       l \<leftarrow> l;
       Some (index_from (elems l) 0 p)
     }
   }"

definition config_setting_get_format :: "addr \<Rightarrow> cstate \<Rightarrow> int option" where
  "config_setting_get_format p s = do {
     x \<leftarrow> settings s p;
     Some (if s_format x \<noteq> 0 then s_format x else c_default_format (cfg s))
   }"

section \<open>Lookup by path\<close>

text \<open>\<open>atoi\<close> of the digits at the start of a string; a number that is no \<open>int\<close> is undefined.\<close>

definition is_space :: "char \<Rightarrow> bool" where
  "is_space c \<longleftrightarrow> (let n = of_char c :: nat in n = 32 \<or> 9 \<le> n \<and> n \<le> 13)"

definition digits_value :: "string \<Rightarrow> nat" where
  "digits_value ds = foldl (\<lambda>a d. 10 * a + (of_char d - 48)) 0 ds"

definition atoi :: "string \<Rightarrow> i32 option" where
  "atoi cs =
     (let t = dropWhile is_space cs;
          neg = (t \<noteq> [] \<and> hd t = CHR ''-'');
          u = (if t \<noteq> [] \<and> (hd t = CHR ''-'' \<or> hd t = CHR ''+'') then tl t else t);
          n = int (digits_value (takeWhile is_digit u));
          v = (if neg then - n else n)
      in if - (2 ^ 31) \<le> v \<and> v < 2 ^ 31 then Some (word_of_int v) else None)"

function config_setting_lookup :: "addr \<Rightarrow> string \<Rightarrow> cstate \<Rightarrow> addr option" where
  "config_setting_lookup p path s =
     (let q = dropWhile path_token path in
      if q = [] then Some p
      else do {
        (found, q) \<leftarrow>
          (if hd q = CHR ''['' then do {
             i \<leftarrow> atoi (tl q);
             f \<leftarrow> config_setting_get_elem p i s;
             Some (f, tl q)
           } else do {
             f \<leftarrow> config_setting_get_member p (Some q) s;
             Some (f, q)
           });
        if found = NULL then Some (if q \<noteq> [] then NULL else p)
        else config_setting_lookup found (dropWhile (\<lambda>c. \<not> path_token c) q) s
      })"
  by pat_completeness auto
termination
proof (relation "measure (\<lambda>(p, path, s). length path)", goal_cases)
  case (2 p path s q r f q')
  have "length (dropWhile (\<lambda>c. \<not> path_token c) q') < length q"
  proof (cases "hd q = CHR ''[''")
    case True
    with 2 have "q' = tl q" "q \<noteq> []" by (auto simp: bind_Some_iff split: if_splits bind_splits)
    then show ?thesis
      using length_dropWhile_le [of "\<lambda>c. \<not> path_token c" "tl q"] by (cases q) auto
  next
    case False
    with 2 have q': "q' = q" "q \<noteq> []" by (auto simp: bind_Some_iff split: if_splits bind_splits)
    then have "\<not> path_token (hd q)" using 2(1) hd_dropWhile [of path_token path] by auto
    then show ?thesis
      using q' length_dropWhile_le [of "\<lambda>c. \<not> path_token c" "tl q"] by (cases q) auto
  qed
  also have "length q \<le> length path" using 2(1) by (simp add: length_dropWhile_le)
  finally show ?case by simp
qed simp

declare config_setting_lookup.simps [simp del]

definition config_lookup :: "string \<Rightarrow> cstate \<Rightarrow> addr option" where
  "config_lookup path s = config_setting_lookup (c_root (cfg s)) path s"

section \<open>Typed getters\<close>

abbreviation (input) INT32_MAX :: int where "INT32_MAX \<equiv> 2 ^ 31 - 1"
abbreviation (input) INT32_MIN :: int where "INT32_MIN \<equiv> - (2 ^ 31)"

text \<open>The functions \<open>__config_setting_get_...\<close>, which store into a variable of the caller.\<close>

definition get_int_into :: "addr \<Rightarrow> cstate \<Rightarrow> i32 option option" where
  "get_int_into p s = do {
     x \<leftarrow> settings s p;
     case s_type x of
       T_int \<Rightarrow> do { i \<leftarrow> ival (s_val x); Some (Some i) }
     | T_int64 \<Rightarrow> do {
         l \<leftarrow> llval (s_val x);
         Some (Some (if sint l > INT32_MAX \<or> sint l < INT32_MIN then 0 else ucast l))
       }
     | T_float \<Rightarrow>
         if c_options (cfg s) AND OPTION_AUTOCONVERT \<noteq> 0 then do {
           d \<leftarrow> fval (s_val x);
           i \<leftarrow> double_to_i32 d;
           Some (Some i)
         } else Some None
     | _ \<Rightarrow> Some None
   }"

definition config_setting_get_int :: "addr \<Rightarrow> cstate \<Rightarrow> i32 option" where
  "config_setting_get_int p s = do {
     r \<leftarrow> get_int_into p s;
     Some (case r of None \<Rightarrow> 0 | Some v \<Rightarrow> v)
   }"

definition get_int64_into :: "addr \<Rightarrow> cstate \<Rightarrow> i64 option option" where
  "get_int64_into p s = do {
     x \<leftarrow> settings s p;
     case s_type x of
       T_int64 \<Rightarrow> do { l \<leftarrow> llval (s_val x); Some (Some l) }
     | T_int \<Rightarrow> do { i \<leftarrow> ival (s_val x); Some (Some (word_of_int (sint i))) }
     | T_float \<Rightarrow>
         if c_options (cfg s) AND OPTION_AUTOCONVERT \<noteq> 0 then do {
           d \<leftarrow> fval (s_val x);
           l \<leftarrow> double_to_i64 d;
           Some (Some l)
         } else Some None
     | _ \<Rightarrow> Some None
   }"

definition config_setting_get_int64 :: "addr \<Rightarrow> cstate \<Rightarrow> i64 option" where
  "config_setting_get_int64 p s = do {
     r \<leftarrow> get_int64_into p s;
     Some (case r of None \<Rightarrow> 0 | Some v \<Rightarrow> v)
   }"

definition get_float_into :: "addr \<Rightarrow> cstate \<Rightarrow> double option option" where
  "get_float_into p s = do {
     x \<leftarrow> settings s p;
     case s_type x of
       T_float \<Rightarrow> do { d \<leftarrow> fval (s_val x); Some (Some d) }
     | T_int \<Rightarrow>
         if config_get_auto_convert s
         then do { i \<leftarrow> ival (s_val x); Some (Some (int_to_double (sint i))) } else Some None
     | T_int64 \<Rightarrow>
         if config_get_auto_convert s
         then do { l \<leftarrow> llval (s_val x); Some (Some (int_to_double (sint l))) } else Some None
     | _ \<Rightarrow> Some None
   }"

definition config_setting_get_float :: "addr \<Rightarrow> cstate \<Rightarrow> double option" where
  "config_setting_get_float p s = do {
     r \<leftarrow> get_float_into p s;
     Some (case r of None \<Rightarrow> Fin False 0 0 | Some v \<Rightarrow> v)
   }"

definition config_setting_get_bool :: "addr \<Rightarrow> cstate \<Rightarrow> i32 option" where
  "config_setting_get_bool p s = do {
     x \<leftarrow> settings s p;
     if s_type x = T_bool then ival (s_val x) else Some 0
   }"

text \<open>\<open>Some None\<close> is the null pointer.\<close>

definition config_setting_get_string :: "addr \<Rightarrow> cstate \<Rightarrow> string option option" where
  "config_setting_get_string p s = do {
     x \<leftarrow> settings s p;
     if s_type x = T_string then sval (s_val x) else Some None
   }"

text \<open>The lookups of a member of a group and by path: what they do with the setting found.\<close>

definition if_found :: "(addr \<Rightarrow> cstate \<Rightarrow> 'a option option) \<Rightarrow> addr \<Rightarrow> cstate \<Rightarrow> 'a option option" where
  "if_found get c s = (if c = NULL then Some None else get c s)"

definition get_typed :: "ctype \<Rightarrow> (addr \<Rightarrow> cstate \<Rightarrow> 'a option) \<Rightarrow> addr \<Rightarrow> cstate \<Rightarrow> 'a option option" where
  "get_typed t get c s = do {
     x \<leftarrow> settings s c;
     if s_type x \<noteq> t then Some None else do { v \<leftarrow> get c s; Some (Some v) }
   }"

definition config_setting_lookup_int :: "addr \<Rightarrow> string \<Rightarrow> cstate \<Rightarrow> i32 option option" where
  "config_setting_lookup_int p name s = do {
     c \<leftarrow> config_setting_get_member p (Some name) s;
     if_found get_int_into c s
   }"

definition config_setting_lookup_int64 :: "addr \<Rightarrow> string \<Rightarrow> cstate \<Rightarrow> i64 option option" where
  "config_setting_lookup_int64 p name s = do {
     c \<leftarrow> config_setting_get_member p (Some name) s;
     if_found get_int64_into c s
   }"

definition config_setting_lookup_float :: "addr \<Rightarrow> string \<Rightarrow> cstate \<Rightarrow> double option option" where
  "config_setting_lookup_float p name s = do {
     c \<leftarrow> config_setting_get_member p (Some name) s;
     if_found get_float_into c s
   }"

definition config_setting_lookup_string ::
  "addr \<Rightarrow> string \<Rightarrow> cstate \<Rightarrow> string option option option" where
  "config_setting_lookup_string p name s = do {
     c \<leftarrow> config_setting_get_member p (Some name) s;
     if_found (get_typed T_string config_setting_get_string) c s
   }"

definition config_setting_lookup_bool :: "addr \<Rightarrow> string \<Rightarrow> cstate \<Rightarrow> i32 option option" where
  "config_setting_lookup_bool p name s = do {
     c \<leftarrow> config_setting_get_member p (Some name) s;
     if_found (get_typed T_bool config_setting_get_bool) c s
   }"

definition config_lookup_string :: "string \<Rightarrow> cstate \<Rightarrow> string option option option" where
  "config_lookup_string path s = do {
     c \<leftarrow> config_lookup path s;
     if_found (get_typed T_string config_setting_get_string) c s
   }"

definition config_lookup_int :: "string \<Rightarrow> cstate \<Rightarrow> i32 option option" where
  "config_lookup_int path s = do { c \<leftarrow> config_lookup path s; if_found get_int_into c s }"

definition config_lookup_int64 :: "string \<Rightarrow> cstate \<Rightarrow> i64 option option" where
  "config_lookup_int64 path s = do { c \<leftarrow> config_lookup path s; if_found get_int64_into c s }"

definition config_lookup_float :: "string \<Rightarrow> cstate \<Rightarrow> double option option" where
  "config_lookup_float path s = do { c \<leftarrow> config_lookup path s; if_found get_float_into c s }"

definition config_lookup_bool :: "string \<Rightarrow> cstate \<Rightarrow> i32 option option" where
  "config_lookup_bool path s = do {
     c \<leftarrow> config_lookup path s;
     if_found (get_typed T_bool config_setting_get_bool) c s
   }"

text \<open>Elements by index; the index is converted to unsigned.\<close>

definition config_setting_get_int_elem :: "addr \<Rightarrow> i32 \<Rightarrow> cstate \<Rightarrow> i32 option" where
  "config_setting_get_int_elem p idx s = do {
     e \<leftarrow> config_setting_get_elem p idx s;
     if e = NULL then Some 0 else config_setting_get_int e s
   }"

definition config_setting_get_int64_elem :: "addr \<Rightarrow> i32 \<Rightarrow> cstate \<Rightarrow> i64 option" where
  "config_setting_get_int64_elem p idx s = do {
     e \<leftarrow> config_setting_get_elem p idx s;
     if e = NULL then Some 0 else config_setting_get_int64 e s
   }"

definition config_setting_get_float_elem :: "addr \<Rightarrow> i32 \<Rightarrow> cstate \<Rightarrow> double option" where
  "config_setting_get_float_elem p idx s = do {
     e \<leftarrow> config_setting_get_elem p idx s;
     if e = NULL then Some (Fin False 0 0) else config_setting_get_float e s
   }"

definition config_setting_get_bool_elem :: "addr \<Rightarrow> i32 \<Rightarrow> cstate \<Rightarrow> i32 option" where
  "config_setting_get_bool_elem p idx s = do {
     e \<leftarrow> config_setting_get_elem p idx s;
     if e = NULL then Some 0
     else do {
       x \<leftarrow> settings s e;
       if s_type x \<noteq> T_bool then Some 0 else ival (s_val x)
     }
   }"

definition config_setting_get_string_elem :: "addr \<Rightarrow> i32 \<Rightarrow> cstate \<Rightarrow> string option option" where
  "config_setting_get_string_elem p idx s = do {
     e \<leftarrow> config_setting_get_elem p idx s;
     if e = NULL then Some None
     else do {
       x \<leftarrow> settings s e;
       if s_type x \<noteq> T_string then Some None else sval (s_val x)
     }
   }"

section \<open>Typed setters\<close>

definition config_setting_set_int :: "addr \<Rightarrow> i32 \<Rightarrow> cstate \<Rightarrow> (bool \<times> cstate) option" where
  "config_setting_set_int p v s = do {
     x \<leftarrow> settings s p;
     Some (case s_type x of
       T_none \<Rightarrow> (True, put p (x\<lparr>s_type := T_int, s_val := V_int v\<rparr>) s)
     | T_int \<Rightarrow> (True, put p (x\<lparr>s_val := V_int v\<rparr>) s)
     | T_float \<Rightarrow>
         if config_get_auto_convert s
         then (True, put p (x\<lparr>s_val := V_float (int_to_float (sint v))\<rparr>) s) else (False, s)
     | _ \<Rightarrow> (False, s))
   }"

definition config_setting_set_int64 :: "addr \<Rightarrow> i64 \<Rightarrow> cstate \<Rightarrow> (bool \<times> cstate) option" where
  "config_setting_set_int64 p v s = do {
     x \<leftarrow> settings s p;
     Some (case s_type x of
       T_none \<Rightarrow> (True, put p (x\<lparr>s_type := T_int64, s_val := V_int64 v\<rparr>) s)
     | T_int64 \<Rightarrow> (True, put p (x\<lparr>s_val := V_int64 v\<rparr>) s)
     | T_int \<Rightarrow>
         (True, put p (x\<lparr>s_val := V_int (if sint v > INT32_MAX \<or> sint v < INT32_MIN then 0 else ucast v)\<rparr>) s)
     | T_float \<Rightarrow>
         if config_get_auto_convert s
         then (True, put p (x\<lparr>s_val := V_float (int_to_float (sint v))\<rparr>) s) else (False, s)
     | _ \<Rightarrow> (False, s))
   }"

definition config_setting_set_float :: "addr \<Rightarrow> double \<Rightarrow> cstate \<Rightarrow> (bool \<times> cstate) option" where
  "config_setting_set_float p v s = do {
     x \<leftarrow> settings s p;
     case s_type x of
       T_none \<Rightarrow> Some (True, put p (x\<lparr>s_type := T_float, s_val := V_float v\<rparr>) s)
     | T_float \<Rightarrow> Some (True, put p (x\<lparr>s_val := V_float v\<rparr>) s)
     | T_int \<Rightarrow>
         if c_options (cfg s) AND OPTION_AUTOCONVERT \<noteq> 0
         then do { i \<leftarrow> double_to_i32 v; Some (True, put p (x\<lparr>s_val := V_int i\<rparr>) s) }
         else Some (False, s)
     | T_int64 \<Rightarrow>
         if c_options (cfg s) AND OPTION_AUTOCONVERT \<noteq> 0
         then do { l \<leftarrow> double_to_i64 v; Some (True, put p (x\<lparr>s_val := V_int64 l\<rparr>) s) }
         else Some (False, s)
     | _ \<Rightarrow> Some (False, s)
   }"

definition config_setting_set_bool :: "addr \<Rightarrow> i32 \<Rightarrow> cstate \<Rightarrow> (bool \<times> cstate) option" where
  "config_setting_set_bool p v s = do {
     x \<leftarrow> settings s p;
     Some (if s_type x = T_none then (True, put p (x\<lparr>s_type := T_bool, s_val := V_int v\<rparr>) s)
           else if s_type x \<noteq> T_bool then (False, s)
           else (True, put p (x\<lparr>s_val := V_int v\<rparr>) s))
   }"

text \<open>The old string is freed first; a null \<open>value\<close> is \<open>None\<close> and clears the union.\<close>

definition config_setting_set_string :: "addr \<Rightarrow> string option \<Rightarrow> cstate \<Rightarrow> (bool \<times> cstate) option" where
  "config_setting_set_string p v s = do {
     x \<leftarrow> settings s p;
     let y = (if s_type x = T_none then x\<lparr>s_type := T_string\<rparr> else x);
     if s_type y \<noteq> T_string then Some (False, s)
     else do {
       _ \<leftarrow> sval (s_val y);
       Some (True, put p (y\<lparr>s_val := (case v of None \<Rightarrow> V_zero | Some t \<Rightarrow> V_string t)\<rparr>) s)
     }
   }"

definition config_setting_set_format :: "addr \<Rightarrow> int \<Rightarrow> cstate \<Rightarrow> (bool \<times> cstate) option" where
  "config_setting_set_format p fmt s = do {
     x \<leftarrow> settings s p;
     Some (if (s_type x \<noteq> T_int \<and> s_type x \<noteq> T_int64) \<or> (fmt \<noteq> FORMAT_DEFAULT \<and> fmt \<noteq> FORMAT_HEX)
           then (False, s) else (True, put p (x\<lparr>s_format := fmt\<rparr>) s))
   }"

definition config_setting_set_hook :: "addr \<Rightarrow> addr \<Rightarrow> cstate \<Rightarrow> cstate option" where
  "config_setting_set_hook p hook s = do {
     x \<leftarrow> settings s p;
     Some (put p (x\<lparr>s_hook := hook\<rparr>) s)
   }"

end
