(* ===== verification/Config_Update.thy ===== *)
theory Config_Update
  imports Config_Access
begin

text \<open>
  Changing a configuration (\<open>libconfig.c\<close>): the element arrays and their growth in chunks, creating
  and adding settings, the element setters, destroying and removing settings, and the life cycle of the
  configuration object; then the calls a program can make, as one type, and their effect on
  well-formed configurations.
\<close>

section \<open>Element arrays\<close>

abbreviation (input) CHUNK_SIZE :: nat where "CHUNK_SIZE \<equiv> 16"

text \<open>\<open>None\<close>: the new element would be written outside the array.\<close>

definition config_list_add :: "clist \<Rightarrow> addr \<Rightarrow> clist option" where
  "config_list_add l q =
     (let n = length (elems l);
          cap = (if n mod CHUNK_SIZE = 0 then n + CHUNK_SIZE else lcap l)
      in if n < cap then Some \<lparr>elems = elems l @ [q], lcap = cap\<rparr> else None)"

definition config_list_remove :: "clist \<Rightarrow> nat \<Rightarrow> (addr \<times> clist) option" where
  "config_list_remove l idx = do {
     removed \<leftarrow> rd (elems l) idx;
     Some (removed, l\<lparr>elems := take idx (elems l) @ drop (Suc idx) (elems l)\<rparr>)
   }"

definition config_vector_checktype :: "addr \<Rightarrow> ctype \<Rightarrow> cstate \<Rightarrow> bool option" where
  "config_vector_checktype p t s = do {
     x \<leftarrow> settings s p;
     l \<leftarrow> vlist (s_val x);
     case l of
       None \<Rightarrow> Some True
     | Some l \<Rightarrow>
         if elems l = [] then Some True
         else if s_type x = T_list then Some True
         else do { y \<leftarrow> settings s (hd (elems l)); Some (s_type y = t) }
   }"

section \<open>Creating settings\<close>

definition new_setting :: "string option \<Rightarrow> ctype \<Rightarrow> addr \<Rightarrow> csetting" where
  "new_setting name t parent =
     \<lparr>s_name = name, s_type = t, s_format = 0, s_val = V_zero, s_parent = parent, s_hook = NULL,
      s_line = 0, s_file = None\<rparr>"

definition config_setting_create ::
  "addr \<Rightarrow> string option \<Rightarrow> ctype \<Rightarrow> cstate \<Rightarrow> (addr \<times> cstate) option" where
  "config_setting_create p name t s = do {
     x \<leftarrow> settings s p;
     if \<not> container (s_type x) then Some (NULL, s)
     else do {
       let q = next_addr s;
       l \<leftarrow> vlist (s_val x);
       l \<leftarrow> config_list_add (case l of None \<Rightarrow> \<lparr>elems = [], lcap = 0\<rparr> | Some l \<Rightarrow> l) q;
       Some (q, s\<lparr>next_addr := Suc q,
                  settings := (settings s)(q \<mapsto> new_setting name t p, p \<mapsto> x\<lparr>s_val := V_list l\<rparr>)\<rparr>)
     }
   }"

definition config_setting_add ::
  "addr \<Rightarrow> string option \<Rightarrow> int \<Rightarrow> cstate \<Rightarrow> (addr \<times> cstate) option" where
  "config_setting_add p name type s =
     (case ctype_of type of
        None \<Rightarrow> Some (NULL, s)
      | Some t \<Rightarrow>
          if p = NULL then Some (NULL, s)
          else do {
            x \<leftarrow> settings s p;
            let name = (if s_type x = T_array \<or> s_type x = T_list then None else name);
            if (case name of None \<Rightarrow> False | Some n \<Rightarrow> \<not> config_validate_name n) then Some (NULL, s)
            else do {
              m \<leftarrow> config_setting_get_member p name s;
              if m \<noteq> NULL then Some (NULL, s) else config_setting_create p name t s
            }
          })"

section \<open>Setting elements\<close>

text \<open>The element to set: a new one at the end for a negative index. \<open>NULL\<close> where the setters return
  without setting anything.\<close>

definition vector_slot :: "ctype \<Rightarrow> addr \<Rightarrow> i32 \<Rightarrow> cstate \<Rightarrow> (addr \<times> cstate) option" where
  "vector_slot t p idx s = do {
     x \<leftarrow> settings s p;
     if s_type x \<noteq> T_array \<and> s_type x \<noteq> T_list then Some (NULL, s)
     else if sint idx < 0 then do {
       ok \<leftarrow> config_vector_checktype p t s;
       if \<not> ok then Some (NULL, s) else config_setting_create p None t s
     } else do {
       e \<leftarrow> config_setting_get_elem p idx s;
       Some (e, s)
     }
   }"

definition set_slot ::
  "(addr \<Rightarrow> cstate \<Rightarrow> (bool \<times> cstate) option) \<Rightarrow> addr \<times> cstate \<Rightarrow> (addr \<times> cstate) option" where
  "set_slot set_val r =
     (case r of (e, s) \<Rightarrow>
        if e = NULL then Some (NULL, s)
        else do {
          (ok, s) \<leftarrow> set_val e s;
          Some (if \<not> ok then NULL else e, s)
        })"

definition config_setting_set_int_elem :: "addr \<Rightarrow> i32 \<Rightarrow> i32 \<Rightarrow> cstate \<Rightarrow> (addr \<times> cstate) option" where
  "config_setting_set_int_elem p idx v s =
     do { r \<leftarrow> vector_slot T_int p idx s; set_slot (\<lambda>e. config_setting_set_int e v) r }"

definition config_setting_set_int64_elem :: "addr \<Rightarrow> i32 \<Rightarrow> i64 \<Rightarrow> cstate \<Rightarrow> (addr \<times> cstate) option" where
  "config_setting_set_int64_elem p idx v s =
     do { r \<leftarrow> vector_slot T_int64 p idx s; set_slot (\<lambda>e. config_setting_set_int64 e v) r }"

definition config_setting_set_float_elem :: "addr \<Rightarrow> i32 \<Rightarrow> double \<Rightarrow> cstate \<Rightarrow> (addr \<times> cstate) option" where
  "config_setting_set_float_elem p idx v s =
     do { r \<leftarrow> vector_slot T_float p idx s; set_slot (\<lambda>e. config_setting_set_float e v) r }"

definition config_setting_set_bool_elem :: "addr \<Rightarrow> i32 \<Rightarrow> i32 \<Rightarrow> cstate \<Rightarrow> (addr \<times> cstate) option" where
  "config_setting_set_bool_elem p idx v s =
     do { r \<leftarrow> vector_slot T_bool p idx s; set_slot (\<lambda>e. config_setting_set_bool e v) r }"

definition config_setting_set_string_elem ::
  "addr \<Rightarrow> i32 \<Rightarrow> string option \<Rightarrow> cstate \<Rightarrow> (addr \<times> cstate) option" where
  "config_setting_set_string_elem p idx v s =
     do { r \<leftarrow> vector_slot T_string p idx s; set_slot (\<lambda>e. config_setting_set_string e v) r }"

section \<open>Destroying and removing settings\<close>

text \<open>
  \<open>__config_setting_destroy\<close> on each of the pointers in turn, which is the loop of
  \<open>__config_list_destroy\<close>; the recursion of the two functions is the recursion of this one.
\<close>

partial_function (option) destroy_settings :: "addr list \<Rightarrow> cstate \<Rightarrow> cstate option" where
  "destroy_settings ps s =
     (case ps of
        [] \<Rightarrow> Some s
      | p # ps \<Rightarrow> do {
          s \<leftarrow> (if p = NULL then Some s
               else do {
                 x \<leftarrow> settings s p;
                 s \<leftarrow> (if s_type x = T_string then do { _ \<leftarrow> sval (s_val x); Some s }
                      else if container (s_type x) then do {
                        l \<leftarrow> vlist (s_val x);
                        case l of None \<Rightarrow> Some s | Some l \<Rightarrow> destroy_settings (elems l) s
                      } else Some s);
                 let s = (if s_hook x \<noteq> NULL \<and> c_destructor (cfg s)
                          then s\<lparr>destroyed := destroyed s @ [s_hook x]\<rparr> else s);
                 Some (s\<lparr>settings := (settings s)(p := None)\<rparr>)
               });
          destroy_settings ps s
        })"

declare destroy_settings.simps [code]

definition config_setting_destroy :: "addr \<Rightarrow> cstate \<Rightarrow> cstate option" where
  "config_setting_destroy p s = destroy_settings [p] s"

definition config_setting_remove :: "addr \<Rightarrow> string option \<Rightarrow> cstate \<Rightarrow> (bool \<times> cstate) option" where
  "config_setting_remove p name s =
     (if p = NULL then Some (False, s)
      else do {
        x \<leftarrow> settings s p;
        if s_type x \<noteq> T_group then Some (False, s)
        else do {
          l \<leftarrow> vlist (s_val x);
          r \<leftarrow> config_list_search l name s;
          case r of
            None \<Rightarrow> Some (False, s)
          | Some (idx, setting) \<Rightarrow> do {
              l \<leftarrow> l;
              (_, l) \<leftarrow> config_list_remove l idx;
              s \<leftarrow> config_setting_destroy setting (put p (x\<lparr>s_val := V_list l\<rparr>) s);
              Some (True, s)
            }
        }
      })"

definition config_setting_remove_elem :: "addr \<Rightarrow> u32 \<Rightarrow> cstate \<Rightarrow> (bool \<times> cstate) option" where
  "config_setting_remove_elem p idx s =
     (if p = NULL then Some (False, s)
      else do {
        x \<leftarrow> settings s p;
        if \<not> container (s_type x) then Some (False, s)
        else do {
          l \<leftarrow> vlist (s_val x);
          case l of
            None \<Rightarrow> Some (False, s)
          | Some l \<Rightarrow>
              if length (elems l) \<le> unat idx then Some (False, s)
              else do {
                (removed, l) \<leftarrow> config_list_remove l (unat idx);
                s \<leftarrow> config_setting_destroy removed (put p (x\<lparr>s_val := V_list l\<rparr>) s);
                Some (True, s)
              }
        }
      })"

section \<open>The configuration object\<close>

definition config_init :: "cstate \<Rightarrow> cstate" where
  "config_init s =
     (let q = next_addr s
      in s\<lparr>next_addr := Suc q,
           settings := (settings s)(q \<mapsto> new_setting None T_group NULL),
           cfg := config_zero\<lparr>c_root := q,
             c_options := OPTION_SEMICOLON_SEPARATORS OR OPTION_COLON_GROUPS OR OPTION_OPEN_BRACE,
             c_tab_width := 2\<rparr>\<rparr>)"

definition config_destroy :: "cstate \<Rightarrow> cstate option" where
  "config_destroy s = do {
     s \<leftarrow> config_setting_destroy (c_root (cfg s)) s;
     Some (with_cfg (\<lambda>_. config_zero) s)
   }"

end
