(* ===== verification/Config_Scan_Context.thy ===== *)
theory Config_Scan_Context
  imports Config_Strbuf Config_Update
begin

text \<open>
  The scanner's context (\<open>scanctx.c\<close>): the stack of include files, the string that is being collected
  and the list of file names, to which the settings point. Files and directories are the environment;
  a stream is a number, and the stack records the buffer of the scanner to go back to.
\<close>

section \<open>Files\<close>

text \<open>\<open>fopen\<close> for reading succeeds on a directory as well.\<close>

datatype fentry = F_file string | F_dir

record io =
  io_files :: "string \<rightharpoonup> fentry"
  io_open :: "nat \<rightharpoonup> fentry"
  io_next :: nat
  io_writable :: "string \<Rightarrow> bool"

definition fopen_r :: "string \<Rightarrow> io \<Rightarrow> nat \<times> io" where
  "fopen_r name f =
     (case io_files f name of
        None \<Rightarrow> (0, f)
      | Some e \<Rightarrow> let k = Suc (io_next f) in (k, f\<lparr>io_open := (io_open f)(k \<mapsto> e), io_next := k\<rparr>))"

definition fclose :: "nat \<Rightarrow> io \<Rightarrow> io option" where
  "fclose k f = (if io_open f k = None then None else Some (f\<lparr>io_open := (io_open f)(k := None)\<rparr>))"

section \<open>\<open>struct scan_context\<close>\<close>

abbreviation (input) MAX_INCLUDE_DEPTH :: nat where "MAX_INCLUDE_DEPTH \<equiv> 10"
abbreviation (input) NAMES_CHUNK :: nat where "NAMES_CHUNK \<equiv> 32"

record scan_context =
  sc_top :: "string option"
  sc_files :: "string list"
  sc_buffers :: "nat list"
  sc_streams :: "nat list"
  sc_depth :: nat
  sc_string :: strbuf
  sc_names :: "string list"
  sc_names_cap :: nat

text \<open>Equal names are kept once; the array grows by 32 entries at a time.\<close>

definition scanctx_add_filename :: "string \<Rightarrow> scan_context \<Rightarrow> scan_context option" where
  "scanctx_add_filename name c =
     (if name \<in> set (sc_names c) then Some c
      else let n = length (sc_names c);
               cap = (if n mod NAMES_CHUNK = 0 then n + NAMES_CHUNK else sc_names_cap c)
           in if n < cap then Some (c\<lparr>sc_names := sc_names c @ [name], sc_names_cap := cap\<rparr>) else None)"

definition scanctx_zero :: scan_context where
  "scanctx_zero = \<lparr>sc_top = None, sc_files = replicate MAX_INCLUDE_DEPTH [],
     sc_buffers = replicate MAX_INCLUDE_DEPTH 0, sc_streams = replicate MAX_INCLUDE_DEPTH 0,
     sc_depth = 0, sc_string = strbuf_zero, sc_names = [], sc_names_cap = 0\<rparr>"

definition scanctx_init :: "string option \<Rightarrow> scan_context option" where
  "scanctx_init top_filename =
     (case top_filename of
        None \<Rightarrow> Some scanctx_zero
      | Some name \<Rightarrow> map_option (\<lambda>c. c\<lparr>sc_top := Some name\<rparr>) (scanctx_add_filename name scanctx_zero))"

definition scanctx_cleanup :: "scan_context \<Rightarrow> io \<Rightarrow> (string list \<times> io) option" where
  "scanctx_cleanup c f = do {
     f \<leftarrow> run_list (\<lambda>i f. do { k \<leftarrow> rd (sc_streams c) i; fclose k f }) [0..<sc_depth c] f;
     Some (sc_names c, f)
   }"

definition scanctx_take_string :: "scan_context \<Rightarrow> (string \<times> scan_context) option" where
  "scanctx_take_string c =
     (let (r, buf) = strbuf_release (sc_string c); c = c\<lparr>sc_string := buf\<rparr>
      in map_option (\<lambda>t. (case t of None \<Rightarrow> [] | Some t \<Rightarrow> t, c)) r)"

definition scanctx_append_string :: "string \<Rightarrow> scan_context \<Rightarrow> scan_context option" where
  "scanctx_append_string t c = map_option (\<lambda>buf. c\<lparr>sc_string := buf\<rparr>) (strbuf_append (sc_string c) t)"

definition err_bad_include :: string where "err_bad_include = ''cannot open include file''"
definition err_include_too_deep :: string where "err_include_too_deep = ''include file nesting too deep''"

text \<open>The stream, or 0 and the error.\<close>

definition scanctx_push_include ::
  "string option \<Rightarrow> nat \<Rightarrow> scan_context \<Rightarrow> io \<Rightarrow> (nat \<times> string option \<times> scan_context \<times> io) option" where
  "scanctx_push_include include_dir buffer c f =
     (if sc_depth c = MAX_INCLUDE_DEPTH then Some (0, Some err_include_too_deep, c, f)
      else do {
        (file, c) \<leftarrow> scanctx_take_string c;
        let full_file = (case include_dir of None \<Rightarrow> file | Some d \<Rightarrow> d @ ''/'' @ file);
        let (fp, f) = fopen_r full_file f;
        if fp \<noteq> 0 then do {
          streams \<leftarrow> wr (sc_streams c) (sc_depth c) fp;
          c \<leftarrow> scanctx_add_filename file c;
          files \<leftarrow> wr (sc_files c) (sc_depth c) file;
          buffers \<leftarrow> wr (sc_buffers c) (sc_depth c) buffer;
          Some (fp, None, c\<lparr>sc_streams := streams, sc_files := files, sc_buffers := buffers,
                           sc_depth := Suc (sc_depth c)\<rparr>, f)
        }
        else Some (0, Some err_bad_include, c, f)
      })"

text \<open>The buffer, 0 when the stack is empty.\<close>

definition scanctx_pop_include :: "scan_context \<Rightarrow> io \<Rightarrow> (nat \<times> scan_context \<times> io) option" where
  "scanctx_pop_include c f =
     (if sc_depth c = 0 then Some (0, c, f)
      else do {
        let c = c\<lparr>sc_depth := sc_depth c - 1\<rparr>;
        buffer \<leftarrow> rd (sc_buffers c) (sc_depth c);
        k \<leftarrow> rd (sc_streams c) (sc_depth c);
        f \<leftarrow> fclose k f;
        Some (buffer, c, f)
      })"

definition scanctx_current_filename :: "scan_context \<Rightarrow> string option option" where
  "scanctx_current_filename c =
     (if sc_depth c = 0 then Some (sc_top c)
      else map_option Some (rd (sc_files c) (sc_depth c - 1)))"

section \<open>Invariant\<close>

text \<open>
  The names are distinct and have room; every file on the stack is one of them, its stream is open, and
  no stream is on the stack twice.
\<close>

definition scanctx_ok :: "scan_context \<Rightarrow> io \<Rightarrow> bool" where
  "scanctx_ok c f \<longleftrightarrow>
     sc_depth c \<le> MAX_INCLUDE_DEPTH
     \<and> length (sc_files c) = MAX_INCLUDE_DEPTH \<and> length (sc_buffers c) = MAX_INCLUDE_DEPTH
     \<and> length (sc_streams c) = MAX_INCLUDE_DEPTH
     \<and> strbuf_ok (sc_string c)
     \<and> distinct (sc_names c) \<and> (length (sc_names c) + 31) div 32 * 32 \<le> sc_names_cap c
     \<and> set (take (sc_depth c) (sc_files c)) \<subseteq> set (sc_names c)
     \<and> (\<forall>t. sc_top c = Some t \<longrightarrow> t \<in> set (sc_names c))
     \<and> distinct (take (sc_depth c) (sc_streams c))
     \<and> (\<forall>k \<in> set (take (sc_depth c) (sc_streams c)). io_open f k \<noteq> None)
     \<and> (\<forall>k. io_open f k \<noteq> None \<longrightarrow> 0 < k \<and> k \<le> io_next f)"

end
