(* ===== verification/Config_Scanner.thy ===== *)
theory Config_Scanner
  imports Config_Scan_Context
begin

text \<open>
  The scanner of libconfig (\<open>scanner.c\<close>): the tables of the automaton, the loop that finds the longest
  match, and the actions. A buffer of the scanner is the text that is still to be read, whether it
  begins a line, and the number of the line. The refilling of a buffer from its file
  (\<open>yy_get_next_buffer\<close>) is left out: a buffer holds all of its text, whose end is the first of the
  two NULs that \<open>flex\<close> puts behind it; the texts hold no other NUL. A file that cannot be read, a
  directory, ends the process (\<open>YY_FATAL_ERROR\<close>).
\<close>

section \<open>Tables\<close>

definition yy_accept :: "nat list" where
  "yy_accept =
   [0, 0, 0, 0, 0, 0, 0, 0, 0, 43, 41, 22, 21, 21, 5, 41, 37, 38, 29, 41, 24, 30, 41, 31, 31,
    23, 39, 29, 29, 35, 36, 25, 26, 22, 41, 3, 4, 3, 6, 15, 14, 17, 20, 42, 22, 0, 40, 29, 30,
    31, 30, 0, 1, 0, 30, 0, 32, 0, 29, 29, 22, 0, 0, 2, 6, 12, 0, 11, 10, 7, 8, 9, 17, 19, 18,
    0, 30, 30, 0, 0, 30, 32, 33, 29, 29, 0, 0, 0, 30, 34, 29, 27, 0, 13, 34, 28, 0, 0, 0, 0, 0,
    16, 0]"

definition yy_ec :: "nat list" where
  "yy_ec =
   [0, 1, 1, 1, 1, 1, 1, 1, 1, 2, 3, 1, 4, 5, 1, 1, 1, 1, 1, 1, 1, 1, 1, 1, 1, 1, 1, 1, 1, 1,
    1, 1, 2, 1, 6, 7, 1, 1, 1, 1, 8, 9, 10, 11, 12, 13, 14, 15, 16, 17, 17, 17, 17, 17, 17, 17,
    17, 17, 18, 19, 1, 20, 1, 1, 21, 22, 23, 23, 23, 24, 25, 26, 26, 26, 26, 26, 27, 26, 26,
    26, 26, 26, 28, 29, 30, 31, 26, 26, 32, 26, 26, 33, 34, 35, 1, 36, 1, 22, 23, 37, 38, 39,
    40, 26, 26, 41, 26, 26, 42, 26, 43, 26, 26, 26, 44, 29, 45, 46, 26, 26, 32, 26, 26, 47, 1,
    48, 1, 1, 1, 1, 1, 1, 1, 1, 1, 1, 1, 1, 1, 1, 1, 1, 1, 1, 1, 1, 1, 1, 1, 1, 1, 1, 1, 1, 1,
    1, 1, 1, 1, 1, 1, 1, 1, 1, 1, 1, 1, 1, 1, 1, 1, 1, 1, 1, 1, 1, 1, 1, 1, 1, 1, 1, 1, 1, 1,
    1, 1, 1, 1, 1, 1, 1, 1, 1, 1, 1, 1, 1, 1, 1, 1, 1, 1, 1, 1, 1, 1, 1, 1, 1, 1, 1, 1, 1, 1,
    1, 1, 1, 1, 1, 1, 1, 1, 1, 1, 1, 1, 1, 1, 1, 1, 1, 1, 1, 1, 1, 1, 1, 1, 1, 1, 1, 1, 1, 1,
    1, 1, 1, 1, 1, 1, 1, 1, 1, 1, 1]"

definition yy_meta :: "nat list" where
  "yy_meta =
   [0, 1, 1, 1, 1, 1, 2, 1, 1, 1, 3, 1, 1, 3, 1, 1, 4, 4, 1, 1, 1, 1, 4, 4, 4, 4, 3, 3, 3, 3,
    3, 3, 3, 1, 2, 1, 3, 4, 4, 4, 4, 3, 3, 3, 3, 3, 3, 1, 1]"

definition yy_base :: "nat list" where
  "yy_base =
   [0, 0, 47, 47, 48, 46, 47, 48, 49, 203, 204, 200, 204, 204, 204, 198, 204, 204, 0, 45, 204,
    47, 50, 60, 74, 204, 204, 178, 28, 204, 204, 204, 204, 64, 158, 204, 204, 183, 0, 204, 63,
    0, 204, 83, 195, 193, 204, 0, 88, 102, 98, 62, 204, 190, 104, 119, 162, 0, 67, 65, 121,
    127, 124, 204, 0, 204, 0, 204, 204, 204, 204, 204, 0, 204, 204, 108, 117, 122, 134, 132,
    136, 204, 139, 136, 116, 126, 0, 140, 142, 135, 130, 0, 102, 204, 204, 0, 85, 72, 63, 98,
    158, 204, 204, 169, 173, 177, 181, 183, 187, 191, 89, 66, 63]"

definition yy_def :: "nat list" where
  "yy_def =
   [0, 102, 1, 103, 103, 104, 104, 105, 105, 102, 102, 102, 102, 102, 102, 106, 102, 102, 107,
    102, 102, 102, 102, 102, 102, 102, 102, 107, 107, 102, 102, 102, 102, 102, 102, 102, 102,
    102, 108, 102, 102, 109, 102, 102, 102, 106, 102, 107, 102, 102, 102, 102, 102, 106, 102,
    102, 102, 110, 107, 107, 102, 102, 102, 102, 108, 102, 111, 102, 102, 102, 102, 102, 109,
    102, 102, 102, 102, 102, 102, 102, 102, 102, 110, 107, 107, 102, 112, 102, 102, 102, 107,
    107, 102, 102, 102, 107, 102, 102, 102, 102, 102, 102, 0, 102, 102, 102, 102, 102, 102,
    102, 102, 102, 102]"

definition yy_nxt :: "nat list" where
  "yy_nxt =
   [0, 10, 11, 12, 13, 13, 14, 15, 16, 17, 18, 19, 20, 19, 21, 22, 23, 24, 25, 26, 25, 10, 18,
    18, 18, 27, 18, 18, 18, 18, 28, 18, 18, 29, 10, 30, 10, 18, 18, 18, 27, 18, 18, 18, 18, 28,
    18, 31, 32, 33, 36, 36, 39, 39, 42, 42, 59, 37, 37, 48, 52, 49, 49, 50, 50, 53, 60, 93, 34,
    65, 86, 51, 59, 75, 54, 75, 49, 49, 76, 76, 40, 40, 43, 43, 55, 61, 51, 56, 54, 73, 49, 49,
    57, 82, 83, 66, 84, 67, 55, 55, 100, 56, 99, 68, 50, 50, 69, 70, 71, 83, 98, 84, 51, 55,
    50, 50, 54, 74, 49, 49, 77, 77, 51, 60, 76, 76, 55, 51, 78, 56, 79, 97, 79, 76, 76, 80, 80,
    51, 77, 77, 91, 55, 61, 78, 96, 87, 78, 87, 80, 80, 88, 88, 80, 80, 95, 91, 88, 88, 88, 88,
    100, 78, 94, 92, 101, 90, 89, 85, 62, 95, 35, 35, 35, 35, 38, 38, 38, 38, 41, 41, 41, 41,
    45, 45, 45, 45, 47, 47, 64, 81, 64, 64, 72, 46, 72, 72, 46, 44, 63, 62, 58, 46, 44, 102, 9,
    102, 102, 102, 102, 102, 102, 102, 102, 102, 102, 102, 102, 102, 102, 102, 102, 102, 102,
    102, 102, 102, 102, 102, 102, 102, 102, 102, 102, 102, 102, 102, 102, 102, 102, 102, 102,
    102, 102, 102, 102, 102, 102, 102, 102, 102, 102, 102, 102]"

definition yy_chk :: "nat list" where
  "yy_chk =
   [0, 1, 1, 1, 1, 1, 1, 1, 1, 1, 1, 1, 1, 1, 1, 1, 1, 1, 1, 1, 1, 1, 1, 1, 1, 1, 1, 1, 1, 1,
    1, 1, 1, 1, 1, 1, 1, 1, 1, 1, 1, 1, 1, 1, 1, 1, 1, 1, 1, 2, 3, 4, 5, 6, 7, 8, 28, 3, 4, 19,
    22, 19, 19, 21, 21, 22, 33, 112, 2, 40, 111, 21, 28, 51, 23, 51, 23, 23, 51, 51, 5, 6, 7,
    8, 23, 33, 21, 23, 24, 43, 24, 24, 23, 110, 58, 40, 59, 40, 24, 23, 99, 24, 98, 40, 48, 48,
    40, 40, 40, 58, 97, 59, 48, 24, 50, 50, 49, 43, 49, 49, 54, 54, 50, 60, 75, 75, 49, 48, 54,
    49, 55, 96, 55, 76, 76, 55, 55, 50, 77, 77, 84, 49, 60, 54, 92, 78, 77, 78, 79, 79, 78, 78,
    80, 80, 90, 84, 87, 87, 88, 88, 100, 77, 89, 85, 100, 83, 82, 62, 61, 90, 103, 103, 103,
    103, 104, 104, 104, 104, 105, 105, 105, 105, 106, 106, 106, 106, 107, 107, 108, 56, 108,
    108, 109, 53, 109, 109, 45, 44, 37, 34, 27, 15, 11, 9, 102, 102, 102, 102, 102, 102, 102,
    102, 102, 102, 102, 102, 102, 102, 102, 102, 102, 102, 102, 102, 102, 102, 102, 102, 102,
    102, 102, 102, 102, 102, 102, 102, 102, 102, 102, 102, 102, 102, 102, 102, 102, 102, 102,
    102, 102, 102, 102, 102, 102]"

definition yy_rule_can_match_eol :: "nat list" where
  "yy_rule_can_match_eol =
   [0, 0, 0, 0, 1, 0, 1, 0, 0, 0, 0, 0, 0, 0, 0, 0, 0, 1, 0, 0, 0, 1, 0, 0, 0, 0, 0, 0, 0, 0,
    0, 0, 0, 0, 0, 0, 0, 0, 0, 0, 0, 0, 0]"

section \<open>Values of tokens\<close>

text \<open>The \<open>union YYSTYPE\<close>.\<close>

datatype yylval = Y_none | Y_ival i32 | Y_llval i64 | Y_fval double | Y_sval string

abbreviation (input) TOK_EOF :: int where "TOK_EOF \<equiv> 0"
abbreviation (input) TOK_BOOLEAN :: int where "TOK_BOOLEAN \<equiv> 258"
abbreviation (input) TOK_INTEGER :: int where "TOK_INTEGER \<equiv> 259"
abbreviation (input) TOK_HEX :: int where "TOK_HEX \<equiv> 260"
abbreviation (input) TOK_INTEGER64 :: int where "TOK_INTEGER64 \<equiv> 261"
abbreviation (input) TOK_HEX64 :: int where "TOK_HEX64 \<equiv> 262"
abbreviation (input) TOK_FLOAT :: int where "TOK_FLOAT \<equiv> 263"
abbreviation (input) TOK_STRING :: int where "TOK_STRING \<equiv> 264"
abbreviation (input) TOK_NAME :: int where "TOK_NAME \<equiv> 265"
abbreviation (input) TOK_EQUALS :: int where "TOK_EQUALS \<equiv> 266"
abbreviation (input) TOK_ARRAY_START :: int where "TOK_ARRAY_START \<equiv> 268"
abbreviation (input) TOK_ARRAY_END :: int where "TOK_ARRAY_END \<equiv> 269"
abbreviation (input) TOK_LIST_START :: int where "TOK_LIST_START \<equiv> 270"
abbreviation (input) TOK_LIST_END :: int where "TOK_LIST_END \<equiv> 271"
abbreviation (input) TOK_COMMA :: int where "TOK_COMMA \<equiv> 272"
abbreviation (input) TOK_GROUP_START :: int where "TOK_GROUP_START \<equiv> 273"
abbreviation (input) TOK_GROUP_END :: int where "TOK_GROUP_END \<equiv> 274"
abbreviation (input) TOK_SEMICOLON :: int where "TOK_SEMICOLON \<equiv> 275"
abbreviation (input) TOK_GARBAGE :: int where "TOK_GARBAGE \<equiv> 276"
abbreviation (input) TOK_ERROR :: int where "TOK_ERROR \<equiv> 277"

text \<open>\<open>atoll\<close>: the result of a text whose number does not fit is undefined, as for \<open>atoi\<close>.\<close>

definition atoll :: "string \<Rightarrow> i64 option" where
  "atoll t =
     (let (neg, t) = (if peek t = CHR ''-'' then (True, tl t)
                      else if peek t = CHR ''+'' then (False, tl t) else (False, t));
          v = int (digits_value (takeWhile is_digit t));
          v = (if neg then - v else v)
      in if - (2 ^ 63) \<le> v \<and> v < 2 ^ 63 then Some (word_of_int v) else None)"

text \<open>The decimal number \<open>m * 10 ^ k\<close> rounded to a \<open>double\<close>.\<close>

definition decimal_double :: "bool \<Rightarrow> nat \<Rightarrow> int \<Rightarrow> double" where
  "decimal_double neg m k =
     (if m = 0 then Fin neg 0 0
      else if 0 \<le> k then (if 400 < k then Inf neg else double_round neg (m * 10 ^ nat k) 0)
      else if 400 + int (length (dec_nat m)) < - k then Fin neg 0 0
      else double_quot neg m (10 ^ nat (- k)))"

definition atof :: "string \<Rightarrow> double" where
  "atof t =
     (let (neg, t) = (if peek t = CHR ''-'' then (True, tl t)
                      else if peek t = CHR ''+'' then (False, tl t) else (False, t));
          whole = takeWhile is_digit t;
          t = dropWhile is_digit t;
          fraction = (if peek t = CHR ''.'' then takeWhile is_digit (tl t) else []);
          t = (if peek t = CHR ''.'' then dropWhile is_digit (tl t) else t);
          ex = (if whole = [] \<and> fraction = [] then 0
                else if peek t = CHR ''e'' \<or> peek t = CHR ''E'' then
                  (let t = tl t
                   in if peek t = CHR ''-'' then - int (digits_value (takeWhile is_digit (tl t)))
                      else int (digits_value (takeWhile is_digit (if peek t = CHR ''+'' then tl t else t))))
                else 0)
      in decimal_double neg (digits_value (whole @ fraction)) (ex - int (length fraction)))"

definition hex_digit :: "char \<Rightarrow> nat option" where
  "hex_digit c =
     (let n = char_code c
      in if 48 \<le> n \<and> n \<le> 57 then Some (n - 48)
         else if 65 \<le> n \<and> n \<le> 70 then Some (n - 55)
         else if 97 \<le> n \<and> n \<le> 102 then Some (n - 87) else None)"

fun hex_value :: "nat \<Rightarrow> string \<Rightarrow> nat" where
  "hex_value a [] = a"
| "hex_value a (c # cs) = (case hex_digit c of None \<Rightarrow> a | Some d \<Rightarrow> hex_value (16 * a + d) cs)"

text \<open>\<open>strtoul\<close> and \<open>strtoull\<close> in base 16, of a text that starts with \<open>0x\<close>: too large a number is cut to the maximum.\<close>

definition strtoull16 :: "string \<Rightarrow> i64" where
  "strtoull16 t = of_nat (min (hex_value 0 (drop 2 t)) (2 ^ 64 - 1))"

definition fromhex :: "string \<Rightarrow> i64" where
  "fromhex t = strtoull16 t"

section \<open>State\<close>

record lexbuf =
  b_rest :: string
  b_bol :: bool
  b_line :: int
  b_dir :: bool

text \<open>The scanner, with its context, and the context of the parser (\<open>parsectx.h\<close>).\<close>

record reader =
  r_cfg :: cstate
  r_ctx :: scan_context
  r_io :: io
  r_start :: nat
  r_bufs :: "nat \<rightharpoonup> lexbuf"
  r_cur :: nat
  r_next :: nat
  r_echo :: string
  r_parent :: addr
  r_setting :: addr
  r_string :: strbuf

abbreviation (input) INITIAL :: nat where "INITIAL \<equiv> 0"
abbreviation (input) COMMENT :: nat where "COMMENT \<equiv> 1"
abbreviation (input) STRING :: nat where "STRING \<equiv> 2"
abbreviation (input) INCLUDE :: nat where "INCLUDE \<equiv> 3"

definition BEGIN :: "nat \<Rightarrow> reader \<Rightarrow> reader" where
  "BEGIN c r = r\<lparr>r_start := 1 + 2 * c\<rparr>"

text \<open>\<open>libconfig_yy_create_buffer\<close>, and the buffer of a string.\<close>

definition create_buffer :: "fentry \<Rightarrow> reader \<Rightarrow> nat \<times> reader" where
  "create_buffer e r =
     (let k = Suc (r_next r);
          b = (case e of F_file t \<Rightarrow> \<lparr>b_rest = t, b_bol = True, b_line = 1, b_dir = False\<rparr>
               | F_dir \<Rightarrow> \<lparr>b_rest = [], b_bol = True, b_line = 1, b_dir = True\<rparr>)
      in (k, r\<lparr>r_bufs := (r_bufs r)(k \<mapsto> b), r_next := k\<rparr>))"

definition switch_to_buffer :: "nat \<Rightarrow> reader \<Rightarrow> reader" where
  "switch_to_buffer k r = r\<lparr>r_cur := k\<rparr>"

definition delete_buffer :: "nat \<Rightarrow> reader \<Rightarrow> reader option" where
  "delete_buffer k r =
     (if k = 0 then Some r
      else if r_bufs r k = None then None
      else Some (r\<lparr>r_cur := (if k = r_cur r then 0 else r_cur r), r_bufs := (r_bufs r)(k := None)\<rparr>))"

definition yyget_lineno :: "reader \<Rightarrow> int option" where
  "yyget_lineno r = (if r_cur r = 0 then Some 0 else map_option b_line (r_bufs r (r_cur r)))"

section \<open>The match\<close>

text \<open>
  The search for the entry of a state: states without one fall back on their default, from state 103 on
  with the class replaced. The chain of defaults is shorter than the number of states.
\<close>

fun find_state :: "nat \<Rightarrow> nat \<Rightarrow> nat \<Rightarrow> (nat \<times> nat) option" where
  "find_state 0 st c = None"
| "find_state (Suc fuel) st c = do {
     b \<leftarrow> rd yy_base st;
     k \<leftarrow> rd yy_chk (b + c);
     if k = st then Some (st, c)
     else do {
       st \<leftarrow> rd yy_def st;
       c \<leftarrow> (if 103 \<le> st then rd yy_meta c else Some c);
       find_state fuel st c
     }
   }"

definition next_state :: "nat \<Rightarrow> nat \<Rightarrow> nat option" where
  "next_state st c = do {
     (st, c) \<leftarrow> find_state 5 st c;
     b \<leftarrow> rd yy_base st;
     rd yy_nxt (b + c)
   }"

text \<open>
  \<open>lastacc\<close> is the last accepting state and its position. The result is the action and the length of
  the match; at the end of the text the state reached decides, or else the last accepting one.
\<close>

fun run_dfa :: "string \<Rightarrow> nat \<Rightarrow> nat \<Rightarrow> (nat \<times> nat) option \<Rightarrow> (nat \<times> nat) option" where
  "run_dfa cs st pos lastacc = do {
     acc \<leftarrow> rd yy_accept st;
     let lastacc = (if acc \<noteq> 0 then Some (acc, pos) else lastacc);
     case cs of
       [] \<Rightarrow> lastacc
     | c # cs \<Rightarrow> do {
         k \<leftarrow> rd yy_ec (char_code c);
         st \<leftarrow> next_state st k;
         if st = 102 then lastacc else run_dfa cs st (Suc pos) lastacc
       }
   }"

declare run_dfa.simps [simp del]

section \<open>Actions\<close>

datatype lexed = L_token int yylval | L_exit

text \<open>A token is returned, or scanning goes on: \<open>None\<close>.\<close>

definition append_text :: "string \<Rightarrow> reader \<Rightarrow> (lexed option \<times> reader) option" where
  "append_text t r = map_option (\<lambda>c. (None, r\<lparr>r_ctx := c\<rparr>)) (scanctx_append_string t (r_ctx r))"

definition token :: "int \<Rightarrow> yylval \<Rightarrow> reader \<Rightarrow> (lexed option \<times> reader) option" where
  "token t v r = Some (Some (L_token t v), r)"

text \<open>Rules 1 to 4, 21, 22 and 40 ignore what they match.\<close>

definition action_string :: "nat \<Rightarrow> string \<Rightarrow> reader \<Rightarrow> (lexed option \<times> reader) option" where
  "action_string act yytext r =
     (if act = 5 then Some (None, BEGIN STRING r)
      else if act = 6 then append_text yytext r
      else if act = 7 then append_text [CHR 0x0A] r
      else if act = 8 then append_text [CHR 0x0D] r
      else if act = 9 then append_text [CHR 0x09] r
      else if act = 10 then append_text [CHR 0x0C] r
      else if act = 11 then append_text [CHR 0x5C] r
      else if act = 12 then append_text [CHR 0x22] r
      else if act = 13 then
        (let c = hex_value 0 (drop 2 yytext) mod 256
         in append_text (if c = 0 then [] else [char_of c]) r)
      else if act = 14 then append_text [CHR 0x5C] r
      else do {
        (t, c) \<leftarrow> scanctx_take_string (r_ctx r);
        token TOK_STRING (Y_sval t) (BEGIN INITIAL (r\<lparr>r_ctx := c\<rparr>))
      })"

definition open_include :: "reader \<Rightarrow> (lexed option \<times> reader) option" where
  "open_include r = do {
     (fp, error, c, f) \<leftarrow> scanctx_push_include (c_include_dir (cfg (r_cfg r))) (r_cur r) (r_ctx r) (r_io r);
     let r = r\<lparr>r_ctx := c, r_io := f\<rparr>;
     if fp \<noteq> 0 then do {
       e \<leftarrow> io_open f fp;
       let (b, r) = create_buffer e r;
       Some (None, BEGIN INITIAL (switch_to_buffer b r))
     }
     else do {
       file \<leftarrow> scanctx_current_filename c;
       line \<leftarrow> yyget_lineno r;
       token TOK_ERROR Y_none
         (r\<lparr>r_cfg := with_cfg (\<lambda>g. g\<lparr>c_error_text := error, c_error_file := file, c_error_line := line\<rparr>) (r_cfg r)\<rparr>)
     }
   }"

definition action_include :: "nat \<Rightarrow> string \<Rightarrow> reader \<Rightarrow> (lexed option \<times> reader) option" where
  "action_include act yytext r =
     (if act = 16 then Some (None, BEGIN INCLUDE r)
      else if act = 17 then append_text yytext r
      else if act = 18 then append_text [CHR 0x5C] r
      else if act = 19 then append_text [CHR 0x22] r
      else open_include r)"

definition action_token :: "nat \<Rightarrow> string \<Rightarrow> reader \<Rightarrow> (lexed option \<times> reader) option" where
  "action_token act yytext r =
     (if act = 23 then token TOK_EQUALS Y_none r
      else if act = 24 then token TOK_COMMA Y_none r
      else if act = 25 then token TOK_GROUP_START Y_none r
      else if act = 26 then token TOK_GROUP_END Y_none r
      else if act = 27 then token TOK_BOOLEAN (Y_ival 1) r
      else if act = 28 then token TOK_BOOLEAN (Y_ival 0) r
      else if act = 29 then token TOK_NAME (Y_sval yytext) r
      else if act = 30 then token TOK_FLOAT (Y_fval (atof yytext)) r
      else if act = 31 then do { v \<leftarrow> atoi yytext; token TOK_INTEGER (Y_ival v) r }
      else if act = 32 then do { v \<leftarrow> atoll yytext; token TOK_INTEGER64 (Y_llval v) r }
      else if act = 33 then token TOK_HEX (Y_ival (ucast (strtoull16 yytext))) r
      else if act = 34 then token TOK_HEX64 (Y_llval (fromhex yytext)) r
      else if act = 35 then token TOK_ARRAY_START Y_none r
      else if act = 36 then token TOK_ARRAY_END Y_none r
      else if act = 37 then token TOK_LIST_START Y_none r
      else if act = 38 then token TOK_LIST_END Y_none r
      else if act = 39 then token TOK_SEMICOLON Y_none r
      else token TOK_GARBAGE Y_none r)"

text \<open>Rule 42 is the default rule: what it matches goes to the standard output.\<close>

definition yy_do_action :: "nat \<Rightarrow> string \<Rightarrow> reader \<Rightarrow> (lexed option \<times> reader) option" where
  "yy_do_action act yytext r =
     (if act = 1 then Some (None, BEGIN COMMENT r)
      else if act = 2 then Some (None, BEGIN INITIAL r)
      else if act = 3 \<or> act = 4 \<or> act = 21 \<or> act = 22 \<or> act = 40 then Some (None, r)
      else if 5 \<le> act \<and> act \<le> 15 then action_string act yytext r
      else if 16 \<le> act \<and> act \<le> 20 then action_include act yytext r
      else if 23 \<le> act \<and> act \<le> 41 then action_token act yytext r
      else if act = 42 then Some (None, r\<lparr>r_echo := r_echo r @ yytext\<rparr>)
      else None)"

text \<open>The end of a buffer: back to the including file, or the end of the input.\<close>

definition action_eof :: "reader \<Rightarrow> (lexed option \<times> reader) option" where
  "action_eof r = do {
     (buf, c, f) \<leftarrow> scanctx_pop_include (r_ctx r) (r_io r);
     let r = r\<lparr>r_ctx := c, r_io := f\<rparr>;
     if buf \<noteq> 0 then do {
       r \<leftarrow> delete_buffer (r_cur r) r;
       Some (None, switch_to_buffer buf r)
     }
     else token TOK_EOF Y_none r
   }"

text \<open>
  One round of the loop of \<open>yylex\<close>: the match, the line count, the last character back for rule 40
  (a comment up to the end of the line), whether a line begins, and the action.
\<close>

definition yylex_round :: "reader \<Rightarrow> (lexed option \<times> reader) option" where
  "yylex_round r = do {
     b \<leftarrow> r_bufs r (r_cur r);
     if b_dir b then Some (Some L_exit, r)
     else if b_rest b = [] then action_eof r
     else do {
       (act, len) \<leftarrow> run_dfa (b_rest b) (r_start r + (if b_bol b then 1 else 0)) 0 None;
       eol \<leftarrow> rd yy_rule_can_match_eol act;
       let yytext = take len (b_rest b);
       let line = (if eol \<noteq> 0 then b_line b + int (length (filter (\<lambda>c. c = CHR 0x0A) yytext)) else b_line b);
       let len = (if act = 40 then len - 1 else len);
       let yytext = take len (b_rest b);
       let bol = (if 0 < len then last yytext = CHR 0x0A else b_bol b);
       let r = r\<lparr>r_bufs := (r_bufs r)(r_cur r \<mapsto> b\<lparr>b_rest := drop len (b_rest b), b_line := line, b_bol := bol\<rparr>)\<rparr>;
       yy_do_action act yytext r
     }
   }"

partial_function (option) yylex :: "reader \<Rightarrow> (lexed \<times> reader) option" where
  "yylex r = do {
     (t, r) \<leftarrow> yylex_round r;
     case t of None \<Rightarrow> yylex r | Some t \<Rightarrow> Some (t, r)
   }"

declare yylex.simps [code]

end
