(* ===== verification/Config_Buffers.thy ===== *)
theory Config_Buffers
  imports Config_Scanner
begin

text \<open>
  The buffers of the scanner as \<open>flex\<close> keeps them (\<open>scanner.c\<close>): an array that holds a part of the file, two NULs
  behind it, the character that was overwritten by the NUL behind the last token, and the refilling when the end of
  the array is met in the middle of a match. Cells that have not been written are undefined to read.
\<close>

section \<open>Buffers\<close>

abbreviation (input) YY_BUF_SIZE :: nat where "YY_BUF_SIZE \<equiv> 16384"
abbreviation (input) YY_READ_BUF_SIZE :: nat where "YY_READ_BUF_SIZE \<equiv> 8192"
abbreviation (input) YY_END_OF_BUFFER :: nat where "YY_END_OF_BUFFER \<equiv> 43"
abbreviation (input) YY_END_OF_BUFFER_CHAR :: char where "YY_END_OF_BUFFER_CHAR \<equiv> CHR 0x00"

datatype yy_status = BUFFER_NEW | BUFFER_NORMAL | BUFFER_EOF_PENDING

text \<open>\<open>struct yy_buffer_state\<close>; the input file is what is left to read of it.\<close>

record flexbuf =
  fb_input :: fentry
  fb_ch :: "char option list"
  fb_pos :: nat
  fb_size :: nat
  fb_n :: nat
  fb_ours :: bool
  fb_bol :: bool
  fb_fill :: bool
  fb_status :: yy_status

text \<open>The part of \<open>struct yyguts_t\<close> for the current buffer; pointers into the array are indices.\<close>

record flexer =
  fx_buf :: flexbuf
  fx_hold :: char
  fx_n :: nat
  fx_cp :: nat
  fx_text :: nat
  fx_start :: nat
  fx_last :: "nat \<times> nat"

definition rd_char :: "char option list \<Rightarrow> nat \<Rightarrow> char option" where
  "rd_char ch i = do { c \<leftarrow> rd ch i; c }"

definition yy_flush_buffer :: "flexbuf \<Rightarrow> flexbuf option" where
  "yy_flush_buffer b = do {
     ch \<leftarrow> wr (fb_ch b) 0 (Some YY_END_OF_BUFFER_CHAR);
     ch \<leftarrow> wr ch 1 (Some YY_END_OF_BUFFER_CHAR);
     Some (b\<lparr>fb_n := 0, fb_ch := ch, fb_pos := 0, fb_bol := True, fb_status := BUFFER_NEW\<rparr>)
   }"

definition yy_init_buffer :: "fentry \<Rightarrow> flexbuf \<Rightarrow> flexbuf option" where
  "yy_init_buffer file b = do { b \<leftarrow> yy_flush_buffer b; Some (b\<lparr>fb_input := file, fb_fill := True\<rparr>) }"

definition yy_create_buffer :: "fentry \<Rightarrow> nat \<Rightarrow> flexbuf option" where
  "yy_create_buffer file n =
     yy_init_buffer file \<lparr>fb_input = file, fb_ch = replicate (n + 2) None, fb_pos = 0, fb_size = n, fb_n = 0,
       fb_ours = True, fb_bol = True, fb_fill = True, fb_status = BUFFER_NEW\<rparr>"

text \<open>The null pointer for an array without its two NULs; the scanner then switches to the buffer, as below.\<close>

definition yy_scan_buffer :: "char option list \<Rightarrow> flexbuf option option" where
  "yy_scan_buffer base =
     (let n = length base in
      if n < 2 then Some None
      else do {
        c \<leftarrow> rd_char base (n - 2);
        d \<leftarrow> rd_char base (n - 1);
        if c \<noteq> YY_END_OF_BUFFER_CHAR \<or> d \<noteq> YY_END_OF_BUFFER_CHAR then Some None
        else Some (Some \<lparr>fb_input = F_file [], fb_ch = base, fb_pos = 0, fb_size = n - 2, fb_n = n - 2,
                         fb_ours = False, fb_bol = True, fb_fill = False, fb_status = BUFFER_NEW\<rparr>)
      })"

definition yy_scan_bytes :: "string \<Rightarrow> flexbuf option option" where
  "yy_scan_bytes bytes = do {
     b \<leftarrow> yy_scan_buffer (map Some (bytes @ [YY_END_OF_BUFFER_CHAR, YY_END_OF_BUFFER_CHAR]));
     Some (map_option (\<lambda>b. b\<lparr>fb_ours := True\<rparr>) b)
   }"

definition yy_scan_string :: "string \<Rightarrow> flexbuf option option" where
  "yy_scan_string yystr = yy_scan_bytes (takeWhile (\<lambda>c. c \<noteq> CHR 0x00) yystr)"

definition yy_load_buffer_state :: "flexer \<Rightarrow> flexer option" where
  "yy_load_buffer_state x = do {
     let b = fx_buf x;
     hold \<leftarrow> rd_char (fb_ch b) (fb_pos b);
     Some (x\<lparr>fx_n := fb_n b, fx_text := fb_pos b, fx_cp := fb_pos b, fx_hold := hold\<rparr>)
   }"

definition yyrestart :: "flexer \<Rightarrow> flexer option" where
  "yyrestart x = do { b \<leftarrow> yy_init_buffer (fb_input (fx_buf x)) (fx_buf x); yy_load_buffer_state (x\<lparr>fx_buf := b\<rparr>) }"

section \<open>Refilling\<close>

datatype eob_act = EOB_ACT_CONTINUE_SCAN | EOB_ACT_END_OF_FILE | EOB_ACT_LAST_MATCH | EOB_FATAL

text \<open>The room behind the text that is kept, in the unsigned arithmetic of \<open>yy_size_t\<close>.\<close>

definition num_to_read :: "nat \<Rightarrow> flexbuf \<Rightarrow> nat" where
  "num_to_read moved b =
     (if moved + 1 \<le> fb_size b then fb_size b - (moved + 1) else 2 ^ 64 - (moved + 1 - fb_size b))"

definition realloc_chars :: "nat \<Rightarrow> char option list \<Rightarrow> char option list" where
  "realloc_chars n ch = take n ch @ replicate (n - length ch) None"

text \<open>The loop that makes room, \<open>None\<close> for the fatal error of a buffer that is not the scanner's own.\<close>

partial_function (option) grow_buffer :: "nat \<Rightarrow> flexbuf \<Rightarrow> flexbuf option option" where
  "grow_buffer moved b =
     (if num_to_read moved b \<noteq> 0 then Some (Some b)
      else if \<not> fb_ours b then Some None
      else let b = b\<lparr>fb_size := (if fb_size b * 2 = 0 then fb_size b + fb_size b div 8 else fb_size b * 2)\<rparr>
           in grow_buffer moved (b\<lparr>fb_ch := realloc_chars (fb_size b + 2) (fb_ch b)\<rparr>))"

text \<open>The reading; what has been read is appended to the text that was kept.\<close>

definition fill_buffer :: "nat \<Rightarrow> flexer \<Rightarrow> (bool \<times> flexer) option" where
  "fill_buffer moved x =
     (if fb_status (fx_buf x) = BUFFER_EOF_PENDING
      then Some (True, x\<lparr>fx_n := 0, fx_buf := fx_buf x\<lparr>fb_n := 0\<rparr>\<rparr>)
      else do {
        b \<leftarrow> grow_buffer moved (fx_buf x);
        case b of
          None \<Rightarrow> Some (False, x)
        | Some b \<Rightarrow>
            (case fb_input b of
               F_dir \<Rightarrow> Some (False, x\<lparr>fx_buf := b\<rparr>)
             | F_file t \<Rightarrow> do {
                 let part = take (min (num_to_read moved b) YY_READ_BUF_SIZE) t;
                 ch \<leftarrow> wr_block (fb_ch b) moved (map Some part);
                 let n = length part;
                 Some (True, x\<lparr>fx_n := n, fx_buf := b\<lparr>fb_ch := ch, fb_input := F_file (drop n t), fb_n := n\<rparr>\<rparr>)
               })
      })"

text \<open>The end of it: the two NULs behind the text.\<close>

definition end_refill :: "nat \<Rightarrow> eob_act \<Rightarrow> flexer \<Rightarrow> (eob_act \<times> flexer) option" where
  "end_refill moved ret x = do {
     let ch = (if fb_size (fx_buf x) < fx_n x + moved
               then realloc_chars (fx_n x + moved + fx_n x div 2) (fb_ch (fx_buf x)) else fb_ch (fx_buf x));
     let n = fx_n x + moved;
     ch \<leftarrow> wr ch n (Some YY_END_OF_BUFFER_CHAR);
     ch \<leftarrow> wr ch (n + 1) (Some YY_END_OF_BUFFER_CHAR);
     Some (ret, x\<lparr>fx_n := n, fx_text := 0, fx_buf := fx_buf x\<lparr>fb_ch := ch\<rparr>\<rparr>)
   }"

definition yy_get_next_buffer :: "flexer \<Rightarrow> (eob_act \<times> flexer) option" where
  "yy_get_next_buffer x =
     (if fx_n x + 1 < fx_cp x then Some (EOB_FATAL, x)
      else if \<not> fb_fill (fx_buf x)
      then Some (if fx_cp x - fx_text x = 1 then EOB_ACT_END_OF_FILE else EOB_ACT_LAST_MATCH, x)
      else do {
        let moved = fx_cp x - fx_text x - 1;
        let ch = fb_ch (fx_buf x);
        kept \<leftarrow> rd_block ch (fx_text x) moved;
        ch \<leftarrow> wr_block ch 0 kept;
        (ok, x) \<leftarrow> fill_buffer moved (x\<lparr>fx_buf := fx_buf x\<lparr>fb_ch := ch\<rparr>\<rparr>);
        if \<not> ok then Some (EOB_FATAL, x)
        else if fx_n x = 0 then
          (if moved = 0 then do { x \<leftarrow> yyrestart x; end_refill moved EOB_ACT_END_OF_FILE x }
           else end_refill moved EOB_ACT_LAST_MATCH (x\<lparr>fx_buf := fx_buf x\<lparr>fb_status := BUFFER_EOF_PENDING\<rparr>\<rparr>))
        else end_refill moved EOB_ACT_CONTINUE_SCAN x
      })"

section \<open>The match\<close>

text \<open>The loop of \<open>yy_match\<close> over the cells from the current position on; the result is the last accepting state
  and its position.\<close>

fun scan_chars :: "char option list \<Rightarrow> nat \<Rightarrow> nat \<Rightarrow> nat \<times> nat \<Rightarrow> (nat \<times> nat) option" where
  "scan_chars [] cp st la = None"
| "scan_chars (cell # ch) cp st la = do {
     c \<leftarrow> cell;
     k \<leftarrow> rd yy_ec (char_code c);
     acc \<leftarrow> rd yy_accept st;
     let la = (if acc \<noteq> 0 then (st, cp) else la);
     st \<leftarrow> next_state st k;
     if st = 102 then Some la else scan_chars ch (Suc cp) st la
   }"

text \<open>\<open>yy_get_previous_state\<close>: the same over a text that has been matched before; a NUL is in class 1.\<close>

fun previous_state :: "char option list \<Rightarrow> nat \<Rightarrow> nat \<Rightarrow> nat \<times> nat \<Rightarrow> (nat \<times> nat \<times> nat) option" where
  "previous_state [] cp st la = Some (st, la)"
| "previous_state (cell # ch) cp st la = do {
     c \<leftarrow> cell;
     k \<leftarrow> (if c \<noteq> CHR 0x00 then rd yy_ec (char_code c) else Some 1);
     acc \<leftarrow> rd yy_accept st;
     let la = (if acc \<noteq> 0 then (st, cp) else la);
     st \<leftarrow> next_state st k;
     previous_state ch (Suc cp) st la
   }"

definition first_state :: "flexer \<Rightarrow> nat" where
  "first_state x = fx_start x + (if fb_bol (fx_buf x) then 1 else 0)"

definition yy_get_previous_state :: "flexer \<Rightarrow> (nat \<times> flexer) option" where
  "yy_get_previous_state x = do {
     (st, la) \<leftarrow> previous_state (take (fx_cp x - fx_text x) (drop (fx_text x) (fb_ch (fx_buf x))))
                    (fx_text x) (first_state x) (fx_last x);
     Some (st, x\<lparr>fx_last := la\<rparr>)
   }"

text \<open>0 when the automaton jams.\<close>

definition yy_try_NUL_trans :: "nat \<Rightarrow> flexer \<Rightarrow> (nat \<times> flexer) option" where
  "yy_try_NUL_trans st x = do {
     acc \<leftarrow> rd yy_accept st;
     let x = (if acc \<noteq> 0 then x\<lparr>fx_last := (st, fx_cp x)\<rparr> else x);
     st \<leftarrow> next_state st 1;
     Some (if st = 102 then 0 else st, x)
   }"

text \<open>\<open>YY_DO_BEFORE_ACTION\<close>, which ends \<open>yytext\<close> with a NUL, and its undoing.\<close>

definition before_action :: "nat \<Rightarrow> nat \<Rightarrow> flexer \<Rightarrow> flexer option" where
  "before_action bp cp x = do {
     hold \<leftarrow> rd_char (fb_ch (fx_buf x)) cp;
     ch \<leftarrow> wr (fb_ch (fx_buf x)) cp (Some CHR 0x00);
     Some (x\<lparr>fx_text := bp, fx_hold := hold, fx_cp := cp, fx_buf := fx_buf x\<lparr>fb_ch := ch\<rparr>\<rparr>)
   }"

definition undo_action :: "nat \<Rightarrow> flexer \<Rightarrow> flexer option" where
  "undo_action cp x = do {
     ch \<leftarrow> wr (fb_ch (fx_buf x)) cp (Some (fx_hold x));
     Some (x\<lparr>fx_buf := fx_buf x\<lparr>fb_ch := ch\<rparr>\<rparr>)
   }"

datatype goes_to = G_match nat nat | G_find nat nat | G_eof | G_fatal

text \<open>The action for the end of the buffer.\<close>

definition end_of_buffer :: "nat \<Rightarrow> flexer \<Rightarrow> (goes_to \<times> flexer) option" where
  "end_of_buffer cp x = do {
     let matched = cp - fx_text x - 1;
     x \<leftarrow> undo_action cp x;
     let x = (if fb_status (fx_buf x) = BUFFER_NEW
              then x\<lparr>fx_n := fb_n (fx_buf x), fx_buf := fx_buf x\<lparr>fb_status := BUFFER_NORMAL\<rparr>\<rparr> else x);
     if fx_cp x \<le> fx_n x then do {
       let x = x\<lparr>fx_cp := fx_text x + matched\<rparr>;
       (st, x) \<leftarrow> yy_get_previous_state x;
       (st, x) \<leftarrow> yy_try_NUL_trans st x;
       if st \<noteq> 0 then let x = x\<lparr>fx_cp := Suc (fx_cp x)\<rparr> in Some (G_match st (fx_cp x), x)
       else Some (G_find (fst (fx_last x)) (snd (fx_last x)), x)
     }
     else do {
       (act, x) \<leftarrow> yy_get_next_buffer x;
       case act of
         EOB_ACT_END_OF_FILE \<Rightarrow> Some (G_eof, x\<lparr>fx_cp := fx_text x\<rparr>)
       | EOB_ACT_CONTINUE_SCAN \<Rightarrow> do {
           let x = x\<lparr>fx_cp := fx_text x + matched\<rparr>;
           (st, x) \<leftarrow> yy_get_previous_state x;
           Some (G_match st (fx_cp x), x)
         }
       | EOB_ACT_LAST_MATCH \<Rightarrow> do {
           let x = x\<lparr>fx_cp := fx_n x\<rparr>;
           (st, x) \<leftarrow> yy_get_previous_state x;
           Some (G_find st (fx_cp x), x)
         }
       | EOB_FATAL \<Rightarrow> Some (G_fatal, x)
     }
   }"

definition yy_match :: "nat \<Rightarrow> nat \<Rightarrow> flexer \<Rightarrow> (nat \<times> nat \<times> flexer) option" where
  "yy_match st cp x = do {
     la \<leftarrow> scan_chars (drop cp (fb_ch (fx_buf x))) cp st (fx_last x);
     Some (fst la, snd la, x\<lparr>fx_last := la\<rparr>)
   }"

text \<open>The rule that matches, the end of the input, or the end of the process.\<close>

datatype flexed = F_rule nat | F_eof | F_exit

partial_function (option) yy_find_action :: "nat \<Rightarrow> nat \<Rightarrow> nat \<Rightarrow> flexer \<Rightarrow> (flexed \<times> flexer) option" where
  "yy_find_action st bp cp x = do {
     act \<leftarrow> rd yy_accept st;
     x \<leftarrow> before_action bp cp x;
     if act = 0 then do {
       x \<leftarrow> undo_action cp x;
       yy_find_action (fst (fx_last x)) bp (snd (fx_last x)) x
     }
     else if act \<noteq> YY_END_OF_BUFFER then Some (F_rule act, x)
     else do {
       (g, x) \<leftarrow> end_of_buffer cp x;
       case g of
         G_match st cp \<Rightarrow> do { (st, cp, x) \<leftarrow> yy_match st cp x; yy_find_action st (fx_text x) cp x }
       | G_find st cp \<Rightarrow> yy_find_action st (fx_text x) cp x
       | G_eof \<Rightarrow> Some (F_eof, x)
       | G_fatal \<Rightarrow> Some (F_exit, x)
     }
   }"

declare yy_find_action.simps [code] grow_buffer.simps [code]

text \<open>The start of a round of \<open>yylex\<close>, up to the action.\<close>

definition next_rule :: "flexer \<Rightarrow> (flexed \<times> flexer) option" where
  "next_rule x = do {
     x \<leftarrow> undo_action (fx_cp x) x;
     let bp = fx_cp x;
     (st, cp, x) \<leftarrow> yy_match (first_state x) bp x;
     yy_find_action st bp cp x
   }"

text \<open>The trailing context of rule 40: the last character goes back.\<close>

definition give_back :: "flexer \<Rightarrow> flexer option" where
  "give_back x = do { y \<leftarrow> undo_action (fx_cp x) x; before_action (fx_text y) (fx_cp y - 1) y }"

definition yytext_of :: "flexer \<Rightarrow> string option" where
  "yytext_of x =
     (let cells = take (fx_cp x - fx_text x) (drop (fx_text x) (fb_ch (fx_buf x)))
      in if list_all (\<lambda>c. c \<noteq> None) cells then Some (map the cells) else None)"

text \<open>\<open>YY_RULE_SETUP\<close>: whether the next match begins a line.\<close>

definition rule_setup :: "flexer \<Rightarrow> flexer option" where
  "rule_setup x =
     (if fx_text x < fx_cp x
      then do { c \<leftarrow> rd_char (fb_ch (fx_buf x)) (fx_cp x - 1); Some (x\<lparr>fx_buf := fx_buf x\<lparr>fb_bol := (c = CHR 0x0A)\<rparr>\<rparr>) }
      else Some x)"

text \<open>A round of \<open>yylex\<close> up to the code of the rule.\<close>

definition flex_round :: "flexer \<Rightarrow> (flexed \<times> flexer) option" where
  "flex_round x = do {
     (f, x) \<leftarrow> next_rule x;
     case f of
       F_rule act \<Rightarrow> do { x \<leftarrow> (if act = 40 then give_back x else Some x); x \<leftarrow> rule_setup x; Some (f, x) }
     | _ \<Rightarrow> Some (f, x)
   }"

section \<open>Changing buffers\<close>

text \<open>Another buffer than the current one. The first half of \<open>yy_switch_to_buffer\<close> puts what the scanner keeps of a buffer back into it.\<close>

definition flush_info :: "flexer \<Rightarrow> flexer option" where
  "flush_info x = do {
     x \<leftarrow> undo_action (fx_cp x) x;
     Some (x\<lparr>fx_buf := fx_buf x\<lparr>fb_pos := fx_cp x, fb_n := fx_n x\<rparr>\<rparr>)
   }"

definition yy_switch_to_buffer :: "flexbuf \<Rightarrow> flexer \<Rightarrow> (flexbuf \<times> flexer) option" where
  "yy_switch_to_buffer new_buffer x = do {
     x \<leftarrow> flush_info x;
     y \<leftarrow> yy_load_buffer_state (x\<lparr>fx_buf := new_buffer\<rparr>);
     Some (fx_buf x, y)
   }"

text \<open>
  The stack of buffers, an array of pointers that may be null; the pointer to the array is null at first. The current
  buffer is the one at the top; its contents are those of the scanner's \<open>fx_buf\<close>.
\<close>

record buffer_stack =
  bs_cells :: "flexbuf option list option"
  bs_top :: nat
  bs_x :: flexer

definition YY_CURRENT_BUFFER :: "buffer_stack \<Rightarrow> flexbuf option option" where
  "YY_CURRENT_BUFFER s = (case bs_cells s of None \<Rightarrow> Some None | Some cs \<Rightarrow> rd cs (bs_top s))"

definition yyensure_buffer_stack :: "buffer_stack \<Rightarrow> buffer_stack" where
  "yyensure_buffer_stack s =
     (case bs_cells s of
        None \<Rightarrow> s\<lparr>bs_cells := Some [None], bs_top := 0\<rparr>
      | Some cs \<Rightarrow> if length cs \<le> bs_top s + 1 then s\<lparr>bs_cells := Some (cs @ replicate 8 None)\<rparr> else s)"

definition yypush_buffer_state :: "flexbuf option \<Rightarrow> buffer_stack \<Rightarrow> buffer_stack option" where
  "yypush_buffer_state new_buffer s =
     (case new_buffer of
        None \<Rightarrow> Some s
      | Some nb \<Rightarrow> do {
          let s = yyensure_buffer_stack s;
          cs \<leftarrow> bs_cells s;
          cur \<leftarrow> YY_CURRENT_BUFFER s;
          (cs, t, x) \<leftarrow>
            (case cur of
               None \<Rightarrow> Some (cs, bs_top s, bs_x s)
             | Some _ \<Rightarrow> do {
                 x \<leftarrow> flush_info (bs_x s);
                 cs \<leftarrow> wr cs (bs_top s) (Some (fx_buf x));
                 Some (cs, bs_top s + 1, x)
               });
          cs \<leftarrow> wr cs t (Some nb);
          x \<leftarrow> yy_load_buffer_state (x\<lparr>fx_buf := nb\<rparr>);
          Some (s\<lparr>bs_cells := Some cs, bs_top := t, bs_x := x\<rparr>)
        })"

definition yypop_buffer_state :: "buffer_stack \<Rightarrow> buffer_stack option" where
  "yypop_buffer_state s = do {
     cur \<leftarrow> YY_CURRENT_BUFFER s;
     case cur of
       None \<Rightarrow> Some s
     | Some _ \<Rightarrow> do {
         cs \<leftarrow> bs_cells s;
         cs \<leftarrow> wr cs (bs_top s) None;
         let s = s\<lparr>bs_cells := Some cs, bs_top := bs_top s - 1\<rparr>;
         cur \<leftarrow> YY_CURRENT_BUFFER s;
         case cur of
           None \<Rightarrow> Some s
         | Some b \<Rightarrow> do { x \<leftarrow> yy_load_buffer_state ((bs_x s)\<lparr>fx_buf := b\<rparr>); Some (s\<lparr>bs_x := x\<rparr>) }
       }
   }"

end
