(* ===== verification/Config_Match.thy ===== *)
theory Config_Match
  imports Config_Scanner
begin

text \<open>
  The automaton of the scanner never leaves its tables, and on every text without a NUL it finds a match:
  at least one character, by one of the rules.
\<close>

section \<open>Facts about the tables\<close>

lemma table_lengths [simp]:
  "length yy_accept = 103" "length yy_ec = 256" "length yy_meta = 49" "length yy_base = 113" "length yy_def = 113"
  "length yy_nxt = 253" "length yy_chk = 253" "length yy_rule_can_match_eol = 43"
  by (simp_all add: yy_accept_def yy_ec_def yy_meta_def yy_base_def yy_def_def yy_nxt_def yy_chk_def yy_rule_can_match_eol_def)

lemma all_nth: "list_all P xs \<Longrightarrow> i < length xs \<Longrightarrow> P (xs ! i)"
  by (simp add: list_all_length)

lemma base_le: "i < 113 \<Longrightarrow> yy_base ! i \<le> 204"
  by (rule all_nth) (simp_all add: yy_base_def)

lemma meta_range: "c < 49 \<Longrightarrow> yy_meta ! c \<le> 4 \<and> (0 < c \<longrightarrow> 0 < yy_meta ! c)"
proof -
  assume "c < 49"
  have "list_all (\<lambda>m. 0 < m \<and> m \<le> 4) (tl yy_meta)" "yy_meta ! 0 = 0" by (simp_all add: yy_meta_def)
  with \<open>c < 49\<close> show ?thesis using all_nth [of _ "tl yy_meta" "c - 1"] by (cases c) (auto simp: nth_tl)
qed

lemma ec_range: "i < 256 \<Longrightarrow> yy_ec ! i \<le> 48 \<and> (0 < i \<longrightarrow> 0 < yy_ec ! i)"
proof -
  assume "i < 256"
  have "list_all (\<lambda>m. 0 < m \<and> m \<le> 48) (tl yy_ec)" "yy_ec ! 0 = 0" by (simp_all add: yy_ec_def)
  with \<open>i < 256\<close> show ?thesis using all_nth [of _ "tl yy_ec" "i - 1"] by (cases i) (auto simp: nth_tl)
qed

text \<open>The defaults lead to state 102 in at most two steps.\<close>

lemma def_range:
  assumes "0 < i" and "i < 113" and "i \<noteq> 102"
  shows "yy_def ! i = 102 \<or> yy_def ! i = 1 \<or> 103 \<le> yy_def ! i \<and> yy_def ! i < 113"
proof -
  have "list_all (\<lambda>(i, d). i = 0 \<or> i = 102 \<or> d = 102 \<or> d = 1 \<or> 103 \<le> d \<and> d < 113) (enumerate 0 yy_def)"
    by (simp add: yy_def_def)
  from all_nth [OF this, of i] assms show ?thesis by (simp add: nth_enumerate_eq)
qed

lemma def_last: "i = 1 \<or> 103 \<le> i \<and> i < 113 \<Longrightarrow> yy_def ! i = 102"
proof -
  assume i: "i = 1 \<or> 103 \<le> i \<and> i < 113"
  have "list_all (\<lambda>(i, d). i = 1 \<or> 103 \<le> i \<longrightarrow> d = 102) (enumerate 0 yy_def)" by (simp add: yy_def_def)
  from all_nth [OF this, of i] i show ?thesis by (auto simp: nth_enumerate_eq)
qed

lemma chk_102: "c < 49 \<Longrightarrow> yy_chk ! (204 + c) = 102"
proof -
  assume "c < 49"
  have "drop 204 yy_chk = replicate 49 102" by (simp add: yy_chk_def eval_nat_numeral)
  then have "drop 204 yy_chk ! c = 102" using \<open>c < 49\<close> by simp
  then show ?thesis by simp
qed

lemma good_start: "list_all (\<lambda>(k, n). k \<in> {1..8} \<union> {103, 104, 105} \<longrightarrow> yy_accept ! n \<noteq> 0 \<and> yy_accept ! n \<noteq> 40) (zip yy_chk yy_nxt)"
  by (simp add: yy_chk_def yy_nxt_def yy_accept_def)

text \<open>A state has an entry for a class.\<close>

definition has_entry :: "nat \<Rightarrow> nat \<Rightarrow> bool" where
  "has_entry st c \<longleftrightarrow> yy_chk ! (yy_base ! st + c) = st"

lemma base_102: "yy_base ! 102 = 204"
  by (simp add: yy_base_def)

lemma entry_102: "c < 49 \<Longrightarrow> has_entry 102 c"
  by (simp add: has_entry_def base_102 chk_102)

lemma find_state_step:
  assumes "st < 113" and "c < 49"
  shows "find_state (Suc fuel) st c =
    (if has_entry st c then Some (st, c) else find_state fuel (yy_def ! st) (if 103 \<le> yy_def ! st then yy_meta ! c else c))"
  using assms base_le [OF assms(1)] by (simp add: rd_def has_entry_def)

lemma find_state_ends:
  assumes "0 < st" and "st < 113" and "0 < c" and "c < 49"
  shows "\<exists>st' c'. find_state 5 st c = Some (st', c') \<and> 0 < st' \<and> st' < 113 \<and> 0 < c' \<and> c' < 49 \<and> has_entry st' c'"
proof -
  have five: "(5 :: nat) = Suc (Suc (Suc 2))" by simp
  have last: "\<exists>st' c'. find_state (Suc (Suc fuel)) st c = Some (st', c') \<and> 0 < st' \<and> st' < 113 \<and> 0 < c' \<and> c' < 49 \<and> has_entry st' c'"
    if "st = 1 \<or> st = 102 \<or> 103 \<le> st \<and> st < 113" "0 < c" "c < 49" for st c fuel
  proof (cases "has_entry st c")
    case False
    then have "yy_def ! st = 102" using that def_last [of st] entry_102 [OF that(3)] by auto
    then show ?thesis using that False entry_102 [OF that(3)]
      by (auto simp: find_state_step simp del: find_state.simps)
  qed (use that in \<open>auto simp: find_state_step simp del: find_state.simps\<close>)
  show ?thesis
  proof (cases "has_entry st c")
    case False
    then have "st \<noteq> 102" using entry_102 [OF assms(4)] by auto
    then have d: "yy_def ! st = 1 \<or> yy_def ! st = 102 \<or> 103 \<le> yy_def ! st \<and> yy_def ! st < 113"
      using def_range [OF assms(1,2)] by auto
    let ?c = "if 103 \<le> yy_def ! st then yy_meta ! c else c"
    have "0 < ?c" "?c < 49" using meta_range [OF assms(4)] assms(3,4) by auto
    from last [OF d this, of 2] show ?thesis
      using False assms unfolding five by (simp only: find_state_step if_False)
  next
    case True
    then have "find_state 5 st c = Some (st, c)" using assms unfolding five by (simp only: find_state_step if_True)
    then show ?thesis using assms True by blast
  qed
qed

lemma next_entries: "list_all (\<lambda>(k, n). k = 0 \<or> 0 < n \<and> n < 103 \<and> (n = 9 \<longrightarrow> k = 102)) (zip yy_chk yy_nxt)"
  by (simp add: yy_chk_def yy_nxt_def)

lemma nine_once: "i < 253 \<Longrightarrow> yy_nxt ! i = 9 \<Longrightarrow> i = 204 \<or> i = 0"
proof -
  assume i: "i < 253" "yy_nxt ! i = 9"
  have "list_all (\<lambda>(i, n). n = 9 \<longrightarrow> i = 204) (enumerate 0 yy_nxt)" by (simp add: yy_nxt_def)
  from all_nth [OF this, of i] i show ?thesis by (simp add: nth_enumerate_eq)
qed

lemma next_state_ok:
  assumes "0 < st" and "st < 103" and "0 < c" and "c < 49"
  shows "\<exists>t. next_state st c = Some t \<and> 0 < t \<and> t < 103 \<and> t \<noteq> 9"
proof -
  obtain st' c' where f: "find_state 5 st c = Some (st', c')" "0 < st'" "st' < 113" "0 < c'" "c' < 49" "has_entry st' c'"
    using find_state_ends [of st c] assms by auto
  let ?i = "yy_base ! st' + c'"
  have i: "?i < 253" "yy_chk ! ?i = st'" using base_le [OF f(3)] f(5,6) by (simp_all add: has_entry_def)
  have n: "0 < yy_nxt ! ?i" "yy_nxt ! ?i < 103" "yy_nxt ! ?i = 9 \<longrightarrow> st' = 102"
    using all_nth [OF next_entries, of ?i] i f(2) by auto
  have "yy_nxt ! ?i \<noteq> 9"
  proof
    assume "yy_nxt ! ?i = 9"
    with n(3) nine_once [OF i(1)] f(4) show False by (simp add: base_102)
  qed
  with f(1) i(1) f(3) n show ?thesis by (simp add: next_state_def rd_def)
qed

text \<open>The first character of a match: a start state has a rule for each.\<close>

lemma entry_1: "0 < c \<Longrightarrow> c < 49 \<Longrightarrow> has_entry 1 c"
proof -
  assume c: "0 < c" "c < 49"
  have "list_all (\<lambda>(i, k). 0 < i \<and> i < 49 \<longrightarrow> k = 1) (enumerate 0 yy_chk)" by (simp add: yy_chk_def)
  from all_nth [OF this, of c] c show ?thesis by (simp add: nth_enumerate_eq has_entry_def yy_base_def)
qed

lemma entry_start: "st \<in> {103, 104, 105} \<Longrightarrow> 0 < c \<Longrightarrow> c \<le> 4 \<Longrightarrow> has_entry st c"
proof -
  assume "st \<in> {103, 104, 105}" "0 < c" "c \<le> 4"
  moreover from this have "c = 1 \<or> c = 2 \<or> c = 3 \<or> c = 4" by linarith
  ultimately show ?thesis by (auto simp: has_entry_def yy_chk_def yy_base_def)
qed

lemma next_state_start:
  assumes "0 < st" and "st < 9" and "0 < c" and "c < 49"
  shows "\<exists>t. next_state st c = Some t \<and> yy_accept ! t \<noteq> 0 \<and> yy_accept ! t \<noteq> 40"
proof -
  have five: "(5 :: nat) = Suc (Suc 3)" by simp
  have "\<exists>st' c'. find_state 5 st c = Some (st', c') \<and> st' \<in> {1..8} \<union> {103, 104, 105} \<and> c' < 49 \<and> has_entry st' c'"
  proof (cases "has_entry st c")
    case False
    let ?m = "yy_meta ! c"
    have m: "0 < ?m" "?m \<le> 4" using meta_range [OF assms(4)] assms(3) by auto
    from assms(1,2) have "st = 1 \<or> st = 2 \<or> st \<in> {3..8}" by auto
    then have "yy_def ! st = 1 \<and> st = 2 \<or> yy_def ! st \<in> {103, 104, 105}"
      using False entry_1 [OF assms(3,4)] by (auto simp: yy_def_def eval_nat_numeral numeral_eq_Suc atLeastAtMost_iff le_Suc_eq)
    then show ?thesis
    proof
      assume d: "yy_def ! st = 1 \<and> st = 2"
      have "find_state 5 st c = find_state (Suc 3) 1 c"
        using False assms conjunct1 [OF d] find_state_step [of st c "Suc 3"] unfolding five by (simp del: find_state.simps)
      also have "\<dots> = Some (1, c)"
        using entry_1 [OF assms(3,4)] assms(4) by (subst find_state_step) simp_all
      finally show ?thesis using entry_1 [OF assms(3,4)] assms(4) by auto
    next
      assume d: "yy_def ! st \<in> {103, 104, 105}"
      have e: "has_entry (yy_def ! st) ?m" by (rule entry_start [OF d m])
      have "find_state 5 st c = find_state (Suc 3) (yy_def ! st) ?m"
        using False assms d find_state_step [of st c "Suc 3"] unfolding five by (auto simp del: find_state.simps)
      also have "\<dots> = Some (yy_def ! st, ?m)"
        using e d m(2) by (subst find_state_step) auto
      finally show ?thesis using e d m(2) by auto
    qed
  next
    case True
    then have "find_state 5 st c = Some (st, c)" using assms unfolding five by (subst find_state_step) simp_all
    moreover have "st \<in> {1..8}" using assms(1,2) by auto
    ultimately show ?thesis using assms True by blast
  qed
  then obtain st' c' where f: "find_state 5 st c = Some (st', c')" "st' \<in> {1..8} \<union> {103, 104, 105}" "c' < 49" "has_entry st' c'"
    by blast
  let ?i = "yy_base ! st' + c'"
  have st': "st' < 113" using f(2) by auto
  have i: "?i < 253" "yy_chk ! ?i = st'" using base_le [OF st'] f(3,4) by (simp_all add: has_entry_def)
  have "yy_accept ! (yy_nxt ! ?i) \<noteq> 0 \<and> yy_accept ! (yy_nxt ! ?i) \<noteq> 40"
    using all_nth [OF good_start, of ?i] i f(2) by auto
  with f(1) i(1) st' show ?thesis by (simp add: next_state_def rd_def)
qed


section \<open>The longest match\<close>

lemma accept_range: "st < 103 \<Longrightarrow> st \<noteq> 9 \<Longrightarrow> yy_accept ! st \<le> 42"
proof -
  assume st: "st < 103" "st \<noteq> 9"
  have "list_all (\<lambda>(i, a). i = 9 \<or> a \<le> 42) (enumerate 0 yy_accept)" by (simp add: yy_accept_def)
  from all_nth [OF this, of st] st show ?thesis by (simp add: nth_enumerate_eq)
qed

lemma accept_102: "yy_accept ! 102 = 0"
  by (simp add: yy_accept_def)

lemma accept_start: "st < 9 \<Longrightarrow> yy_accept ! st = 0"
proof -
  assume st: "st < 9"
  have "list_all (\<lambda>(i, a). i < 9 \<longrightarrow> a = 0) (enumerate 0 yy_accept)" by (simp add: yy_accept_def)
  from all_nth [OF this, of st] st show ?thesis by (simp add: nth_enumerate_eq)
qed

lemma char_code_range: "c \<noteq> NUL \<Longrightarrow> 0 < char_code c \<and> char_code c < 256"
  using of_char_eq_iff [of c NUL, where ?'a = nat] by auto

text \<open>A rule that has matched: its action, and the length of the match, which for a comment up to the
  end of a line takes in that end.\<close>

definition matched :: "nat \<Rightarrow> nat \<Rightarrow> bool" where
  "matched act len \<longleftrightarrow> 0 < act \<and> act \<le> 42 \<and> 0 < len \<and> (act = 40 \<longrightarrow> 2 \<le> len)"

lemma run_dfa_matches:
  assumes "0 < st" and "st < 102" and "st \<noteq> 9" and "NUL \<notin> set cs" and "0 < pos"
    and "\<And>act len. lastacc = Some (act, len) \<Longrightarrow> matched act len \<and> len \<le> pos"
    and "yy_accept ! st = 40 \<Longrightarrow> 2 \<le> pos" and "lastacc = None \<Longrightarrow> yy_accept ! st \<noteq> 0"
  shows "\<exists>act len. run_dfa cs st pos lastacc = Some (act, len) \<and> matched act len \<and> len \<le> pos + length cs"
  using assms
proof (induction cs arbitrary: st pos lastacc)
  case (Cons c cs)
  let ?last = "if yy_accept ! st \<noteq> 0 then Some (yy_accept ! st, pos) else lastacc"
  have m: "matched act len \<and> len \<le> pos" if "?last = Some (act, len)" for act len
    using that Cons.prems(5-7) accept_range [of st] Cons.prems(2,3) by (auto simp: matched_def split: if_splits)
  have s: "?last \<noteq> None" using Cons.prems(8) by (cases lastacc) auto
  let ?k = "yy_ec ! char_code c"
  have c: "0 < char_code c" "char_code c < 256" using char_code_range [of c] Cons.prems(4) by auto
  have k: "0 < ?k" "?k < 49" using ec_range [OF c(2)] c(1) by auto
  obtain t where t: "next_state st ?k = Some t" "0 < t" "t < 103" "t \<noteq> 9"
    using next_state_ok [OF Cons.prems(1) _ k] Cons.prems(2) by auto
  have run: "run_dfa (c # cs) st pos lastacc = (if t = 102 then ?last else run_dfa cs t (Suc pos) ?last)"
    using Cons.prems(2) c(2) t(1) by (subst run_dfa.simps) (simp add: rd_def)
  show ?case
  proof (cases "t = 102")
    case True
    from s obtain act len where "?last = Some (act, len)" by (metis option.exhaust surj_pair)
    with m [OF this] True run show ?thesis by auto
  next
    case False
    have "\<exists>act len. run_dfa cs t (Suc pos) ?last = Some (act, len) \<and> matched act len \<and> len \<le> Suc pos + length cs"
      by (rule Cons.IH) (use t False Cons.prems m s in \<open>auto split: if_splits\<close>)
    with run False show ?thesis by auto
  qed
next
  case Nil
  let ?last = "if yy_accept ! st \<noteq> 0 then Some (yy_accept ! st, pos) else lastacc"
  have m: "matched act len \<and> len \<le> pos" if "?last = Some (act, len)" for act len
    using that Nil.prems(5-7) accept_range [of st] Nil.prems(2,3) by (auto simp: matched_def split: if_splits)
  have "?last \<noteq> None" using Nil.prems(8) by (cases lastacc) auto
  then obtain act len where "?last = Some (act, len)" by (metis option.exhaust surj_pair)
  with m [OF this] Nil.prems(2) show ?case by (subst run_dfa.simps) (simp add: rd_def)
qed

lemma run_dfa_start:
  assumes "0 < st" and "st < 9" and "NUL \<notin> set cs" and "cs \<noteq> []"
  shows "\<exists>act len. run_dfa cs st 0 None = Some (act, len) \<and> matched act len \<and> len \<le> length cs"
proof -
  obtain c cs' where cs: "cs = c # cs'" using assms(4) by (cases cs) auto
  let ?k = "yy_ec ! char_code c"
  have c: "0 < char_code c" "char_code c < 256" using char_code_range [of c] assms(3) cs by auto
  have k: "0 < ?k" "?k < 49" using ec_range [OF c(2)] c(1) by auto
  obtain t where t: "next_state st ?k = Some t" "yy_accept ! t \<noteq> 0" "yy_accept ! t \<noteq> 40"
    using next_state_start [OF assms(1,2) k] by auto
  have t': "0 < t" "t < 103" "t \<noteq> 9" "t \<noteq> 102"
    using next_state_ok [OF assms(1) _ k] assms(2) t accept_102 by auto
  have "run_dfa cs st 0 None = run_dfa cs' t 1 None"
    using assms(2) c(2) t(1) t'(4) accept_start [OF assms(2)] by (subst run_dfa.simps) (simp add: rd_def cs)
  moreover have "\<exists>act len. run_dfa cs' t 1 None = Some (act, len) \<and> matched act len \<and> len \<le> 1 + length cs'"
    by (rule run_dfa_matches) (use t t' assms(3) cs in auto)
  ultimately show ?thesis using cs by simp
qed

end
