(* ===== verification/Config_Buffers_Facts.thy ===== *)
theory Config_Buffers_Facts
  imports Config_Buffers Config_Match
begin

text \<open>
  The buffered scanner finds what the scanner on the whole text finds: the match does not depend on where the
  refilling of the buffer cuts the text, and no cell outside the array, or not yet written, is touched.
\<close>

section \<open>The automaton on a part of a text\<close>

abbreviation (input) inner :: "nat \<Rightarrow> bool" where
  "inner s \<equiv> 0 < s \<and> s < 102 \<and> s \<noteq> 9"

text \<open>Either the automaton jams, or it reaches the end; with the last accepting state and its position.\<close>

datatype ran = Jammed "(nat \<times> nat) option" | Reached nat "(nat \<times> nat) option"

fun runs :: "string \<Rightarrow> nat \<Rightarrow> nat \<Rightarrow> (nat \<times> nat) option \<Rightarrow> ran option" where
  "runs [] st pos la = Some (Reached st la)"
| "runs (c # cs) st pos la = do {
     acc \<leftarrow> rd yy_accept st;
     let la = (if acc \<noteq> 0 then Some (st, pos) else la);
     k \<leftarrow> rd yy_ec (char_code c);
     st \<leftarrow> next_state st k;
     if st = 102 then Some (Jammed la) else runs cs st (Suc pos) la
   }"

definition accepted :: "(nat \<times> nat) option \<Rightarrow> (nat \<times> nat) option" where
  "accepted la = map_option (\<lambda>(st, pos). (yy_accept ! st, pos)) la"

lemma accepted_SomeD: "Some (act, n) = accepted la \<Longrightarrow> \<exists>s. la = Some (s, n) \<and> act = yy_accept ! s"
  by (cases la) (auto simp: accepted_def)

lemma run_dfa_runs:
  "runs u st pos la = Some r \<Longrightarrow> run_dfa (u @ v) st pos (accepted la) =
     (case r of Jammed l \<Rightarrow> accepted l | Reached st' l \<Rightarrow> run_dfa v st' (pos + length u) (accepted l))"
proof (induction u arbitrary: st pos la)
  case (Cons c u)
  then obtain acc k t where s: "rd yy_accept st = Some acc" "rd yy_ec (char_code c) = Some k" "next_state st k = Some t"
    by (auto simp: bind_eq_Some_conv Let_def)
  define l where "l = (if acc \<noteq> 0 then Some (st, pos) else la)"
  have acc: "acc = yy_accept ! st" using s(1) by (simp add: rd_def split: if_splits)
  then have l: "accepted l = (if acc \<noteq> 0 then Some (acc, pos) else accepted la)" by (simp add: l_def accepted_def)
  have step: "run_dfa ((c # u) @ v) st pos (accepted la) = (if t = 102 then accepted l else run_dfa (u @ v) t (Suc pos) (accepted l))"
    unfolding append_Cons by (subst run_dfa.simps) (simp add: s l del: append_Cons)
  have r: "(if t = 102 then Some (Jammed l) else runs u t (Suc pos) l) = Some r" using Cons.prems s by (simp add: l_def Let_def split: if_splits)
  show ?case
  proof (cases "t = 102")
    case True
    then show ?thesis using step r by auto
  next
    case False
    then have "runs u t (Suc pos) l = Some r" using r by simp
    from Cons.IH [OF this] have "run_dfa (u @ v) t (Suc pos) (accepted l) =
      (case r of Jammed l \<Rightarrow> accepted l | Reached st' l \<Rightarrow> run_dfa v st' (pos + length (c # u)) (accepted l))"
      unfolding length_Cons add_Suc_shift .
    then show ?thesis unfolding step using False by (simp only: if_False)
  qed
qed auto

lemma runs_append:
  "runs (u @ v) st pos la = do {
     r \<leftarrow> runs u st pos la;
     case r of Jammed l \<Rightarrow> Some (Jammed l) | Reached st l \<Rightarrow> runs v st (pos + length u) l }"
proof (induction u arbitrary: st pos la)
  case (Cons c u)
  note IH = Cons.IH [of _ "Suc pos", unfolded add_Suc_shift]
  show ?case unfolding length_Cons
    by (cases "rd yy_accept st"; cases "rd yy_ec (char_code c)"; cases "next_state st (the (rd yy_ec (char_code c)))")
      (simp_all add: IH Let_def del: add_Suc_right)
qed simp

lemma inner_step:
  assumes "inner st" and "c \<noteq> CHR 0x00"
  shows "\<exists>acc k t. rd yy_accept st = Some acc \<and> rd yy_ec (char_code c) = Some k \<and> next_state st k = Some t \<and> (t = 102 \<or> inner t)"
proof -
  have c: "0 < char_code c" "char_code c < 256" using char_code_range [of c] assms(2) by auto
  then have k: "rd yy_ec (char_code c) = Some (yy_ec ! char_code c)" "0 < yy_ec ! char_code c" "yy_ec ! char_code c < 49"
    using ec_range [of "char_code c"] by (auto simp: rd_def)
  have "0 < st" "st < 103" using assms(1) by auto
  from next_state_ok [OF this k(2,3)] obtain t where t: "next_state st (yy_ec ! char_code c) = Some t" "0 < t" "t < 103" "t \<noteq> 9"
    by blast
  have "rd yy_accept st = Some (yy_accept ! st)" using assms(1) by (simp add: rd_def)
  moreover have "t = 102 \<or> inner t" using t by auto
  ultimately show ?thesis using k(1) t(1) by blast
qed

text \<open>The last accepting state is one of the rules', not after position \<open>n\<close>.\<close>

definition accepts :: "nat \<Rightarrow> (nat \<times> nat) option \<Rightarrow> bool" where
  "accepts n la \<longleftrightarrow> (\<forall>s p. la = Some (s, p) \<longrightarrow> inner s \<and> yy_accept ! s \<noteq> 0 \<and> p \<le> n)"

lemma runs_total:
  assumes "inner st" and "CHR 0x00 \<notin> set u" and "accepts pos la"
  shows "\<exists>r. runs u st pos la = Some r
    \<and> (case r of Jammed l \<Rightarrow> accepts (pos + length u) l | Reached st' l \<Rightarrow> inner st' \<and> accepts (pos + length u) l)"
  using assms
proof (induction u arbitrary: st pos la)
  case (Cons c u)
  obtain acc k t where s: "rd yy_accept st = Some acc" "rd yy_ec (char_code c) = Some k" "next_state st k = Some t"
    "t = 102 \<or> inner t" using inner_step [OF Cons.prems(1), of c] Cons.prems(2) by auto
  define l where "l = (if acc \<noteq> 0 then Some (st, pos) else la)"
  have acc: "acc = yy_accept ! st" using s(1) by (simp add: rd_def split: if_splits)
  have l: "accepts (Suc pos) l" "accepts (pos + length (c # u)) l"
    using Cons.prems(1,3) acc by (auto simp: l_def accepts_def)
  show ?case
  proof (cases "t = 102")
    case True
    then show ?thesis using s(1-3) l(2) by (simp add: l_def)
  next
    case False
    then have "inner t" using s(4) by blast
    have E: "Suc pos + length u = pos + length (c # u)" by simp
    have step: "runs (c # u) st pos la = runs u t (Suc pos) l" using s(1-3) False by (simp add: l_def Let_def)
    have "CHR 0x00 \<notin> set u" using Cons.prems(2) by simp
    from Cons.IH [OF \<open>inner t\<close> this l(1)] show ?thesis unfolding step E .
  qed
qed auto

section \<open>The same on the cells of a buffer\<close>

lemma entries_0: "list_all (\<lambda>(i, k). k = 0 \<or> k = 9 \<or> k = 102 \<or> yy_base ! k \<noteq> i) (enumerate 0 yy_chk)"
  by (simp add: yy_chk_def yy_base_def)

lemma no_entry_0: "0 < st \<Longrightarrow> st < 113 \<Longrightarrow> st \<noteq> 9 \<Longrightarrow> st \<noteq> 102 \<Longrightarrow> \<not> has_entry st 0"
proof
  assume st: "0 < st" "st < 113" "st \<noteq> 9" "st \<noteq> 102" "has_entry st 0"
  have "yy_base ! st < 253" using base_le [OF st(2)] by simp
  with all_nth [OF entries_0, of "yy_base ! st"] st show False by (simp add: nth_enumerate_eq has_entry_def)
qed

lemma eob_nine: "next_state 9 0 = Some 102"
proof -
  have "has_entry 9 0" "yy_nxt ! (yy_base ! 9) = 102" "yy_base ! 9 < 253"
    by (simp_all add: has_entry_def yy_base_def yy_chk_def yy_nxt_def)
  moreover have "find_state 5 9 0 = Some (9, 0)"
    using find_state_step [of 9 0 4] calculation(1) by (simp add: eval_nat_numeral)
  ultimately show ?thesis by (simp add: next_state_def rd_def)
qed

lemma inner_eob:
  assumes "inner st"
  shows "next_state st 0 = Some 9"
proof -
  have five: "(5 :: nat) = Suc (Suc (Suc 2))" by simp
  have m: "yy_meta ! 0 = 0" by (simp add: yy_meta_def)
  have at: "find_state (Suc fuel) 102 0 = Some (102, 0)" for fuel
    using find_state_step [of 102 0 fuel] entry_102 [of 0] by simp
  have down: "find_state (Suc fuel) s 0 = find_state fuel (yy_def ! s) 0" if "0 < s" "s < 113" "s \<noteq> 9" "s \<noteq> 102" for s fuel
    using find_state_step [of s 0 fuel] no_entry_0 [OF that] that m by simp
  have d: "yy_def ! st = 102 \<or> yy_def ! st = 1 \<or> 103 \<le> yy_def ! st \<and> yy_def ! st < 113"
    by (rule def_range) (use assms in auto)
  have "find_state 5 st 0 = find_state (Suc (Suc 2)) (yy_def ! st) 0" unfolding five by (rule down) (use assms in auto)
  also have "\<dots> = Some (102, 0)"
  proof (cases "yy_def ! st = 102")
    case False
    then have "yy_def ! (yy_def ! st) = 102" using d def_last by blast
    moreover have "find_state (Suc (Suc 2)) (yy_def ! st) 0 = find_state (Suc 2) (yy_def ! (yy_def ! st)) 0"
      by (rule down) (use d False in auto)
    ultimately show ?thesis by (simp only: at)
  qed (simp only: at)
  finally have "find_state 5 st 0 = Some (102, 0)" .
  moreover have "yy_nxt ! 204 = 9" by (simp add: yy_nxt_def)
  ultimately show ?thesis by (simp add: next_state_def rd_def base_102)
qed

text \<open>Positions count from the start \<open>b\<close> of the match; before anything has been accepted there is an old value.\<close>

definition pick :: "nat \<Rightarrow> nat \<times> nat \<Rightarrow> (nat \<times> nat) option \<Rightarrow> nat \<times> nat" where
  "pick b old la = (case la of None \<Rightarrow> old | Some (s, p) \<Rightarrow> (s, b + p))"

lemma pick_Some [simp]: "pick b old (Some (s, p)) = (s, b + p)" "pick b old None = old"
  by (simp_all add: pick_def)

lemma scan_chars_runs:
  assumes "inner st" and "CHR 0x00 \<notin> set v"
  shows "scan_chars (map Some v @ Some (CHR 0x00) # Some (CHR 0x00) # z) (b + pos) st (pick b old la) =
    (case runs v st pos la of None \<Rightarrow> None | Some (Jammed l) \<Rightarrow> Some (pick b old l) | Some (Reached st' l) \<Rightarrow> Some (9, b + pos + length v + 1))"
  using assms
proof (induction v arbitrary: st pos la)
  case Nil
  have "rd yy_ec (char_code (CHR 0x00)) = Some 0" by (simp add: rd_def yy_ec_def)
  moreover have "rd yy_accept st = Some (yy_accept ! st)" using Nil(1) by (simp add: rd_def)
  moreover have "rd yy_accept 9 = Some 43" by (simp add: rd_def yy_accept_def)
  ultimately show ?case using inner_eob [OF Nil(1)] eob_nine by simp
next
  case (Cons c v)
  obtain acc k t where s: "rd yy_accept st = Some acc" "rd yy_ec (char_code c) = Some k" "next_state st k = Some t"
    "t = 102 \<or> inner t" using inner_step [OF Cons.prems(1), of c] Cons.prems(2) by auto
  let ?l = "if acc \<noteq> 0 then Some (st, pos) else la"
  show ?case
  proof (cases "t = 102")
    case True
    then show ?thesis using s(1-3) by (simp add: Let_def)
  next
    case False
    then have "inner t" using s(4) by blast
    have step: "runs (c # v) st pos la = runs v t (Suc pos) ?l" using s(1-3) False by (simp add: Let_def)
    have "CHR 0x00 \<notin> set v" using Cons.prems(2) by simp
    note IH = Cons.IH [OF \<open>inner t\<close> this, of "Suc pos" ?l]
    have "scan_chars (map Some (c # v) @ Some (CHR 0x00) # Some (CHR 0x00) # z) (b + pos) st (pick b old la) =
      scan_chars (map Some v @ Some (CHR 0x00) # Some (CHR 0x00) # z) (b + Suc pos) t (pick b old ?l)"
      using s(1-3) False by (simp add: Let_def)
    then show ?thesis unfolding step IH by (simp split: option.split ran.split)
  qed
qed

lemma previous_state_runs:
  assumes "inner st" and "CHR 0x00 \<notin> set v" and "runs v st pos la = Some (Reached st' l)"
  shows "previous_state (map Some v) (b + pos) st (pick b old la) = Some (st', pick b old l)"
  using assms
proof (induction v arbitrary: st pos la)
  case (Cons c v)
  obtain acc k t where s: "rd yy_accept st = Some acc" "rd yy_ec (char_code c) = Some k" "next_state st k = Some t"
    "t = 102 \<or> inner t" using inner_step [OF Cons.prems(1), of c] Cons.prems(2) by auto
  let ?l = "if acc \<noteq> 0 then Some (st, pos) else la"
  have t: "t \<noteq> 102" "runs v t (Suc pos) ?l = Some (Reached st' l)"
    using Cons.prems(3) s(1-3) by (auto simp: Let_def split: if_splits)
  then have "inner t" using s(4) by blast
  moreover have "CHR 0x00 \<notin> set v" "c \<noteq> CHR 0x00" using Cons.prems(2) by auto
  ultimately show ?case using Cons.IH [OF _ _ t(2)] s(1-3) by (simp add: Let_def split: if_splits)
qed simp

section \<open>What a buffer holds\<close>

text \<open>The text that is not in the buffer yet.\<close>

definition unread_file :: "flexer \<Rightarrow> string" where
  "unread_file x = (if fb_fill (fx_buf x) then (case fb_input (fx_buf x) of F_file t \<Rightarrow> t | F_dir \<Rightarrow> []) else [])"

lemma unread_file_same [simp]:
  "unread_file (x\<lparr>fx_text := t\<rparr>) = unread_file x" "unread_file (x\<lparr>fx_hold := c\<rparr>) = unread_file x"
  "unread_file (x\<lparr>fx_cp := t\<rparr>) = unread_file x" "unread_file (x\<lparr>fx_last := la\<rparr>) = unread_file x"
  "unread_file (x\<lparr>fx_n := t\<rparr>) = unread_file x"
  by (simp_all add: unread_file_def)

lemma unread_file_buf [simp]:
  "unread_file (x\<lparr>fx_buf := b\<lparr>fb_ch := ch\<rparr>\<rparr>) = unread_file (x\<lparr>fx_buf := b\<rparr>)"
  "unread_file (x\<lparr>fx_buf := b\<lparr>fb_status := st\<rparr>\<rparr>) = unread_file (x\<lparr>fx_buf := b\<rparr>)"
  "unread_file (x\<lparr>fx_buf := b\<lparr>fb_n := n\<rparr>\<rparr>) = unread_file (x\<lparr>fx_buf := b\<rparr>)"
  "unread_file (x\<lparr>fx_buf := fx_buf x\<rparr>) = unread_file x"
  by (simp_all add: unread_file_def)

text \<open>From \<open>bp\<close> on the array holds the text \<open>w\<close>, up to the two NULs.\<close>

definition array_holds :: "char option list \<Rightarrow> nat \<Rightarrow> string \<Rightarrow> bool" where
  "array_holds ch bp w \<longleftrightarrow> (\<exists>pre z. ch = pre @ map Some w @ Some (CHR 0x00) # Some (CHR 0x00) # z \<and> length pre = bp)"

definition buffered :: "nat \<Rightarrow> flexer \<Rightarrow> string \<Rightarrow> bool" where
  "buffered bp x w \<longleftrightarrow>
     array_holds (fb_ch (fx_buf x)) bp w \<and> fx_n x = bp + length w \<and> CHR 0x00 \<notin> set (w @ unread_file x)
     \<and> (fb_status (fx_buf x) = BUFFER_NEW \<longrightarrow> fb_n (fx_buf x) = fx_n x)
     \<and> (fb_fill (fx_buf x) \<longrightarrow> fb_ours (fx_buf x) \<and> fx_n x < fb_size (fx_buf x)
          \<and> length (fb_ch (fx_buf x)) = fb_size (fx_buf x) + 2 \<and> fb_input (fx_buf x) \<noteq> F_dir
          \<and> (fb_status (fx_buf x) = BUFFER_EOF_PENDING \<longrightarrow> fb_input (fx_buf x) = F_file []))"

text \<open>What stays as it is through a refill.\<close>

definition same_start :: "flexer \<Rightarrow> flexer \<Rightarrow> bool" where
  "same_start x y \<longleftrightarrow> fx_start y = fx_start x \<and> fb_bol (fx_buf y) = fb_bol (fx_buf x)"

lemma first_state_same [simp]:
  "first_state (x\<lparr>fx_text := t\<rparr>) = first_state x" "first_state (x\<lparr>fx_hold := c\<rparr>) = first_state x"
  "first_state (x\<lparr>fx_cp := t\<rparr>) = first_state x" "first_state (x\<lparr>fx_last := la\<rparr>) = first_state x"
  "first_state (x\<lparr>fx_n := t\<rparr>) = first_state x"
  by (simp_all add: first_state_def)

lemma same_start_refl [simp]: "same_start x x"
  by (simp add: same_start_def)

lemma same_start_trans: "same_start x y \<Longrightarrow> same_start y z \<Longrightarrow> same_start x z"
  by (simp add: same_start_def)

lemma same_start_first: "same_start x y \<Longrightarrow> first_state y = first_state x"
  by (simp add: same_start_def first_state_def)

lemma buffered_char:
  assumes "buffered bp x w" and "i \<le> length w + 1"
  shows "\<exists>c. rd_char (fb_ch (fx_buf x)) (bp + i) = Some c" and "bp + i < length (fb_ch (fx_buf x))"
proof -
  obtain pre z where ch: "fb_ch (fx_buf x) = pre @ map Some w @ Some (CHR 0x00) # Some (CHR 0x00) # z" "length pre = bp"
    using assms(1) by (auto simp: buffered_def array_holds_def)
  show "bp + i < length (fb_ch (fx_buf x))" using ch assms(2) by simp
  have "rd (fb_ch (fx_buf x)) (bp + i) = Some (Some (if i < length w then w ! i else CHR 0x00))"
    using ch assms(2) by (auto simp: rd_def nth_append nth_Cons')
  then show "\<exists>c. rd_char (fb_ch (fx_buf x)) (bp + i) = Some c" by (simp add: rd_char_def)
qed

text \<open>Ending \<open>yytext\<close> with a NUL and undoing it leaves the array as it was.\<close>

lemma before_undo:
  assumes "rd_char (fb_ch (fx_buf x)) cp = Some c"
  shows "\<exists>x1. before_action bp cp x = Some x1 \<and> undo_action cp x1 = Some (x\<lparr>fx_text := bp, fx_hold := c, fx_cp := cp\<rparr>)
    \<and> fx_cp x1 = cp \<and> fx_text x1 = bp \<and> fx_last x1 = fx_last x"
proof -
  have c: "cp < length (fb_ch (fx_buf x))" "fb_ch (fx_buf x) ! cp = Some c"
    using assms by (auto simp: rd_char_def rd_def split: if_splits)
  let ?x = "x\<lparr>fx_text := bp, fx_hold := c, fx_cp := cp, fx_buf := fx_buf x\<lparr>fb_ch := (fb_ch (fx_buf x))[cp := Some (CHR 0x00)]\<rparr>\<rparr>"
  have old: "(fb_ch (fx_buf x))[cp := Some c] = fb_ch (fx_buf x)" using c(2) by (metis list_update_id)
  have "before_action bp cp x = Some ?x" using c(1) assms by (simp add: before_action_def wr_def)
  moreover have "undo_action cp ?x = Some (x\<lparr>fx_text := bp, fx_hold := c, fx_cp := cp\<rparr>)"
    using c(1) old by (cases x; cases "fx_buf x") (simp add: undo_action_def wr_def)
  moreover have "fx_cp ?x = cp \<and> fx_text ?x = bp \<and> fx_last ?x = fx_last x" by simp
  ultimately show ?thesis by blast
qed

lemma buffered_same:
  "buffered bp (x\<lparr>fx_text := t\<rparr>) w = buffered bp x w" "buffered bp (x\<lparr>fx_hold := c\<rparr>) w = buffered bp x w"
  "buffered bp (x\<lparr>fx_last := la\<rparr>) w = buffered bp x w" "buffered bp (x\<lparr>fx_cp := cp\<rparr>) w = buffered bp x w"
  by (simp_all add: buffered_def)

section \<open>Refilling\<close>

lemma grow_buffer_ok:
  assumes "fb_ours b" and "moved < fb_size b" and "length (fb_ch b) = fb_size b + 2"
  shows "\<exists>n ch. grow_buffer moved b = Some (Some (b\<lparr>fb_size := n, fb_ch := fb_ch b @ ch\<rparr>)) \<and> moved + 1 < n
    \<and> length (fb_ch b @ ch) = n + 2"
proof (cases "moved + 1 < fb_size b")
  case True
  then have "grow_buffer moved b = Some (Some b)" by (subst grow_buffer.simps) (simp add: num_to_read_def)
  then show ?thesis using True assms(3) by (intro exI [of _ "fb_size b"] exI [of _ "[]"]) simp
next
  case False
  then have s: "fb_size b = moved + 1" using assms(2) by simp
  let ?n = "fb_size b * 2"
  let ?b = "b\<lparr>fb_size := ?n, fb_ch := realloc_chars (?n + 2) (fb_ch b)\<rparr>"
  have "grow_buffer moved ?b = Some (Some ?b)" by (subst grow_buffer.simps) (simp add: num_to_read_def s)
  then have "grow_buffer moved b = Some (Some ?b)"
    using assms(1) s by (subst grow_buffer.simps) (simp add: num_to_read_def Let_def)
  moreover have "realloc_chars (?n + 2) (fb_ch b) = fb_ch b @ replicate (fb_size b) None"
    using assms(3) by (simp add: realloc_chars_def)
  ultimately show ?thesis using assms(3) s
    by (intro exI [of _ ?n] exI [of _ "replicate (fb_size b) None"]) simp
qed

lemma move_to_front:
  assumes "ch = pre @ map Some w @ r" and "length pre = bp"
  shows "rd_block ch bp (length w) = Some (map Some w)"
    and "wr_block ch 0 (map Some w) = Some (map Some w @ drop (length w) ch)"
  using assms by (simp_all add: rd_block_def wr_block_def)

lemma end_with_NULs:
  assumes "length a = n" and "n + 2 \<le> length (a @ b)"
  shows "\<exists>z. wr (a @ b) n (Some (CHR 0x00)) = Some (a @ Some (CHR 0x00) # tl b)
    \<and> wr (a @ Some (CHR 0x00) # tl b) (n + 1) (Some (CHR 0x00)) = Some (a @ Some (CHR 0x00) # Some (CHR 0x00) # z)
    \<and> length (a @ Some (CHR 0x00) # Some (CHR 0x00) # z) = length (a @ b)"
proof -
  obtain c d z where b: "b = c # d # z" using assms by (cases b rule: list.exhaust; cases "tl b") auto
  then show ?thesis using assms(1) by (intro exI [of _ z]) (simp add: wr_def list_update_append)
qed

text \<open>A string is not refilled.\<close>

lemma get_next_buffer_string:
  assumes "buffered bp x w" and "fx_text x = bp" and "fx_cp x = fx_n x + 1" and "\<not> fb_fill (fx_buf x)"
  shows "yy_get_next_buffer x = Some (if w = [] then EOB_ACT_END_OF_FILE else EOB_ACT_LAST_MATCH, x)"
  using assms by (simp add: yy_get_next_buffer_def buffered_def)

text \<open>A file: the text that is kept moves to the front, and more of the file behind it.\<close>

lemma fill_buffer_ok:
  assumes f: "fb_fill (fx_buf x)" "fb_ours (fx_buf x)" "length w < fb_size (fx_buf x)"
      "length (fb_ch (fx_buf x)) = fb_size (fx_buf x) + 2" "fb_ch (fx_buf x) = map Some w @ r" "fb_input (fx_buf x) \<noteq> F_dir"
      "fb_status (fx_buf x) = BUFFER_EOF_PENDING \<longrightarrow> fb_input (fx_buf x) = F_file []"
  shows "\<exists>part y rest. fill_buffer (length w) x = Some (True, y) \<and> unread_file x = part @ unread_file y
    \<and> (part = [] \<longrightarrow> unread_file x = []) \<and> fx_n y = length part \<and> fb_ch (fx_buf y) = map Some (w @ part) @ rest
    \<and> length w + length part < fb_size (fx_buf y) \<and> length (fb_ch (fx_buf y)) = fb_size (fx_buf y) + 2
    \<and> fx_text y = fx_text x \<and> fx_last y = fx_last x \<and> same_start x y \<and> fb_fill (fx_buf y) \<and> fb_ours (fx_buf y)
    \<and> fb_status (fx_buf y) = fb_status (fx_buf x) \<and> fb_input (fx_buf y) \<noteq> F_dir
    \<and> (fb_status (fx_buf y) = BUFFER_EOF_PENDING \<longrightarrow> fb_input (fx_buf y) = F_file [])"
proof (cases "fb_status (fx_buf x) = BUFFER_EOF_PENDING")
  case True
  then have "fill_buffer (length w) x = Some (True, x\<lparr>fx_n := 0, fx_buf := fx_buf x\<lparr>fb_n := 0\<rparr>\<rparr>)"
    by (simp add: fill_buffer_def)
  then show ?thesis using True f
    by (intro exI [of _ "[]"] exI [of _ "x\<lparr>fx_n := 0, fx_buf := fx_buf x\<lparr>fb_n := 0\<rparr>\<rparr>"] exI [of _ r])
      (simp add: unread_file_def same_start_def)
next
  case False
  let ?b = "fx_buf x" and ?m = "length w"
  obtain n ext where g: "grow_buffer ?m ?b = Some (Some (?b\<lparr>fb_size := n, fb_ch := fb_ch ?b @ ext\<rparr>))" "?m + 1 < n"
    "length (fb_ch ?b @ ext) = n + 2" using grow_buffer_ok [OF f(2-4)] by blast
  obtain t where t: "fb_input ?b = F_file t" using f(6) by (cases "fb_input ?b") auto
  define num where "num = min (n - (?m + 1)) 8192"
  define part where "part = take num t"
  have num: "0 < num" "num < n - ?m" using g(2) by (simp_all add: num_def)
  then have part: "length part < n - ?m" "part = [] \<longrightarrow> t = []" "t = part @ drop (length part) t"
    by (auto simp: part_def min_def)
  define rest where "rest = drop (length part) (r @ ext)"
  have room: "?m + length part < n" using part(1) by linarith
  have all: "?m + length (r @ ext) = n + 2" using f(5) g(3) by simp
  have len: "?m + length part + length rest = n + 2" unfolding rest_def length_drop using all room by linarith
  have "?m + length part \<le> length (map Some w @ r @ ext)" using all room by simp
  then have wr: "wr_block (map Some w @ r @ ext) ?m (map Some part) = Some (map Some w @ map Some part @ rest)"
    by (simp add: wr_block_def rest_def)
  let ?y = "x\<lparr>fx_n := length part, fx_buf := ?b\<lparr>fb_size := n, fb_ch := map Some w @ map Some part @ rest,
    fb_input := F_file (drop (length part) t), fb_n := length part\<rparr>\<rparr>"
  have "num_to_read ?m (?b\<lparr>fb_size := n, fb_ch := fb_ch ?b @ ext\<rparr>) = n - (?m + 1)" using g(2) by (simp add: num_to_read_def)
  then have run: "fill_buffer ?m x = Some (True, ?y)"
    using False g(1) t wr f(5) by (simp add: fill_buffer_def Let_def num_def part_def)
  show ?thesis using run f(1,2,7) t part(2,3) len room False
    by (intro exI [of _ part] exI [of _ ?y] exI [of _ rest]) (simp add: unread_file_def same_start_def)
qed

lemma yyrestart_ok:
  assumes "2 \<le> length (fb_ch (fx_buf x))"
  shows "\<exists>z. yyrestart x = Some (x\<lparr>fx_buf := fx_buf x\<lparr>fb_n := 0, fb_ch := Some (CHR 0x00) # Some (CHR 0x00) # z, fb_pos := 0,
      fb_bol := True, fb_status := BUFFER_NEW, fb_fill := True\<rparr>, fx_n := 0, fx_text := 0, fx_cp := 0, fx_hold := CHR 0x00\<rparr>)
    \<and> length (Some (CHR 0x00) # Some (CHR 0x00) # z) = length (fb_ch (fx_buf x))"
proof -
  obtain c d z where "fb_ch (fx_buf x) = c # d # z"
    using assms by (cases "fb_ch (fx_buf x)" rule: list.exhaust; cases "tl (fb_ch (fx_buf x))") auto
  then show ?thesis
    by (intro exI [of _ z]; cases x; cases "fx_buf x")
      (simp add: yyrestart_def yy_init_buffer_def yy_flush_buffer_def yy_load_buffer_state_def wr_def rd_char_def rd_def)
qed

text \<open>What the end of \<open>yy_get_next_buffer\<close> does: two NULs behind the text.\<close>

lemma refilled:
  assumes "fb_ch (fx_buf x) = map Some v @ r" and "length v < fb_size (fx_buf x)"
    and "length (fb_ch (fx_buf x)) = fb_size (fx_buf x) + 2" and "fx_n x + moved = length v"
    and "CHR 0x00 \<notin> set (v @ unread_file x)" and "fb_ours (fx_buf x)" and "fb_input (fx_buf x) \<noteq> F_dir"
    and "fb_status (fx_buf x) = BUFFER_EOF_PENDING \<longrightarrow> fb_input (fx_buf x) = F_file []"
    and "fb_status (fx_buf x) = BUFFER_NEW \<longrightarrow> fb_n (fx_buf x) = length v"
  shows "\<exists>y. end_refill moved ret x = Some (ret, y) \<and> buffered 0 y v \<and> fx_text y = 0 \<and> fx_last y = fx_last x
    \<and> unread_file y = unread_file x \<and> same_start x y"
proof -
  have "length (map Some v) = length v" "length v + 2 \<le> length (map Some v @ r)" using assms(1-3) by simp_all
  from end_with_NULs [OF this] obtain z where z:
    "wr (map Some v @ r) (length v) (Some (CHR 0x00)) = Some (map Some v @ Some (CHR 0x00) # tl r)"
    "wr (map Some v @ Some (CHR 0x00) # tl r) (length v + 1) (Some (CHR 0x00)) = Some (map Some v @ Some (CHR 0x00) # Some (CHR 0x00) # z)"
    "length (map Some v @ Some (CHR 0x00) # Some (CHR 0x00) # z) = length (map Some v @ r)" by blast
  let ?ch = "map Some v @ Some (CHR 0x00) # Some (CHR 0x00) # z"
  have len: "length ?ch = fb_size (fx_buf x) + 2" using z(3) assms(1,3) by simp
  have "buffered 0 (x\<lparr>fx_n := length v, fx_text := 0, fx_buf := fx_buf x\<lparr>fb_ch := ?ch\<rparr>\<rparr>) v"
    using assms(2,5-9) len by (auto simp: buffered_def array_holds_def)
  then show ?thesis using z(1,2) assms(1,2,4)
    by (intro exI [of _ "x\<lparr>fx_n := length v, fx_text := 0, fx_buf := fx_buf x\<lparr>fb_ch := ?ch\<rparr>\<rparr>"])
      (simp add: end_refill_def same_start_def)
qed

lemma get_next_buffer_file:
  assumes b: "buffered bp x w" and x: "fx_text x = bp" "fx_cp x = fx_n x + 1" and fill: "fb_fill (fx_buf x)"
    and new: "fb_status (fx_buf x) \<noteq> BUFFER_NEW"
  shows "\<exists>ret y part. yy_get_next_buffer x = Some (ret, y) \<and> unread_file x = part @ unread_file y \<and> buffered 0 y (w @ part)
    \<and> fx_text y = 0 \<and> fx_last y = fx_last x
    \<and> (if part \<noteq> [] then ret = EOB_ACT_CONTINUE_SCAN \<and> same_start x y
       else unread_file x = [] \<and> (if w = [] then ret = EOB_ACT_END_OF_FILE else ret = EOB_ACT_LAST_MATCH \<and> same_start x y))"
proof -
  obtain pre z where ch: "fb_ch (fx_buf x) = pre @ map Some w @ Some (CHR 0x00) # Some (CHR 0x00) # z" "length pre = bp"
    using b by (auto simp: buffered_def array_holds_def)
  let ?ch = "fb_ch (fx_buf x)" and ?m = "length w"
  have m: "fx_cp x - fx_text x - 1 = ?m" using b x by (simp add: buffered_def)
  note mv = move_to_front [OF ch]
  let ?x = "x\<lparr>fx_buf := fx_buf x\<lparr>fb_ch := map Some w @ drop ?m ?ch\<rparr>\<rparr>"
  have f: "fb_ours (fx_buf x)" "fx_n x < fb_size (fx_buf x)" "length ?ch = fb_size (fx_buf x) + 2" "fb_input (fx_buf x) \<noteq> F_dir"
    "fb_status (fx_buf x) = BUFFER_EOF_PENDING \<longrightarrow> fb_input (fx_buf x) = F_file []" "fx_n x = bp + ?m"
    "CHR 0x00 \<notin> set (w @ unread_file x)"
    using b fill by (auto simp: buffered_def)
  have ml: "?m \<le> length ?ch" using ch by simp
  have unread: "unread_file ?x = unread_file x" by (simp add: unread_file_def)
  obtain part y rest where y: "fill_buffer ?m ?x = Some (True, y)" "unread_file ?x = part @ unread_file y"
    "part = [] \<longrightarrow> unread_file ?x = []" "fx_n y = length part" "fb_ch (fx_buf y) = map Some (w @ part) @ rest"
    "?m + length part < fb_size (fx_buf y)" "length (fb_ch (fx_buf y)) = fb_size (fx_buf y) + 2"
    "fx_text y = fx_text ?x" "fx_last y = fx_last ?x" "same_start ?x y" "fb_fill (fx_buf y)" "fb_ours (fx_buf y)"
    "fb_status (fx_buf y) = fb_status (fx_buf ?x)" "fb_input (fx_buf y) \<noteq> F_dir"
    "fb_status (fx_buf y) = BUFFER_EOF_PENDING \<longrightarrow> fb_input (fx_buf y) = F_file []"
    using fill_buffer_ok [of ?x w "drop ?m ?ch"] f fill ml by auto
  have same: "same_start x y" using y(10) by (simp add: same_start_def)
  have nul: "CHR 0x00 \<notin> set ((w @ part) @ unread_file y)" using f(7) y(2) unfolding unread by simp
  have no_file: "unread_file u = [] \<Longrightarrow> fb_fill (fx_buf u) \<Longrightarrow> fb_input (fx_buf u) \<noteq> F_dir \<Longrightarrow> fb_input (fx_buf u) = F_file []" for u
    by (cases "fb_input (fx_buf u)") (simp_all add: unread_file_def)
  have run: "yy_get_next_buffer x = (if fx_n y = 0 then
        (if ?m = 0 then do { x \<leftarrow> yyrestart y; end_refill ?m EOB_ACT_END_OF_FILE x }
         else end_refill ?m EOB_ACT_LAST_MATCH (y\<lparr>fx_buf := fx_buf y\<lparr>fb_status := BUFFER_EOF_PENDING\<rparr>\<rparr>))
      else end_refill ?m EOB_ACT_CONTINUE_SCAN y)"
    unfolding yy_get_next_buffer_def using x fill m mv y(1) by (simp add: Let_def)
  consider (more) "part \<noteq> []" | (last) "part = []" "w \<noteq> []" | (eof) "part = []" "w = []" by blast
  then show ?thesis
  proof cases
    case more
    obtain u where u: "end_refill ?m EOB_ACT_CONTINUE_SCAN y = Some (EOB_ACT_CONTINUE_SCAN, u)" "buffered 0 u (w @ part)"
      "fx_text u = 0" "fx_last u = fx_last y" "unread_file u = unread_file y" "same_start y u"
      using refilled [OF y(5) _ y(7) _ nul y(12,14), of ?m EOB_ACT_CONTINUE_SCAN] y(4,6,13,15) new more by auto
    show ?thesis using more run y(2,4,9) u same_start_trans [OF same u(6)] unread
      by (intro exI [of _ EOB_ACT_CONTINUE_SCAN] exI [of _ u] exI [of _ part]) simp
  next
    case last
    let ?y = "y\<lparr>fx_buf := fx_buf y\<lparr>fb_status := BUFFER_EOF_PENDING\<rparr>\<rparr>"
    have no: "unread_file y = []" using y(2,3) last by simp
    then have inp: "fb_input (fx_buf y) = F_file []" by (rule no_file [OF _ y(11,14)])
    obtain u where u: "end_refill ?m EOB_ACT_LAST_MATCH ?y = Some (EOB_ACT_LAST_MATCH, u)" "buffered 0 u w"
      "fx_text u = 0" "fx_last u = fx_last ?y" "unread_file u = unread_file ?y" "same_start ?y u"
      using refilled [of ?y w rest ?m EOB_ACT_LAST_MATCH] y(4-7,12,14) inp last nul by auto
    have "same_start y ?y" by (simp add: same_start_def)
    with u(6) same have "same_start x u" by (blast intro: same_start_trans)
    then show ?thesis using last run y(2,4,9) u no unread
      by (intro exI [of _ EOB_ACT_LAST_MATCH] exI [of _ u] exI [of _ "[]"]) simp
  next
    case eof
    have no: "unread_file y = []" using y(2,3) eof by simp
    then have inp: "fb_input (fx_buf y) = F_file []" by (rule no_file [OF _ y(11,14)])
    have "2 \<le> length (fb_ch (fx_buf y))" using y(7) by simp
    from yyrestart_ok [OF this] obtain z where z: "yyrestart y = Some (y\<lparr>fx_buf := fx_buf y\<lparr>fb_n := 0,
        fb_ch := Some (CHR 0x00) # Some (CHR 0x00) # z, fb_pos := 0, fb_bol := True, fb_status := BUFFER_NEW, fb_fill := True\<rparr>,
        fx_n := 0, fx_text := 0, fx_cp := 0, fx_hold := CHR 0x00\<rparr>)"
      "length (Some (CHR 0x00) # Some (CHR 0x00) # z) = length (fb_ch (fx_buf y))" by blast
    let ?y = "y\<lparr>fx_buf := fx_buf y\<lparr>fb_n := 0, fb_ch := Some (CHR 0x00) # Some (CHR 0x00) # z, fb_pos := 0,
        fb_bol := True, fb_status := BUFFER_NEW, fb_fill := True\<rparr>, fx_n := 0, fx_text := 0, fx_cp := 0, fx_hold := CHR 0x00\<rparr>"
    have no': "unread_file ?y = []" using inp by (simp add: unread_file_def)
    obtain u where u: "end_refill ?m EOB_ACT_END_OF_FILE ?y = Some (EOB_ACT_END_OF_FILE, u)" "buffered 0 u []"
      "fx_text u = 0" "fx_last u = fx_last ?y" "unread_file u = unread_file ?y"
      using refilled [of ?y "[]" "Some (CHR 0x00) # Some (CHR 0x00) # z" ?m EOB_ACT_END_OF_FILE] y(6,7,12,14) inp eof z(2) no'
      by auto
    show ?thesis using eof run y(2,4,9) z(1) u no no' unread
      by (intro exI [of _ EOB_ACT_END_OF_FILE] exI [of _ u] exI [of _ "[]"]) simp
  qed
qed

section \<open>The end of the buffer\<close>

lemma array_part: "array_holds ch bp w \<Longrightarrow> i \<le> length w \<Longrightarrow> take i (drop bp ch) = map Some (take i w)"
  by (auto simp: array_holds_def take_map)

lemma array_drop: "array_holds ch bp (u @ v) \<Longrightarrow> \<exists>z. drop (bp + length u) ch = map Some v @ Some (CHR 0x00) # Some (CHR 0x00) # z"
  by (auto simp: array_holds_def)

lemma get_previous:
  assumes "buffered bp x (w @ v)" and "fx_text x = bp" and "fx_cp x = bp + length w" and "inner (first_state x)"
    and "runs w (first_state x) 0 None = Some (Reached st l)"
  shows "yy_get_previous_state x = Some (st, x\<lparr>fx_last := pick bp (fx_last x) l\<rparr>)"
proof -
  have "take (length w) (drop bp (fb_ch (fx_buf x))) = map Some w" "CHR 0x00 \<notin> set w"
    using assms(1) array_part [of _ bp "w @ v" "length w"] by (auto simp: buffered_def)
  then show ?thesis
    using previous_state_runs [OF assms(4) _ assms(5), of bp "fx_last x"] assms(2,3) by (simp add: yy_get_previous_state_def)
qed

text \<open>Entering the action for the end of the buffer.\<close>

lemma enter_eob:
  assumes b: "buffered bp x w"
  shows "\<exists>x1 x2. before_action bp (fx_n x + 1) x = Some x1 \<and> fx_text x1 = bp \<and> undo_action (fx_n x + 1) x1 = Some x2
    \<and> (\<exists>y. y = (if fb_status (fx_buf x2) = BUFFER_NEW
          then x2\<lparr>fx_n := fb_n (fx_buf x2), fx_buf := fx_buf x2\<lparr>fb_status := BUFFER_NORMAL\<rparr>\<rparr> else x2)
        \<and> buffered bp y w \<and> fx_text y = bp \<and> fx_cp y = fx_n y + 1 \<and> fb_status (fx_buf y) \<noteq> BUFFER_NEW
        \<and> same_start x y \<and> unread_file y = unread_file x \<and> fx_last y = fx_last x \<and> fx_n y = bp + length w)"
proof -
  have n: "fx_n x = bp + length w" using b by (simp add: buffered_def)
  obtain c where "rd_char (fb_ch (fx_buf x)) (fx_n x + 1) = Some c" using buffered_char(1) [OF b, of "length w + 1"] n by auto
  from before_undo [OF this, of bp] obtain x1 where x1: "before_action bp (fx_n x + 1) x = Some x1" "fx_text x1 = bp"
    "undo_action (fx_n x + 1) x1 = Some (x\<lparr>fx_text := bp, fx_hold := c, fx_cp := fx_n x + 1\<rparr>)" by blast
  let ?x2 = "x\<lparr>fx_text := bp, fx_hold := c, fx_cp := fx_n x + 1\<rparr>"
  have b2: "buffered bp ?x2 w" using b by (simp add: buffered_same)
  show ?thesis
  proof (cases "fb_status (fx_buf x) = BUFFER_NEW")
    case True
    let ?y = "?x2\<lparr>fx_n := fb_n (fx_buf x), fx_buf := fx_buf x\<lparr>fb_status := BUFFER_NORMAL\<rparr>\<rparr>"
    have fn: "fb_n (fx_buf x) = fx_n x" using b True by (simp add: buffered_def)
    have "buffered bp ?y w" using b fn by (auto simp: buffered_def)
    then show ?thesis using x1 True fn n by (intro exI [of _ x1] exI [of _ ?x2]) (simp add: same_start_def)
  next
    case False
    then show ?thesis using x1 b2 n by (intro exI [of _ x1] exI [of _ ?x2]) (simp add: same_start_def)
  qed
qed

lemma end_of_buffer_ok:
  assumes b: "buffered bp x w" and s: "inner (first_state x)" "runs w (first_state x) 0 None = Some (Reached st l)"
  shows "\<exists>x1 g y. before_action bp (fx_n x + 1) x = Some x1 \<and> end_of_buffer (fx_n x + 1) x1 = Some (g, y)
    \<and> (if unread_file x \<noteq> [] then g = G_match st (length w) \<and> fx_text y = 0 \<and> fx_last y = pick 0 (fx_last x) l \<and> same_start x y
         \<and> (\<exists>part. part \<noteq> [] \<and> unread_file x = part @ unread_file y \<and> buffered 0 y (w @ part))
       else unread_file y = [] \<and> buffered (fx_text y) y w
         \<and> (if w = [] then g = G_eof \<and> fx_cp y = fx_text y
            else g = G_find st (fx_text y + length w) \<and> fx_last y = pick (fx_text y) (fx_last x) l \<and> same_start x y))"
proof -
  obtain x1 x2 y where e: "before_action bp (fx_n x + 1) x = Some x1" "fx_text x1 = bp" "undo_action (fx_n x + 1) x1 = Some x2"
    "y = (if fb_status (fx_buf x2) = BUFFER_NEW
          then x2\<lparr>fx_n := fb_n (fx_buf x2), fx_buf := fx_buf x2\<lparr>fb_status := BUFFER_NORMAL\<rparr>\<rparr> else x2)"
    "buffered bp y w" "fx_text y = bp" "fx_cp y = fx_n y + 1" "fb_status (fx_buf y) \<noteq> BUFFER_NEW"
    "same_start x y" "unread_file y = unread_file x" "fx_last y = fx_last x" "fx_n y = bp + length w"
    using enter_eob [OF b] by blast
  have n: "fx_n x = bp + length w" using b by (simp add: buffered_def)
  define after_fill where "after_fill = (\<lambda>(act, x). case act of
         EOB_ACT_END_OF_FILE \<Rightarrow> Some (G_eof, x\<lparr>fx_cp := fx_text x\<rparr>)
       | EOB_ACT_CONTINUE_SCAN \<Rightarrow> do {
           let x = x\<lparr>fx_cp := fx_text x + length w\<rparr>;
           (st, x) \<leftarrow> yy_get_previous_state x;
           Some (G_match st (fx_cp x), x)
         }
       | EOB_ACT_LAST_MATCH \<Rightarrow> do {
           let x = x\<lparr>fx_cp := fx_n x\<rparr>;
           (st, x) \<leftarrow> yy_get_previous_state x;
           Some (G_find st (fx_cp x), x)
         }
       | EOB_FATAL \<Rightarrow> Some (G_fatal, x))"
  have run: "end_of_buffer (fx_n x + 1) x1 = do { r \<leftarrow> yy_get_next_buffer y; after_fill r }"
    unfolding end_of_buffer_def after_fill_def using e(2,3,7) n by (simp add: Let_def e(4) [symmetric])
  have first: "first_state u = first_state x" if "same_start y u" for u
    using same_start_first [OF same_start_trans [OF e(9) that]] .
  have found: "after_fill (EOB_ACT_LAST_MATCH, u) = Some (G_find st (fx_text u + length w), u\<lparr>fx_cp := fx_n u, fx_last := pick (fx_text u) (fx_last u) l\<rparr>)"
    if u: "buffered (fx_text u) u w" "same_start y u" for u
  proof -
    have un: "fx_n u = fx_text u + length w" using u(1) by (simp add: buffered_def)
    have "yy_get_previous_state (u\<lparr>fx_cp := fx_n u\<rparr>) = Some (st, u\<lparr>fx_cp := fx_n u, fx_last := pick (fx_text u) (fx_last u) l\<rparr>)"
      using get_previous [of "fx_text u" "u\<lparr>fx_cp := fx_n u\<rparr>" w "[]" st l] u(1) s un first [OF u(2)]
      by (simp add: buffered_same)
    then show ?thesis by (simp add: after_fill_def un)
  qed
  show ?thesis
  proof (cases "fb_fill (fx_buf y)")
    case True
    obtain ret u part where g: "yy_get_next_buffer y = Some (ret, u)" "unread_file y = part @ unread_file u" "buffered 0 u (w @ part)"
      "fx_text u = 0" "fx_last u = fx_last y"
      "if part \<noteq> [] then ret = EOB_ACT_CONTINUE_SCAN \<and> same_start y u
       else unread_file y = [] \<and> (if w = [] then ret = EOB_ACT_END_OF_FILE else ret = EOB_ACT_LAST_MATCH \<and> same_start y u)"
      using get_next_buffer_file [OF e(5,6,7) True e(8)] by blast
    show ?thesis
    proof (cases "part = []")
      case False
      then have u: "same_start y u" "ret = EOB_ACT_CONTINUE_SCAN" using g(6) by simp_all
      have "yy_get_previous_state (u\<lparr>fx_cp := length w\<rparr>) = Some (st, u\<lparr>fx_cp := length w, fx_last := pick 0 (fx_last u) l\<rparr>)"
        using get_previous [of 0 "u\<lparr>fx_cp := length w\<rparr>" w part st l] g(3,4) s first [OF u(1)]
        by (simp add: buffered_same)
      then have "end_of_buffer (fx_n x + 1) x1 = Some (G_match st (length w), u\<lparr>fx_cp := length w, fx_last := pick 0 (fx_last u) l\<rparr>)"
        using run g(1,4) u(2) by (simp add: after_fill_def)
      moreover have "same_start x (u\<lparr>fx_cp := length w, fx_last := pick 0 (fx_last u) l\<rparr>)"
        using same_start_trans [OF e(9) u(1)] by (simp add: same_start_def)
      ultimately show ?thesis using e(1,10,11) g(2-5) False by (auto simp: buffered_same)
    next
      case True
      then have un: "unread_file x = []" "unread_file u = []" using g(2,6) e(10) by simp_all
      show ?thesis
      proof (cases "w = []")
        case True
        then have "end_of_buffer (fx_n x + 1) x1 = Some (G_eof, u\<lparr>fx_cp := fx_text u\<rparr>)"
          using run g(1,6) \<open>part = []\<close> by (simp add: after_fill_def)
        then show ?thesis using e(1) un True g(3,4) \<open>part = []\<close> by (auto simp: buffered_same)
      next
        case False
        then have u: "same_start y u" "ret = EOB_ACT_LAST_MATCH" using g(6) \<open>part = []\<close> by simp_all
        have bu: "buffered (fx_text u) u w" using g(3,4) \<open>part = []\<close> by simp
        from found [OF bu u(1)] have "end_of_buffer (fx_n x + 1) x1 =
            Some (G_find st (fx_text u + length w), u\<lparr>fx_cp := fx_n u, fx_last := pick (fx_text u) (fx_last u) l\<rparr>)"
          using run g(1) u(2) by simp
        moreover have "same_start x (u\<lparr>fx_cp := fx_n u, fx_last := pick (fx_text u) (fx_last u) l\<rparr>)"
          using same_start_trans [OF e(9) u(1)] by (simp add: same_start_def)
        ultimately show ?thesis using e(1,11) un False bu g(5) by (auto simp: buffered_same)
      qed
    qed
  next
    case False
    then have un: "unread_file y = []" "unread_file x = []" using e(10) by (simp_all add: unread_file_def)
    note g = get_next_buffer_string [OF e(5,6,7) False]
    show ?thesis
    proof (cases "w = []")
      case True
      then have "end_of_buffer (fx_n x + 1) x1 = Some (G_eof, y\<lparr>fx_cp := fx_text y\<rparr>)" using run g by (simp add: after_fill_def)
      then show ?thesis using e(1,5,6) un True by (auto simp: buffered_same)
    next
      case False
      have "buffered (fx_text y) y w" using e(5,6) by simp
      from found [OF this same_start_refl] have "end_of_buffer (fx_n x + 1) x1 =
          Some (G_find st (fx_text y + length w), y\<lparr>fx_cp := fx_n y, fx_last := pick (fx_text y) (fx_last y) l\<rparr>)"
        using run g False by simp
      moreover have "same_start x (y\<lparr>fx_cp := fx_n y, fx_last := pick (fx_text y) (fx_last y) l\<rparr>)"
        using e(9) by (simp add: same_start_def)
      ultimately show ?thesis using e(1,5,6,11) un False by (auto simp: buffered_same)
    qed
  qed
qed

section \<open>The match\<close>

text \<open>After \<open>YY_DO_BEFORE_ACTION\<close>: the character behind the match is held back.\<close>

definition found_at :: "string \<Rightarrow> nat \<Rightarrow> flexer \<Rightarrow> bool" where
  "found_at t len y \<longleftrightarrow> (\<exists>u w. undo_action (fx_cp y) y = Some u \<and> buffered (fx_text y) u w \<and> w @ unread_file u = t
     \<and> fx_cp y = fx_text y + len \<and> fx_cp u = fx_cp y \<and> len \<le> length w)"

lemma find_action_ok:
  assumes b: "buffered bp x w" and len: "len \<le> length w" and st: "inner st" "yy_accept ! st \<noteq> 0"
  shows "\<exists>y. yy_find_action st bp (bp + len) x = Some (F_rule (yy_accept ! st), y) \<and> found_at (w @ unread_file x) len y \<and> same_start x y"
proof -
  obtain c where "rd_char (fb_ch (fx_buf x)) (bp + len) = Some c" using buffered_char(1) [OF b, of len] len by auto
  from before_undo [OF this, of bp] obtain y where y: "before_action bp (bp + len) x = Some y"
    "undo_action (bp + len) y = Some (x\<lparr>fx_text := bp, fx_hold := c, fx_cp := bp + len\<rparr>)"
    "fx_cp y = bp + len" "fx_text y = bp" by blast
  have "rd yy_accept st = Some (yy_accept ! st)" "yy_accept ! st \<noteq> 43" using st accept_range [of st] by (auto simp: rd_def)
  then have "yy_find_action st bp (bp + len) x = Some (F_rule (yy_accept ! st), y)"
    using y(1) st(2) by (subst yy_find_action.simps) simp
  moreover have "found_at (w @ unread_file x) len y"
    using b y(2-4) len unfolding found_at_def
    by (intro exI [of _ "x\<lparr>fx_text := bp, fx_hold := c, fx_cp := bp + len\<rparr>"] exI [of _ w]) (simp add: buffered_same)
  moreover have "same_start x y" using y(1) by (auto simp: before_action_def same_start_def bind_eq_Some_conv)
  ultimately show ?thesis by blast
qed

text \<open>Backing up to the last accepting state.\<close>

lemma find_action_back:
  assumes b: "buffered bp x w" and n: "n \<le> length w" and st: "inner st" "yy_accept ! st = 0"
    and la: "fx_last x = (s, bp + len)" "inner s" "yy_accept ! s \<noteq> 0" "len \<le> length w"
  shows "\<exists>y. yy_find_action st bp (bp + n) x = Some (F_rule (yy_accept ! s), y) \<and> found_at (w @ unread_file x) len y \<and> same_start x y"
proof -
  obtain c where "rd_char (fb_ch (fx_buf x)) (bp + n) = Some c" using buffered_char(1) [OF b, of n] n by auto
  from before_undo [OF this, of bp] obtain x1 where x1: "before_action bp (bp + n) x = Some x1"
    "undo_action (bp + n) x1 = Some (x\<lparr>fx_text := bp, fx_hold := c, fx_cp := bp + n\<rparr>)" by blast
  let ?x = "x\<lparr>fx_text := bp, fx_hold := c, fx_cp := bp + n\<rparr>"
  have "rd yy_accept st = Some 0" using st by (simp add: rd_def)
  then have again: "yy_find_action st bp (bp + n) x = yy_find_action s bp (bp + len) ?x"
    using x1 la(1) by (subst yy_find_action.simps) simp
  have "buffered bp ?x w" using b by (simp add: buffered_same)
  from find_action_ok [OF this la(4,2,3)] obtain y where y: "yy_find_action s bp (bp + len) ?x = Some (F_rule (yy_accept ! s), y)"
    "found_at (w @ unread_file ?x) len y" "same_start ?x y" by blast
  then show ?thesis unfolding again by (auto simp: same_start_def)
qed

text \<open>From the state after \<open>u\<close>, which the automaton has read without an end, over the rest \<open>v\<close> of the array and what
  is left of the file.\<close>

lemma match_loop:
  assumes "buffered bp x (u @ v)" and "0 < first_state x" "first_state x < 9"
    and "runs u (first_state x) 0 None = Some (Reached st l)" and "fx_last x = pick bp old l"
    and "run_dfa ((u @ v) @ unread_file x) (first_state x) 0 None = Some (act, len)"
  shows "\<exists>y. do { (st, cp, x) \<leftarrow> yy_match st (bp + length u) x; yy_find_action st bp cp x } = Some (F_rule act, y)
    \<and> found_at ((u @ v) @ unread_file x) len y \<and> same_start x y"
  using assms
proof (induction "length (unread_file x)" arbitrary: bp x u v st l old rule: less_induct)
  case less
  note b = less.prems(1)
  let ?s = "first_state x" and ?w = "u @ v"
  have s: "inner ?s" using less.prems(2,3) by simp
  have nul: "CHR 0x00 \<notin> set u" "CHR 0x00 \<notin> set v" using b by (auto simp: buffered_def)
  have none: "accepts n None" for n by (simp add: accepts_def)
  from runs_total [OF s nul(1) none [of 0]] less.prems(4) have st: "inner st" "accepts (length u) l" by auto
  from runs_total [OF st(1) nul(2) st(2)] obtain r where r: "runs v st (length u) l = Some r"
    "case r of Jammed l \<Rightarrow> accepts (length ?w) l | Reached st' l \<Rightarrow> inner st' \<and> accepts (length ?w) l"
    unfolding length_append by blast
  have all: "runs ?w ?s 0 None = Some r" using less.prems(4) r(1) by (cases r) (simp_all add: runs_append)
  have acc: "accepted None = None" by (simp add: accepted_def)
  note run = run_dfa_runs [OF all, of "unread_file x", unfolded acc, unfolded less.prems(6)]
  obtain z where z: "drop (bp + length u) (fb_ch (fx_buf x)) = map Some v @ Some (CHR 0x00) # Some (CHR 0x00) # z"
    using array_drop [of _ bp u v] b unfolding buffered_def by blast
  note scan = scan_chars_runs [OF st(1) nul(2), of z bp "length u" old l, folded z less.prems(5), unfolded r(1)]
  show ?case
  proof (cases r)
    case (Jammed l')
    then obtain s' where l': "l' = Some (s', len)" "act = yy_accept ! s'" using run accepted_SomeD [of act len l'] by auto
    then have s': "inner s'" "yy_accept ! s' \<noteq> 0" "len \<le> length ?w" using r(2) Jammed by (auto simp: accepts_def)
    let ?x = "x\<lparr>fx_last := (s', bp + len)\<rparr>"
    have "yy_match st (bp + length u) x = Some (s', bp + len, ?x)" using scan Jammed l'(1) by (simp add: yy_match_def)
    moreover have "buffered bp ?x ?w" using b by (simp add: buffered_same)
    from find_action_ok [OF this s'(3,1,2)] obtain y where "yy_find_action s' bp (bp + len) ?x = Some (F_rule act, y)"
      "found_at (?w @ unread_file ?x) len y" "same_start ?x y" unfolding l'(2) by blast
    ultimately show ?thesis by (auto simp: same_start_def)
  next
    case (Reached st' l')
    have st': "inner st'" "accepts (length ?w) l'" using r(2) Reached by auto
    let ?la = "(9, bp + length u + length v + 1)"
    let ?x = "x\<lparr>fx_last := ?la\<rparr>"
    have bx: "buffered bp ?x ?w" and n: "fx_n x = bp + length ?w" using b by (simp_all add: buffered_same) (simp add: buffered_def)
    have m: "yy_match st (bp + length u) x = Some (9, fx_n x + 1, ?x)" using scan Reached n by (simp add: yy_match_def)
    have r': "runs ?w (first_state ?x) 0 None = Some (Reached st' l')" using all Reached by simp
    obtain x1 g y where e: "before_action bp (fx_n ?x + 1) ?x = Some x1" "end_of_buffer (fx_n ?x + 1) x1 = Some (g, y)"
      "if unread_file ?x \<noteq> [] then g = G_match st' (length ?w) \<and> fx_text y = 0 \<and> fx_last y = pick 0 (fx_last ?x) l' \<and> same_start ?x y
         \<and> (\<exists>part. part \<noteq> [] \<and> unread_file ?x = part @ unread_file y \<and> buffered 0 y (?w @ part))
       else unread_file y = [] \<and> buffered (fx_text y) y ?w
         \<and> (if ?w = [] then g = G_eof \<and> fx_cp y = fx_text y
            else g = G_find st' (fx_text y + length ?w) \<and> fx_last y = pick (fx_text y) (fx_last ?x) l' \<and> same_start ?x y)"
      using end_of_buffer_ok [OF bx _ r'] s by auto
    have "rd yy_accept 9 = Some 43" by (simp add: rd_def yy_accept_def)
    then have find: "yy_find_action 9 bp (fx_n x + 1) ?x = (case g of
         G_match st cp \<Rightarrow> do { (st, cp, x) \<leftarrow> yy_match st cp y; yy_find_action st (fx_text x) cp x }
       | G_find st cp \<Rightarrow> yy_find_action st (fx_text y) cp y
       | G_eof \<Rightarrow> Some (F_eof, y)
       | G_fatal \<Rightarrow> Some (F_exit, y))"
      using e(1,2) by (subst yy_find_action.simps) simp
    show ?thesis
    proof (cases "unread_file x = []")
      case False
      then obtain part where g: "g = G_match st' (length ?w)" "fx_text y = 0" "fx_last y = pick 0 ?la l'" "same_start ?x y"
        "part \<noteq> []" "unread_file x = part @ unread_file y" "buffered 0 y (?w @ part)" using e(3) by auto
      have same: "same_start x y" using g(4) by (simp add: same_start_def)
      have first: "first_state y = ?s" by (rule same_start_first [OF same])
      have "\<exists>y'. do { (st, cp, x) \<leftarrow> yy_match st' (0 + length ?w) y; yy_find_action st 0 cp x } = Some (F_rule act, y')
        \<and> found_at ((?w @ part) @ unread_file y) len y' \<and> same_start y y'"
        by (rule less.hyps [OF _ g(7)]) (use g first less.prems(2,3,6) r' in simp_all)
      moreover have "fx_text x' = fx_text y" if "yy_match st' (length ?w) y = Some (a, b, x')" for a b x'
        using that by (auto simp: yy_match_def bind_eq_Some_conv)
      ultimately show ?thesis using m find g(1,2,6) same
        by (auto simp: bind_eq_Some_conv intro: same_start_trans)
    next
      case True
      have ne: "?w \<noteq> []"
        using less.prems(3,6) True accept_start [of ?s] by (auto simp: run_dfa.simps rd_def)
      then have g: "g = G_find st' (fx_text y + length ?w)" "fx_last y = pick (fx_text y) ?la l'" "same_start ?x y"
        "unread_file y = []" "buffered (fx_text y) y ?w" using e(3) True by auto
      have same: "same_start x y" using g(3) by (simp add: same_start_def)
      have "run_dfa [] st' (length ?w) (accepted l') = Some (act, len)" using run Reached True by simp
      moreover have "rd yy_accept st' = Some (yy_accept ! st')" using st'(1) by (simp add: rd_def)
      ultimately have last: "(if yy_accept ! st' \<noteq> 0 then Some (yy_accept ! st', length ?w) else accepted l') = Some (act, len)"
        by (simp add: run_dfa.simps split: if_splits)
      have "\<exists>y'. yy_find_action st' (fx_text y) (fx_text y + length ?w) y = Some (F_rule act, y')
        \<and> found_at (?w @ unread_file y) len y' \<and> same_start y y'"
      proof (cases "yy_accept ! st' = 0")
        case False
        then show ?thesis using find_action_ok [OF g(5) order.refl st'(1)] last by auto
      next
        case True
        then obtain s' where l': "l' = Some (s', len)" "act = yy_accept ! s'" using last accepted_SomeD [of act len l'] by auto
        then have "inner s'" "yy_accept ! s' \<noteq> 0" "len \<le> length ?w" using st'(2) by (auto simp: accepts_def)
        from find_action_back [OF g(5) order.refl st'(1) True _ this] show ?thesis using g(2) l' by simp
      qed
      then show ?thesis using m find g(1,4) True same by (auto intro: same_start_trans)
    qed
  qed
qed

section \<open>A round\<close>

text \<open>Between two rounds: what is left to be scanned.\<close>

definition holds_text :: "flexer \<Rightarrow> string \<Rightarrow> bool" where
  "holds_text x t \<longleftrightarrow> (\<exists>u w. undo_action (fx_cp x) x = Some u \<and> buffered (fx_cp x) u w \<and> t = w @ unread_file u)"

lemma buffered_later:
  assumes "buffered bp x w" and "n \<le> length w"
  shows "buffered (bp + n) x (drop n w)"
proof -
  obtain pre z where "fb_ch (fx_buf x) = pre @ map Some w @ Some (CHR 0x00) # Some (CHR 0x00) # z" "length pre = bp"
    using assms(1) by (auto simp: buffered_def array_holds_def)
  moreover have "map Some w = map Some (take n w) @ map Some (drop n w)" by (simp flip: map_append)
  ultimately have "fb_ch (fx_buf x) = (pre @ map Some (take n w)) @ map Some (drop n w) @ Some (CHR 0x00) # Some (CHR 0x00) # z"
    "length (pre @ map Some (take n w)) = bp + n"
    using assms(2) by simp_all
  then have "array_holds (fb_ch (fx_buf x)) (bp + n) (drop n w)" unfolding array_holds_def by blast
  then show ?thesis using assms by (auto simp: buffered_def dest: in_set_dropD)
qed

lemma found_holds: "found_at t len y \<Longrightarrow> holds_text y (drop len t)"
  unfolding found_at_def holds_text_def by (auto dest: buffered_later)

lemma undo_fields:
  assumes "undo_action cp x = Some u"
  shows "fx_cp u = fx_cp x" and "fx_text u = fx_text x" and "fx_n u = fx_n x" and "same_start x u" and "unread_file u = unread_file x"
    and "fx_last u = fx_last x" and "fb_ch (fx_buf u) = (fb_ch (fx_buf x))[cp := Some (fx_hold x)]"
  using assms by (auto simp: undo_action_def bind_eq_Some_conv wr_def same_start_def split: if_splits)

text \<open>What \<open>yytext\<close> holds does not depend on the NUL behind it.\<close>

lemma part_of_cells: "take (j - i) (drop i (ch[j := c])) = take (j - i) (drop i ch)"
  by (cases "i \<le> j") (simp_all add: drop_update_swap take_update_cancel)

lemma found_text:
  assumes "found_at t len y"
  shows "yytext_of y = Some (take len t)"
proof -
  obtain u w where u: "undo_action (fx_cp y) y = Some u" "buffered (fx_text y) u w" "w @ unread_file u = t"
    "fx_cp y = fx_text y + len" "len \<le> length w" using assms unfolding found_at_def by blast
  have "take len (drop (fx_text y) (fb_ch (fx_buf y))) = map Some (take len w)"
    using part_of_cells [of "fx_cp y" "fx_text y" "fb_ch (fx_buf y)" "Some (fx_hold y)"] u(2,4,5)
      array_part [of "fb_ch (fx_buf u)" "fx_text y" w len] undo_fields(7) [OF u(1)] by (simp add: buffered_def)
  moreover have "take len w = take len t" using u(3,5) by auto
  ultimately show ?thesis using u(4) by (simp add: yytext_of_def list_all_iff comp_def)
qed

lemma next_rule_ok:
  assumes h: "holds_text x t" and s: "0 < first_state x" "first_state x < 9"
  shows "if t = [] then \<exists>y. next_rule x = Some (F_eof, y)
    else \<exists>act len y. run_dfa t (first_state x) 0 None = Some (act, len) \<and> next_rule x = Some (F_rule act, y)
      \<and> found_at t len y \<and> same_start x y \<and> matched act len \<and> len \<le> length t"
proof -
  obtain u w where u: "undo_action (fx_cp x) x = Some u" "buffered (fx_cp x) u w" "t = w @ unread_file u"
    using h unfolding holds_text_def by blast
  note f = undo_fields [OF u(1)]
  have first: "first_state u = first_state x" by (rule same_start_first [OF f(4)])
  have run: "next_rule x = do { (st, cp, y) \<leftarrow> yy_match (first_state u) (fx_cp x + length ([] :: string)) u; yy_find_action st (fx_cp x) cp y }"
    using u(1) f(1) by (cases "yy_match (first_state u) (fx_cp x) u") (auto simp: next_rule_def Let_def)
  have nil: "runs [] (first_state u) 0 None = Some (Reached (first_state u) None)" by simp
  show ?thesis
  proof (cases "t = []")
    case False
    have "CHR 0x00 \<notin> set t" using u(2,3) by (simp add: buffered_def)
    from run_dfa_start [OF s this False] obtain act len where d: "run_dfa t (first_state x) 0 None = Some (act, len)"
      "matched act len" "len \<le> length t" by blast
    have "\<exists>y. do { (st, cp, y) \<leftarrow> yy_match (first_state u) (fx_cp x + length ([] :: string)) u; yy_find_action st (fx_cp x) cp y } = Some (F_rule act, y)
      \<and> found_at (([] @ w) @ unread_file u) len y \<and> same_start u y"
      by (rule match_loop [OF _ _ _ nil]) (use u(2,3) s first d(1) in simp_all)
    then show ?thesis using False d u(3) run same_start_trans [OF f(4)] by auto
  next
    case True
    then have w: "w = []" "unread_file u = []" using u(3) by simp_all
    have s': "inner (first_state u)" using s first by simp
    obtain z where z: "drop (fx_cp x) (fb_ch (fx_buf u)) = Some (CHR 0x00) # Some (CHR 0x00) # z"
      using array_drop [of "fb_ch (fx_buf u)" "fx_cp x" "[]" "[]"] u(2) w by (auto simp: buffered_def)
    let ?u = "u\<lparr>fx_last := (9, fx_n u + 1)\<rparr>"
    have n: "fx_n u = fx_cp x" using u(2) w by (simp add: buffered_def)
    have "yy_match (first_state u) (fx_cp x) u = Some (9, fx_n u + 1, ?u)"
      using scan_chars_runs [OF s', of "[]" z "fx_cp x" 0 "fx_last u" None] z n by (simp add: yy_match_def)
    moreover have "\<exists>x1 y. before_action (fx_cp x) (fx_n ?u + 1) ?u = Some x1 \<and> end_of_buffer (fx_n ?u + 1) x1 = Some (G_eof, y)"
      using end_of_buffer_ok [of "fx_cp x" ?u "[]" "first_state u" None] u(2) w s' by (auto simp: buffered_same)
    moreover have "rd yy_accept 9 = Some 43" by (simp add: rd_def yy_accept_def)
    ultimately show ?thesis using True run
      by (subst (asm) yy_find_action.simps) auto
  qed
qed

end
