(* ===== verification/Config_Tree.thy ===== *)
theory Config_Tree
  imports Config_Update
begin

text \<open>
  The tree a setting is the root of, as a tree of addresses: it exists for every setting of a
  well-formed configuration, no address occurs twice in it, and destroying the setting removes exactly
  its addresses from memory and hands every hook in it to the destructor once.
\<close>

section \<open>Trees of settings\<close>

datatype ptree = PNode (ptr: addr) (subs: "ptree list")

fun addrs :: "ptree \<Rightarrow> addr list" where
  "addrs (PNode p ts) = p # concat (map addrs ts)"

fun rep :: "(addr \<rightharpoonup> csetting) \<Rightarrow> ptree \<Rightarrow> bool" where
  "rep h (PNode p ts) \<longleftrightarrow> (\<exists>x. h p = Some x \<and> kids x = map ptr ts) \<and> (\<forall>t \<in> set ts. rep h t)"

text \<open>The hooks of a tree in the order in which the destructor sees them.\<close>

definition hook_at :: "(addr \<rightharpoonup> csetting) \<Rightarrow> addr \<Rightarrow> addr list" where
  "hook_at h p = (case h p of None \<Rightarrow> [] | Some x \<Rightarrow> if s_hook x = NULL then [] else [s_hook x])"

fun hooks :: "(addr \<rightharpoonup> csetting) \<Rightarrow> ptree \<Rightarrow> addr list" where
  "hooks h (PNode p ts) = concat (map (hooks h) ts) @ hook_at h p"

lemma rep_cong:
  "(\<And>q. q \<in> set (addrs t) \<Longrightarrow> h q = h' q) \<Longrightarrow> rep h t = rep h' t \<and> hooks h t = hooks h' t"
proof (induction t)
  case (PNode p ts)
  have "rep h u = rep h' u \<and> hooks h u = hooks h' u" if "u \<in> set ts" for u
    by (rule PNode.IH [OF that]) (use PNode.prems that in auto)
  moreover have "h p = h' p" using PNode.prems by simp
  ultimately show ?case by (auto simp: hook_at_def cong: map_cong)
qed

lemma ptr_in_addrs: "ptr t \<in> set (addrs t)"
  by (cases t) simp

lemma hd_addrs: "hd (addrs t) = ptr t"
  by (cases t) simp

lemma rep_exists:
  assumes "cfg_ok s" and "settings s p = Some x"
  shows "\<exists>t. rep (settings s) t \<and> ptr t = p"
  using assms(2)
proof (induction "next_addr s - p" arbitrary: p x rule: less_induct)
  case less
  have "\<exists>t. rep (settings s) t \<and> ptr t = c" if c: "c \<in> set (kids x)" for c
  proof -
    obtain y where y: "p < c" "settings s c = Some y" using wf_child [OF assms(1) less.prems c] by auto
    have "p < next_addr s" using wf_setting [OF assms(1) less.prems] by (simp add: setting_wf_def)
    then show ?thesis using less.hyps [OF _ y(2)] y(1) by auto
  qed
  then obtain f where f: "\<And>c. c \<in> set (kids x) \<Longrightarrow> rep (settings s) (f c) \<and> ptr (f c) = c"
    by metis
  have "rep (settings s) (PNode p (map f (kids x)))"
    using f less.prems by (auto simp: comp_def intro!: map_idI [symmetric])
  then show ?case by (intro exI [of _ "PNode p (map f (kids x))"]) simp
qed

section \<open>Addresses of a tree\<close>

lemma addrs_live:
  assumes "cfg_ok s" and "rep (settings s) t" and "q \<in> set (addrs t)"
  shows "ptr t \<le> q \<and> (\<exists>x. settings s q = Some x)"
  using assms(2,3)
proof (induction t)
  case (PNode p ts)
  then obtain x where x: "settings s p = Some x" "kids x = map ptr ts" by auto
  show ?case
  proof (cases "q = p")
    case False
    with PNode.prems(2) obtain u where u: "u \<in> set ts" "q \<in> set (addrs u)" by auto
    then have "ptr u \<le> q \<and> (\<exists>x. settings s q = Some x)" using PNode by auto
    moreover have "p < ptr u" using wf_child [OF assms(1) x(1), of "ptr u"] x(2) u(1) by auto
    ultimately show ?thesis by auto
  qed (use x in auto)
qed

lemma addrs_kids:
  assumes "rep h t" and "q \<in> set (addrs t)" and "h q = Some x" and "c \<in> set (kids x)"
  shows "c \<in> set (addrs t)"
  using assms
proof (induction t)
  case (PNode p ts)
  show ?case
  proof (cases "q = p")
    case True
    with PNode.prems obtain u where "u \<in> set ts" "c = ptr u" by auto
    then show ?thesis using ptr_in_addrs [of u] by auto
  next
    case False
    with PNode.prems obtain u where "u \<in> set ts" "q \<in> set (addrs u)" by auto
    with PNode show ?thesis by auto
  qed
qed

lemma addrs_parent:
  assumes "cfg_ok s" and "rep (settings s) t" and "q \<in> set (addrs t)" and "q \<noteq> ptr t" and "settings s q = Some y"
  shows "s_parent y \<in> set (addrs t) \<and> s_parent y < q"
  using assms(2-4)
proof (induction t)
  case (PNode p ts)
  then obtain x where x: "settings s p = Some x" "kids x = map ptr ts" by auto
  from PNode.prems obtain u where u: "u \<in> set ts" "q \<in> set (addrs u)" by auto
  show ?case
  proof (cases "q = ptr u")
    case True
    then show ?thesis using wf_child [OF assms(1) x(1), of q] x(2) u(1) assms(5) by auto
  next
    case False
    then have "s_parent y \<in> set (addrs u) \<and> s_parent y < q" using PNode u by auto
    then show ?thesis using u(1) by auto
  qed
qed

lemma siblings_disjoint:
  assumes "cfg_ok s" and "rep (settings s) t" and "rep (settings s) u" and "ptr t \<noteq> ptr u"
    and "settings s (ptr t) = Some x" and "settings s (ptr u) = Some y" and "s_parent x = s_parent y"
    and "s_parent x < ptr t" and "s_parent x < ptr u"
  shows "q \<in> set (addrs t) \<Longrightarrow> q \<in> set (addrs u) \<Longrightarrow> False"
proof (induction q rule: less_induct)
  case (less q)
  obtain z where z: "settings s q = Some z" using addrs_live [OF assms(1,2) less.prems(1)] by auto
  show False
  proof (cases "q = ptr t \<or> q = ptr u")
    case True
    then have "s_parent z = s_parent x" using z assms(5-7) by auto
    then show False
      using True assms(4,8,9) addrs_parent [OF assms(1,2) less.prems(1) _ z]
        addrs_parent [OF assms(1,3) less.prems(2) _ z]
        addrs_live [OF assms(1,2)] addrs_live [OF assms(1,3)] by fastforce
  next
    case False
    then show False
      using less.IH addrs_parent [OF assms(1,2) less.prems(1) _ z]
        addrs_parent [OF assms(1,3) less.prems(2) _ z] by auto
  qed
qed

lemma addrs_distinct:
  assumes "cfg_ok s" and "rep (settings s) t"
  shows "distinct (addrs t)"
  using assms(2)
proof (induction t)
  case (PNode p ts)
  then obtain x where x: "settings s p = Some x" "kids x = map ptr ts" by auto
  have child: "p < ptr u \<and> (\<exists>y. settings s (ptr u) = Some y \<and> s_parent y = p)" if "u \<in> set ts" for u
    using wf_child [OF assms(1) x(1), of "ptr u"] x(2) that by auto
  have d: "distinct (map ptr ts)"
    using wf_setting [OF assms(1) x(1)] x(2) by (simp add: setting_wf_def)
  have disj: "set (addrs t) \<inter> set (addrs u) = {}" if "t \<in> set ts" "u \<in> set ts" "ptr t \<noteq> ptr u" for t u
    using siblings_disjoint [OF assms(1), of t u] child [of t] child [of u] PNode.prems that by fastforce
  have "p \<notin> set (concat (map addrs ts))"
    using child addrs_live [OF assms(1)] PNode.prems by fastforce
  moreover have "distinct (concat (map addrs ts))"
  proof (rule distinct_concat)
    have "inj_on addrs (set ts)"
    proof (rule inj_onI)
      fix t u assume "t \<in> set ts" "u \<in> set ts" "addrs t = addrs u"
      moreover from this have "ptr t = ptr u" using hd_addrs [of t] hd_addrs [of u] by simp
      ultimately show "t = u" using d by (auto simp: distinct_map inj_on_def)
    qed
    then show "distinct (map addrs ts)" using d by (simp add: distinct_map)
    show "distinct ys" if "ys \<in> set (map addrs ts)" for ys using that PNode by auto
    show "set ys \<inter> set zs = {}" if yz: "ys \<in> set (map addrs ts)" "zs \<in> set (map addrs ts)" "ys \<noteq> zs" for ys zs
    proof -
      obtain t u where tu: "t \<in> set ts" "u \<in> set ts" "ys = addrs t" "zs = addrs u" using yz by auto
      then have "ptr t \<noteq> ptr u" using yz(3) d by (auto simp: distinct_map inj_on_def)
      then show ?thesis using disj tu by auto
    qed
  qed
  ultimately show ?case by simp
qed

section \<open>Destroying\<close>

definition hooks_gone :: "cstate \<Rightarrow> ptree list \<Rightarrow> addr list" where
  "hooks_gone s ts = (if c_destructor (cfg s) then concat (map (hooks (settings s)) ts) else [])"

lemma destroy_settings_effect:
  assumes "\<forall>t \<in> set ts. rep (settings s) t" and "distinct (concat (map addrs ts))"
    and "NULL \<notin> set (concat (map addrs ts))"
    and "\<forall>p \<in> set (concat (map addrs ts)). \<forall>x. settings s p = Some x \<longrightarrow> value_ok (s_type x) (s_val x)"
  shows "destroy_settings (map ptr ts) s =
    Some (s\<lparr>settings := settings s |` (- set (concat (map addrs ts))),
            destroyed := destroyed s @ hooks_gone s ts\<rparr>)"
  using assms
proof (induction "length (concat (map addrs ts))" arbitrary: ts s rule: less_induct)
  case less
  show ?case
  proof (cases ts)
    case Nil
    then show ?thesis by (simp add: destroy_settings.simps hooks_gone_def)
  next
    case (Cons t ts')
    obtain p us where t: "t = PNode p us" by (cases t)
    obtain x where x: "settings s p = Some x" "kids x = map ptr us" and us: "\<forall>u \<in> set us. rep (settings s) u"
      using less.prems(1) Cons t by auto
    let ?D = "set (concat (map addrs us))"
    define s1 where "s1 = s\<lparr>settings := settings s |` (- ?D), destroyed := destroyed s @ hooks_gone s us\<rparr>"
    have vx: "value_ok (s_type x) (s_val x)" using less.prems(4) Cons t x(1) by auto
    have kids1: "destroy_settings (kids x) s = Some s1"
      unfolding x(2) s1_def
      by (rule less.hyps) (use less.prems Cons t us in auto)
    have inner: "(if s_type x = T_string then do { _ \<leftarrow> sval (s_val x); Some s }
        else if container (s_type x) then do {
          l \<leftarrow> vlist (s_val x);
          case l of None \<Rightarrow> Some s | Some l \<Rightarrow> destroy_settings (elems l) s
        } else Some s) = Some s1"
    proof (cases "s_val x")
      case (V_list l)
      then show ?thesis using kids1 vx by (auto simp: kids_def container_def)
    next
      case V_zero
      then show ?thesis using kids1 by (simp add: kids_def destroy_settings.simps)
    qed (use vx kids1 in \<open>auto simp: kids_def destroy_settings.simps container_def\<close>)
    define s2 where "s2 = s\<lparr>settings := settings s |` (- insert p ?D),
      destroyed := destroyed s @ hooks_gone s [t]\<rparr>"
    have p0: "p \<noteq> NULL" and pD: "p \<notin> ?D" using less.prems(2,3) Cons t by auto
    have node: "(let s = (if s_hook x \<noteq> NULL \<and> c_destructor (cfg s1)
                     then s1\<lparr>destroyed := destroyed s1 @ [s_hook x]\<rparr> else s1)
                in s\<lparr>settings := (settings s)(p := None)\<rparr>) = s2"
    proof -
      have "hook_at (settings s) p = (if s_hook x = NULL then [] else [s_hook x])"
        using x(1) by (simp add: hook_at_def)
      moreover have "(settings s |` (- ?D))(p := None) = settings s |` (- insert p ?D)"
        by (auto simp: restrict_map_def)
      ultimately show ?thesis by (simp add: s1_def s2_def hooks_gone_def t)
    qed
    have same: "settings s2 q = settings s q" if "q \<in> set (concat (map addrs ts'))" for q
      using that less.prems(2) Cons t by (auto simp: s2_def restrict_map_def)
    have same': "rep (settings s2) u = rep (settings s) u \<and> hooks (settings s2) u = hooks (settings s) u"
      if "u \<in> set ts'" for u
      by (rule rep_cong) (use that same in auto)
    have "destroy_settings (map ptr ts') s2 =
      Some (s2\<lparr>settings := settings s2 |` (- set (concat (map addrs ts'))),
              destroyed := destroyed s2 @ hooks_gone s2 ts'\<rparr>)"
      by (rule less.hyps) (use less.prems Cons t same same' in \<open>auto simp: t\<close>)
    moreover have "hooks_gone s2 ts' = hooks_gone s ts'"
      using same' by (simp add: hooks_gone_def s2_def cong: map_cong)
    moreover have "hooks_gone s [t] @ hooks_gone s ts' = hooks_gone s ts"
      by (simp add: hooks_gone_def Cons)
    moreover have "settings s |` (- insert p ?D) |` (- set (concat (map addrs ts')))
        = settings s |` (- set (concat (map addrs ts)))"
      by (auto simp: Cons t restrict_map_def fun_eq_iff)
    ultimately have "destroy_settings (map ptr ts') s2 =
      Some (s\<lparr>settings := settings s |` (- set (concat (map addrs ts))),
              destroyed := destroyed s @ hooks_gone s ts\<rparr>)"
      by (simp add: s2_def)
    then show ?thesis
      using inner node p0 x(1) t Cons
      by (subst destroy_settings.simps) (simp add: Let_def)
  qed
qed

section \<open>Removing a child\<close>

definition drop_child :: "nat \<Rightarrow> csetting \<Rightarrow> clist \<Rightarrow> csetting" where
  "drop_child idx x l = x\<lparr>s_val := V_list (l\<lparr>elems := take idx (elems l) @ drop (Suc idx) (elems l)\<rparr>)\<rparr>"

lemma drop_nth_set:
  assumes "distinct xs" and "i < length xs"
  shows "set (take i xs @ drop (Suc i) xs) = set xs - {xs ! i}"
    and "distinct (take i xs @ drop (Suc i) xs)"
proof -
  have e: "xs = take i xs @ xs ! i # drop (Suc i) xs" using assms(2) by (simp add: id_take_nth_drop)
  then have d: "distinct (take i xs @ xs ! i # drop (Suc i) xs)" using assms(1) by simp
  have "set xs = insert (xs ! i) (set (take i xs) \<union> set (drop (Suc i) xs))" by (subst e) auto
  with d show "set (take i xs @ drop (Suc i) xs) = set xs - {xs ! i}" by auto
  show "distinct (take i xs @ drop (Suc i) xs)" using d by auto
qed

lemma list_ok_shorter: "list_ok l \<Longrightarrow> length es \<le> length (elems l) \<Longrightarrow> list_ok (l\<lparr>elems := es\<rparr>)"
proof -
  assume "list_ok l" and "length es \<le> length (elems l)"
  moreover from this(2) have "(length es + 15) div 16 * 16 \<le> (length (elems l) + 15) div 16 * 16"
    by (intro mult_le_mono1 div_le_mono) simp
  ultimately show ?thesis by (simp add: list_ok_def)
qed

text \<open>Cutting a whole subtree keeps the rest well formed.\<close>

lemma wf_cut:
  assumes w: "cfg_ok s" and x: "settings s p = Some x" "s_val x = V_list l" and i: "i < length (elems l)"
    and t: "rep (settings s) t" "ptr t = elems l ! i"
    and s': "settings s' = (settings s)(p \<mapsto> drop_child i x l) |` (- set (addrs t))"
      "cfg s' = cfg s" "next_addr s' = next_addr s"
  shows "cfg_ok s'"
proof -
  let ?x = "drop_child i x l"
  have kx: "kids x = elems l" using x(2) by (simp add: kids_def)
  have sx: "setting_wf s p x" by (rule wf_setting [OF w x(1)])
  then have dist: "distinct (elems l)" and vx: "list_ok l" "container (s_type x)"
    using kx x(2) by (simp_all add: setting_wf_def)
  have kx': "set (kids ?x) = set (kids x) - {ptr t}" "distinct (kids ?x)"
    using drop_nth_set [OF dist i] t(2) kx by (simp_all add: kids_def drop_child_def)
  have same: "s_parent ?x = s_parent x" "s_type ?x = s_type x" by (simp_all add: drop_child_def)
  have vok: "value_ok (s_type ?x) (s_val ?x)"
    using vx i list_ok_shorter [OF vx(1), of "take i (elems l) @ drop (Suc i) (elems l)"]
    by (simp add: drop_child_def)
  have tc: "ptr t \<in> set (kids x)" using t(2) kx i by simp
  obtain z where z: "p < ptr t" "settings s (ptr t) = Some z" "s_parent z = p"
    using wf_child [OF w x(1) tc] by auto
  have pt: "p \<notin> set (addrs t)" using addrs_live [OF w t(1)] z(1) by fastforce
  define old where "old q y = (if q = p then x else y)" for q and y :: csetting
  have old: "settings s q = Some (old q y)" "q \<notin> set (addrs t)" "set (kids y) \<subseteq> set (kids (old q y))"
    "s_parent y = s_parent (old q y)" "s_type y = s_type (old q y)"
    if "settings s' q = Some y" for q y
    using that s'(1) x(1) kx'(1) same by (auto simp: old_def restrict_map_def split: if_splits)
  have new: "settings s' q = Some (if q = p then ?x else y)" if "settings s q = Some y" "q \<notin> set (addrs t)" for q y
    using that s'(1) by (simp add: restrict_map_def)
  have "setting_wf s' q y" if y: "settings s' q = Some y" for q y
  proof -
    note o = old [OF y]
    have so: "setting_wf s q (old q y)" by (rule wf_setting [OF w o(1)])
    have cases: "q \<noteq> p \<longrightarrow> y = old q y" "q = p \<longrightarrow> y = ?x"
      using y s'(1) pt by (auto simp: old_def restrict_map_def split: if_splits)
    have v: "value_ok (s_type y) (s_val y)" "distinct (kids y)"
      using so cases vok kx'(2) by (auto simp: setting_wf_def)
    have child: "q < c \<and> (\<exists>w. settings s' c = Some w \<and> s_parent w = q)" if c: "c \<in> set (kids y)" for c
    proof -
      obtain w' where w': "q < c" "settings s c = Some w'" "s_parent w' = q"
        using wf_child [OF w o(1), of c] o(3) c by auto
      have "c \<noteq> ptr t"
      proof
        assume "c = ptr t"
        then have "q = p" using w' z by simp
        then show False using c cases kx'(1) \<open>c = ptr t\<close> by auto
      qed
      then have "c \<notin> set (addrs t)"
        using addrs_parent [OF w t(1) _ _ w'(2)] w'(3) o(2) by auto
      then have "settings s' c = Some (if c = p then ?x else w')" by (rule new [OF w'(2)])
      then show ?thesis using w' same x(1) by auto
    qed
    have "if s_parent y = NULL then q = c_root (cfg s)
      else \<exists>w. settings s' (s_parent y) = Some w \<and> q \<in> set (kids w)"
    proof (cases "s_parent y = NULL")
      case False
      then obtain w' where w': "settings s (s_parent y) = Some w'" "q \<in> set (kids w')"
        using so o(4) by (auto simp: setting_wf_def)
      have "s_parent y \<notin> set (addrs t)" using addrs_kids [OF t(1) _ w'] o(2) by auto
      then have "settings s' (s_parent y) = Some (if s_parent y = p then ?x else w')" by (rule new [OF w'(1)])
      moreover have "q \<noteq> ptr t" using o(2) ptr_in_addrs [of t] by auto
      then have "q \<in> set (kids (if s_parent y = p then ?x else w'))"
        using w' x(1) kx'(1) by (cases "s_parent y = p") auto
      ultimately show ?thesis using False by meson
    qed (use so o(4) in \<open>simp add: setting_wf_def\<close>)
    then show ?thesis using so v child s'(2,3) by (simp add: setting_wf_def)
  qed
  moreover have "\<exists>r. settings s' (c_root (cfg s')) = Some r \<and> s_type r = T_group \<and> s_parent r = NULL"
  proof -
    obtain r where r: "settings s (c_root (cfg s)) = Some r" "s_type r = T_group" "s_parent r = NULL"
      using wf_root [OF w] by auto
    have "c_root (cfg s) \<notin> set (addrs t)"
    proof
      assume "c_root (cfg s) \<in> set (addrs t)"
      moreover have "c_root (cfg s) \<noteq> ptr t" using r z wf_not_null [OF w x(1)] by auto
      ultimately have "NULL \<in> set (addrs t)" using addrs_parent [OF w t(1) _ _ r(1)] r(3) by simp
      then show False using addrs_live [OF w t(1)] z(1) by fastforce
    qed
    from new [OF r(1) this] show ?thesis using r same x(1) s'(2) by auto
  qed
  ultimately show ?thesis by (simp add: cfg_ok_def)
qed

end
