(* ===== verification/Config_Safety.thy ===== *)
theory Config_Safety
  imports Config_Tree
begin

text \<open>
  Every call of the library that changes settings or options (\<open>api_call\<close>) keeps a well-formed configuration
  well formed and makes no undefined access, as long as it is allowed (\<open>call_allowed\<close>); with it, what adding,
  removing and destroying settings do to the rest of the configuration.
\<close>

section \<open>Adding\<close>

lemma config_list_add_ok:
  assumes "list_ok l"
  shows "\<exists>l'. config_list_add l q = Some l' \<and> elems l' = elems l @ [q] \<and> list_ok l'"
proof (cases "length (elems l) mod 16 = 0")
  case True
  then have "(length (elems l) + 16) div 16 * 16 = length (elems l) + 16" by auto
  with True show ?thesis by (simp add: config_list_add_def list_ok_def)
next
  case False
  have up: "(Suc n + 15) div 16 * 16 = (n + 15) div 16 * 16 \<and> n < (n + 15) div 16 * 16"
    if "n mod 16 \<noteq> 0" for n :: nat
  proof -
    define a r where "a = n div 16" and "r = n mod 16"
    have n: "n = 16 * a + r" "0 < r" "r < 16" using that by (simp_all add: a_def r_def)
    have "(n + 15) div 16 = Suc a" by (rule div_nat_eqI) (use n in simp_all)
    moreover have "(Suc n + 15) div 16 = Suc a" by (rule div_nat_eqI) (use n in simp_all)
    ultimately show ?thesis using n by simp
  qed
  let ?n = "length (elems l)"
  have cap: "(?n + 15) div 16 * 16 \<le> lcap l" using assms unfolding list_ok_def .
  have "?n < lcap l" using up [OF False] cap by linarith
  then have "config_list_add l q = Some \<lparr>elems = elems l @ [q], lcap = lcap l\<rparr>"
    using False unfolding config_list_add_def Let_def by (simp only: if_False if_True)
  moreover have "list_ok \<lparr>elems = elems l @ [q], lcap = lcap l\<rparr>"
    using up [OF False] cap unfolding list_ok_def by (simp only: clist.simps length_append_singleton)
  ultimately show ?thesis by auto
qed

lemma list_ok_Nil: "list_ok \<lparr>elems = [], lcap = n\<rparr>"
  by (simp add: list_ok_def)

text \<open>The setting \<open>x\<close> of \<open>p\<close> after the new child \<open>q\<close> has been appended.\<close>

definition appended :: "cstate \<Rightarrow> addr \<Rightarrow> csetting \<Rightarrow> csetting \<Rightarrow> cstate \<Rightarrow> bool" where
  "appended s p x new s' \<longleftrightarrow>
     (\<exists>l. s' = s\<lparr>next_addr := Suc (next_addr s),
                 settings := (settings s)(next_addr s \<mapsto> new, p \<mapsto> x\<lparr>s_val := V_list l\<rparr>)\<rparr>
          \<and> elems l = kids x @ [next_addr s] \<and> list_ok l)"

lemma config_setting_create_effect:
  assumes "cfg_ok s" and "settings s p = Some x" and "container (s_type x)"
  shows "\<exists>s'. config_setting_create p name t s = Some (next_addr s, s')
           \<and> appended s p x (new_setting name t p) s'"
proof -
  have v: "value_ok (s_type x) (s_val x)" by (rule wf_value [OF assms(1,2)])
  then obtain l where l: "vlist (s_val x) = Some l" using value_ok_reads(6) [OF assms(3)] by auto
  let ?l = "case l of None \<Rightarrow> \<lparr>elems = [], lcap = 0\<rparr> | Some l \<Rightarrow> l"
  have "list_ok ?l \<and> elems ?l = kids x"
    using l v kids_list [of x] by (cases "s_val x") (auto simp: list_ok_Nil split: option.splits)
  then obtain l' where "config_list_add ?l (next_addr s) = Some l'" "elems l' = kids x @ [next_addr s]" "list_ok l'"
    using config_list_add_ok by metis
  then show ?thesis
    using assms l by (simp add: config_setting_create_def appended_def Let_def exI [of _ l'])
qed

lemma wf_appended:
  assumes w: "cfg_ok s" and x: "settings s p = Some x" "container (s_type x)" and a: "appended s p x (new_setting name t p) s'"
  shows "cfg_ok s'"
proof -
  let ?q = "next_addr s" and ?new = "new_setting name t p"
  obtain l where s': "s' = s\<lparr>next_addr := Suc ?q,
      settings := (settings s)(?q \<mapsto> ?new, p \<mapsto> x\<lparr>s_val := V_list l\<rparr>)\<rparr>"
    and l: "elems l = kids x @ [?q]" "list_ok l" using a by (auto simp: appended_def)
  let ?x = "x\<lparr>s_val := V_list l\<rparr>"
  have fresh: "settings s c = None" if "?q \<le> c" for c using wf_fresh [OF w that] .
  then have pq: "p < ?q" using x(1) by (metis not_less option.distinct(1))
  have p0: "0 < p" using wf_not_null [OF w x(1)] by simp
  have kx: "kids ?x = kids x @ [?q]" using l(1) by (simp add: kids_def)
  have new: "settings s' c = Some (if c = p then ?x else y)" if "settings s c = Some y" for c y
    using that fresh [of ?q] s' by auto
  have q': "settings s' ?q = Some ?new" using s' pq by simp
  have kid_old: "c < ?q" if "settings s p' = Some y" "c \<in> set (kids y)" for p' y c
    using wf_child [OF w that] fresh [of c] by (metis not_less option.distinct(1))
  have "setting_wf s' c y" if y: "settings s' c = Some y" for c y
  proof (cases "c = ?q")
    case True
    then have "y = ?new" using y q' by simp
    moreover have "\<exists>w. settings s' p = Some w \<and> ?q \<in> set (kids w)" using new [OF x(1)] kx by simp
    ultimately show ?thesis
      using True p0 pq s' by (auto simp: setting_wf_def new_setting_def kids_def)
  next
    case False
    define z where "z = (if c = p then x else y)"
    have z: "settings s c = Some z" "s_parent y = s_parent z" "y = (if c = p then ?x else z)"
      using y False s' x(1) by (auto simp: z_def split: if_splits)
    have sz: "setting_wf s c z" by (rule wf_setting [OF w z(1)])
    have "value_ok (s_type y) (s_val y)" using sz z(3) l(2) x by (auto simp: setting_wf_def)
    moreover have "distinct (kids y)"
      using sz z kx kid_old [OF x(1)] x(1) by (auto simp: setting_wf_def split: if_splits)
    moreover have "\<forall>d \<in> set (kids y). c < d \<and> (\<exists>w. settings s' d = Some w \<and> s_parent w = c)"
    proof
      fix d assume d: "d \<in> set (kids y)"
      show "c < d \<and> (\<exists>w. settings s' d = Some w \<and> s_parent w = c)"
      proof (cases "d = ?q")
        case True
        then have "c = p" using d z(3) kid_old [OF z(1)] by (auto split: if_splits)
        then show ?thesis using True q' pq by (simp add: new_setting_def)
      next
        case False
        then have "d \<in> set (kids z)" using d z kx x(1) by (auto split: if_splits)
        then obtain w' where "c < d" "settings s d = Some w'" "s_parent w' = c" using wf_child [OF w z(1)] by auto
        then show ?thesis using new [of d w'] x(1) by auto
      qed
    qed
    moreover have "if s_parent y = NULL then c = c_root (cfg s)
      else \<exists>w. settings s' (s_parent y) = Some w \<and> c \<in> set (kids w)"
    proof (cases "s_parent y = NULL")
      case False
      then obtain w' where w': "settings s (s_parent y) = Some w'" "c \<in> set (kids w')"
        using sz z(2) by (auto simp: setting_wf_def)
      then have "c \<in> set (kids (if s_parent y = p then ?x else w'))" using x(1) kx by auto
      then show ?thesis using new [OF w'(1)] False by meson
    qed (use sz z(2) in \<open>simp add: setting_wf_def\<close>)
    moreover have "next_addr s' = Suc ?q" "cfg s' = cfg s" using s' by simp_all
    moreover have "0 < c" "c < ?q" using sz by (simp_all add: setting_wf_def)
    ultimately show ?thesis unfolding setting_wf_def by simp
  qed
  moreover have "\<exists>r. settings s' (c_root (cfg s')) = Some r \<and> s_type r = T_group \<and> s_parent r = NULL"
  proof -
    obtain r where r: "settings s (c_root (cfg s)) = Some r" "s_type r = T_group" "s_parent r = NULL"
      using wf_root [OF w] by auto
    then show ?thesis using new [OF r(1)] x(1) s' by auto
  qed
  ultimately show ?thesis by (simp add: cfg_ok_def)
qed

section \<open>Setting values\<close>

lemma kids_scalar: "value_ok t (s_val x) \<Longrightarrow> \<not> container t \<Longrightarrow> kids x = []"
  by (cases "s_val x") (auto simp: kids_def)

text \<open>Giving a scalar setting, or one without a type, a value of a scalar type.\<close>

lemma put_scalar:
  assumes "cfg_ok s" and "settings s p = Some x" and "\<not> container (s_type x)"
    and "value_ok t v" and "\<not> container t"
  shows "cfg_ok (put p (x\<lparr>s_type := t, s_val := v\<rparr>) s)"
proof -
  let ?x = "x\<lparr>s_type := t, s_val := v\<rparr>"
  have "kids x = []" by (rule kids_scalar [OF wf_value [OF assms(1,2)] assms(3)])
  moreover have "kids ?x = []" using kids_scalar [of t ?x] assms(4,5) by simp
  ultimately show ?thesis
    unfolding put_def using assms by (intro wf_update [OF assms(1,2)]) (auto simp: container_def)
qed

lemma put_value:
  assumes "cfg_ok s" and "settings s p = Some x" and "\<not> container (s_type x)" and "value_ok (s_type x) v"
  shows "cfg_ok (put p (x\<lparr>s_val := v\<rparr>) s)"
  using put_scalar [OF assms(1-3) assms(4,3)] by simp

text \<open>What every setter does: nothing, or a change of the one setting, which keeps its children.\<close>

definition sets_at :: "addr \<Rightarrow> cstate \<Rightarrow> (bool \<times> cstate) option \<Rightarrow> bool" where
  "sets_at p s r \<longleftrightarrow>
     (\<exists>ok s'. r = Some (ok, s') \<and> cfg_ok s' \<and> (s' = s \<or> ok \<and> (\<exists>x'. s' = put p x' s)))"

lemma sets_at_same: "cfg_ok s \<Longrightarrow> sets_at p s (Some (b, s))"
  by (simp add: sets_at_def)

lemma sets_at_put: "cfg_ok (put p x' s) \<Longrightarrow> sets_at p s (Some (True, put p x' s))"
  by (auto simp: sets_at_def)

lemma set_int_sets:
  assumes "cfg_ok s" and "settings s p = Some x"
  shows "sets_at p s (config_setting_set_int p v s)"
  using assms put_scalar [OF assms, of T_int "V_int v"] put_value [OF assms]
  by (cases "s_type x") (auto simp: config_setting_set_int_def container_def intro!: sets_at_same sets_at_put)

lemma set_int64_sets:
  assumes "cfg_ok s" and "settings s p = Some x"
  shows "sets_at p s (config_setting_set_int64 p v s)"
  using assms put_scalar [OF assms, of T_int64 "V_int64 v"] put_value [OF assms]
  by (cases "s_type x") (auto simp: config_setting_set_int64_def container_def intro!: sets_at_same sets_at_put)

definition double_fits :: "double \<Rightarrow> bool" where
  "double_fits v \<longleftrightarrow> double_to_i32 v \<noteq> None \<and> double_to_i64 v \<noteq> None"

lemma set_float_sets:
  assumes "cfg_ok s" and "settings s p = Some x" and "config_get_auto_convert s \<Longrightarrow> double_fits v"
  shows "sets_at p s (config_setting_set_float p v s)"
  using assms put_scalar [OF assms(1,2), of T_float "V_float v"] put_value [OF assms(1,2)]
  by (cases "s_type x")
    (auto simp: config_setting_set_float_def container_def config_get_auto_convert_def double_fits_def
      intro!: sets_at_same sets_at_put)

lemma set_bool_sets:
  assumes "cfg_ok s" and "settings s p = Some x"
  shows "sets_at p s (config_setting_set_bool p v s)"
  using assms put_scalar [OF assms, of T_bool "V_int v"] put_value [OF assms]
  by (cases "s_type x") (auto simp: config_setting_set_bool_def container_def intro!: sets_at_same sets_at_put)

lemma set_string_sets:
  assumes "cfg_ok s" and "settings s p = Some x"
  shows "sets_at p s (config_setting_set_string p v s)"
proof -
  let ?v = "case v of None \<Rightarrow> V_zero | Some t \<Rightarrow> V_string t"
  have v: "value_ok T_string ?v" by (simp split: option.split)
  have vx: "value_ok (s_type x) (s_val x)" by (rule wf_value [OF assms])
  consider (none) "s_type x = T_none" | (str) "s_type x = T_string" | (other) "s_type x \<noteq> T_none" "s_type x \<noteq> T_string"
    by blast
  then show ?thesis
  proof cases
    case none
    then have "sval (s_val x) = Some None" using vx by (cases "s_val x") (auto simp: container_def)
    then show ?thesis
      using none assms(2) put_scalar [OF assms _ v] 
      by (auto simp: config_setting_set_string_def container_def intro!: sets_at_put)
  next
    case str
    then obtain t where "sval (s_val x) = Some t" using vx value_ok_reads(5) by auto
    then show ?thesis
      using str assms(2) put_value [OF assms, of ?v] v
      by (auto simp: config_setting_set_string_def container_def intro!: sets_at_put)
  qed (use assms in \<open>auto simp: config_setting_set_string_def intro!: sets_at_same\<close>)
qed

lemma put_other_field:
  assumes "cfg_ok s" and "settings s p = Some x" and "s_val x' = s_val x" and "s_type x' = s_type x"
    and "s_parent x' = s_parent x"
  shows "cfg_ok (put p x' s)"
  unfolding put_def using assms wf_value [OF assms(1,2)]
  by (intro wf_update [OF assms(1,2)]) (auto simp: kids_def)

lemma set_format_sets:
  assumes "cfg_ok s" and "settings s p = Some x"
  shows "sets_at p s (config_setting_set_format p f s)"
  using assms put_other_field [OF assms, of "x\<lparr>s_format := f\<rparr>"]
  by (auto simp: config_setting_set_format_def intro!: sets_at_same sets_at_put)

lemma set_hook_ok:
  assumes "cfg_ok s" and "settings s p = Some x"
  shows "\<exists>s'. config_setting_set_hook p h s = Some s' \<and> cfg_ok s'"
  using assms put_other_field [OF assms, of "x\<lparr>s_hook := h\<rparr>"]
  by (auto simp: config_setting_set_hook_def)

section \<open>Finding members\<close>

definition named :: "cstate \<Rightarrow> string \<Rightarrow> addr \<Rightarrow> bool" where
  "named s n c \<longleftrightarrow>
     (case settings s c of None \<Rightarrow> False
      | Some x \<Rightarrow> (case s_name x of None \<Rightarrow> False | Some m \<Rightarrow> config_name_compare n m = 0))"

text \<open>The search finds the first element with the name.\<close>

lemma list_search_from_finds:
  assumes "\<forall>c \<in> set cs. settings s c \<noteq> None"
  shows "list_search_from cs i (Some n) s =
    Some (case find (\<lambda>(j, c). named s n c) (enumerate i cs) of None \<Rightarrow> None | Some r \<Rightarrow> Some r)"
  using assms by (induction cs arbitrary: i) (auto simp: named_def split: option.splits)

lemma find_enumerate:
  "find (\<lambda>(j, c). P c) (enumerate i cs) = Some (k, c) \<Longrightarrow>
     i \<le> k \<and> k - i < length cs \<and> cs ! (k - i) = c \<and> P c \<and> (\<forall>d \<in> set (take (k - i) cs). \<not> P d)"
proof (induction cs arbitrary: i)
  case (Cons d cs)
  show ?case
  proof (cases "P d")
    case False
    with Cons have "Suc i \<le> k" and *: "k - Suc i < length cs \<and> cs ! (k - Suc i) = c \<and> P c
      \<and> (\<forall>d \<in> set (take (k - Suc i) cs). \<not> P d)" by auto
    then have "k - i = Suc (k - Suc i)" by simp
    with * False \<open>Suc i \<le> k\<close> show ?thesis by auto
  qed (use Cons in auto)
qed simp

lemma find_enumerate_None:
  "find (\<lambda>(j, c). P c) (enumerate i cs) = None \<longleftrightarrow> (\<forall>c \<in> set cs. \<not> P c)"
  by (induction cs arbitrary: i) auto

definition member :: "cstate \<Rightarrow> csetting \<Rightarrow> string \<Rightarrow> (nat \<times> addr) option" where
  "member s x n = find (\<lambda>(j, c). named s n c) (enumerate 0 (kids x))"

lemma kids_live: "cfg_ok s \<Longrightarrow> settings s p = Some x \<Longrightarrow> \<forall>c \<in> set (kids x). settings s c \<noteq> None"
  using wf_child by fastforce

lemma search_member:
  assumes "cfg_ok s" and "settings s p = Some x" and "container (s_type x)"
  shows "\<exists>l. vlist (s_val x) = Some l \<and> config_list_search l (Some n) s = Some (member s x n)
    \<and> (case l of None \<Rightarrow> kids x = [] | Some l' \<Rightarrow> s_val x = V_list l' \<and> kids x = elems l')"
proof -
  have "value_ok (s_type x) (s_val x)" by (rule wf_value [OF assms(1,2)])
  then consider (zero) "s_val x = V_zero" | (list) l where "s_val x = V_list l"
    using assms(3) by (cases "s_val x") (auto simp: container_def)
  then show ?thesis
  proof cases
    case zero
    then show ?thesis by (auto simp: kids_def member_def config_list_search_def)
  next
    case list
    then have "kids x = elems l" by (simp add: kids_def)
    with list list_search_from_finds [of "elems l" s 0 n] kids_live [OF assms(1,2)] show ?thesis
      by (auto simp: member_def config_list_search_def split: option.splits)
  qed
qed

lemma member_child:
  "member s x n = Some (i, c) \<Longrightarrow> i < length (kids x) \<and> kids x ! i = c \<and> c \<in> set (kids x) \<and> named s n c"
  unfolding member_def by (drule find_enumerate) auto

lemma get_member_effect:
  assumes "cfg_ok s" and "settings s p = Some x"
  shows "config_setting_get_member p (Some n) s =
    Some (if s_type x = T_group then (case member s x n of None \<Rightarrow> NULL | Some (i, c) \<Rightarrow> c) else NULL)"
proof (cases "s_type x = T_group")
  case True
  then obtain l where "vlist (s_val x) = Some l" "config_list_search l (Some n) s = Some (member s x n)"
    using search_member [OF assms, of n] by (auto simp: container_def)
  with True assms(2) show ?thesis by (simp add: config_setting_get_member_def)
qed (use assms in \<open>simp add: config_setting_get_member_def\<close>)

text \<open>Without a name nothing is found outside groups; in a group the search would compare with it.\<close>

lemma get_member_null:
  assumes "settings s p = Some x" and "s_type x \<noteq> T_group"
  shows "config_setting_get_member p None s = Some NULL"
  using assms by (simp add: config_setting_get_member_def)

lemma get_elem_effect:
  assumes "cfg_ok s" and "settings s p = Some x"
  shows "config_setting_get_elem p idx s =
    Some (if container (s_type x) \<and> unat idx < length (kids x) then kids x ! unat idx else NULL)"
proof (cases "container (s_type x)")
  case True
  then show ?thesis
    using assms(2) wf_value [OF assms]
    by (cases "s_val x") (auto simp: config_setting_get_elem_def kids_def rd_def container_def)
qed (use assms in \<open>simp add: config_setting_get_elem_def\<close>)

section \<open>Adding and removing\<close>

lemma config_setting_add_ok:
  assumes "cfg_ok s" and "settings s p = Some x" and "name \<noteq> None \<or> s_type x \<noteq> T_group"
  shows "\<exists>q s'. config_setting_add p name type s = Some (q, s') \<and> cfg_ok s'
    \<and> (q = NULL \<and> s' = s
       \<or> (\<exists>n t. q = next_addr s \<and> ctype_of type = Some t \<and> appended s p x (new_setting n t p) s'))"
proof -
  define name' where "name' = (if s_type x = T_array \<or> s_type x = T_list then None else name)"
  have p0: "p \<noteq> NULL" by (rule wf_not_null [OF assms(1,2)])
  obtain m where m: "config_setting_get_member p name' s = Some m"
    using get_member_effect [OF assms(1,2)] get_member_null [OF assms(2)] assms(3)
    by (cases name') (auto simp: name'_def split: if_splits)
  have "\<exists>q s'. config_setting_create p name' t s = Some (q, s') \<and> cfg_ok s'
    \<and> (q = NULL \<and> s' = s \<or> q = next_addr s \<and> appended s p x (new_setting name' t p) s')" for t
  proof (cases "container (s_type x)")
    case True
    with config_setting_create_effect [OF assms(1,2)] wf_appended [OF assms(1,2)] show ?thesis by blast
  qed (use assms in \<open>simp add: config_setting_create_def\<close>)
  note created = this
  show ?thesis
  proof (cases "ctype_of type")
    case None
    then show ?thesis using assms(1) by (simp add: config_setting_add_def)
  next
    case (Some t)
    then have "config_setting_add p name type s = Some (NULL, s)
      \<or> config_setting_add p name type s = config_setting_create p name' t s"
      using assms(2) p0 m unfolding config_setting_add_def name'_def Let_def by simp
    with created [of t] Some assms(1) show ?thesis by fastforce
  qed
qed

text \<open>Removing the child at index \<open>i\<close>: its tree goes, everything else stays.\<close>

definition removed :: "cstate \<Rightarrow> addr \<Rightarrow> csetting \<Rightarrow> nat \<Rightarrow> cstate \<Rightarrow> bool" where
  "removed s p x i s' \<longleftrightarrow>
     (\<exists>l t. s_val x = V_list l \<and> rep (settings s) t \<and> ptr t = kids x ! i
        \<and> s' = s\<lparr>settings := (settings s)(p \<mapsto> drop_child i x l) |` (- set (addrs t)),
                destroyed := destroyed s @ hooks_gone s [t]\<rparr>)"

lemma destroy_child:
  assumes w: "cfg_ok s" and x: "settings s p = Some x" "s_val x = V_list l" and i: "i < length (elems l)"
  shows "\<exists>s'. config_setting_destroy (elems l ! i) (put p (drop_child i x l) s) = Some s'
    \<and> removed s p x i s' \<and> cfg_ok s'"
proof -
  have kx: "kids x = elems l" using x(2) by (simp add: kids_def)
  then have c: "elems l ! i \<in> set (kids x)" using i by simp
  obtain y where y: "p < elems l ! i" "settings s (elems l ! i) = Some y" "s_parent y = p"
    using wf_child [OF w x(1) c] by auto
  obtain t where t: "rep (settings s) t" "ptr t = elems l ! i" using rep_exists [OF w y(2)] by auto
  let ?s = "put p (drop_child i x l) s"
  have off: "q \<noteq> p" if "q \<in> set (addrs t)" for q using addrs_live [OF w t(1) that] t(2) y(1) by auto
  have same: "rep (settings ?s) t = rep (settings s) t \<and> hooks (settings ?s) t = hooks (settings s) t"
    by (rule rep_cong) (use off in \<open>simp add: put_def\<close>)
  have "destroy_settings (map ptr [t]) ?s =
    Some (?s\<lparr>settings := settings ?s |` (- set (concat (map addrs [t]))),
            destroyed := destroyed ?s @ hooks_gone ?s [t]\<rparr>)"
  proof (rule destroy_settings_effect)
    show "\<forall>u \<in> set [t]. rep (settings ?s) u" using same t(1) by simp
    show "distinct (concat (map addrs [t]))" using addrs_distinct [OF w t(1)] by simp
    show "NULL \<notin> set (concat (map addrs [t]))" using addrs_live [OF w t(1)] t(2) y(1) by fastforce
    show "\<forall>q \<in> set (concat (map addrs [t])). \<forall>x. settings ?s q = Some x \<longrightarrow> value_ok (s_type x) (s_val x)"
      using off wf_value [OF w] by (auto simp: put_def)
  qed
  moreover have "hooks_gone ?s [t] = hooks_gone s [t]" using same by (simp add: hooks_gone_def put_def)
  ultimately have "config_setting_destroy (elems l ! i) ?s =
    Some (s\<lparr>settings := (settings s)(p \<mapsto> drop_child i x l) |` (- set (addrs t)),
                destroyed := destroyed s @ hooks_gone s [t]\<rparr>)"
    using t(2) by (simp add: config_setting_destroy_def put_def)
  moreover have "cfg_ok (s\<lparr>settings := (settings s)(p \<mapsto> drop_child i x l) |` (- set (addrs t)),
                destroyed := destroyed s @ hooks_gone s [t]\<rparr>)"
    by (rule wf_cut [OF w x i t]) simp_all
  ultimately show ?thesis using t kx x(2) by (auto simp: removed_def)
qed

lemma config_list_remove_at:
  "i < length (elems l) \<Longrightarrow> config_list_remove l i =
     Some (elems l ! i, l\<lparr>elems := take i (elems l) @ drop (Suc i) (elems l)\<rparr>)"
  by (simp add: config_list_remove_def rd_def)

lemma config_setting_remove_effect:
  assumes w: "cfg_ok s" and x: "settings s p = Some x"
  shows "case (if s_type x = T_group then member s x n else None) of
      None \<Rightarrow> config_setting_remove p (Some n) s = Some (False, s)
    | Some (i, c) \<Rightarrow> \<exists>s'. config_setting_remove p (Some n) s = Some (True, s') \<and> removed s p x i s' \<and> cfg_ok s'"
proof (cases "s_type x = T_group")
  case True
  then obtain l where l: "vlist (s_val x) = Some l" "config_list_search l (Some n) s = Some (member s x n)"
    "case l of None \<Rightarrow> kids x = [] | Some l' \<Rightarrow> s_val x = V_list l' \<and> kids x = elems l'"
    using search_member [OF w x, of n] by (auto simp: container_def)
  have p0: "p \<noteq> NULL" by (rule wf_not_null [OF w x])
  show ?thesis
  proof (cases "member s x n")
    case None
    with True x l p0 show ?thesis by (simp add: config_setting_remove_def)
  next
    case (Some r)
    obtain i c where r: "r = (i, c)" by (cases r)
    have i: "i < length (kids x)" "kids x ! i = c" using member_child [of s x n i c] Some r by auto
    then obtain l' where l': "l = Some l'" "s_val x = V_list l'" "kids x = elems l'"
      using l(3) by (cases l) auto
    obtain s' where "config_setting_destroy c (put p (drop_child i x l') s) = Some s'" "removed s p x i s'" "cfg_ok s'"
      using destroy_child [OF w x l'(2), of i] i l'(3) by auto
    with True x l p0 Some r l' i show ?thesis
      by (simp add: config_setting_remove_def config_list_remove_at drop_child_def)
  qed
qed (use w x wf_not_null [OF w x] in \<open>simp add: config_setting_remove_def\<close>)

lemma config_setting_remove_elem_effect:
  assumes w: "cfg_ok s" and x: "settings s p = Some x"
  shows "if container (s_type x) \<and> unat idx < length (kids x)
    then \<exists>s'. config_setting_remove_elem p idx s = Some (True, s') \<and> removed s p x (unat idx) s' \<and> cfg_ok s'
    else config_setting_remove_elem p idx s = Some (False, s)"
proof (cases "container (s_type x)")
  case True
  have p0: "p \<noteq> NULL" by (rule wf_not_null [OF w x])
  from wf_value [OF w x] True consider (zero) "s_val x = V_zero" | (list) l where "s_val x = V_list l"
    by (cases "s_val x") (auto simp: container_def)
  then show ?thesis
  proof cases
    case zero
    with True x p0 show ?thesis by (simp add: config_setting_remove_elem_def kids_def)
  next
    case list
    then have kx: "kids x = elems l" by (simp add: kids_def)
    show ?thesis
    proof (cases "unat idx < length (elems l)")
      case i: True
      obtain s' where "config_setting_destroy (elems l ! unat idx) (put p (drop_child (unat idx) x l) s) = Some s'"
        "removed s p x (unat idx) s'" "cfg_ok s'"
        using destroy_child [OF w x list i] by auto
      with True x p0 list i kx show ?thesis
        by (simp add: config_setting_remove_elem_def config_list_remove_at drop_child_def)
    next
      case False
      with True x p0 list kx show ?thesis by (simp add: config_setting_remove_elem_def)
    qed
  qed
qed (use w x wf_not_null [OF w x] in \<open>simp add: config_setting_remove_elem_def\<close>)

section \<open>Setting elements\<close>

lemma vector_checktype_ok:
  assumes w: "cfg_ok s" and x: "settings s p = Some x" and c: "container (s_type x)"
  shows "\<exists>ok. config_vector_checktype p t s = Some ok"
proof -
  from wf_value [OF w x] c consider (zero) "s_val x = V_zero" | (list) l where "s_val x = V_list l"
    by (cases "s_val x") (auto simp: container_def)
  then show ?thesis
  proof cases
    case list
    then show ?thesis
      using x kids_live [OF w x]
      by (cases "elems l") (auto simp: config_vector_checktype_def kids_def)
  qed (use x in \<open>auto simp: config_vector_checktype_def\<close>)
qed

lemma vector_slot_ok:
  assumes w: "cfg_ok s" and x: "settings s p = Some x"
  shows "\<exists>e s'. vector_slot t p idx s = Some (e, s') \<and> cfg_ok s' \<and> cfg s' = cfg s
    \<and> (e \<noteq> NULL \<longrightarrow> settings s' e \<noteq> None)"
proof (cases "s_type x = T_array \<or> s_type x = T_list")
  case True
  then have c: "container (s_type x)" by (auto simp: container_def)
  show ?thesis
  proof (cases "sint idx < 0")
    case True': True
    obtain ok where ok: "config_vector_checktype p t s = Some ok"
      using vector_checktype_ok [OF w x c] by blast
    obtain s' where s': "config_setting_create p None t s = Some (next_addr s, s')"
        "appended s p x (new_setting None t p) s'"
      using config_setting_create_effect [OF w x c] by blast
    have "cfg_ok s'" by (rule wf_appended [OF w x c s'(2)])
    moreover have "settings s' (next_addr s) \<noteq> None" "cfg s' = cfg s" using s'(2) by (auto simp: appended_def)
    ultimately show ?thesis using True True' x ok s'(1) w by (auto simp: vector_slot_def)
  next
    case False
    then show ?thesis
      using True x w get_elem_effect [OF w x, of idx] kids_live [OF w x]
      by (auto simp: vector_slot_def)
  qed
qed (use w x in \<open>auto simp: vector_slot_def\<close>)

lemma set_elem_ok:
  assumes w: "cfg_ok s" and x: "settings s p = Some x"
    and set_val: "\<And>e s' y. cfg_ok s' \<Longrightarrow> settings s' e = Some y \<Longrightarrow> cfg s' = cfg s \<Longrightarrow> sets_at e s' (set_val e s')"
  shows "\<exists>e s'. do { r \<leftarrow> vector_slot t p idx s; set_slot set_val r } = Some (e, s') \<and> cfg_ok s'"
proof -
  obtain e s' where s': "vector_slot t p idx s = Some (e, s')" "cfg_ok s'" "cfg s' = cfg s"
    "e \<noteq> NULL \<longrightarrow> settings s' e \<noteq> None" using vector_slot_ok [OF w x] by blast
  show ?thesis
  proof (cases "e = NULL")
    case False
    then obtain y where "settings s' e = Some y" using s'(4) by auto
    from set_val [OF s'(2) this s'(3)] s'(1) False show ?thesis by (auto simp: set_slot_def sets_at_def)
  qed (use s' in \<open>simp add: set_slot_def\<close>)
qed

section \<open>The calls of a program\<close>

datatype api_call =
  Set_int addr i32 | Set_int64 addr i64 | Set_float addr double | Set_bool addr i32
| Set_string addr "string option" | Set_format addr int | Set_hook addr addr
| Set_int_elem addr i32 i32 | Set_int64_elem addr i32 i64 | Set_float_elem addr i32 double
| Set_bool_elem addr i32 i32 | Set_string_elem addr i32 "string option"
| Add addr "string option" int | Remove addr "string option" | Remove_elem addr u32
| Set_options u32 | Set_auto_convert bool | Set_destructor bool | Set_include_dir string

definition drop_result :: "('a \<times> cstate) option \<Rightarrow> cstate option" where
  "drop_result r = map_option snd r"

fun config_call :: "api_call \<Rightarrow> cstate \<Rightarrow> cstate option" where
  "config_call (Set_int p v) s = drop_result (config_setting_set_int p v s)"
| "config_call (Set_int64 p v) s = drop_result (config_setting_set_int64 p v s)"
| "config_call (Set_float p v) s = drop_result (config_setting_set_float p v s)"
| "config_call (Set_bool p v) s = drop_result (config_setting_set_bool p v s)"
| "config_call (Set_string p v) s = drop_result (config_setting_set_string p v s)"
| "config_call (Set_format p f) s = drop_result (config_setting_set_format p f s)"
| "config_call (Set_hook p h) s = config_setting_set_hook p h s"
| "config_call (Set_int_elem p i v) s = drop_result (config_setting_set_int_elem p i v s)"
| "config_call (Set_int64_elem p i v) s = drop_result (config_setting_set_int64_elem p i v s)"
| "config_call (Set_float_elem p i v) s = drop_result (config_setting_set_float_elem p i v s)"
| "config_call (Set_bool_elem p i v) s = drop_result (config_setting_set_bool_elem p i v s)"
| "config_call (Set_string_elem p i v) s = drop_result (config_setting_set_string_elem p i v s)"
| "config_call (Add p name type) s = drop_result (config_setting_add p name type s)"
| "config_call (Remove p name) s = drop_result (config_setting_remove p name s)"
| "config_call (Remove_elem p i) s = drop_result (config_setting_remove_elem p i s)"
| "config_call (Set_options opts) s = Some (config_set_options opts s)"
| "config_call (Set_auto_convert f) s = Some (config_set_auto_convert f s)"
| "config_call (Set_destructor d) s = Some (config_set_destructor d s)"
| "config_call (Set_include_dir d) s = Some (config_set_include_dir d s)"

text \<open>
  What the caller has to see to: the settings it names exist; a name is given where a member of a
  group is meant; with automatic conversion, a floating-point value fits the integer types.
\<close>

definition live :: "addr \<Rightarrow> cstate \<Rightarrow> bool" where
  "live p s \<longleftrightarrow> settings s p \<noteq> None"

fun call_allowed :: "api_call \<Rightarrow> cstate \<Rightarrow> bool" where
  "call_allowed (Set_int p v) s = live p s"
| "call_allowed (Set_int64 p v) s = live p s"
| "call_allowed (Set_float p v) s = (live p s \<and> (config_get_auto_convert s \<longrightarrow> double_fits v))"
| "call_allowed (Set_bool p v) s = live p s"
| "call_allowed (Set_string p v) s = live p s"
| "call_allowed (Set_format p f) s = live p s"
| "call_allowed (Set_hook p h) s = live p s"
| "call_allowed (Set_int_elem p i v) s = live p s"
| "call_allowed (Set_int64_elem p i v) s = live p s"
| "call_allowed (Set_float_elem p i v) s = (live p s \<and> (config_get_auto_convert s \<longrightarrow> double_fits v))"
| "call_allowed (Set_bool_elem p i v) s = live p s"
| "call_allowed (Set_string_elem p i v) s = live p s"
| "call_allowed (Add p name type) s = (live p s \<and> (case settings s p of
       None \<Rightarrow> True | Some x \<Rightarrow> name \<noteq> None \<or> s_type x \<noteq> T_group))"
| "call_allowed (Remove p name) s = (live p s \<and> name \<noteq> None)"
| "call_allowed (Remove_elem p i) s = live p s"
| "call_allowed _ s = True"

lemma drop_result_ok: "\<exists>e s'. r = Some (e, s') \<and> cfg_ok s' \<Longrightarrow> \<exists>s'. drop_result r = Some s' \<and> cfg_ok s'"
  by (auto simp: drop_result_def)

lemma sets_at_ok: "sets_at p s r \<Longrightarrow> \<exists>e s'. r = Some (e, s') \<and> cfg_ok s'"
  by (auto simp: sets_at_def)

lemma with_cfg_ok:
  assumes "cfg_ok s" and "c_root (f (cfg s)) = c_root (cfg s)"
  shows "cfg_ok (with_cfg f s)"
  using assms by (simp add: cfg_ok_def setting_wf_def with_cfg_def)

lemmas setters_set = set_int_sets set_int64_sets set_bool_sets set_string_sets set_format_sets

lemma config_call_good:
  assumes "cfg_ok s" and "call_allowed c s"
  shows "\<exists>s'. config_call c s = Some s' \<and> cfg_ok s'"
proof -
  note elem = set_elem_ok [OF assms(1)]
  show ?thesis
  proof (cases c)
    case (Set_float p v)
    with assms show ?thesis
      by (auto simp: live_def intro!: drop_result_ok sets_at_ok intro: set_float_sets)
  next
    case (Set_hook p h)
    with assms set_hook_ok show ?thesis by (auto simp: live_def)
  next
    case (Set_float_elem p i v)
    with assms obtain x where "settings s p = Some x" by (auto simp: live_def)
    moreover have "sets_at e s' (config_setting_set_float e v s')"
      if "cfg_ok s'" "settings s' e = Some y" "cfg s' = cfg s" for e s' y
      by (rule set_float_sets [OF that(1,2)])
        (use assms(2) Set_float_elem that(3) in \<open>simp add: config_get_auto_convert_def\<close>)
    ultimately have "\<exists>e s'. config_setting_set_float_elem p i v s = Some (e, s') \<and> cfg_ok s'"
      unfolding config_setting_set_float_elem_def by (rule elem)
    then show ?thesis using Set_float_elem by (auto intro!: drop_result_ok)
  next
    case (Set_int_elem p i v)
    with assms obtain x where "settings s p = Some x" by (auto simp: live_def)
    from elem [OF this, of "\<lambda>e. config_setting_set_int e v" T_int i] Set_int_elem show ?thesis
      by (auto simp: config_setting_set_int_elem_def intro!: drop_result_ok set_int_sets)
  next
    case (Set_int64_elem p i v)
    with assms obtain x where "settings s p = Some x" by (auto simp: live_def)
    from elem [OF this, of "\<lambda>e. config_setting_set_int64 e v" T_int64 i] Set_int64_elem show ?thesis
      by (auto simp: config_setting_set_int64_elem_def intro!: drop_result_ok set_int64_sets)
  next
    case (Set_bool_elem p i v)
    with assms obtain x where "settings s p = Some x" by (auto simp: live_def)
    from elem [OF this, of "\<lambda>e. config_setting_set_bool e v" T_bool i] Set_bool_elem show ?thesis
      by (auto simp: config_setting_set_bool_elem_def intro!: drop_result_ok set_bool_sets)
  next
    case (Set_string_elem p i v)
    with assms obtain x where "settings s p = Some x" by (auto simp: live_def)
    from elem [OF this, of "\<lambda>e. config_setting_set_string e v" T_string i] Set_string_elem show ?thesis
      by (auto simp: config_setting_set_string_elem_def intro!: drop_result_ok set_string_sets)
  next
    case (Add p name type)
    with assms obtain x where "settings s p = Some x" "name \<noteq> None \<or> s_type x \<noteq> T_group" by (auto simp: live_def)
    from config_setting_add_ok [OF assms(1) this, of type] Add show ?thesis by (fastforce intro!: drop_result_ok)
  next
    case (Remove p name)
    with assms obtain x n where "settings s p = Some x" "name = Some n" by (auto simp: live_def)
    with config_setting_remove_effect [OF assms(1) this(1), of n] Remove assms(1) show ?thesis
      by (fastforce intro!: drop_result_ok split: option.splits)
  next
    case (Remove_elem p i)
    with assms obtain x where "settings s p = Some x" by (auto simp: live_def)
    from config_setting_remove_elem_effect [OF assms(1) this, of i] Remove_elem assms(1) show ?thesis
      by (fastforce intro!: drop_result_ok split: if_splits)
  qed (use assms in \<open>auto simp: live_def config_set_options_def config_set_auto_convert_def
      config_set_destructor_def config_set_include_dir_def
      intro!: drop_result_ok sets_at_ok with_cfg_ok intro: setters_set\<close>)
qed

interpretation config_api: safe_interface cfg_ok call_allowed config_call
  by unfold_locales (rule config_call_good)

end
