(* ===== verification/Config_Lexing.thy ===== *)
theory Config_Lexing
  imports Config_Match Config_Safety "HOL-Library.Sublist"
begin

text \<open>
  The scanner as the parser sees it: on texts without NULs, whose numbers fit an \<open>int\<close>, every call of
  \<open>yylex\<close> returns a token, keeps the include stack, the buffers and the streams in order, and comes closer
  to the end of the input, whatever files the texts include.
\<close>

section \<open>Texts\<close>

definition good_text :: "string \<Rightarrow> bool" where
  "good_text t \<longleftrightarrow> NUL \<notin> set t \<and> (\<forall>ds. sublist ds t \<and> list_all is_digit ds \<longrightarrow> digits_value ds < 2 ^ 31)"

fun good_entry :: "fentry \<Rightarrow> bool" where
  "good_entry (F_file t) = good_text t"
| "good_entry F_dir = True"

definition good_files :: "io \<Rightarrow> bool" where
  "good_files f \<longleftrightarrow> (\<forall>e \<in> ran (io_files f) \<union> ran (io_open f). good_entry e)"

lemma good_text_part: "good_text t \<Longrightarrow> sublist u t \<Longrightarrow> good_text u"
  unfolding good_text_def by (meson set_mono_sublist sublist_order.order.trans subsetD)

lemma good_text_take: "good_text t \<Longrightarrow> good_text (take n t)"
  and good_text_drop: "good_text t \<Longrightarrow> good_text (drop n t)"
  by (auto intro: good_text_part)

lemma digits_fit: "good_text t \<Longrightarrow> sublist u t \<Longrightarrow> digits_value (takeWhile is_digit u) < 2 ^ 31"
proof -
  assume t: "good_text t" "sublist u t"
  have "sublist (takeWhile is_digit u) u" by (rule prefix_imp_sublist [OF takeWhile_is_prefix])
  then have "sublist (takeWhile is_digit u) t" using t(2) by (rule sublist_order.order.trans)
  moreover have "list_all is_digit (takeWhile is_digit u)" by (auto simp: list_all_iff dest: set_takeWhileD)
  ultimately show ?thesis using t(1) by (simp add: good_text_def)
qed

lemma atoi_fits: "good_text t \<Longrightarrow> \<exists>v. atoi t = Some v"
proof -
  assume t: "good_text t"
  let ?t = "dropWhile is_space t"
  have "sublist ?t t" by (rule suffix_imp_sublist [OF suffix_dropWhile])
  moreover have "sublist (tl ?t) t" by (meson calculation sublist_order.order.trans suffix_imp_sublist suffix_tl)
  ultimately have "digits_value (takeWhile is_digit ?t) < 2 ^ 31" "digits_value (takeWhile is_digit (tl ?t)) < 2 ^ 31"
    using digits_fit [OF t] by blast+
  then show ?thesis by (auto simp: atoi_def Let_def)
qed

lemma atoll_fits: "good_text t \<Longrightarrow> \<exists>v. atoll t = Some v"
proof -
  assume t: "good_text t"
  have "sublist (tl t) t" by (rule suffix_imp_sublist [OF suffix_tl])
  then have "digits_value (takeWhile is_digit t) < 2 ^ 31" "digits_value (takeWhile is_digit (tl t)) < 2 ^ 31"
    using digits_fit [OF t] by auto
  then show ?thesis by (auto simp: atoll_def Let_def)
qed

section \<open>The include stack\<close>

lemma strbuf_has_contents: "strbuf_ok b \<Longrightarrow> \<exists>u. strbuf_contents b = Some u \<and> NUL \<notin> set u"
proof (cases "sb_string b")
  case (Some m)
  assume "strbuf_ok b"
  from strbuf_text [OF this Some] Some show ?thesis
    by (fastforce simp: strbuf_contents_def strbuf_release_def)
qed (simp add: strbuf_contents_def strbuf_release_def)

lemma append_string_ok:
  assumes "scanctx_ok c f" and "NUL \<notin> set t"
  shows "\<exists>b. scanctx_append_string t c = Some (c\<lparr>sc_string := b\<rparr>) \<and> scanctx_ok (c\<lparr>sc_string := b\<rparr>) f"
proof -
  have "strbuf_ok (sc_string c)" using assms(1) by (simp add: scanctx_ok_def)
  with strbuf_has_contents obtain u where "strbuf_contents (sc_string c) = Some u" by blast
  from sb.append_fine [OF \<open>strbuf_ok (sc_string c)\<close> assms(2) this] assms(1) show ?thesis
    by (auto simp: scanctx_append_string_def scanctx_ok_def)
qed

lemma take_string_ok:
  assumes "scanctx_ok c f"
  shows "\<exists>t. scanctx_take_string c = Some (t, c\<lparr>sc_string := strbuf_zero\<rparr>) \<and> NUL \<notin> set t
    \<and> scanctx_ok (c\<lparr>sc_string := strbuf_zero\<rparr>) f"
proof -
  have "strbuf_ok (sc_string c)" using assms(1) by (simp add: scanctx_ok_def)
  with strbuf_has_contents obtain u where u: "strbuf_contents (sc_string c) = Some u" "NUL \<notin> set u" by blast
  then obtain m where "fst (strbuf_release (sc_string c)) = Some m" "u = (case m of None \<Rightarrow> [] | Some t \<Rightarrow> t)"
    by (auto simp: strbuf_contents_def)
  moreover have "snd (strbuf_release (sc_string c)) = strbuf_zero" by (simp add: strbuf_release_def)
  ultimately show ?thesis using u(2) assms strbuf_zero_ok(1)
    by (auto simp: scanctx_take_string_def Let_def scanctx_ok_def split: prod.splits)
qed

lemma names_room:
  fixes n cap :: nat
  assumes "(n + 31) div 32 * 32 \<le> cap"
  defines "cap' \<equiv> if n mod 32 = 0 then n + 32 else cap"
  shows "n < cap'" and "(Suc n + 31) div 32 * 32 \<le> cap'"
proof -
  have d: "n = n div 32 * 32 + n mod 32" "n mod 32 < 32" by simp_all
  have "n < cap' \<and> (Suc n + 31) div 32 * 32 \<le> cap'"
  proof (cases "n mod 32 = 0")
    case True
    then have "(Suc n + 31) div 32 = Suc (n div 32)" by (simp add: div_add1_eq)
    then show ?thesis using True d by (simp add: cap'_def)
  next
    case False
    define q r where "q = n div 32" and "r = n mod 32"
    have n: "n = q * 32 + r" "0 < r" "r < 32" using d False by (simp_all add: q_def r_def)
    have "(n + 31) div 32 = Suc q" by (rule div_nat_eqI) (use n in simp_all)
    moreover have "(Suc n + 31) div 32 = Suc q" by (rule div_nat_eqI) (use n in simp_all)
    ultimately show ?thesis using False n assms(1) by (simp add: cap'_def)
  qed
  then show "n < cap'" "(Suc n + 31) div 32 * 32 \<le> cap'" by simp_all
qed

lemma add_filename_ok:
  assumes "scanctx_ok c f"
  shows "\<exists>ns cap. scanctx_add_filename name c = Some (c\<lparr>sc_names := ns, sc_names_cap := cap\<rparr>) \<and> name \<in> set ns
    \<and> scanctx_ok (c\<lparr>sc_names := ns, sc_names_cap := cap\<rparr>) f"
proof (cases "name \<in> set (sc_names c)")
  case True
  then show ?thesis using assms by (intro exI [of _ "sc_names c"] exI [of _ "sc_names_cap c"]) (simp add: scanctx_add_filename_def)
next
  case False
  let ?n = "length (sc_names c)"
  let ?cap = "if ?n mod 32 = 0 then ?n + 32 else sc_names_cap c"
  have room: "?n < ?cap" "(Suc ?n + 31) div 32 * 32 \<le> ?cap"
    using names_room [of ?n "sc_names_cap c"] assms by (simp_all only: scanctx_ok_def)
  have "scanctx_add_filename name c = Some (c\<lparr>sc_names := sc_names c @ [name], sc_names_cap := ?cap\<rparr>)"
    using False room(1) unfolding scanctx_add_filename_def Let_def by (simp only: if_False if_True)
  moreover have "scanctx_ok (c\<lparr>sc_names := sc_names c @ [name], sc_names_cap := ?cap\<rparr>) f"
    using assms False room(2) unfolding scanctx_ok_def by (auto simp del: One_nat_def)
  ultimately show ?thesis by (intro exI conjI) (assumption, simp, assumption)
qed

lemma fopen_r_cases:
  obtains (missing) "fopen_r name f = (0, f)"
  | (opened) e where "io_files f name = Some e"
      "fopen_r name f = (Suc (io_next f), f\<lparr>io_open := (io_open f)(Suc (io_next f) \<mapsto> e), io_next := Suc (io_next f)\<rparr>)"
  by (cases "io_files f name") (auto simp: fopen_r_def Let_def)

text \<open>Including a fname: an error, or one more entry on the stack.\<close>

lemma push_include_ok:
  assumes ok: "scanctx_ok c f" and good: "good_files f"
  shows "\<exists>fp err c' f'. scanctx_push_include dir buf c f = Some (fp, err, c', f') \<and> scanctx_ok c' f' \<and> good_files f'
    \<and> (if fp = 0 then sc_depth c' = sc_depth c \<and> sc_buffers c' = sc_buffers c \<and> sc_streams c' = sc_streams c \<and> f' = f
        else sc_depth c < 10 \<and> sc_depth c' = Suc (sc_depth c) \<and> take (Suc (sc_depth c)) (sc_buffers c') = take (sc_depth c) (sc_buffers c) @ [buf]
          \<and> take (Suc (sc_depth c)) (sc_streams c') = take (sc_depth c) (sc_streams c) @ [fp] \<and> io_open f fp = None
          \<and> (\<exists>e. io_open f' = (io_open f)(fp \<mapsto> e) \<and> good_entry e))"
proof (cases "sc_depth c = 10")
  case True
  then show ?thesis using ok good by (simp add: scanctx_push_include_def)
next
  case False
  then have d: "sc_depth c < 10" using ok by (simp add: scanctx_ok_def)
  obtain fname where t: "scanctx_take_string c = Some (fname, c\<lparr>sc_string := strbuf_zero\<rparr>)"
    "scanctx_ok (c\<lparr>sc_string := strbuf_zero\<rparr>) f" using take_string_ok [OF ok] by auto
  let ?c = "c\<lparr>sc_string := strbuf_zero\<rparr>"
  let ?full = "case dir of None \<Rightarrow> fname | Some d \<Rightarrow> d @ ''/'' @ fname"
  show ?thesis
  proof (cases rule: fopen_r_cases [of ?full f])
    case missing
    then show ?thesis using False t good by (simp add: scanctx_push_include_def)
  next
    case (opened e)
    let ?k = "Suc (io_next f)" and ?d = "sc_depth c"
    let ?f = "f\<lparr>io_open := (io_open f)(?k \<mapsto> e), io_next := ?k\<rparr>"
    have open_next: "\<forall>k. io_open f k \<noteq> None \<longrightarrow> 0 < k \<and> k \<le> io_next f" using ok by (simp add: scanctx_ok_def)
    then have fresh: "io_open f ?k = None" by (metis Suc_n_not_le_n)
    have len: "length (sc_files c) = 10" "length (sc_buffers c) = 10" "length (sc_streams c) = 10"
      using ok by (simp_all add: scanctx_ok_def)
    obtain ns cap where n: "scanctx_add_filename fname ?c = Some (?c\<lparr>sc_names := ns, sc_names_cap := cap\<rparr>)"
      "fname \<in> set ns" "scanctx_ok (?c\<lparr>sc_names := ns, sc_names_cap := cap\<rparr>) f"
      using add_filename_ok [OF t(2)] by blast
    let ?c' = "?c\<lparr>sc_names := ns, sc_names_cap := cap, sc_streams := (sc_streams c)[?d := ?k],
      sc_files := (sc_files c)[?d := fname], sc_buffers := (sc_buffers c)[?d := buf], sc_depth := Suc ?d\<rparr>"
    have push: "scanctx_push_include dir buf c f = Some (?k, None, ?c', ?f)"
      using False t(1) opened(2) n(1) d len by (simp add: scanctx_push_include_def wr_def Let_def)
    have old: "?k \<notin> set (take ?d (sc_streams c))" using ok fresh by (auto simp: scanctx_ok_def)
    have "scanctx_ok ?c' ?f"
      using n(2,3) d len old unfolding scanctx_ok_def by (simp add: take_Suc_conv_app_nth) (blast intro: le_SucI)
    moreover have "good_entry e" using good opened(1) by (auto simp: good_files_def ran_def)
    moreover from this have "good_files ?f" using good by (auto simp: good_files_def ran_def split: if_splits)
    ultimately show ?thesis using push d len fresh
      by (intro exI [of _ ?k] exI [of _ None] exI [of _ ?c'] exI [of _ ?f]) (auto simp: take_Suc_conv_app_nth)
  qed
qed

text \<open>Going back to the including file.\<close>

lemma pop_include_ok:
  assumes ok: "scanctx_ok c f" and "0 < sc_depth c"
  defines "d \<equiv> sc_depth c - 1"
  shows "\<exists>f'. scanctx_pop_include c f = Some (sc_buffers c ! d, c\<lparr>sc_depth := d\<rparr>, f') \<and> scanctx_ok (c\<lparr>sc_depth := d\<rparr>) f'
    \<and> io_open f' = (io_open f)(sc_streams c ! d := None) \<and> io_files f' = io_files f"
proof -
  have sd: "sc_depth c = Suc d" and len: "length (sc_files c) = 10" "length (sc_buffers c) = 10" "length (sc_streams c) = 10"
    using ok assms(2) by (simp_all add: d_def scanctx_ok_def)
  have d: "d < 10" using ok sd by (simp add: scanctx_ok_def)
  have tk: "take (Suc d) (sc_streams c) = take d (sc_streams c) @ [sc_streams c ! d]"
    "take (Suc d) (sc_files c) = take d (sc_files c) @ [sc_files c ! d]"
    using d len by (simp_all add: take_Suc_conv_app_nth)
  have "io_open f (sc_streams c ! d) \<noteq> None" using ok sd tk by (auto simp: scanctx_ok_def)
  then have pop: "scanctx_pop_include c f = Some (sc_buffers c ! d, c\<lparr>sc_depth := d\<rparr>,
      f\<lparr>io_open := (io_open f)(sc_streams c ! d := None)\<rparr>)"
    using sd d len by (auto simp: scanctx_pop_include_def rd_def fclose_def)
  have "scanctx_ok (c\<lparr>sc_depth := d\<rparr>) (f\<lparr>io_open := (io_open f)(sc_streams c ! d := None)\<rparr>)"
    using ok sd tk unfolding scanctx_ok_def by auto
  with pop show ?thesis by auto
qed

section \<open>The state of the scanner\<close>

text \<open>The buffers of the including files, and the current one.\<close>

definition buf_stack :: "reader \<Rightarrow> nat list" where
  "buf_stack r = take (sc_depth (r_ctx r)) (sc_buffers (r_ctx r)) @ [r_cur r]"

definition buffer_ok :: "reader \<Rightarrow> nat \<Rightarrow> bool" where
  "buffer_ok r k \<longleftrightarrow> k \<noteq> 0 \<and> k \<le> r_next r \<and> (\<exists>b. r_bufs r k = Some b \<and> good_text (b_rest b))"

text \<open>Apart from the streams of included files exactly those of \<open>B\<close> are open.\<close>

definition lex_ok :: "(nat \<rightharpoonup> fentry) \<Rightarrow> reader \<Rightarrow> bool" where
  "lex_ok B r \<longleftrightarrow> scanctx_ok (r_ctx r) (r_io r) \<and> good_files (r_io r)
     \<and> io_open (r_io r) |` (- set (take (sc_depth (r_ctx r)) (sc_streams (r_ctx r)))) = B
     \<and> r_start r \<in> {1, 3, 5, 7} \<and> distinct (buf_stack r) \<and> (\<forall>k \<in> set (buf_stack r). buffer_ok r k)"

text \<open>What is left to read in each buffer of the stack.\<close>

definition unread :: "reader \<Rightarrow> nat \<Rightarrow> nat" where
  "unread r k = (case r_bufs r k of None \<Rightarrow> 0 | Some b \<Rightarrow> Suc (length (b_rest b)))"

definition rank :: "reader \<Rightarrow> nat list" where
  "rank r = map (unread r) (buf_stack r) @ replicate (10 - sc_depth (r_ctx r)) 0"

lemma lex_okD:
  assumes "lex_ok B r"
  shows "scanctx_ok (r_ctx r) (r_io r)" "good_files (r_io r)" "r_cur r \<noteq> 0" "sc_depth (r_ctx r) \<le> 10"
    "length (sc_buffers (r_ctx r)) = 10" "\<exists>b. r_bufs r (r_cur r) = Some b \<and> good_text (b_rest b)"
  using assms by (auto simp: lex_ok_def scanctx_ok_def buf_stack_def buffer_ok_def)

lemma current_filename_ok: "scanctx_ok c f \<Longrightarrow> \<exists>name. scanctx_current_filename c = Some name"
proof -
  assume "scanctx_ok c f"
  then have "sc_depth c = 0 \<or> sc_depth c - 1 < length (sc_files c)" by (auto simp: scanctx_ok_def)
  then show ?thesis unfolding scanctx_current_filename_def rd_def by (cases "sc_depth c = 0") auto
qed

lemma lineno_ok: "lex_ok B r \<Longrightarrow> \<exists>line. yyget_lineno r = Some line"
  using lex_okD(3,6) by (fastforce simp: yyget_lineno_def)

lemma length_rank: "lex_ok B r \<Longrightarrow> length (rank r) = 11"
  using lex_okD(4,5) [of B r] by (simp add: rank_def buf_stack_def min_def)

lemma lex_less:
  assumes "length xs = length ys" and "i < length ys" and "take i xs = take i ys" and "xs ! i < ys ! i"
  shows "(xs, ys) \<in> lex less_than"
proof -
  have "(p @ x # t, p @ y # u) \<in> lex less_than" if "x < y" "length t = length u" for p t u :: "nat list" and x y
    using that by (induction p) (simp_all add: Cons_in_lex)
  moreover have "xs = take i xs @ xs ! i # drop (Suc i) xs" "ys = take i ys @ ys ! i # drop (Suc i) ys"
    using assms(1,2) by (simp_all add: id_take_nth_drop)
  ultimately show ?thesis using assms by (metis length_drop)
qed

text \<open>The scanner does not touch what belongs to the parser, except for the error it reports.\<close>

definition same_parse :: "reader \<Rightarrow> reader \<Rightarrow> bool" where
  "same_parse r r' \<longleftrightarrow> r_parent r' = r_parent r \<and> r_setting r' = r_setting r \<and> r_string r' = r_string r
     \<and> (\<exists>g. r_cfg r' = with_cfg g (r_cfg r) \<and> c_root (g (cfg (r_cfg r))) = c_root (cfg (r_cfg r)))"

lemma same_parse_refl [simp]: "r_parent r' = r_parent r \<Longrightarrow> r_setting r' = r_setting r \<Longrightarrow> r_string r' = r_string r \<Longrightarrow>
    r_cfg r' = r_cfg r \<Longrightarrow> same_parse r r'"
  unfolding same_parse_def by (intro conjI exI [of _ id]) (simp_all add: with_cfg_def)

lemma same_parse_trans: "same_parse r r' \<Longrightarrow> same_parse r' r'' \<Longrightarrow> same_parse r r''"
proof -
  assume s: "same_parse r r'" "same_parse r' r''"
  then obtain g h where "r_cfg r' = with_cfg g (r_cfg r)" "c_root (g (cfg (r_cfg r))) = c_root (cfg (r_cfg r))"
    "r_cfg r'' = with_cfg h (r_cfg r')" "c_root (h (cfg (r_cfg r'))) = c_root (cfg (r_cfg r'))"
    by (auto simp: same_parse_def)
  then have "r_cfg r'' = with_cfg (h \<circ> g) (r_cfg r) \<and> c_root ((h \<circ> g) (cfg (r_cfg r))) = c_root (cfg (r_cfg r))"
    by (simp add: with_cfg_def)
  then have "\<exists>k. r_cfg r'' = with_cfg k (r_cfg r) \<and> c_root (k (cfg (r_cfg r))) = c_root (cfg (r_cfg r))"
    by (rule exI [of _ "h \<circ> g"])
  with s show ?thesis by (simp add: same_parse_def)
qed

lemma same_parse_cfg: "same_parse r r' \<Longrightarrow> settings (r_cfg r') = settings (r_cfg r)"
  "same_parse r r' \<Longrightarrow> cfg_ok (r_cfg r) \<Longrightarrow> cfg_ok (r_cfg r')"
  by (auto simp: same_parse_def with_cfg_def) (metis with_cfg_def with_cfg_ok)

text \<open>Tokens with the values that belong to them.\<close>

fun y_is_text :: "yylval \<Rightarrow> bool" where
  "y_is_text (Y_sval t) = (NUL \<notin> set t)"
| "y_is_text _ = False"

definition token_ok :: "int \<Rightarrow> yylval \<Rightarrow> bool" where
  "token_ok c v \<longleftrightarrow>
     c \<in> {258, 259, 260} \<and> (\<exists>i. v = Y_ival i) \<or> c \<in> {261, 262} \<and> (\<exists>i. v = Y_llval i) \<or> c = 263 \<and> (\<exists>x. v = Y_fval x)
     \<or> c \<in> {264, 265} \<and> y_is_text v \<or> c \<in> {0, 266} \<union> {268..277}"

section \<open>Actions\<close>

text \<open>What an action has to do: the state stays in order, what is left in the buffers below and in the
  current one stays as it is, and a token has its value.\<close>

definition acted :: "(nat \<rightharpoonup> fentry) \<Rightarrow> reader \<Rightarrow> (lexed option \<times> reader) option \<Rightarrow> bool" where
  "acted B r a \<longleftrightarrow> (\<exists>t r'. a = Some (t, r') \<and> lex_ok B r' \<and> same_parse r r'
     \<and> take (Suc (sc_depth (r_ctx r))) (rank r') = take (Suc (sc_depth (r_ctx r))) (rank r)
     \<and> (\<forall>l. t = Some l \<longrightarrow> (\<exists>c v. l = L_token c v \<and> c \<noteq> 0 \<and> token_ok c v)))"

lemma acted_stay:
  "lex_ok B r \<Longrightarrow> lex_ok B r' \<Longrightarrow> same_parse r r' \<Longrightarrow> rank r' = rank r \<Longrightarrow> acted B r (Some (None, r'))"
  by (simp add: acted_def)

lemma acted_token:
  "lex_ok B r \<Longrightarrow> lex_ok B r' \<Longrightarrow> same_parse r r' \<Longrightarrow> rank r' = rank r \<Longrightarrow> c \<noteq> 0 \<Longrightarrow> token_ok c v \<Longrightarrow>
     acted B r (Some (Some (L_token c v), r'))"
  by (simp add: acted_def)

lemma lex_ok_BEGIN: "lex_ok B r \<Longrightarrow> c < 4 \<Longrightarrow> lex_ok B (BEGIN c r)"
proof -
  assume "lex_ok B r" "c < 4"
  moreover from this(2) have "c = 0 \<or> c = 1 \<or> c = 2 \<or> c = 3" by linarith
  ultimately show ?thesis by (auto simp: lex_ok_def BEGIN_def buf_stack_def buffer_ok_def)
qed

lemma BEGIN_same [simp]: "rank (BEGIN c r) = rank r" "r_ctx (BEGIN c r) = r_ctx r" "r_io (BEGIN c r) = r_io r"
  "same_parse r (BEGIN c r') = same_parse r r'"
  by (simp_all add: BEGIN_def rank_def buf_stack_def unread_def [abs_def] same_parse_def)

text \<open>A change of the string that is being collected.\<close>

lemma lex_ok_string:
  assumes "lex_ok B r" and "scanctx_ok (r_ctx r\<lparr>sc_string := b\<rparr>) (r_io r)"
  shows "lex_ok B (r\<lparr>r_ctx := r_ctx r\<lparr>sc_string := b\<rparr>\<rparr>)" and "rank (r\<lparr>r_ctx := r_ctx r\<lparr>sc_string := b\<rparr>\<rparr>) = rank r"
  using assms by (auto simp: lex_ok_def buf_stack_def buffer_ok_def rank_def unread_def [abs_def])

lemma append_text_acted:
  assumes "lex_ok B r" and "NUL \<notin> set t"
  shows "acted B r (append_text t r)"
proof -
  obtain b where b: "scanctx_append_string t (r_ctx r) = Some (r_ctx r\<lparr>sc_string := b\<rparr>)"
    "scanctx_ok (r_ctx r\<lparr>sc_string := b\<rparr>) (r_io r)"
    using append_string_ok [OF lex_okD(1) [OF assms(1)] assms(2)] by blast
  with lex_ok_string [OF assms(1) b(2)] assms(1) show ?thesis by (auto simp: append_text_def intro: acted_stay)
qed

lemma code_not_NUL: "NUL \<notin> set (let c = h mod 256 in if c = 0 then [] else [char_of c])" for h :: nat
proof (cases "h mod 256 = 0")
  case False
  have "char_of (h mod 256) \<noteq> NUL"
  proof
    assume "char_of (h mod 256) = NUL"
    then have "(of_char (char_of (h mod 256)) :: nat) = of_char NUL" by simp
    then show False using False by simp
  qed
  then show ?thesis using False by (auto simp: Let_def)
qed simp

lemma action_string_acted:
  assumes "lex_ok B r" and "NUL \<notin> set yytext"
  shows "acted B r (action_string act yytext r)"
proof (cases "act = 13")
  case True
  have "acted B r (append_text (let c = hex_value 0 (drop 2 yytext) mod 256 in if c = 0 then [] else [char_of c]) r)"
    by (rule append_text_acted [OF assms(1) code_not_NUL])
  then show ?thesis using True by (simp add: action_string_def Let_def)
next
  case False
  obtain t where t: "scanctx_take_string (r_ctx r) = Some (t, r_ctx r\<lparr>sc_string := strbuf_zero\<rparr>)" "NUL \<notin> set t"
    "scanctx_ok (r_ctx r\<lparr>sc_string := strbuf_zero\<rparr>) (r_io r)"
    using take_string_ok [OF lex_okD(1) [OF assms(1)]] by blast
  show ?thesis
    using assms t lex_ok_string [OF assms(1) t(3)] False
    by (auto simp: action_string_def token_def token_ok_def intro!: acted_stay acted_token append_text_acted lex_ok_BEGIN)
qed

text \<open>Including a file.\<close>

lemma fresh_buffer: "lex_ok B r \<Longrightarrow> k \<in> set (buf_stack r) \<Longrightarrow> k \<noteq> Suc (r_next r)"
  by (auto simp: lex_ok_def buffer_ok_def)


lemma open_include_acted:
  assumes "lex_ok B r"
  shows "acted B r (open_include r)"
proof -
  note D = lex_okD [OF assms]
  let ?dir = "c_include_dir (cfg (r_cfg r))" and ?d = "sc_depth (r_ctx r)"
  obtain fp err c f where p: "scanctx_push_include ?dir (r_cur r) (r_ctx r) (r_io r) = Some (fp, err, c, f)"
    "scanctx_ok c f" "good_files f"
    "if fp = 0 then sc_depth c = ?d \<and> sc_buffers c = sc_buffers (r_ctx r) \<and> sc_streams c = sc_streams (r_ctx r) \<and> f = r_io r
     else ?d < 10 \<and> sc_depth c = Suc ?d \<and> take (Suc ?d) (sc_buffers c) = take ?d (sc_buffers (r_ctx r)) @ [r_cur r]
       \<and> take (Suc ?d) (sc_streams c) = take ?d (sc_streams (r_ctx r)) @ [fp] \<and> io_open (r_io r) fp = None
       \<and> (\<exists>e. io_open f = (io_open (r_io r))(fp \<mapsto> e) \<and> good_entry e)"
    using push_include_ok [OF D(1,2)] by blast
  let ?r = "r\<lparr>r_ctx := c, r_io := f\<rparr>"
  show ?thesis
  proof (cases "fp = 0")
    case True
    obtain fname where cf: "scanctx_current_filename c = Some fname" using current_filename_ok [OF p(2)] by auto
    obtain line where l: "yyget_lineno ?r = Some line" using D(3,6) by (auto simp: yyget_lineno_def)
    let ?g = "\<lambda>g. g\<lparr>c_error_text := err, c_error_file := fname, c_error_line := line\<rparr>"
    let ?r' = "?r\<lparr>r_cfg := with_cfg ?g (r_cfg r)\<rparr>"
    have "open_include r = Some (Some (L_token TOK_ERROR Y_none), ?r')"
      using p(1) True cf l by (simp add: open_include_def token_def)
    moreover have "lex_ok B ?r'" using assms p(2-4) True by (auto simp: lex_ok_def buf_stack_def buffer_ok_def)
    moreover have "same_parse r ?r'" by (auto simp: same_parse_def)
    moreover have "rank ?r' = rank r" using p(4) True by (simp add: rank_def buf_stack_def unread_def [abs_def])
    ultimately show ?thesis using assms by (auto intro!: acted_token simp: token_ok_def)
  next
    case False
    then obtain e where e: "io_open f = (io_open (r_io r))(fp \<mapsto> e)" "good_entry e" using p(4) by auto
    let ?k = "Suc (r_next r)"
    define b where "b = (case e of F_file t \<Rightarrow> \<lparr>b_rest = t, b_bol = True, b_line = 1, b_dir = False\<rparr>
               | F_dir \<Rightarrow> \<lparr>b_rest = [], b_bol = True, b_line = 1, b_dir = True\<rparr>)"
    have b: "create_buffer e ?r = (?k, ?r\<lparr>r_bufs := (r_bufs r)(?k \<mapsto> b), r_next := ?k\<rparr>)"
      by (simp add: b_def create_buffer_def Let_def)
    have good_b: "good_text (b_rest b)" using e(2) by (cases e) (simp_all add: b_def good_text_def digits_value_def)
    let ?r' = "BEGIN INITIAL (?r\<lparr>r_bufs := (r_bufs r)(?k \<mapsto> b), r_next := ?k, r_cur := ?k\<rparr>)"
    have "io_open f fp = Some e" using e(1) by simp
    then have run: "open_include r = Some (None, ?r')"
      using p(1) False b by (simp add: open_include_def switch_to_buffer_def)
    have st: "buf_stack ?r' = buf_stack r @ [?k]" using p(4) False by (simp add: buf_stack_def BEGIN_def)
    have "fp \<notin> set (take ?d (sc_streams (r_ctx r)))" using D(1) p(4) False by (auto simp: scanctx_ok_def)
    then have "io_open f |` (- set (take (sc_depth c) (sc_streams c))) = io_open (r_io r) |` (- set (take ?d (sc_streams (r_ctx r))))"
      using p(4) False e(1) by (auto simp: restrict_map_def fun_eq_iff)
    moreover have "distinct (buf_stack ?r')" "\<forall>k \<in> set (buf_stack ?r'). buffer_ok ?r' k"
      using assms fresh_buffer [OF assms] good_b unfolding st by (auto simp: lex_ok_def buffer_ok_def BEGIN_def le_SucI)
    ultimately have "lex_ok B ?r'" using assms p(2,3) by (simp add: lex_ok_def) (simp add: BEGIN_def)
    moreover have "same_parse r ?r'" by (simp add: BEGIN_def)
    moreover have "take (Suc ?d) (rank ?r') = take (Suc ?d) (rank r)"
    proof -
      have "length (buf_stack r) = Suc ?d" using D(4,5) by (simp add: buf_stack_def)
      moreover have "map (unread ?r') (buf_stack r) = map (unread r) (buf_stack r)"
        using fresh_buffer [OF assms] by (auto simp: unread_def BEGIN_def)
      ultimately show ?thesis unfolding rank_def st by simp
    qed
    ultimately show ?thesis using run by (auto simp: acted_def)
  qed
qed

lemma action_include_acted:
  assumes "lex_ok B r" and "NUL \<notin> set yytext"
  shows "acted B r (action_include act yytext r)"
  using assms open_include_acted [OF assms(1)]
  by (auto simp: action_include_def intro!: acted_stay append_text_acted lex_ok_BEGIN)

lemma action_token_acted:
  assumes "lex_ok B r" and "good_text yytext"
  shows "acted B r (action_token act yytext r)"
proof -
  obtain v w where "atoi yytext = Some v" "atoll yytext = Some w" using atoi_fits atoll_fits assms(2) by blast
  moreover have "NUL \<notin> set yytext" using assms(2) by (simp add: good_text_def)
  ultimately show ?thesis using assms(1)
    by (simp add: action_token_def token_def token_ok_def acted_token)
qed

lemma yy_do_action_acted:
  assumes "lex_ok B r" and "good_text yytext" and "0 < act" and "act \<le> 42"
  shows "acted B r (yy_do_action act yytext r)"
proof -
  have n: "NUL \<notin> set yytext" using assms(2) by (simp add: good_text_def)
  have "lex_ok B (r\<lparr>r_echo := e\<rparr>)" "rank (r\<lparr>r_echo := e\<rparr>) = rank r" for e
    using assms(1) by (auto simp: lex_ok_def buf_stack_def buffer_ok_def rank_def unread_def [abs_def])
  moreover have "act \<in> {1, 2, 3, 4, 21, 22, 40, 42} \<or> 5 \<le> act \<and> act \<le> 15 \<or> 16 \<le> act \<and> act \<le> 20 \<or> 23 \<le> act \<and> act \<le> 41"
    using assms(3,4) by auto
  ultimately show ?thesis
    using assms action_string_acted [OF assms(1) n] action_include_acted [OF assms(1) n] action_token_acted [OF assms(1,2)]
    by (auto simp: yy_do_action_def intro!: acted_stay lex_ok_BEGIN)
qed

section \<open>A round, and a token\<close>

text \<open>How the input gets shorter: the current buffer, or one below it, loses text.\<close>

abbreviation nearer :: "(nat list \<times> nat list) set" where
  "nearer \<equiv> lex less_than"

definition lexed_ok :: "(nat \<rightharpoonup> fentry) \<Rightarrow> reader \<Rightarrow> lexed \<Rightarrow> reader \<Rightarrow> bool" where
  "lexed_ok B r t r' \<longleftrightarrow> lex_ok B r' \<and> same_parse r r' \<and>
     (case t of L_exit \<Rightarrow> True
      | L_token c v \<Rightarrow> token_ok c v \<and> (rank r' = rank r \<and> c = 0 \<or> (rank r', rank r) \<in> nearer))"

lemma consumed:
  fixes l :: int and bol :: bool
  assumes "lex_ok B r" and "r_bufs r (r_cur r) = Some b" and "0 < n" and "b_rest b \<noteq> []"
  defines "r1 \<equiv> r\<lparr>r_bufs := (r_bufs r)(r_cur r \<mapsto> b\<lparr>b_rest := drop n (b_rest b), b_line := l, b_bol := bol\<rparr>)\<rparr>"
  defines "d \<equiv> sc_depth (r_ctx r)"
  shows "lex_ok B r1" and "same_parse r r1" and "r_ctx r1 = r_ctx r"
    and "take d (rank r1) = take d (rank r)" and "rank r1 ! d < rank r ! d"
proof -
  have len: "length (take d (sc_buffers (r_ctx r))) = d" using lex_okD [OF assms(1)] by (simp add: d_def)
  have st: "buf_stack r1 = buf_stack r" by (simp add: r1_def buf_stack_def)
  have "r_cur r \<notin> set (take d (sc_buffers (r_ctx r)))"
    using assms(1) by (simp add: lex_ok_def buf_stack_def d_def)
  then have below: "map (unread r1) (take d (sc_buffers (r_ctx r))) = map (unread r) (take d (sc_buffers (r_ctx r)))"
    by (auto simp: unread_def r1_def)
  show "take d (rank r1) = take d (rank r)" "rank r1 ! d < rank r ! d"
    using below len assms(2-4) unfolding rank_def st by (simp_all add: buf_stack_def d_def [symmetric] nth_append unread_def r1_def)
  have "good_text (b_rest b)" using lex_okD(6) [OF assms(1)] assms(2) by simp
  then have "\<forall>k \<in> set (buf_stack r). buffer_ok r1 k"
    using assms(1) by (auto simp: lex_ok_def buffer_ok_def r1_def good_text_drop)
  then show "lex_ok B r1" using assms(1) unfolding lex_ok_def st by (simp add: r1_def)
  show "same_parse r r1" "r_ctx r1 = r_ctx r" by (simp_all add: r1_def)
qed

lemma action_eof_round:
  assumes ok: "lex_ok B r" and b: "r_bufs r (r_cur r) = Some b" "b_rest b = []"
  shows "\<exists>t r'. action_eof r = Some (t, r') \<and> lex_ok B r' \<and> same_parse r r'
    \<and> (case t of None \<Rightarrow> (rank r', rank r) \<in> nearer | Some t \<Rightarrow> lexed_ok B r t r')"
proof (cases "sc_depth (r_ctx r) = 0")
  case True
  then show ?thesis
    using ok by (simp add: action_eof_def scanctx_pop_include_def token_def lexed_ok_def token_ok_def)
next
  case False
  define d where "d = sc_depth (r_ctx r) - 1"
  have sd: "sc_depth (r_ctx r) = Suc d" using False by (simp add: d_def)
  note D = lex_okD [OF ok]
  have d: "d < 10" using D(4) sd by simp
  let ?buf = "sc_buffers (r_ctx r) ! d" and ?c = "r_ctx r\<lparr>sc_depth := d\<rparr>"
  obtain f where f: "scanctx_pop_include (r_ctx r) (r_io r) = Some (?buf, ?c, f)" "scanctx_ok ?c f"
    "io_open f = (io_open (r_io r))(sc_streams (r_ctx r) ! d := None)" "io_files f = io_files (r_io r)"
    using pop_include_ok [OF D(1)] False by (auto simp: d_def)
  let ?r' = "r\<lparr>r_ctx := ?c, r_io := f, r_bufs := (r_bufs r)(r_cur r := None), r_cur := ?buf\<rparr>"
  have tk: "take (Suc d) (sc_buffers (r_ctx r)) = take d (sc_buffers (r_ctx r)) @ [?buf]"
    "take (Suc d) (sc_streams (r_ctx r)) = take d (sc_streams (r_ctx r)) @ [sc_streams (r_ctx r) ! d]"
    using D(1,5) d by (simp_all add: take_Suc_conv_app_nth scanctx_ok_def)
  then have st: "buf_stack r = buf_stack ?r' @ [r_cur r]" by (simp add: buf_stack_def sd)
  have dist: "distinct (buf_stack ?r')" "r_cur r \<notin> set (buf_stack ?r')" "\<forall>k \<in> set (buf_stack ?r'). buffer_ok r k"
    using ok unfolding lex_ok_def st by auto
  then have bufs: "\<forall>k \<in> set (buf_stack ?r'). buffer_ok ?r' k" by (auto simp: buffer_ok_def)
  have "?buf \<noteq> 0" using dist(3) by (simp add: buf_stack_def buffer_ok_def)
  then have run: "action_eof r = Some (None, ?r')"
    using f(1) D(3) b(1) by (simp add: action_eof_def delete_buffer_def switch_to_buffer_def)
  have "good_files f" using D(2) f(3,4) by (auto simp: good_files_def ran_def split: if_splits)
  moreover have "io_open f |` (- set (take d (sc_streams (r_ctx r)))) =
      io_open (r_io r) |` (- set (take (sc_depth (r_ctx r)) (sc_streams (r_ctx r))))"
    using tk(2) f(3) sd by (auto simp: restrict_map_def fun_eq_iff)
  ultimately have "lex_ok B ?r'" using ok f(2) dist(1) bufs by (simp add: lex_ok_def)
  moreover have "same_parse r ?r'" by simp
  moreover have "(rank ?r', rank r) \<in> nearer"
  proof -
    have l: "length (buf_stack ?r') = Suc d" using d D(5) by (simp add: buf_stack_def)
    have below: "map (unread ?r') (buf_stack ?r') = map (unread r) (buf_stack ?r')"
      using dist(2) by (auto simp: unread_def)
    have "rank ?r' = map (unread r) (buf_stack ?r') @ replicate (10 - d) 0" unfolding rank_def below by simp
    moreover have "rank r = map (unread r) (buf_stack ?r') @ 1 # replicate (9 - d) 0"
      using b unfolding rank_def st by (simp add: unread_def sd)
    moreover have "replicate (10 - d) 0 = 0 # replicate (9 - d) (0::nat)"
    proof -
      have "10 - d = Suc (9 - d)" using d by simp
      then show ?thesis by (simp only: replicate_Suc)
    qed
    ultimately show ?thesis using l by (intro lex_less [of _ _ "Suc d"]) (simp_all add: nth_append)
  qed
  ultimately show ?thesis using run by auto
qed

lemma yylex_round_ok:
  assumes ok: "lex_ok B r"
  shows "\<exists>t r'. yylex_round r = Some (t, r') \<and> lex_ok B r' \<and> same_parse r r'
    \<and> (case t of None \<Rightarrow> (rank r', rank r) \<in> nearer | Some t \<Rightarrow> lexed_ok B r t r')"
proof -
  obtain b where b: "r_bufs r (r_cur r) = Some b" "good_text (b_rest b)" using lex_okD(6) [OF ok] by auto
  consider (dir) "b_dir b" | (eof) "\<not> b_dir b" "b_rest b = []" | (chars) "\<not> b_dir b" "b_rest b \<noteq> []" by blast
  then show ?thesis
  proof cases
    case dir
    then show ?thesis using b ok by (simp add: yylex_round_def lexed_ok_def)
  next
    case eof
    with action_eof_round [OF ok b(1)] b show ?thesis by (simp add: yylex_round_def)
  next
    case chars
    let ?st = "r_start r + (if b_bol b then 1 else 0)"
    have "0 < ?st" "?st < 9" using ok by (auto simp: lex_ok_def)
    moreover have "NUL \<notin> set (b_rest b)" using b(2) by (simp add: good_text_def)
    ultimately have "\<exists>act len. run_dfa (b_rest b) ?st 0 None = Some (act, len) \<and> matched act len \<and> len \<le> length (b_rest b)"
      by (intro run_dfa_start chars(2))
    then obtain act len where m: "run_dfa (b_rest b) ?st 0 None = Some (act, len)" "matched act len"
      "len \<le> length (b_rest b)" by (elim exE conjE)
    let ?n = "if act = 40 then len - 1 else len"
    have act: "0 < act" "act \<le> 42" "0 < ?n" using m(2) by (auto simp: matched_def)
    then obtain eol where eol: "rd yy_rule_can_match_eol act = Some eol"
      by (auto simp: rd_def yy_rule_can_match_eol_def)
    let ?t = "take ?n (b_rest b)"
    define l where "l = (if eol \<noteq> 0 then b_line b + int (length (filter (\<lambda>c. c = CHR 0x0A) (take len (b_rest b)))) else b_line b)"
    define bol where "bol = (if 0 < ?n then last ?t = CHR 0x0A else b_bol b)"
    define r1 where "r1 = r\<lparr>r_bufs := (r_bufs r)(r_cur r \<mapsto> b\<lparr>b_rest := drop ?n (b_rest b), b_line := l, b_bol := bol\<rparr>)\<rparr>"
    have run: "yylex_round r = yy_do_action act ?t r1"
      unfolding yylex_round_def using b chars m(1) eol by (simp add: Let_def r1_def l_def bol_def)
    let ?d = "sc_depth (r_ctx r)"
    note C = consumed [OF ok b(1) act(3) chars(2), where l = l and bol = bol, folded r1_def]
    have "acted B r1 (yy_do_action act ?t r1)"
      by (rule yy_do_action_acted [OF C(1) good_text_take [OF b(2)] act(1,2)])
    then obtain t r' where a: "yy_do_action act ?t r1 = Some (t, r')" "lex_ok B r'" "same_parse r1 r'"
      "take (Suc ?d) (rank r') = take (Suc ?d) (rank r1)"
      "\<forall>l. t = Some l \<longrightarrow> (\<exists>c v. l = L_token c v \<and> c \<noteq> 0 \<and> token_ok c v)" by (auto simp: acted_def C(3))
    have same: "same_parse r r'" by (rule same_parse_trans [OF C(2) a(3)])
    have len: "length (rank r') = 11" "length (rank r1) = 11" "length (rank r) = 11" "?d < 11"
      using length_rank a(2) C(1) ok lex_okD(4) [OF ok] by auto
    have "rank r' ! ?d = rank r1 ! ?d" using arg_cong [OF a(4), of "\<lambda>xs. xs ! ?d"] len by simp
    moreover have "take ?d (rank r') = take ?d (rank r1)" using arg_cong [OF a(4), of "take ?d"] by (simp add: min_def)
    ultimately have "(rank r', rank r) \<in> nearer" using C(4,5) len by (intro lex_less [of _ _ ?d]) simp_all
    then show ?thesis using run a(1,2,5) same by (auto simp: lexed_ok_def split: option.split)
  qed
qed

lemma wf_nearer: "Wellfounded.wf nearer"
  by (rule wf_lex) simp

lemma lexed_ok_later:
  assumes "same_parse r r'" and "(rank r', rank r) \<in> nearer" and "lexed_ok B r' t r''"
  shows "lexed_ok B r t r''"
proof -
  have "trans nearer" by (rule lex_transI) (rule trans_less_than)
  then show ?thesis
    using assms by (auto simp: lexed_ok_def split: lexed.splits dest: same_parse_trans transD)
qed

theorem yylex_lexes:
  assumes "lex_ok B r"
  shows "\<exists>t r'. yylex r = Some (t, r') \<and> lexed_ok B r t r'"
  using assms
proof (induction "rank r" arbitrary: r rule: wf_induct_rule [OF wf_nearer])
  case 1
  obtain t r' where t: "yylex_round r = Some (t, r')" "lex_ok B r'" "same_parse r r'"
    "case t of None \<Rightarrow> (rank r', rank r) \<in> nearer | Some t \<Rightarrow> lexed_ok B r t r'"
    using yylex_round_ok [OF 1(2)] by blast
  show ?case
  proof (cases t)
    case None
    then have down: "(rank r', rank r) \<in> nearer" using t(4) by simp
    from 1(1) [OF this t(2)] obtain u r'' where u: "yylex r' = Some (u, r'')" "lexed_ok B r' u r''" by blast
    have "lexed_ok B r u r''" by (rule lexed_ok_later [OF t(3) down u(2)])
    then show ?thesis using t(1) None u(1) by (subst yylex.simps) simp
  next
    case (Some u)
    then show ?thesis using t by (subst yylex.simps) simp
  qed
qed

end
