(* ===== verification/Config_Grammar.thy ===== *)
theory Config_Grammar
  imports Config_Scanner
begin

text \<open>
  The parser of libconfig (\<open>grammar.c\<close>): the LALR tables, the semantic actions, which build the settings,
  and the loop of \<open>yyparse\<close> as steps between its labels. A stack entry is a state and its value, the top
  of the stack first; the value of the bottom entry is not used.
\<close>

section \<open>Tables\<close>

definition yytranslate :: "int list" where
  "yytranslate = 0 # replicate 255 2 @ [1, 2] @ [3..22]"

definition yypact :: "int list" where
  "yypact =
   [- 8, - 26, 12, - 8, - 26, 5, - 26, - 26, 0, - 26, - 26, - 26, - 26, - 26, - 26, - 26, - 26,
    - 26, - 26, - 26, - 26, - 6, 10, - 26, - 26, 23, 0, - 8, - 26, - 26, - 26, - 26, - 26, 3,
    7, - 26, 6, 8, - 8, 14, 23, - 26, 0, - 26, - 26, - 26, - 26]"

definition yydefact :: "int list" where
  "yydefact =
   [2, 11, 0, 3, 4, 0, 1, 5, 0, 23, 24, 26, 25, 27, 28, 21, 13, 15, 38, 18, 19, 8, 29, 17, 20,
    36, 32, 6, 10, 9, 12, 22, 34, 37, 0, 30, 33, 0, 7, 0, 0, 14, 0, 16, 39, 35, 31]"

definition yypgoto :: "int list" where
  "yypgoto =
   [- 26, - 26, - 5, - 26, - 26, - 3, - 26, - 26, - 26, - 26, - 26, - 25, - 26, - 15, - 26,
    - 26, - 26, - 26, - 26, - 26]"

definition yydefgoto :: "int list" where
  "yydefgoto =
   [- 1, 2, 3, 39, 30, 4, 5, 19, 25, 20, 26, 21, 22, 23, 36, 37, 33, 34, 24, 27]"

definition yytable :: "int list" where
  "yytable =
   [7, 35, 1, 9, 10, 11, 12, 13, 14, 15, 32, 28, 6, 16, 29, 17, 8, 46, 18, 31, 40, 41, 38, 42,
    43, 45, 9, 10, 11, 12, 13, 14, 15, 44, 0, 7]"

definition yycheck :: "int list" where
  "yycheck =
   [3, 26, 10, 3, 4, 5, 6, 7, 8, 9, 25, 17, 0, 13, 20, 15, 11, 42, 18, 9, 17, 14, 27, 17, 16,
    40, 3, 4, 5, 6, 7, 8, 9, 19, - 1, 38]"

definition yystos :: "int list" where
  "yystos =
   [0, 10, 24, 25, 28, 29, 0, 28, 11, 3, 4, 5, 6, 7, 8, 9, 13, 15, 18, 30, 32, 34, 35, 36, 41,
    31, 33, 42, 17, 20, 27, 9, 36, 39, 40, 34, 37, 38, 25, 26, 17, 14, 17, 16, 19, 36, 34]"

definition yyr1 :: "int list" where
  "yyr1 =
   [0, 23, 24, 24, 25, 25, 26, 26, 27, 27, 27, 29, 28, 31, 30, 33, 32, 34, 34, 34, 34, 35, 35,
    36, 36, 36, 36, 36, 36, 36, 37, 37, 38, 38, 39, 39, 40, 40, 42, 41]"

definition yyr2 :: "int list" where
  "yyr2 =
   [0, 2, 0, 1, 1, 2, 0, 1, 0, 1, 1, 0, 5, 0, 4, 0, 4, 1, 1, 1, 1, 1, 2, 1, 1, 1, 1, 1, 1, 1,
    1, 3, 0, 1, 1, 3, 0, 1, 0, 4]"

abbreviation (input) YYFINAL :: int where "YYFINAL \<equiv> 6"
abbreviation (input) YYLAST :: int where "YYLAST \<equiv> 35"
abbreviation (input) YYNTOKENS :: int where "YYNTOKENS \<equiv> 23"
abbreviation (input) YYPACT_NINF :: int where "YYPACT_NINF \<equiv> - 26"
abbreviation (input) YYEMPTY :: int where "YYEMPTY \<equiv> - 2"
abbreviation (input) YYEOF :: int where "YYEOF \<equiv> 0"
abbreviation (input) YYTERROR :: int where "YYTERROR \<equiv> 1"
abbreviation (input) YYINITDEPTH :: nat where "YYINITDEPTH \<equiv> 200"
abbreviation (input) YYMAXDEPTH :: nat where "YYMAXDEPTH \<equiv> 10000"

text \<open>An entry of a table; outside it is undefined.\<close>

definition tab :: "int list \<Rightarrow> int \<Rightarrow> int option" where
  "tab t i = (if i < 0 then None else rd t (nat i))"

definition YYTRANSLATE :: "int \<Rightarrow> int option" where
  "YYTRANSLATE x = (if 0 \<le> x \<and> x \<le> 277 then tab yytranslate x else Some 2)"

section \<open>Positions and errors\<close>

definition err_array_elem_type :: string where
  "err_array_elem_type = ''mismatched element type in array''"

definition err_duplicate_setting :: string where
  "err_duplicate_setting = ''duplicate setting name''"

definition in_parent :: "ctype \<Rightarrow> reader \<Rightarrow> bool option" where
  "in_parent t r =
     (if r_parent r = NULL then Some False
      else map_option (\<lambda>x. s_type x = t) (settings (r_cfg r) (r_parent r)))"

definition capture_parse_pos :: "addr \<Rightarrow> reader \<Rightarrow> reader option" where
  "capture_parse_pos p r = do {
     x \<leftarrow> settings (r_cfg r) p;
     line \<leftarrow> yyget_lineno r;
     file \<leftarrow> scanctx_current_filename (r_ctx r);
     Some (r\<lparr>r_cfg := Config_Access.put p (x\<lparr>s_line := word_of_int line, s_file := file\<rparr>) (r_cfg r)\<rparr>)
   }"

definition yyerror :: "string \<Rightarrow> reader \<Rightarrow> reader option" where
  "yyerror msg r =
     (if c_error_text (cfg (r_cfg r)) \<noteq> None then Some r
      else do {
        line \<leftarrow> yyget_lineno r;
        Some (r\<lparr>r_cfg := with_cfg (\<lambda>g. g\<lparr>c_error_line := line, c_error_text := Some msg\<rparr>) (r_cfg r)\<rparr>)
      })"

section \<open>Semantic actions\<close>

text \<open>They return \<open>False\<close> for \<open>YYABORT\<close>. The start and the end of an array, a list or a group.\<close>

definition open_container :: "ctype \<Rightarrow> reader \<Rightarrow> (bool \<times> reader) option" where
  "open_container t r = do {
     in_list \<leftarrow> in_parent T_list r;
     if in_list then do {
       (p, s) \<leftarrow> config_setting_add (r_parent r) None (ctype_code t) (r_cfg r);
       r \<leftarrow> capture_parse_pos p (r\<lparr>r_cfg := s, r_parent := p\<rparr>);
       Some (True, r)
     }
     else do {
       x \<leftarrow> settings (r_cfg r) (r_setting r);
       Some (True, r\<lparr>r_cfg := Config_Access.put (r_setting r) (x\<lparr>s_type := t\<rparr>) (r_cfg r),
                     r_parent := r_setting r, r_setting := NULL\<rparr>)
     }
   }"

definition close_container :: "reader \<Rightarrow> (bool \<times> reader) option" where
  "close_container r =
     (if r_parent r = NULL then Some (True, r)
      else do {
        x \<leftarrow> settings (r_cfg r) (r_parent r);
        Some (True, r\<lparr>r_parent := s_parent x\<rparr>)
      })"

definition action_setting :: "string \<Rightarrow> reader \<Rightarrow> (bool \<times> reader) option" where
  "action_setting name r = do {
     (p, s) \<leftarrow> config_setting_add (r_parent r) (Some name) (ctype_code T_none) (r_cfg r);
     let r = r\<lparr>r_cfg := s, r_setting := p\<rparr>;
     if p = NULL then do { r \<leftarrow> yyerror err_duplicate_setting r; Some (False, r) }
     else do { r \<leftarrow> capture_parse_pos p r; Some (True, r) }
   }"

text \<open>\<open>config_setting_set_format\<close>, for the values that have a format.\<close>

definition put_format :: "int option \<Rightarrow> addr \<Rightarrow> reader \<Rightarrow> reader option" where
  "put_format fmt p r =
     (case fmt of
        None \<Rightarrow> Some r
      | Some f \<Rightarrow> map_option (\<lambda>(_, s). r\<lparr>r_cfg := s\<rparr>) (config_setting_set_format p f (r_cfg r)))"

text \<open>A scalar value: a new element of an array or a list, or the value of the current setting.\<close>

definition store_value ::
  "(addr \<Rightarrow> cstate \<Rightarrow> (addr \<times> cstate) option) \<Rightarrow> (addr \<Rightarrow> cstate \<Rightarrow> (bool \<times> cstate) option) \<Rightarrow> int option
    \<Rightarrow> reader \<Rightarrow> (bool \<times> reader) option" where
  "store_value set_elem set_val fmt r = do {
     in_array \<leftarrow> in_parent T_array r;
     in_list \<leftarrow> in_parent T_list r;
     if in_array \<or> in_list then do {
       (e, s) \<leftarrow> set_elem (r_parent r) (r_cfg r);
       let r = r\<lparr>r_cfg := s\<rparr>;
       if e = NULL then do { r \<leftarrow> yyerror err_array_elem_type r; Some (False, r) }
       else do { r \<leftarrow> put_format fmt e r; r \<leftarrow> capture_parse_pos e r; Some (True, r) }
     }
     else do {
       (_, s) \<leftarrow> set_val (r_setting r) (r_cfg r);
       r \<leftarrow> put_format fmt (r_setting r) (r\<lparr>r_cfg := s\<rparr>);
       Some (True, r)
     }
   }"

definition store_int :: "i32 \<Rightarrow> int \<Rightarrow> reader \<Rightarrow> (bool \<times> reader) option" where
  "store_int v fmt = store_value (\<lambda>p. config_setting_set_int_elem p (- 1) v)
     (\<lambda>p. config_setting_set_int p v) (Some fmt)"

definition store_int64 :: "i64 \<Rightarrow> int \<Rightarrow> reader \<Rightarrow> (bool \<times> reader) option" where
  "store_int64 v fmt = store_value (\<lambda>p. config_setting_set_int64_elem p (- 1) v)
     (\<lambda>p. config_setting_set_int64 p v) (Some fmt)"

definition store_bool :: "i32 \<Rightarrow> reader \<Rightarrow> (bool \<times> reader) option" where
  "store_bool v = store_value (\<lambda>p. config_setting_set_bool_elem p (- 1) v)
     (\<lambda>p. config_setting_set_bool p v) None"

definition store_float :: "double \<Rightarrow> reader \<Rightarrow> (bool \<times> reader) option" where
  "store_float v = store_value (\<lambda>p. config_setting_set_float_elem p (- 1) v)
     (\<lambda>p. config_setting_set_float p v) None"

text \<open>The string that has been collected is taken from the context of the parser.\<close>

definition store_string :: "reader \<Rightarrow> (bool \<times> reader) option" where
  "store_string r = do {
     let (t, buf) = strbuf_release (r_string r);
     t \<leftarrow> t;
     store_value (\<lambda>p. config_setting_set_string_elem p (- 1) t)
       (\<lambda>p. config_setting_set_string p t) None (r\<lparr>r_string := buf\<rparr>)
   }"

definition collect_string :: "string \<Rightarrow> reader \<Rightarrow> (bool \<times> reader) option" where
  "collect_string t r =
     map_option (\<lambda>buf. (True, r\<lparr>r_string := buf\<rparr>)) (strbuf_append (r_string r) t)"

text \<open>The members of the union; reading another than the one written is undefined.\<close>

fun y_ival :: "yylval \<Rightarrow> i32 option" where
  "y_ival (Y_ival i) = Some i" | "y_ival _ = None"

fun y_llval :: "yylval \<Rightarrow> i64 option" where
  "y_llval (Y_llval i) = Some i" | "y_llval _ = None"

fun y_fval :: "yylval \<Rightarrow> double option" where
  "y_fval (Y_fval x) = Some x" | "y_fval _ = None"

fun y_sval :: "yylval \<Rightarrow> string option" where
  "y_sval (Y_sval t) = Some t" | "y_sval _ = None"

text \<open>The switch over the rules; \<open>v\<close> is the value on top of the stack.\<close>

definition yy_action :: "int \<Rightarrow> yylval \<Rightarrow> reader \<Rightarrow> (bool \<times> reader) option" where
  "yy_action n v r =
     (if n = 11 then do { t \<leftarrow> y_sval v; action_setting t r }
      else if n = 13 then open_container T_array r
      else if n = 14 then close_container r
      else if n = 15 then open_container T_list r
      else if n = 16 then close_container r
      else if n = 21 then do { t \<leftarrow> y_sval v; collect_string t r }
      else if n = 22 then do { t \<leftarrow> y_sval v; collect_string t r }
      else if n = 23 then do { i \<leftarrow> y_ival v; store_bool i r }
      else if n = 24 then do { i \<leftarrow> y_ival v; store_int i FORMAT_DEFAULT r }
      else if n = 25 then do { i \<leftarrow> y_llval v; store_int64 i FORMAT_DEFAULT r }
      else if n = 26 then do { i \<leftarrow> y_ival v; store_int i FORMAT_HEX r }
      else if n = 27 then do { i \<leftarrow> y_llval v; store_int64 i FORMAT_HEX r }
      else if n = 28 then do { x \<leftarrow> y_fval v; store_float x r }
      else if n = 29 then store_string r
      else if n = 38 then open_container T_group r
      else if n = 39 then close_container r
      else Some (True, r))"

section \<open>The loop of \<open>yyparse\<close>\<close>

record parser =
  p_stack :: "(int \<times> yylval) list"
  p_size :: nat
  p_char :: int
  p_lval :: yylval
  p_errstatus :: int
  p_nerrs :: int
  p_rd :: reader

text \<open>\<open>L_return\<close> holds the result; \<open>L_gone\<close>: the process has ended.\<close>

datatype label =
  L_setstate | L_backup | L_default | L_reduce int | L_errlab | L_errlab1 | L_return int | L_gone

definition state_of :: "parser \<Rightarrow> int option" where
  "state_of p = (case p_stack p of [] \<Rightarrow> None | (st, _) # _ \<Rightarrow> Some st)"

text \<open>
  \<open>yysetstate\<close>: the entry just pushed has to be inside the stack; a stack that is full then is doubled,
  up to the maximal size.
\<close>

definition grow_stack :: "nat \<Rightarrow> nat option" where
  "grow_stack n = (if YYMAXDEPTH \<le> n then None else Some (min (n * 2) YYMAXDEPTH))"

definition yysetstate :: "parser \<Rightarrow> (label \<times> parser) option" where
  "yysetstate p = do {
     st \<leftarrow> state_of p;
     let depth = length (p_stack p);
     _ \<leftarrow> ensure (depth \<le> p_size p);
     let go = (if st = YYFINAL then L_return 0 else L_backup);
     if depth < p_size p then Some (go, p)
     else
       (case grow_stack (p_size p) of
          None \<Rightarrow> do { r \<leftarrow> yyerror ''memory exhausted'' (p_rd p); Some (L_return 2, p\<lparr>p_rd := r\<rparr>) }
        | Some n \<Rightarrow> Some (if depth < n then go else L_return 1, p\<lparr>p_size := n\<rparr>))
   }"

text \<open>The lookahead, read when there is none.\<close>

definition get_lookahead :: "parser \<Rightarrow> (bool \<times> parser) option" where
  "get_lookahead p =
     (if p_char p = YYEMPTY then do {
        (t, r) \<leftarrow> yylex (p_rd p);
        let p = p\<lparr>p_rd := r\<rparr>;
        case t of
          L_exit \<Rightarrow> Some (False, p)
        | L_token c v \<Rightarrow> Some (True, p\<lparr>p_char := c, p_lval := v\<rparr>)
      }
      else Some (True, p))"

definition yybackup :: "parser \<Rightarrow> (label \<times> parser) option" where
  "yybackup p = do {
     st \<leftarrow> state_of p;
     n \<leftarrow> tab yypact st;
     if n = YYPACT_NINF then Some (L_default, p)
     else do {
       (ok, p) \<leftarrow> get_lookahead p;
       if \<not> ok then Some (L_gone, p)
       else do {
         token \<leftarrow> (if p_char p \<le> YYEOF then Some YYEOF else YYTRANSLATE (p_char p));
         let p = (if p_char p \<le> YYEOF then p\<lparr>p_char := YYEOF\<rparr> else p);
         let n = n + token;
         c \<leftarrow> (if n < 0 \<or> YYLAST < n then Some (- 1) else tab yycheck n);
         if n < 0 \<or> YYLAST < n \<or> c \<noteq> token then Some (L_default, p)
         else do {
           n \<leftarrow> tab yytable n;
           if n \<le> 0 then Some (L_reduce (- n), p)
           else Some (L_setstate,
             p\<lparr>p_errstatus := (if p_errstatus p \<noteq> 0 then p_errstatus p - 1 else 0),
               p_char := YYEMPTY, p_stack := (n, p_lval p) # p_stack p\<rparr>)
         }
       }
     }
   }"

definition yydefault :: "parser \<Rightarrow> (label \<times> parser) option" where
  "yydefault p = do {
     st \<leftarrow> state_of p;
     n \<leftarrow> tab yydefact st;
     Some (if n = 0 then L_errlab else L_reduce n, p)
   }"

text \<open>The state to go to after a reduction by rule \<open>n\<close> in state \<open>st\<close>.\<close>

definition goto_state :: "int \<Rightarrow> int \<Rightarrow> int option" where
  "goto_state n st = do {
     lhs \<leftarrow> tab yyr1 n;
     g \<leftarrow> tab yypgoto (lhs - YYNTOKENS);
     let k = g + st;
     c \<leftarrow> (if 0 \<le> k \<and> k \<le> YYLAST then tab yycheck k else Some (- 1));
     if 0 \<le> k \<and> k \<le> YYLAST \<and> c = st then tab yytable k else tab yydefgoto (lhs - YYNTOKENS)
   }"

definition yyreduce :: "int \<Rightarrow> parser \<Rightarrow> (label \<times> parser) option" where
  "yyreduce n p = do {
     len \<leftarrow> tab yyr2 n;
     let len = nat len;
     _ \<leftarrow> ensure (len < length (p_stack p));
     let yyval = (if len = 0 then Y_none else snd (p_stack p ! (len - 1)));
     let v = snd (hd (p_stack p));
     (ok, r) \<leftarrow> yy_action n v (p_rd p);
     let p = p\<lparr>p_rd := r\<rparr>;
     if \<not> ok then Some (L_return 1, p)
     else do {
       let stack = drop len (p_stack p);
       st \<leftarrow> goto_state n (fst (hd stack));
       Some (L_setstate, p\<lparr>p_stack := (st, yyval) # stack\<rparr>)
     }
   }"

definition yyerrlab :: "parser \<Rightarrow> (label \<times> parser) option" where
  "yyerrlab p = do {
     p \<leftarrow> (if p_errstatus p = 0 then do {
             r \<leftarrow> yyerror ''syntax error'' (p_rd p);
             Some (p\<lparr>p_nerrs := p_nerrs p + 1, p_rd := r\<rparr>)
           }
           else Some p);
     if p_errstatus p = 3 then
       (if p_char p \<le> YYEOF then Some (if p_char p = YYEOF then L_return 1 else L_errlab1, p)
        else Some (L_errlab1, p\<lparr>p_char := YYEMPTY\<rparr>))
     else Some (L_errlab1, p)
   }"

text \<open>The state to which the error token can be shifted, and the stack there.\<close>

fun unwind :: "(int \<times> yylval) list \<Rightarrow> (int \<times> (int \<times> yylval) list) option option" where
  "unwind [] = None"
| "unwind ((st, v) # rest) = do {
     n \<leftarrow> tab yypact st;
     let k = n + YYTERROR;
     c \<leftarrow> (if n \<noteq> YYPACT_NINF \<and> 0 \<le> k \<and> k \<le> YYLAST then tab yycheck k else Some (- 1));
     t \<leftarrow> (if c = YYTERROR then tab yytable k else Some 0);
     if 0 < t then Some (Some (t, (st, v) # rest))
     else if rest = [] then Some None
     else unwind rest
   }"

definition yyerrlab1 :: "parser \<Rightarrow> (label \<times> parser) option" where
  "yyerrlab1 p = do {
     let p = p\<lparr>p_errstatus := 3\<rparr>;
     u \<leftarrow> unwind (p_stack p);
     case u of
       None \<Rightarrow> Some (L_return 1, p)
     | Some (st, stack) \<Rightarrow> Some (L_setstate, p\<lparr>p_stack := (st, p_lval p) # stack\<rparr>)
   }"

definition yystep :: "label \<Rightarrow> parser \<Rightarrow> (label \<times> parser) option" where
  "yystep l p =
     (case l of
        L_setstate \<Rightarrow> yysetstate p
      | L_backup \<Rightarrow> yybackup p
      | L_default \<Rightarrow> yydefault p
      | L_reduce n \<Rightarrow> yyreduce n p
      | L_errlab \<Rightarrow> yyerrlab p
      | L_errlab1 \<Rightarrow> yyerrlab1 p
      | L_return _ \<Rightarrow> Some (l, p)
      | L_gone \<Rightarrow> Some (l, p))"

text \<open>The result, unless the process has ended.\<close>

partial_function (option) yyrun :: "label \<Rightarrow> parser \<Rightarrow> (int option \<times> parser) option" where
  "yyrun l p =
     (case l of
        L_return n \<Rightarrow> Some (Some n, p)
      | L_gone \<Rightarrow> Some (None, p)
      | _ \<Rightarrow> do { (l, p) \<leftarrow> yystep l p; yyrun l p })"

declare yyrun.simps [code]

definition yyinit :: "reader \<Rightarrow> parser" where
  "yyinit r = \<lparr>p_stack = [(0, Y_none)], p_size = YYINITDEPTH, p_char = YYEMPTY, p_lval = Y_none,
     p_errstatus = 0, p_nerrs = 0, p_rd = r\<rparr>"

definition yyparse :: "reader \<Rightarrow> (int option \<times> reader) option" where
  "yyparse r = map_option (\<lambda>(n, p). (n, p_rd p)) (yyrun L_setstate (yyinit r))"

end
