(* ===== verification/Config_Automaton.thy ===== *)
theory Config_Automaton
  imports Config_Grammar
begin

text \<open>
  The automaton behind the tables of the parser: which states can lie below a state on the stack, and what
  shifts and reductions make of such a stack. The facts are computed from the tables, state by state.
\<close>

section \<open>Stacks\<close>

text \<open>The states that can lie below each state.\<close>

definition lower :: "int list list" where
  "lower =
   [[], [0, 3, 27, 38], [0], [0], [0, 27], [1], [2], [3, 38], [5], [8, 25, 26, 40, 42], [8, 25, 26, 40, 42],
    [8, 25, 26, 40, 42], [8, 25, 26, 40, 42], [8, 25, 26, 40, 42], [8, 25, 26, 40, 42], [8, 25, 26, 40, 42],
    [8, 26, 42], [8, 26, 42], [8, 26, 42], [8, 26, 42], [8, 26, 42], [8], [8, 25, 26, 40, 42], [8, 26, 42],
    [8, 26, 42], [16], [17], [18], [21], [21], [21], [22], [25], [25], [25], [26], [26], [26], [27], [27], [33],
    [34], [36], [37], [39], [40], [42]]"

definition preds :: "int \<Rightarrow> int list" where
  "preds s = (if 0 \<le> s \<and> s \<le> 46 then lower ! nat s else [])"

text \<open>A number that each reduction makes smaller.\<close>

definition potential :: "int \<Rightarrow> nat" where
  "potential s = (if 0 \<le> s \<and> s \<le> 46
     then [1, 1, 0, 1, 2, 0, 0, 2, 0, 6, 6, 6, 6, 6, 6, 7, 2, 2, 2, 5, 5, 4, 6, 5, 5, 1, 1, 1, 4, 4, 3, 7, 2, 1, 0, 2,
           1, 0, 1, 0, 0, 6, 0, 6, 6, 2, 2] ! nat s else 0)"

fun stacked :: "int list \<Rightarrow> bool" where
  "stacked [] = False"
| "stacked [s] = (s = 0)"
| "stacked (s # p # ss) = (p \<in> set (preds s) \<and> stacked (p # ss))"

text \<open>The arrays, lists and groups that are open.\<close>

definition opens :: "int \<Rightarrow> ctype list" where
  "opens s = (if s = 25 then [T_array] else if s = 26 then [T_list] else if s = 27 then [T_group] else [])"

definition nest :: "int list \<Rightarrow> ctype list" where
  "nest ss = concat (map opens ss)"

text \<open>A setting has its name but not yet its value.\<close>

definition value_states :: "int list" where
  "value_states = [9, 10, 11, 12, 13, 14, 15, 16, 17, 18, 22]"

fun pend :: "int list \<Rightarrow> bool" where
  "pend (s # p # q # ss) = (s = 5 \<or> s = 8 \<or> s \<in> set value_states \<and> p = 8 \<or> s = 31 \<and> q = 8)"
| "pend (s # p # ss) = (s = 5 \<or> s = 8 \<or> s \<in> set value_states \<and> p = 8)"
| "pend (s # ss) = (s = 5 \<or> s = 8)"
| "pend [] = False"

section \<open>Reductions\<close>

fun paths :: "nat \<Rightarrow> int \<Rightarrow> int list list" where
  "paths 0 s = [[s]]"
| "paths (Suc k) s = concat (map (\<lambda>p. map ((#) s) (paths k p)) (preds s))"

fun deep :: "nat \<Rightarrow> int \<Rightarrow> bool" where
  "deep 0 s = True"
| "deep (Suc k) s = (s \<noteq> 0 \<and> list_all (deep k) (preds s))"

text \<open>What a rule does to the open arrays, lists and groups, and to the setting without value.\<close>

definition turns :: "int \<Rightarrow> ctype list \<Rightarrow> ctype list \<Rightarrow> bool" where
  "turns n old new \<longleftrightarrow>
     (if n = 13 then old = [] \<and> new = [T_array] else if n = 15 then old = [] \<and> new = [T_list]
      else if n = 38 then old = [] \<and> new = [T_group]
      else if n = 14 \<or> n = 16 \<or> n = 39 then length old = 1 \<and> new = [] else new = old)"

definition pends :: "int \<Rightarrow> int list \<Rightarrow> int \<Rightarrow> int \<Rightarrow> bool" where
  "pends n path b g \<longleftrightarrow>
     (if n = 11 then g = 5
      else if n = 21 then g = 22 \<and> path = [15, b]
      else if n = 22 then g = 22 \<and> path = [31, 22, b]
      else g \<noteq> 5 \<and> g \<noteq> 8 \<and> g \<noteq> 31 \<and> g \<notin> set value_states)"

text \<open>The rules whose action uses the value on top of the stack.\<close>

definition with_value :: "int list" where
  "with_value = [11, 21, 22, 23, 24, 25, 26, 27, 28]"

definition path_ok :: "int \<Rightarrow> int \<Rightarrow> int list \<Rightarrow> bool" where
  "path_ok s n path \<longleftrightarrow>
     (let b = last path in
      case goto_state n b of
        None \<Rightarrow> False
      | Some g \<Rightarrow> b \<in> set (preds g) \<and> potential g < potential s \<and> turns n (nest (butlast path)) (opens g)
          \<and> pends n path b g \<and> (case tab yydefact g of None \<Rightarrow> True | Some m \<Rightarrow> m \<notin> set with_value))"

definition reduce_ok :: "int \<Rightarrow> bool" where
  "reduce_ok s \<longleftrightarrow>
     (case tab yydefact s of
        None \<Rightarrow> False
      | Some n \<Rightarrow> n = 0 \<or> s = 6 \<or>
          (case tab yyr2 n of
             None \<Rightarrow> False
           | Some len \<Rightarrow> deep (nat len) s \<and> list_all (path_ok s n) (paths (nat len) s)))"

lemma reduces: "list_all reduce_ok [0..46]"
  by code_simp

lemma preds_states: "p \<in> set (preds s) \<Longrightarrow> 0 \<le> s \<and> s \<le> 46"
  by (simp add: preds_def split: if_splits)

lemma stacked_states: "stacked ss \<Longrightarrow> s \<in> set ss \<Longrightarrow> 0 \<le> s \<and> s \<le> 46"
  by (induction ss rule: stacked.induct) (auto dest: preds_states)

lemma stacked_step: "stacked (s # ss) \<Longrightarrow> s \<noteq> 0 \<Longrightarrow> \<exists>p ps. ss = p # ps \<and> p \<in> set (preds s) \<and> stacked ss"
  by (cases ss) auto

lemma nest_simps [simp]: "nest [] = []" "nest (s # ss) = opens s @ nest ss" "nest (xs @ ys) = nest xs @ nest ys"
  by (simp_all add: nest_def)

lemma stacked_path:
  "stacked (s # ss) \<Longrightarrow> deep k s \<Longrightarrow>
     \<exists>path rest. s # ss = path @ rest \<and> path \<in> set (paths k s) \<and> length path = Suc k \<and> stacked (last path # rest)"
proof (induction k arbitrary: s ss)
  case (Suc k)
  then obtain p ps where p: "ss = p # ps" "p \<in> set (preds s)" "stacked (p # ps)" using stacked_step [of s ss] by auto
  then have "deep k p" using Suc.prems(2) by (simp add: list_all_iff)
  with Suc.IH [OF p(3)] obtain path rest where path: "p # ps = path @ rest" "path \<in> set (paths k p)"
    "length path = Suc k" "stacked (last path # rest)" by blast
  moreover have "path \<noteq> []" using path(3) by auto
  ultimately show ?case using p by (intro exI [of _ "s # path"] exI [of _ rest]) auto
qed auto

text \<open>A reduction: what lies below the popped states, the new state on top of it, and what it means.\<close>

lemma reduction:
  assumes "stacked (s # ss)" and "tab yydefact s = Some n" and "n \<noteq> 0" and "s \<noteq> 6"
  shows "\<exists>len b rest g path. tab yyr2 n = Some len \<and> nat len < length (s # ss) \<and> drop (nat len) (s # ss) = b # rest
    \<and> goto_state n b = Some g \<and> stacked (g # b # rest) \<and> potential g < potential s
    \<and> s # ss = path @ b # rest \<and> turns n (nest path) (opens g) \<and> pends n (path @ [b]) b g
    \<and> (\<forall>m. tab yydefact g = Some m \<longrightarrow> m \<notin> set with_value)"
proof -
  have "0 \<le> s" "s \<le> 46" using stacked_states [OF assms(1)] by auto
  then have "s \<in> set [0..46]" by simp
  then have "reduce_ok s" using reduces by (metis list_all_iff)
  with assms(2-4) obtain len where len: "tab yyr2 n = Some len" "deep (nat len) s"
    "\<forall>p \<in> set (paths (nat len) s). path_ok s n p" by (auto simp: reduce_ok_def list_all_iff split: option.splits)
  from stacked_path [OF assms(1) len(2)] obtain path rest where path: "s # ss = path @ rest"
    "path \<in> set (paths (nat len) s)" "length path = Suc (nat len)" "stacked (last path # rest)" by blast
  have ok: "path_ok s n path" using len(3) path(2) by blast
  define b where "b = last path"
  have p: "path = butlast path @ [b]" using path(3) by (metis append_butlast_last_id b_def length_0_conv nat.distinct(1))
  have "length (butlast path) = nat len" using path(3) by simp
  then have d: "drop (nat len) (s # ss) = b # rest" using path(1) p
    by (metis append.assoc append_Cons append_Nil append_eq_conv_conj)
  from ok obtain g where g: "goto_state n b = Some g" "b \<in> set (preds g)" "potential g < potential s"
    "turns n (nest (butlast path)) (opens g)" "pends n path b g"
    "\<forall>m. tab yydefact g = Some m \<longrightarrow> m \<notin> set with_value"
    by (auto simp: path_ok_def b_def Let_def split: option.splits)
  have split: "s # ss = butlast path @ b # rest" using path(1) p by (metis append.assoc append_Cons append_Nil)
  have "stacked (g # b # rest)" using path(4) g(2) by (simp add: b_def)
  moreover have "nat len < length (s # ss)" using path(1,3) by (metis length_append less_Suc_eq trans_less_add1)
  ultimately show ?thesis using len(1) d g p split by metis
qed

section \<open>Shifts\<close>

text \<open>The symbols of the values that the rules use.\<close>

definition rule_symbol :: "int \<Rightarrow> int \<Rightarrow> bool" where
  "rule_symbol m t \<longleftrightarrow> (m = 11 \<longrightarrow> t = 10) \<and> (m = 21 \<or> m = 22 \<longrightarrow> t = 9) \<and> (m = 23 \<longrightarrow> t = 3) \<and> (m = 24 \<longrightarrow> t = 4)
     \<and> (m = 26 \<longrightarrow> t = 5) \<and> (m = 25 \<longrightarrow> t = 6) \<and> (m = 27 \<longrightarrow> t = 7) \<and> (m = 28 \<longrightarrow> t = 8)"

definition shift_ok :: "int \<Rightarrow> int \<Rightarrow> bool" where
  "shift_ok s t \<longleftrightarrow>
     (case tab yypact s of
        None \<Rightarrow> False
      | Some n \<Rightarrow> n = YYPACT_NINF \<or> n + t < 0 \<or> YYLAST < n + t \<or>
          (case tab yycheck (n + t) of
             None \<Rightarrow> False
           | Some c \<Rightarrow> c \<noteq> t \<or>
               (case tab yytable (n + t) of
                  None \<Rightarrow> False
                | Some g \<Rightarrow> 0 < g \<and> s \<in> set (preds g) \<and> opens g = [] \<and> (t = 0 \<longrightarrow> g = 6)
                    \<and> g \<noteq> 5 \<and> (g = 8 \<longrightarrow> s = 5) \<and> (g = 31 \<longrightarrow> s = 22)
                    \<and> (case tab yydefact g of None \<Rightarrow> False | Some m \<Rightarrow> rule_symbol m t))))"

lemma shifts: "list_all (\<lambda>s. list_all (shift_ok s) [0..22]) [0..46]"
  by code_simp

lemma has_shift:
  assumes "stacked (s # ss)" and "0 \<le> t" and "t \<le> 22"
  shows "shift_ok s t"
proof -
  have "s \<in> set [0..46]" using stacked_states [OF assms(1)] by simp
  moreover have "t \<in> set [0..22]" using assms(2,3) by simp
  ultimately show ?thesis using shifts by (metis (mono_tags, lifting) list_all_iff)
qed

lemma pend_shift:
  assumes "stacked (s # ss)" and "g \<noteq> 5" and "g = 8 \<longrightarrow> s = 5" and "g = 31 \<longrightarrow> s = 22" and "pend (g # s # ss)"
  shows "pend (s # ss)"
  using assms by (cases ss rule: list.exhaust; cases "tl ss") (auto simp: value_states_def)

text \<open>The default reductions, and the error token, which no state shifts.\<close>

lemma defaults: "stacked (s # ss) \<Longrightarrow> \<exists>n. tab yydefact s = Some n"
proof -
  assume "stacked (s # ss)"
  then have "0 \<le> s" "s \<le> 46" using stacked_states by fastforce+
  then show ?thesis by (simp add: tab_def rd_def yydefact_def)
qed

lemma no_error_token: "list_all (\<lambda>k. case tab yycheck k of None \<Rightarrow> False | Some c \<Rightarrow> c \<noteq> YYTERROR) [0..35]"
  by code_simp

lemma unwind_empties: "stacked (map fst ss) \<Longrightarrow> unwind ss = Some None"
proof (induction ss rule: unwind.induct)
  case (2 st v rest)
  have "shift_ok st 0" by (rule has_shift) (use 2(2) in auto)
  then obtain n where n: "tab yypact st = Some n" by (auto simp: shift_ok_def split: option.splits)
  have "\<exists>c. tab yycheck (n + 1) = Some c \<and> c \<noteq> 1" if "0 \<le> n + 1" "n + 1 \<le> 35"
  proof -
    have "n + 1 \<in> set [0..35]" using that by simp
    then show ?thesis using no_error_token by (auto simp: list_all_iff split: option.splits)
  qed
  then have "\<exists>c. (if n \<noteq> YYPACT_NINF \<and> 0 \<le> n + 1 \<and> n + 1 \<le> YYLAST then tab yycheck (n + 1) else Some (- 1)) = Some c
    \<and> c \<noteq> 1" by simp
  then obtain c where c: "(if n \<noteq> YYPACT_NINF \<and> 0 \<le> n + 1 \<and> n + 1 \<le> YYLAST then tab yycheck (n + 1) else Some (- 1)) = Some c"
    "c \<noteq> 1" by blast
  have "rest = [] \<or> stacked (map fst rest)" using 2(2) by (cases rest) auto
  then show ?case using n c 2(1) [OF n refl] by auto
qed simp

section \<open>Where values stand\<close>

text \<open>A value that is about to be stored belongs to a setting that waits for it, to an array or to a list.\<close>

lemma value_place:
  assumes "stacked (s # ss)" and "s \<in> set value_states"
  shows "pend (s # ss) \<or> (\<exists>ts. nest (s # ss) = T_list # ts \<or> s \<notin> {16, 17, 18} \<and> nest (s # ss) = T_array # ts)"
proof -
  have "s \<noteq> 0" using assms(2) by (auto simp: value_states_def)
  with assms(1) obtain b bs where b: "ss = b # bs" "b \<in> set (preds s)" "stacked (b # bs)" using stacked_step by blast
  have "b \<in> {8, 25, 26, 40, 42} \<and> (s \<in> {16, 17, 18} \<longrightarrow> b \<in> {8, 26, 42}) \<and> opens s = []"
    using b(2) assms(2) by (auto simp: preds_def lower_def value_states_def opens_def)
  moreover have "\<exists>ts. nest (b # bs) = T_array # ts" if b40: "b = 40"
  proof -
    obtain c cs where c: "bs = c # cs" "c = 33" "stacked (c # cs)"
      using stacked_step [OF b(3)] b40 by (auto simp: preds_def lower_def)
    obtain d ds where "cs = d # ds" "d = 25" using stacked_step [OF c(3)] c(2) by (auto simp: preds_def lower_def)
    then show ?thesis using c b40 by (simp add: opens_def)
  qed
  moreover have "\<exists>ts. nest (b # bs) = T_list # ts" if b42: "b = 42"
  proof -
    obtain c cs where c: "bs = c # cs" "c = 36" "stacked (c # cs)"
      using stacked_step [OF b(3)] b42 by (auto simp: preds_def lower_def)
    obtain d ds where "cs = d # ds" "d = 26" using stacked_step [OF c(3)] c(2) by (auto simp: preds_def lower_def)
    then show ?thesis using c b42 by (simp add: opens_def)
  qed
  moreover have "pend (s # ss)" if "b = 8" using that b(1) assms(2) by (cases bs) simp_all
  moreover have "\<exists>ts. nest (b # bs) = T_array # ts" if "b = 25" using that by (simp add: opens_def)
  moreover have "\<exists>ts. nest (b # bs) = T_list # ts" if "b = 26" using that by (simp add: opens_def)
  moreover have "nest (s # ss) = nest (b # bs)" if "opens s = []" using that b(1) by simp
  ultimately show ?thesis by (elim conjE insertE) (blast | simp)+
qed

end
