(* ===== verification/Config_Parsing.thy ===== *)
theory Config_Parsing
  imports Config_Lexing Config_Automaton
begin

text \<open>
  The parser of libconfig never makes an undefined access and always returns: the semantic actions keep
  the configuration well formed and follow the arrays, lists and groups that are open on the stack, and
  each step of \<open>yyparse\<close> brings the end nearer.
\<close>

section \<open>Settings that stay what they are\<close>

definition keeps :: "cstate \<Rightarrow> cstate \<Rightarrow> bool" where
  "keeps s s' \<longleftrightarrow> (\<forall>p x. settings s p = Some x \<longrightarrow>
     (\<exists>y. settings s' p = Some y \<and> s_parent y = s_parent x \<and> (s_type x \<noteq> T_none \<longrightarrow> s_type y = s_type x)))"

lemma keeps_refl [simp]: "settings s' = settings s \<Longrightarrow> keeps s s'"
  by (simp add: keeps_def)

lemma keeps_trans: "keeps s s' \<Longrightarrow> keeps s' s'' \<Longrightarrow> keeps s s''"
  unfolding keeps_def by metis

lemma keeps_put:
  "settings s p = Some x \<Longrightarrow> s_parent x' = s_parent x \<Longrightarrow> s_type x = T_none \<or> s_type x' = s_type x \<Longrightarrow> keeps s (put p x' s)"
  by (auto simp: keeps_def put_def)

lemma keeps_live: "keeps s s' \<Longrightarrow> settings s p \<noteq> None \<Longrightarrow> settings s' p \<noteq> None"
  unfolding keeps_def by fastforce

lemma keeps_appended:
  assumes "cfg_ok s" and "settings s p = Some x" and "appended s p x y s'"
  shows "keeps s s'" and "settings s' (next_addr s) = Some y"
proof -
  have "settings s (next_addr s) = None" by (rule wf_fresh [OF assms(1)]) simp
  then have "p \<noteq> next_addr s" using assms(2) by auto
  with \<open>settings s (next_addr s) = None\<close> assms(2,3) show "keeps s s'" "settings s' (next_addr s) = Some y"
    by (auto simp: appended_def keeps_def)
qed

text \<open>The setting \<open>p\<close> and those above it have the types of the open arrays, lists and groups.\<close>

fun chain :: "cstate \<Rightarrow> addr \<Rightarrow> ctype list \<Rightarrow> bool" where
  "chain s p [] = (\<exists>x. settings s p = Some x \<and> s_type x = T_group)"
| "chain s p (t # ts) = (container t \<and> (\<exists>x. settings s p = Some x \<and> s_type x = t \<and> chain s (s_parent x) ts))"

lemma chain_keeps: "chain s p ts \<Longrightarrow> keeps s s' \<Longrightarrow> chain s' p ts"
proof (induction ts arbitrary: p)
  case Nil
  then show ?case unfolding keeps_def by fastforce
next
  case (Cons t ts)
  then obtain x where x: "container t" "settings s p = Some x" "s_type x = t" "chain s (s_parent x) ts" by auto
  then have "s_type x \<noteq> T_none" by (auto simp: container_def)
  with x(2) Cons.prems(2) obtain y where "settings s' p = Some y" "s_parent y = s_parent x" "s_type y = s_type x"
    unfolding keeps_def by blast
  with x Cons.IH [OF x(4) Cons.prems(2)] show ?case by auto
qed

lemma chain_live: "chain s p ts \<Longrightarrow> \<exists>x. settings s p = Some x \<and> s_type x = (case ts of [] \<Rightarrow> T_group | t # _ \<Rightarrow> t) \<and> container (s_type x)"
  by (cases ts) (auto simp: container_def)

section \<open>Setters\<close>

text \<open>On a setting without type, or of the type they are for, the setters store the value.\<close>

definition stores :: "ctype \<Rightarrow> (addr \<Rightarrow> cstate \<Rightarrow> (bool \<times> cstate) option) \<Rightarrow> bool" where
  "stores t f \<longleftrightarrow> (\<forall>s p x. cfg_ok s \<and> settings s p = Some x \<and> (s_type x = T_none \<or> s_type x = t) \<longrightarrow>
     (\<exists>x'. f p s = Some (True, put p x' s) \<and> s_parent x' = s_parent x \<and> s_type x' = t \<and> cfg_ok (put p x' s)))"

lemma storesI:
  assumes "\<not> container t" and "value_ok t v"
    and "\<And>s p x. settings s p = Some x \<Longrightarrow> value_ok (s_type x) (s_val x) \<Longrightarrow> s_type x = T_none \<or> s_type x = t \<Longrightarrow>
      f p s = Some (True, put p (x\<lparr>s_type := t, s_val := v\<rparr>) s)"
  shows "stores t f"
proof -
  have "\<exists>x'. f p s = Some (True, put p x' s) \<and> s_parent x' = s_parent x \<and> s_type x' = t \<and> cfg_ok (put p x' s)"
    if s: "cfg_ok s" "settings s p = Some x" "s_type x = T_none \<or> s_type x = t" for s p x
  proof -
    have "\<not> container (s_type x)" using s(3) assms(1) by (auto simp: container_def)
    from put_scalar [OF s(1,2) this assms(2,1)] assms(3) [OF s(2) wf_value [OF s(1,2)] s(3)] show ?thesis by auto
  qed
  then show ?thesis by (simp add: stores_def)
qed

lemma same_type: "s_type x = t \<Longrightarrow> x\<lparr>s_type := t, s_val := v\<rparr> = x\<lparr>s_val := v\<rparr>"
  by (cases x) simp

lemma stores_int: "stores T_int (\<lambda>p. config_setting_set_int p v)"
  by (rule storesI [where v = "V_int v"]) (auto simp: container_def config_setting_set_int_def same_type)

lemma stores_int64: "stores T_int64 (\<lambda>p. config_setting_set_int64 p v)"
  by (rule storesI [where v = "V_int64 v"]) (auto simp: container_def config_setting_set_int64_def same_type)

lemma stores_bool: "stores T_bool (\<lambda>p. config_setting_set_bool p v)"
  by (rule storesI [where v = "V_int v"]) (auto simp: container_def config_setting_set_bool_def same_type)

lemma stores_float: "stores T_float (\<lambda>p. config_setting_set_float p v)"
  by (rule storesI [where v = "V_float v"]) (auto simp: container_def config_setting_set_float_def same_type)

lemma stores_string: "stores T_string (\<lambda>p. config_setting_set_string p t)"
proof (rule storesI)
  show "value_ok T_string (case t of None \<Rightarrow> V_zero | Some t \<Rightarrow> V_string t)" by (simp split: option.split)
next
  fix s :: cstate and p x
  assume x: "settings s p = Some x" "value_ok (s_type x) (s_val x)" "s_type x = T_none \<or> s_type x = T_string"
  then have "\<exists>u. sval (s_val x) = Some u" by (cases "s_val x") (auto simp: container_def)
  with x show "config_setting_set_string p t s =
      Some (True, put p (x\<lparr>s_type := T_string, s_val := case t of None \<Rightarrow> V_zero | Some t \<Rightarrow> V_string t\<rparr>) s)"
    by (auto simp: config_setting_set_string_def same_type)
qed (simp add: container_def)

text \<open>A new element of an array or a list.\<close>

lemma new_elem:
  assumes w: "cfg_ok s" and x: "settings s p = Some x" "s_type x = T_array \<or> s_type x = T_list" and f: "stores t f"
  shows "\<exists>e s'. do { r \<leftarrow> vector_slot t p (- 1) s; set_slot f r } = Some (e, s') \<and> cfg_ok s' \<and> keeps s s'
    \<and> (e \<noteq> NULL \<longrightarrow> settings s' e \<noteq> None)"
proof -
  have c: "container (s_type x)" using x(2) by (auto simp: container_def)
  obtain ok where ok: "config_vector_checktype p t s = Some ok" using vector_checktype_ok [OF w x(1) c] by blast
  have "sint (- 1 :: i32) < 0" by simp
  then have slot: "vector_slot t p (- 1) s = (if \<not> ok then Some (NULL, s) else config_setting_create p None t s)"
    using x ok by (auto simp: vector_slot_def)
  show ?thesis
  proof (cases ok)
    case True
    obtain s' where s': "config_setting_create p None t s = Some (next_addr s, s')"
        "appended s p x (new_setting None t p) s'"
      using config_setting_create_effect [OF w x(1) c] by blast
    have w': "cfg_ok s'" by (rule wf_appended [OF w x(1) c s'(2)])
    note k = keeps_appended [OF w x(1) s'(2)]
    obtain x' where x': "f (next_addr s) s' = Some (True, put (next_addr s) x' s')"
      "s_parent x' = p" "s_type x' = t" "cfg_ok (put (next_addr s) x' s')"
      using f w' k(2) by (fastforce simp: stores_def new_setting_def)
    have "keeps s' (put (next_addr s) x' s')" by (rule keeps_put [OF k(2)]) (simp_all add: x' new_setting_def)
    from keeps_trans [OF k(1) this] show ?thesis
      using slot True s'(1) x' wf_not_null [OF w' k(2)] by (simp add: set_slot_def) (simp add: put_def)
  qed (use slot w in \<open>simp add: set_slot_def\<close>)
qed

lemma put_format_ok:
  assumes "cfg_ok (r_cfg r)" and "settings (r_cfg r) p \<noteq> None"
  shows "\<exists>s. put_format fmt p r = Some (r\<lparr>r_cfg := s\<rparr>) \<and> cfg_ok s \<and> keeps (r_cfg r) s"
proof -
  obtain x where x: "settings (r_cfg r) p = Some x" using assms(2) by auto
  have "cfg_ok (put p (x\<lparr>s_format := f\<rparr>) (r_cfg r)) \<and> keeps (r_cfg r) (put p (x\<lparr>s_format := f\<rparr>) (r_cfg r))" for f
    using put_other_field [OF assms(1) x] keeps_put [OF x] by simp
  then show ?thesis using x assms(1)
    by (cases fmt) (auto simp: put_format_def config_setting_set_format_def intro: exI [of _ "r_cfg r"])
qed

section \<open>The reader between two actions\<close>

definition parse_ok :: "(nat \<rightharpoonup> fentry) \<Rightarrow> reader \<Rightarrow> bool" where
  "parse_ok B r \<longleftrightarrow> lex_ok B r \<and> cfg_ok (r_cfg r) \<and> strbuf_ok (r_string r)"

text \<open>The current setting waits for its value.\<close>

definition pending :: "reader \<Rightarrow> bool" where
  "pending r \<longleftrightarrow> (\<exists>x. settings (r_cfg r) (r_setting r) = Some x \<and> s_type x = T_none \<and> s_parent x = r_parent r)"

definition acts :: "(nat \<rightharpoonup> fentry) \<Rightarrow> reader \<Rightarrow> (bool \<times> reader) option \<Rightarrow> (reader \<Rightarrow> bool) \<Rightarrow> bool" where
  "acts B r a P \<longleftrightarrow> (\<exists>ok r'. a = Some (ok, r') \<and> parse_ok B r' \<and> rank r' = rank r \<and> (ok \<longrightarrow> P r'))"

lemma actsI: "a = Some (True, r') \<Longrightarrow> parse_ok B r' \<Longrightarrow> rank r' = rank r \<Longrightarrow> P r' \<Longrightarrow> acts B r a P"
  by (auto simp: acts_def)

lemma lexer_part [simp]:
  "lex_ok B (r\<lparr>r_cfg := s\<rparr>) = lex_ok B r" "lex_ok B (r\<lparr>r_parent := p\<rparr>) = lex_ok B r"
  "lex_ok B (r\<lparr>r_setting := p\<rparr>) = lex_ok B r" "lex_ok B (r\<lparr>r_string := b\<rparr>) = lex_ok B r"
  "rank (r\<lparr>r_cfg := s\<rparr>) = rank r" "rank (r\<lparr>r_parent := p\<rparr>) = rank r"
  "rank (r\<lparr>r_setting := p\<rparr>) = rank r" "rank (r\<lparr>r_string := b\<rparr>) = rank r"
  by (simp_all add: lex_ok_def rank_def buf_stack_def buffer_ok_def [abs_def] unread_def [abs_def])

lemma capture_ok:
  assumes "lex_ok B r" and "cfg_ok (r_cfg r)" and "settings (r_cfg r) p = Some x"
  shows "\<exists>s. capture_parse_pos p r = Some (r\<lparr>r_cfg := s\<rparr>) \<and> cfg_ok s \<and> keeps (r_cfg r) s
    \<and> (\<exists>y. settings s p = Some y \<and> s_type y = s_type x \<and> s_parent y = s_parent x)"
proof -
  obtain line fname where l: "yyget_lineno r = Some line" "scanctx_current_filename (r_ctx r) = Some fname"
    using lineno_ok [OF assms(1)] current_filename_ok [OF lex_okD(1) [OF assms(1)]] by blast
  let ?x = "x\<lparr>s_line := word_of_int line, s_file := fname\<rparr>"
  have "cfg_ok (put p ?x (r_cfg r))" by (rule put_other_field [OF assms(2,3)]) simp_all
  moreover have "keeps (r_cfg r) (put p ?x (r_cfg r))" by (rule keeps_put [OF assms(3)]) simp_all
  ultimately show ?thesis using l assms(3)
    by (intro exI [of _ "put p ?x (r_cfg r)"]) (simp add: capture_parse_pos_def, simp add: put_def)
qed

lemma yyerror_ok:
  assumes "parse_ok B r"
  shows "\<exists>r'. yyerror msg r = Some r' \<and> parse_ok B r' \<and> rank r' = rank r \<and> same_parse r r'"
proof -
  obtain line where l: "yyget_lineno r = Some line" using assms lineno_ok by (auto simp: parse_ok_def)
  have "same_parse r (r\<lparr>r_cfg := with_cfg (\<lambda>g. g\<lparr>c_error_line := line, c_error_text := Some msg\<rparr>) (r_cfg r)\<rparr>)"
    by (auto simp: same_parse_def)
  then show ?thesis using l assms by (auto simp: yyerror_def parse_ok_def with_cfg_ok)
qed

lemma yyerror_acts: "parse_ok B r \<Longrightarrow> acts B r (do { r \<leftarrow> yyerror msg r; Some (False, r) }) P"
  using yyerror_ok [of B r msg] by (auto simp: acts_def)

lemma in_parent_ok:
  assumes "cfg_ok (r_cfg r)" and "settings (r_cfg r) (r_parent r) = Some x"
  shows "in_parent t r = Some (s_type x = t)"
  using assms wf_not_null [OF assms] by (simp add: in_parent_def)

section \<open>Semantic actions\<close>

lemma chain_parent: "chain s p ts \<Longrightarrow> \<exists>x. settings s p = Some x \<and> container (s_type x)"
  using chain_live by blast

lemma type_none_value: "value_ok T_none v \<Longrightarrow> v = V_zero"
  by (cases v) (auto simp: container_def)

lemma open_container_acts:
  assumes ok: "parse_ok B r" and ch: "chain (r_cfg r) (r_parent r) ts" and t: "container t"
    and place: "pending r \<or> (\<exists>us. ts = T_list # us)"
  shows "acts B r (open_container t r) (\<lambda>r'. chain (r_cfg r') (r_parent r') (t # ts))"
proof -
  have w: "lex_ok B r" "cfg_ok (r_cfg r)" "strbuf_ok (r_string r)" using ok by (simp_all add: parse_ok_def)
  obtain x where x: "settings (r_cfg r) (r_parent r) = Some x" "container (s_type x)" using chain_parent [OF ch] by blast
  note inp = in_parent_ok [OF w(2) x(1), of T_list]
  show ?thesis
  proof (cases "s_type x = T_list")
    case True
    obtain s' where s': "config_setting_create (r_parent r) None t (r_cfg r) = Some (next_addr (r_cfg r), s')"
        "appended (r_cfg r) (r_parent r) x (new_setting None t (r_parent r)) s'"
      using config_setting_create_effect [OF w(2) x] by blast
    let ?q = "next_addr (r_cfg r)"
    have add: "config_setting_add (r_parent r) None (ctype_code t) (r_cfg r) = Some (?q, s')"
      using x True s'(1) get_member_null [OF x(1)] wf_not_null [OF w(2) x(1)]
      by (simp add: config_setting_add_def ctype_of_code)
    have w': "cfg_ok s'" by (rule wf_appended [OF w(2) x s'(2)])
    note k = keeps_appended [OF w(2) x(1) s'(2)]
    let ?r = "r\<lparr>r_cfg := s', r_parent := ?q\<rparr>"
    have "lex_ok B ?r" "cfg_ok (r_cfg ?r)" "settings (r_cfg ?r) ?q = Some (new_setting None t (r_parent r))"
      using w w' k by simp_all
    from capture_ok [OF this] obtain s where s: "capture_parse_pos ?q ?r = Some (?r\<lparr>r_cfg := s\<rparr>)" "cfg_ok s" "keeps s' s"
      "\<exists>y. settings s ?q = Some y \<and> s_type y = t \<and> s_parent y = r_parent r"
      by (auto simp: new_setting_def)
    have "chain s (r_parent r) ts" by (rule chain_keeps [OF ch keeps_trans [OF k(1) s(3)]])
    moreover have run: "open_container t r = Some (True, ?r\<lparr>r_cfg := s\<rparr>)"
      using inp True add s(1) by (simp add: open_container_def)
    ultimately show ?thesis using s(2,4) t w by (intro actsI [OF run]) (auto simp: parse_ok_def)
  next
    case False
    have "s_type x = (case ts of [] \<Rightarrow> T_group | t # _ \<Rightarrow> t)" using chain_live [OF ch] x(1) by auto
    then have "pending r" using place False by auto
    then obtain y where y: "settings (r_cfg r) (r_setting r) = Some y" "s_type y = T_none" "s_parent y = r_parent r"
      by (auto simp: pending_def)
    let ?s = "put (r_setting r) (y\<lparr>s_type := t\<rparr>) (r_cfg r)"
    have "s_val y = V_zero" using wf_value [OF w(2) y(1)] y(2) type_none_value by simp
    then have "cfg_ok ?s" unfolding put_def using y(2)
      by (intro wf_update [OF w(2) y(1)]) (simp_all add: kids_def)
    moreover have "keeps (r_cfg r) ?s" by (rule keeps_put [OF y(1)]) (simp_all add: y(2))
    then have "chain ?s (r_parent r) ts" by (rule chain_keeps [OF ch])
    moreover have "settings ?s (r_setting r) = Some (y\<lparr>s_type := t\<rparr>)" by (simp add: put_def)
    moreover have run: "open_container t r = Some (True, r\<lparr>r_cfg := ?s, r_parent := r_setting r, r_setting := NULL\<rparr>)"
      using inp False y(1) by (simp add: open_container_def)
    ultimately show ?thesis using y(3) t w by (intro actsI [OF run]) (simp_all add: parse_ok_def)
  qed
qed

lemma close_container_acts:
  assumes "parse_ok B r" and "chain (r_cfg r) (r_parent r) (t # ts)"
  shows "acts B r (close_container r) (\<lambda>r'. chain (r_cfg r') (r_parent r') ts)"
proof -
  obtain x where x: "settings (r_cfg r) (r_parent r) = Some x" "chain (r_cfg r) (s_parent x) ts" using assms(2) by auto
  have "r_parent r \<noteq> NULL" using wf_not_null [OF _ x(1)] assms(1) by (simp add: parse_ok_def)
  then have run: "close_container r = Some (True, r\<lparr>r_parent := s_parent x\<rparr>)" using x(1) by (simp add: close_container_def)
  show ?thesis using assms(1) x(2) by (intro actsI [OF run]) (simp_all add: parse_ok_def)
qed

lemma action_setting_acts:
  assumes ok: "parse_ok B r" and ch: "chain (r_cfg r) (r_parent r) ts"
  shows "acts B r (action_setting name r) (\<lambda>r'. chain (r_cfg r') (r_parent r') ts \<and> pending r')"
proof -
  have w: "lex_ok B r" "cfg_ok (r_cfg r)" "strbuf_ok (r_string r)" using ok by (simp_all add: parse_ok_def)
  obtain x where x: "settings (r_cfg r) (r_parent r) = Some x" using chain_parent [OF ch] by blast
  obtain q s' where add: "config_setting_add (r_parent r) (Some name) (ctype_code T_none) (r_cfg r) = Some (q, s')"
    "cfg_ok s'" "q = NULL \<and> s' = r_cfg r \<or> (\<exists>n. q = next_addr (r_cfg r)
      \<and> appended (r_cfg r) (r_parent r) x (new_setting n T_none (r_parent r)) s')"
    using config_setting_add_ok [OF w(2) x, of "Some name" "ctype_code T_none"] unfolding ctype_of_code by fastforce
  let ?r = "r\<lparr>r_cfg := s', r_setting := q\<rparr>"
  have r: "parse_ok B ?r" using w add(2) by (simp add: parse_ok_def)
  show ?thesis
  proof (cases "q = NULL")
    case True
    with add(1) yyerror_acts [OF r] show ?thesis by (simp add: action_setting_def acts_def)
  next
    case False
    then obtain n where n: "appended (r_cfg r) (r_parent r) x (new_setting n T_none (r_parent r)) s'"
      "q = next_addr (r_cfg r)" using add(3) by auto
    note k = keeps_appended [OF w(2) x n(1), folded n(2)]
    have "lex_ok B ?r" "cfg_ok (r_cfg ?r)" "settings (r_cfg ?r) q = Some (new_setting n T_none (r_parent r))"
      using w add(2) k(2) by simp_all
    from capture_ok [OF this] obtain s where s: "capture_parse_pos q ?r = Some (?r\<lparr>r_cfg := s\<rparr>)" "cfg_ok s" "keeps s' s"
      "\<exists>y. settings s q = Some y \<and> s_type y = T_none \<and> s_parent y = r_parent r"
      by (auto simp: new_setting_def)
    have "chain s (r_parent r) ts" by (rule chain_keeps [OF ch keeps_trans [OF k(1) s(3)]])
    moreover have run: "action_setting name r = Some (True, ?r\<lparr>r_cfg := s\<rparr>)"
      using s(1) False add(1) by (simp add: action_setting_def)
    ultimately show ?thesis using s(2,4) w by (intro actsI [OF run]) (simp_all add: parse_ok_def pending_def)
  qed
qed

lemma store_value_acts:
  assumes ok: "parse_ok B r" and ch: "chain (r_cfg r) (r_parent r) ts"
    and place: "pending r \<or> (\<exists>us. ts = T_array # us \<or> ts = T_list # us)" and f: "stores t f"
    and e: "\<And>p s. g p s = do { r \<leftarrow> vector_slot t p (- 1) s; set_slot f r }"
  shows "acts B r (store_value g f fmt r) (\<lambda>r'. chain (r_cfg r') (r_parent r') ts)"
proof -
  have w: "lex_ok B r" "cfg_ok (r_cfg r)" "strbuf_ok (r_string r)" using ok by (simp_all add: parse_ok_def)
  obtain x where x: "settings (r_cfg r) (r_parent r) = Some x" "container (s_type x)" using chain_parent [OF ch] by blast
  note inp = in_parent_ok [OF w(2) x(1)]
  show ?thesis
  proof (cases "s_type x = T_array \<or> s_type x = T_list")
    case True
    obtain q s' where s': "g (r_parent r) (r_cfg r) = Some (q, s')" "cfg_ok s'" "keeps (r_cfg r) s'"
      "q \<noteq> NULL \<longrightarrow> settings s' q \<noteq> None" using new_elem [OF w(2) x(1) True f] unfolding e [symmetric] by blast
    let ?r = "r\<lparr>r_cfg := s'\<rparr>"
    have r: "parse_ok B ?r" using w s'(2) by (simp add: parse_ok_def)
    show ?thesis
    proof (cases "q = NULL")
      case q: True
      from yyerror_acts [OF r, of err_array_elem_type] show ?thesis
        using True s'(1) q inp by (auto simp: store_value_def acts_def)
    next
      case False
      then have "settings (r_cfg ?r) q \<noteq> None" "cfg_ok (r_cfg ?r)" using s' by simp_all
      from put_format_ok [OF this(2,1), of fmt] obtain s where s: "put_format fmt q ?r = Some (?r\<lparr>r_cfg := s\<rparr>)"
        "cfg_ok s" "keeps s' s" by auto
      then obtain y where "settings s q = Some y" using keeps_live [OF s(3)] s'(4) False by auto
      with w(1) s(2) have "lex_ok B (?r\<lparr>r_cfg := s\<rparr>)" "cfg_ok (r_cfg (?r\<lparr>r_cfg := s\<rparr>))"
        "settings (r_cfg (?r\<lparr>r_cfg := s\<rparr>)) q = Some y" by simp_all
      from capture_ok [OF this] obtain s2 where s2: "capture_parse_pos q (?r\<lparr>r_cfg := s\<rparr>) = Some (?r\<lparr>r_cfg := s2\<rparr>)"
        "cfg_ok s2" "keeps s s2" by auto
      have "chain s2 (r_parent r) ts"
        by (rule chain_keeps [OF ch keeps_trans [OF s'(3) keeps_trans [OF s(3) s2(3)]]])
      moreover have run: "store_value g f fmt r = Some (True, ?r\<lparr>r_cfg := s2\<rparr>)"
        using True s'(1) False s(1) s2(1) inp by (simp add: store_value_def)
      ultimately show ?thesis using s2(2) w by (intro actsI [OF run]) (simp_all add: parse_ok_def)
    qed
  next
    case False
    have "s_type x = (case ts of [] \<Rightarrow> T_group | t # _ \<Rightarrow> t)" using chain_live [OF ch] x(1) by auto
    then have "pending r" using place False by auto
    then obtain y where y: "settings (r_cfg r) (r_setting r) = Some y" "s_type y = T_none" "s_parent y = r_parent r"
      by (auto simp: pending_def)
    obtain x' where x': "f (r_setting r) (r_cfg r) = Some (True, put (r_setting r) x' (r_cfg r))"
      "s_parent x' = s_parent y" "cfg_ok (put (r_setting r) x' (r_cfg r))"
      using f w(2) y(1,2) by (fastforce simp: stores_def)
    let ?r = "r\<lparr>r_cfg := put (r_setting r) x' (r_cfg r)\<rparr>"
    have "settings (r_cfg ?r) (r_setting r) \<noteq> None" "cfg_ok (r_cfg ?r)" using x'(3) by (simp_all add: put_def)
    from put_format_ok [OF this(2,1), of fmt] obtain s where s: "put_format fmt (r_setting r) ?r = Some (?r\<lparr>r_cfg := s\<rparr>)"
      "cfg_ok s" "keeps (put (r_setting r) x' (r_cfg r)) s" by auto
    have "keeps (r_cfg r) (put (r_setting r) x' (r_cfg r))" by (rule keeps_put [OF y(1)]) (simp_all add: x' y)
    from chain_keeps [OF ch keeps_trans [OF this s(3)]] have "chain s (r_parent r) ts" .
    moreover have run: "store_value g f fmt r = Some (True, r\<lparr>r_cfg := s\<rparr>)"
      using False x'(1) s(1) inp by (simp add: store_value_def)
    ultimately show ?thesis using s(2) w by (intro actsI [OF run]) (simp_all add: parse_ok_def)
  qed
qed

text \<open>What a rule needs: its value, and a place for what it makes.\<close>

definition takes :: "int \<Rightarrow> yylval \<Rightarrow> bool" where
  "takes n v \<longleftrightarrow> (n = 11 \<or> n = 21 \<or> n = 22 \<longrightarrow> y_is_text v) \<and> (n = 23 \<or> n = 24 \<or> n = 26 \<longrightarrow> y_ival v \<noteq> None)
     \<and> (n = 25 \<or> n = 27 \<longrightarrow> y_llval v \<noteq> None) \<and> (n = 28 \<longrightarrow> y_fval v \<noteq> None)"

definition after :: "int \<Rightarrow> ctype list \<Rightarrow> ctype list" where
  "after n ts = (if n = 13 then T_array # ts else if n = 15 then T_list # ts else if n = 38 then T_group # ts
     else if n = 14 \<or> n = 16 \<or> n = 39 then tl ts else ts)"

lemma acts_weaken: "acts B r a P \<Longrightarrow> (\<And>r'. P r' \<Longrightarrow> Q r') \<Longrightarrow> acts B r a Q"
  by (auto simp: acts_def)

lemma text_value: "y_is_text v \<Longrightarrow> \<exists>t. v = Y_sval t \<and> NUL \<notin> set t"
  by (cases v) auto

lemma collect_string_acts:
  assumes "parse_ok B r" and "NUL \<notin> set t"
  shows "acts B r (collect_string t r) (\<lambda>r'. r_cfg r' = r_cfg r \<and> r_parent r' = r_parent r \<and> r_setting r' = r_setting r)"
proof -
  have ok: "strbuf_ok (r_string r)" using assms(1) by (simp add: parse_ok_def)
  then obtain u where "strbuf_contents (r_string r) = Some u" using strbuf_has_contents by blast
  from sb.append_fine [OF ok assms(2) this] obtain b where b: "strbuf_append (r_string r) t = Some b" "strbuf_ok b" by blast
  then have run: "collect_string t r = Some (True, r\<lparr>r_string := b\<rparr>)" by (simp add: collect_string_def)
  show ?thesis using assms(1) b(2) by (intro actsI [OF run]) (simp_all add: parse_ok_def)
qed

lemma store_string_acts:
  assumes ok: "parse_ok B r" and ch: "chain (r_cfg r) (r_parent r) ts"
    and place: "pending r \<or> (\<exists>us. ts = T_array # us \<or> ts = T_list # us)"
  shows "acts B r (store_string r) (\<lambda>r'. chain (r_cfg r') (r_parent r') ts)"
proof -
  have "strbuf_ok (r_string r)" using ok by (simp add: parse_ok_def)
  then obtain u where "strbuf_contents (r_string r) = Some u" using strbuf_has_contents by blast
  then obtain t where t: "strbuf_release (r_string r) = (Some t, strbuf_zero)"
    by (cases "strbuf_release (r_string r)") (auto simp: strbuf_contents_def strbuf_release_def)
  let ?r = "r\<lparr>r_string := strbuf_zero\<rparr>"
  have "parse_ok B ?r" using ok strbuf_zero_ok(1) by (simp add: parse_ok_def)
  moreover have "chain (r_cfg ?r) (r_parent ?r) ts" using ch by simp
  moreover have "pending ?r \<or> (\<exists>us. ts = T_array # us \<or> ts = T_list # us)" using place by (simp add: pending_def)
  ultimately have "acts B ?r (store_value (\<lambda>p. config_setting_set_string_elem p (- 1) t)
      (\<lambda>p. config_setting_set_string p t) None ?r) (\<lambda>r'. chain (r_cfg r') (r_parent r') ts)"
    by (rule store_value_acts [OF _ _ _ stores_string]) (simp add: config_setting_set_string_elem_def)
  then show ?thesis using t by (simp add: store_string_def acts_def)
qed

lemma yy_action_acts:
  assumes ok: "parse_ok B r" and ch: "chain (r_cfg r) (r_parent r) ts" and v: "takes n v"
    and opened: "n = 13 \<or> n = 15 \<or> n = 38 \<Longrightarrow> pending r \<or> (\<exists>us. ts = T_list # us)"
    and closed: "n = 14 \<or> n = 16 \<or> n = 39 \<Longrightarrow> ts \<noteq> []"
    and scalar: "23 \<le> n \<Longrightarrow> n \<le> 29 \<Longrightarrow> pending r \<or> (\<exists>us. ts = T_array # us \<or> ts = T_list # us)"
  shows "acts B r (yy_action n v r) (\<lambda>r'. chain (r_cfg r') (r_parent r') (after n ts)
    \<and> (n = 11 \<or> (n = 21 \<or> n = 22) \<and> pending r \<longrightarrow> pending r'))"
proof -
  consider (name) "n = 11" | (opens) "n = 13 \<or> n = 15 \<or> n = 38" | (closes) "n = 14 \<or> n = 16 \<or> n = 39"
    | (collects) "n = 21 \<or> n = 22" | (stores) "23 \<le> n" "n \<le> 29"
    | (other) "n \<noteq> 11" "n \<notin> {13, 14, 15, 16, 38, 39}" "n \<noteq> 21" "n \<noteq> 22" "n < 23 \<or> 29 < n" by fastforce
  then show ?thesis
  proof cases
    case name
    then obtain t where "v = Y_sval t" using v text_value by (auto simp: takes_def)
    with name action_setting_acts [OF ok ch, of t] show ?thesis by (simp add: yy_action_def after_def)
  next
    case opens
    have "acts B r (open_container t r) (\<lambda>r'. chain (r_cfg r') (r_parent r') (t # ts))" if "container t" for t
      by (rule open_container_acts [OF ok ch that opened [OF opens]])
    note this [of T_array] this [of T_list] this [of T_group]
    then show ?thesis using opens by (elim disjE) (simp_all add: yy_action_def after_def container_def del: chain.simps)
  next
    case closes
    then obtain t us where "ts = t # us" using closed by (cases ts) auto
    with close_container_acts [of B r t us] ok ch closes show ?thesis
      by (elim disjE) (simp_all add: yy_action_def after_def del: chain.simps)
  next
    case collects
    then obtain t where t: "v = Y_sval t" "NUL \<notin> set t" using v text_value by (auto simp: takes_def)
    have "acts B r (collect_string t r) (\<lambda>r'. chain (r_cfg r') (r_parent r') ts \<and> (pending r \<longrightarrow> pending r'))"
      by (rule acts_weaken [OF collect_string_acts [OF ok t(2)]]) (simp add: ch pending_def)
    with collects t(1) show ?thesis by (auto simp: yy_action_def after_def)
  next
    case stores
    note place = scalar [OF stores]
    have bool: "acts B r (store_bool i r) (\<lambda>r'. chain (r_cfg r') (r_parent r') ts)" for i
      unfolding store_bool_def
      by (rule store_value_acts [OF ok ch place stores_bool]) (simp add: config_setting_set_bool_elem_def)
    have int: "acts B r (store_int i f r) (\<lambda>r'. chain (r_cfg r') (r_parent r') ts)" for i f
      unfolding store_int_def
      by (rule store_value_acts [OF ok ch place stores_int]) (simp add: config_setting_set_int_elem_def)
    have int64: "acts B r (store_int64 i f r) (\<lambda>r'. chain (r_cfg r') (r_parent r') ts)" for i f
      unfolding store_int64_def
      by (rule store_value_acts [OF ok ch place stores_int64]) (simp add: config_setting_set_int64_elem_def)
    have float: "acts B r (store_float x r) (\<lambda>r'. chain (r_cfg r') (r_parent r') ts)" for x
      unfolding store_float_def
      by (rule store_value_acts [OF ok ch place stores_float]) (simp add: config_setting_set_float_elem_def)
    have "n = 23 \<or> n = 24 \<or> n = 25 \<or> n = 26 \<or> n = 27 \<or> n = 28 \<or> n = 29" using stores by linarith
    then show ?thesis using bool int int64 float store_string_acts [OF ok ch place] v
      by (elim disjE) (auto simp: yy_action_def after_def takes_def)
  next
    case other
    have "n \<notin> {23, 24, 25, 26, 27, 28, 29}" using other(5) by auto
    with other have run: "yy_action n v r = Some (True, r)" by (simp add: yy_action_def)
    show ?thesis by (rule actsI [OF run ok]) (use other ch in \<open>auto simp: after_def\<close>)
  qed
qed

section \<open>The parser between two steps\<close>

definition states :: "parser \<Rightarrow> int list" where
  "states p = map fst (p_stack p)"

definition running :: "(nat \<rightharpoonup> fentry) \<Rightarrow> parser \<Rightarrow> bool" where
  "running B p \<longleftrightarrow> stacked (states p) \<and> length (p_stack p) \<le> p_size p \<and> 0 < p_size p
     \<and> parse_ok B (p_rd p) \<and> chain (r_cfg (p_rd p)) (r_parent (p_rd p)) (nest (states p))
     \<and> (pend (states p) \<longrightarrow> pending (p_rd p))
     \<and> (\<forall>n. tab yydefact (hd (states p)) = Some n \<longrightarrow> takes n (snd (hd (p_stack p))))
     \<and> (p_char p = YYEMPTY \<or> token_ok (p_char p) (p_lval p)) \<and> p_errstatus p = 0"

fun final :: "label \<Rightarrow> bool" where
  "final (L_return n) = True"
| "final L_gone = True"
| "final _ = False"

fun label_ok :: "(nat \<rightharpoonup> fentry) \<Rightarrow> label \<Rightarrow> parser \<Rightarrow> bool" where
  "label_ok B (L_return n) p = (parse_ok B (p_rd p) \<and> n \<in> {0, 1, 2})"
| "label_ok B L_gone p = parse_ok B (p_rd p)"
| "label_ok B L_setstate p = running B p"
| "label_ok B L_backup p = (running B p \<and> length (p_stack p) < p_size p \<and> hd (states p) \<noteq> YYFINAL)"
| "label_ok B L_default p = (running B p \<and> length (p_stack p) < p_size p \<and> hd (states p) \<noteq> YYFINAL)"
| "label_ok B (L_reduce n) p = (running B p \<and> length (p_stack p) < p_size p \<and> hd (states p) \<noteq> YYFINAL
     \<and> tab yydefact (hd (states p)) = Some n \<and> n \<noteq> 0)"
| "label_ok B L_errlab p = running B p"
| "label_ok B L_errlab1 p = (stacked (states p) \<and> parse_ok B (p_rd p))"

text \<open>
  What comes nearer to the end: the final state, the end of the input, a lookahead that is used up, the top of
  the stack under reductions, and the label.
\<close>

fun label_rank :: "label \<Rightarrow> nat" where
  "label_rank L_setstate = 6" | "label_rank L_backup = 5" | "label_rank L_default = 4" | "label_rank (L_reduce n) = 3"
| "label_rank L_errlab = 2" | "label_rank L_errlab1 = 1" | "label_rank _ = 0"

definition lookahead_rank :: "int \<Rightarrow> nat" where
  "lookahead_rank c = (if c = YYEOF then 0 else if c = YYEMPTY then 1 else 2)"

definition measure_of :: "label \<Rightarrow> parser \<Rightarrow> nat \<times> nat list \<times> nat \<times> nat \<times> nat" where
  "measure_of l p = (if hd (states p) = YYFINAL then 0 else 1, rank (p_rd p), lookahead_rank (p_char p),
     potential (hd (states p)), label_rank l)"

abbreviation closer :: "((nat \<times> nat list \<times> nat \<times> nat \<times> nat) \<times> nat \<times> nat list \<times> nat \<times> nat \<times> nat) set" where
  "closer \<equiv> less_than <*lex*> nearer <*lex*> less_than <*lex*> less_than <*lex*> less_than"

definition steps_on :: "(nat \<rightharpoonup> fentry) \<Rightarrow> label \<Rightarrow> parser \<Rightarrow> (label \<times> parser) option \<Rightarrow> bool" where
  "steps_on B l p a \<longleftrightarrow> (\<exists>l' p'. a = Some (l', p') \<and> label_ok B l' p'
     \<and> (final l' \<or> (measure_of l' p', measure_of l p) \<in> closer))"

lemma wf_closer: "Wellfounded.wf closer"
  by (intro wf_lex_prod wf_less_than wf_nearer)

section \<open>Steps\<close>

lemma running_stack:
  assumes "running B p"
  obtains st v ss where "p_stack p = (st, v) # ss" "states p = st # map fst ss" "stacked (st # map fst ss)"
proof -
  have "p_stack p \<noteq> []" using assms by (auto simp: running_def states_def)
  with that assms show ?thesis by (cases "p_stack p") (auto simp: running_def states_def)
qed

lemma running_parse: "running B p \<Longrightarrow> parse_ok B (p_rd p)"
  by (simp add: running_def)

lemma running_size: "running B p \<Longrightarrow> p_size p \<le> n \<Longrightarrow> running B (p\<lparr>p_size := n\<rparr>)"
  by (simp add: running_def states_def)

lemma running_reader:
  assumes "running B p" and "parse_ok B r" and "same_parse (p_rd p) r"
  shows "running B (p\<lparr>p_rd := r\<rparr>)"
proof -
  have s: "settings (r_cfg r) = settings (r_cfg (p_rd p))" "r_parent r = r_parent (p_rd p)" "r_setting r = r_setting (p_rd p)"
    using assms(3) same_parse_cfg(1) [OF assms(3)] by (simp_all add: same_parse_def)
  have "chain (r_cfg r) (r_parent r) (nest (states p))"
    using assms(1) chain_keeps [OF _ keeps_refl [OF s(1)]] s(2) by (simp add: running_def)
  then show ?thesis using assms(1,2) s by (simp add: running_def states_def pending_def)
qed

lemma setstate_steps:
  assumes "running B p"
  shows "steps_on B L_setstate p (yysetstate p)"
proof -
  obtain st v ss where s: "p_stack p = (st, v) # ss" "states p = st # map fst ss" by (rule running_stack [OF assms])
  let ?go = "if st = YYFINAL then L_return 0 else L_backup"
  have go: "label_ok B ?go q \<and> (final ?go \<or> (measure_of ?go q, measure_of L_setstate p) \<in> closer)"
    if "running B q" "p_stack q = p_stack p" "length (p_stack q) < p_size q" "p_rd q = p_rd p" "p_char q = p_char p" for q
    using that s running_parse [OF that(1)] by (simp add: measure_of_def states_def)
  have depth: "length (p_stack p) \<le> p_size p" using assms by (simp add: running_def)
  consider (room) "length (p_stack p) < p_size p" | (full) "length (p_stack p) = p_size p" "10000 \<le> p_size p"
    | (grows) "length (p_stack p) = p_size p" "p_size p < 10000" using depth by linarith
  then show ?thesis
  proof cases
    case room
    then have "yysetstate p = Some (?go, p)" using depth s by (simp add: yysetstate_def state_of_def)
    moreover have "label_ok B ?go p \<and> (final ?go \<or> (measure_of ?go p, measure_of L_setstate p) \<in> closer)"
      by (rule go [OF assms refl room refl refl])
    ultimately show ?thesis unfolding steps_on_def by blast
  next
    case full
    obtain r where r: "yyerror ''memory exhausted'' (p_rd p) = Some r" "parse_ok B r"
      using yyerror_ok [OF running_parse [OF assms]] by blast
    have "yysetstate p = Some (L_return 2, p\<lparr>p_rd := r\<rparr>)"
      using full s r(1) by (simp add: yysetstate_def state_of_def grow_stack_def)
    then show ?thesis using r(2) by (simp add: steps_on_def)
  next
    case grows
    let ?n = "min (p_size p * 2) 10000"
    let ?q = "p\<lparr>p_size := ?n\<rparr>"
    have "0 < p_size p" using assms by (simp add: running_def)
    then have n: "p_size p < ?n" using grows by simp
    then have "yysetstate p = Some (?go, ?q)"
      using grows s by (simp add: yysetstate_def state_of_def grow_stack_def)
    moreover have "label_ok B ?go ?q \<and> (final ?go \<or> (measure_of ?go ?q, measure_of L_setstate p) \<in> closer)"
      by (rule go) (use running_size [OF assms, of ?n] n grows in simp_all)
    ultimately show ?thesis unfolding steps_on_def by blast
  qed
qed

text \<open>The lookahead.\<close>

definition nearer_or_eof :: "parser \<Rightarrow> parser \<Rightarrow> bool" where
  "nearer_or_eof p' p \<longleftrightarrow> (rank (p_rd p'), rank (p_rd p)) \<in> nearer
     \<or> rank (p_rd p') = rank (p_rd p) \<and> p_char p' = YYEOF \<and> p_char p = YYEMPTY"

lemma lookahead_ok:
  assumes "running B p"
  shows "\<exists>b p'. get_lookahead p = Some (b, p') \<and> parse_ok B (p_rd p') \<and> (b \<longrightarrow> running B p' \<and> p_stack p' = p_stack p
    \<and> p_size p' = p_size p \<and> token_ok (p_char p') (p_lval p') \<and> (p' = p \<or> nearer_or_eof p' p))"
proof (cases "p_char p = YYEMPTY")
  case True
  have ok: "lex_ok B (p_rd p)" "cfg_ok (r_cfg (p_rd p))" "strbuf_ok (r_string (p_rd p))"
    using running_parse [OF assms] by (simp_all add: parse_ok_def)
  from yylex_lexes [OF ok(1)] obtain t r where t: "yylex (p_rd p) = Some (t, r)" "lexed_ok B (p_rd p) t r" by blast
  have same: "same_parse (p_rd p) r" and "lex_ok B r" using t(2) by (simp_all add: lexed_ok_def)
  then have r: "parse_ok B r" using ok same_parse_cfg(2) [OF same] by (simp add: parse_ok_def same_parse_def)
  show ?thesis
  proof (cases t)
    case (L_token c v)
    then have v: "token_ok c v" "rank r = rank (p_rd p) \<and> c = 0 \<or> (rank r, rank (p_rd p)) \<in> nearer"
      using t(2) by (auto simp: lexed_ok_def)
    have "running B (p\<lparr>p_rd := r, p_char := c, p_lval := v\<rparr>)"
      using running_reader [OF assms r same] v(1) by (simp add: running_def states_def)
    then show ?thesis using True t(1) L_token v r by (auto simp: get_lookahead_def nearer_or_eof_def)
  qed (use True t(1) r in \<open>auto simp: get_lookahead_def\<close>)
next
  case False
  then show ?thesis using assms running_parse [OF assms] by (auto simp: get_lookahead_def running_def)
qed

lemma translates: "list_all (\<lambda>c. YYTRANSLATE c = Some (c - 255)) [258..277]"
  by code_simp

lemma translate_ok:
  assumes "token_ok c v"
  shows "\<exists>t. (if c \<le> YYEOF then Some YYEOF else YYTRANSLATE c) = Some t \<and> 0 \<le> t \<and> t \<le> 22 \<and> (t = 0 \<longleftrightarrow> c = 0)
    \<and> (\<forall>m. rule_symbol m t \<longrightarrow> takes m v)"
proof (cases "c = 0")
  case True
  then show ?thesis by (auto simp: rule_symbol_def takes_def)
next
  case False
  then have "258 \<le> c \<and> c \<le> 277" using assms by (auto simp: token_ok_def)
  then have "c \<in> set [258..277]" by (simp only: set_upto atLeastAtMost_iff)
  then have "YYTRANSLATE c = Some (c - 255)" by (rule bspec [OF translates [unfolded list_all_iff]])
  moreover have "rule_symbol m (c - 255) \<longrightarrow> takes m v" for m
  proof (cases "266 \<le> c")
    case True
    then show ?thesis by (auto simp: rule_symbol_def takes_def)
  next
    case small: False
    then have "c \<in> {258, 259, 260} \<and> (\<exists>i. v = Y_ival i) \<or> c \<in> {261, 262} \<and> (\<exists>i. v = Y_llval i)
      \<or> c = 263 \<and> (\<exists>x. v = Y_fval x) \<or> c \<in> {264, 265} \<and> y_is_text v"
      using assms False by (simp add: token_ok_def)
    then show ?thesis by (elim disjE conjE exE insertE emptyE) (simp_all add: rule_symbol_def takes_def)
  qed
  ultimately show ?thesis using \<open>258 \<le> c \<and> c \<le> 277\<close> by simp
qed

lemma default_closer:
  "states p' = states p \<Longrightarrow> p' = p \<or> nearer_or_eof p' p \<Longrightarrow> (measure_of L_default p', measure_of L_backup p) \<in> closer"
  by (auto simp: measure_of_def nearer_or_eof_def lookahead_rank_def)

lemma shift_closer:
  assumes "hd (states p) \<noteq> YYFINAL" and "p' = p \<or> nearer_or_eof p' p" and "p_char p' \<noteq> YYEMPTY"
    and "p_char p' = 0 \<Longrightarrow> g = YYFINAL"
  shows "(measure_of L_setstate (p'\<lparr>p_errstatus := e, p_char := YYEMPTY, p_stack := (g, v) # ss\<rparr>), measure_of L_backup p) \<in> closer"
  using assms by (auto simp: measure_of_def states_def nearer_or_eof_def lookahead_rank_def)

lemma shift_running:
  assumes r: "running B p" and room: "length (p_stack p) < p_size p"
    and s: "shift_ok (hd (states p)) t" and n: "tab yypact (hd (states p)) = Some n" "n \<noteq> YYPACT_NINF"
    and k: "0 \<le> n + t" "n + t \<le> YYLAST" "tab yycheck (n + t) = Some t" and v: "\<forall>m. rule_symbol m t \<longrightarrow> takes m (p_lval p)"
  shows "\<exists>g. tab yytable (n + t) = Some g \<and> 0 < g \<and> (t = 0 \<longrightarrow> g = 6)
    \<and> running B (p\<lparr>p_errstatus := 0, p_char := YYEMPTY, p_stack := (g, p_lval p) # p_stack p\<rparr>)"
proof -
  obtain st w ss where st: "p_stack p = (st, w) # ss" "states p = st # map fst ss" by (rule running_stack [OF r])
  obtain g m where g: "tab yytable (n + t) = Some g" "0 < g" "st \<in> set (preds g)" "opens g = []" "t = 0 \<longrightarrow> g = 6"
    "g \<noteq> 5" "g = 8 \<longrightarrow> st = 5" "g = 31 \<longrightarrow> st = 22" "tab yydefact g = Some m" "rule_symbol m t"
    using s n k st(2) by (auto simp: shift_ok_def split: option.splits)
  have l: "stacked (st # map fst ss)" using r st(2) by (simp add: running_def)
  have "pend (g # st # map fst ss) \<longrightarrow> pending (p_rd p)"
    using pend_shift [OF l g(6-8)] r st(2) by (auto simp: running_def)
  moreover have "stacked (g # st # map fst ss)" using l g(3) by simp
  ultimately have "running B (p\<lparr>p_errstatus := 0, p_char := YYEMPTY, p_stack := (g, p_lval p) # p_stack p\<rparr>)"
    using r room st g(4,9,10) v by (simp add: running_def states_def)
  then show ?thesis using g by blast
qed

lemma backup_steps:
  assumes "label_ok B L_backup p"
  shows "steps_on B L_backup p (yybackup p)"
proof -
  have r: "running B p" "length (p_stack p) < p_size p" "hd (states p) \<noteq> YYFINAL" using assms by simp_all
  obtain st v ss where s: "p_stack p = (st, v) # ss" "states p = st # map fst ss" "stacked (st # map fst ss)"
    by (rule running_stack [OF r(1)])
  obtain n where n: "tab yypact st = Some n" using has_shift [OF s(3), of 0] by (auto simp: shift_ok_def split: option.splits)
  show ?thesis
  proof (cases "n = YYPACT_NINF")
    case True
    then have "yybackup p = Some (L_default, p)" using s n by (simp add: yybackup_def state_of_def)
    then show ?thesis using r default_closer [of p p] by (simp add: steps_on_def)
  next
    case False
    obtain b p' where look: "get_lookahead p = Some (b, p')" "parse_ok B (p_rd p')"
      "b \<longrightarrow> running B p' \<and> p_stack p' = p_stack p \<and> p_size p' = p_size p \<and> token_ok (p_char p') (p_lval p')
        \<and> (p' = p \<or> nearer_or_eof p' p)" using lookahead_ok [OF r(1)] by blast
    show ?thesis
    proof (cases b)
      case b: False
      then have "yybackup p = Some (L_gone, p')" using s n False look(1) by (simp add: yybackup_def state_of_def)
      then show ?thesis using look(2) by (simp add: steps_on_def)
    next
      case True
      then have p': "running B p'" "p_stack p' = p_stack p" "p_size p' = p_size p" "token_ok (p_char p') (p_lval p')"
        "p' = p \<or> nearer_or_eof p' p" using look(3) by simp_all
      have st': "states p' = states p" using p'(2) by (simp add: states_def)
      obtain t where t: "(if p_char p' \<le> YYEOF then Some YYEOF else YYTRANSLATE (p_char p')) = Some t" "0 \<le> t" "t \<le> 22"
        "t = 0 \<longleftrightarrow> p_char p' = 0" "\<forall>m. rule_symbol m t \<longrightarrow> takes m (p_lval p')" using translate_ok [OF p'(4)] by blast
      have eof: "(if p_char p' \<le> YYEOF then p'\<lparr>p_char := YYEOF\<rparr> else p') = p'"
        using p'(4) by (cases p') (auto simp: token_ok_def)
      have empty: "p_char p' \<noteq> YYEMPTY" using p'(4) by (auto simp: token_ok_def)
      have sh: "shift_ok st t" by (rule has_shift [OF s(3) t(2,3)])
      define k where "k = n + t"
      have c: "\<exists>c. (if k < 0 \<or> YYLAST < k then Some (- 1) else tab yycheck k) = Some c"
        using sh n False by (auto simp: shift_ok_def k_def split: option.splits)
      then obtain c where c: "(if k < 0 \<or> YYLAST < k then Some (- 1) else tab yycheck k) = Some c" by blast
      have run: "yybackup p = (if k < 0 \<or> YYLAST < k \<or> c \<noteq> t then Some (L_default, p')
          else do {
            n \<leftarrow> tab yytable k;
            if n \<le> 0 then Some (L_reduce (- n), p')
            else Some (L_setstate, p'\<lparr>p_errstatus := (if p_errstatus p' \<noteq> 0 then p_errstatus p' - 1 else 0),
              p_char := YYEMPTY, p_stack := (n, p_lval p') # p_stack p'\<rparr>)
          })"
        unfolding yybackup_def using s n False look(1) True t(1) c by (simp only: state_of_def list.case prod.case
          bind.bind_lunit if_False not_True_eq_False Let_def eof k_def [symmetric])
      show ?thesis
      proof (cases "k < 0 \<or> YYLAST < k \<or> c \<noteq> t")
        case True
        then have "yybackup p = Some (L_default, p')" using run by simp
        moreover have "label_ok B L_default p'" using p' r st' by simp
        ultimately show ?thesis using default_closer [OF st' p'(5)] by (simp add: steps_on_def)
      next
        case no: False
        then have k: "0 \<le> n + t" "n + t \<le> YYLAST" "tab yycheck (n + t) = Some t" using c by (simp_all add: k_def)
        have "\<exists>g. tab yytable (n + t) = Some g \<and> 0 < g \<and> (t = 0 \<longrightarrow> g = 6)
          \<and> running B (p'\<lparr>p_errstatus := 0, p_char := YYEMPTY, p_stack := (g, p_lval p') # p_stack p'\<rparr>)"
          by (rule shift_running [OF p'(1) _ _ _ False k t(5)]) (use r(2) p' s st' sh n in simp_all)
        then obtain g where g: "tab yytable k = Some g" "0 < g" "t = 0 \<longrightarrow> g = 6"
          "running B (p'\<lparr>p_errstatus := 0, p_char := YYEMPTY, p_stack := (g, p_lval p') # p_stack p'\<rparr>)"
          unfolding k_def by blast
        have "p_errstatus p' = 0" using p'(1) by (simp add: running_def)
        then have "yybackup p = Some (L_setstate, p'\<lparr>p_errstatus := 0, p_char := YYEMPTY, p_stack := (g, p_lval p') # p_stack p'\<rparr>)"
          using run no g(1,2) by simp
        moreover have "p_char p' = 0 \<longrightarrow> g = YYFINAL" using g(3) t(4) by simp
        ultimately show ?thesis using g(4) shift_closer [OF r(3) p'(5) empty] by (simp add: steps_on_def)
      qed
    qed
  qed
qed

lemma default_steps:
  assumes "label_ok B L_default p"
  shows "steps_on B L_default p (yydefault p)"
proof -
  have r: "running B p" using assms by simp
  obtain st v ss where s: "p_stack p = (st, v) # ss" "states p = st # map fst ss" "stacked (st # map fst ss)"
    by (rule running_stack [OF r])
  obtain n where n: "tab yydefact st = Some n" using defaults [OF s(3)] by blast
  have "yydefault p = Some (if n = 0 then L_errlab else L_reduce n, p)" using s n by (simp add: yydefault_def state_of_def)
  then show ?thesis using assms s n by (simp add: steps_on_def measure_of_def)
qed

lemma errlab_steps:
  assumes "label_ok B L_errlab p"
  shows "steps_on B L_errlab p (yyerrlab p)"
proof -
  have r: "running B p" using assms by simp
  obtain q where q: "yyerror ''syntax error'' (p_rd p) = Some q" "parse_ok B q" "rank q = rank (p_rd p)"
    using yyerror_ok [OF running_parse [OF r]] by blast
  let ?p = "p\<lparr>p_nerrs := p_nerrs p + 1, p_rd := q\<rparr>"
  have "yyerrlab p = Some (L_errlab1, ?p)" using r q(1) by (simp add: yyerrlab_def running_def)
  moreover have "label_ok B L_errlab1 ?p" using r q(2) by (simp add: running_def states_def)
  moreover have "(measure_of L_errlab1 ?p, measure_of L_errlab p) \<in> closer" using q(3) by (simp add: measure_of_def states_def)
  ultimately show ?thesis by (simp add: steps_on_def)
qed

lemma errlab1_steps: "label_ok B L_errlab1 p \<Longrightarrow> steps_on B L_errlab1 p (yyerrlab1 p)"
  by (simp add: steps_on_def yyerrlab1_def states_def unwind_empties Let_def)

text \<open>A reduction: the places of its action, and the state of the reader after it.\<close>

lemma turns_after: "turns n (nest path) (opens g) \<Longrightarrow> opens g @ nest ss = after n (nest path @ nest ss)"
  by (auto simp: turns_def after_def length_Suc_conv split: if_splits)

lemma value_rules:
  "list_all (\<lambda>s. case tab yydefact s of None \<Rightarrow> True | Some n \<Rightarrow>
     (n = 13 \<or> n = 15 \<or> n = 38 \<longrightarrow> s \<in> {16, 17, 18}) \<and> (23 \<le> n \<and> n \<le> 29 \<longrightarrow> s \<in> set value_states)) [0..46]"
  by code_simp

lemma rule_place:
  assumes "stacked (s # ss)" and "tab yydefact s = Some n"
  shows "n = 13 \<or> n = 15 \<or> n = 38 \<Longrightarrow> pend (s # ss) \<or> (\<exists>us. nest (s # ss) = T_list # us)"
    and "23 \<le> n \<Longrightarrow> n \<le> 29 \<Longrightarrow> pend (s # ss) \<or> (\<exists>us. nest (s # ss) = T_array # us \<or> nest (s # ss) = T_list # us)"
proof -
  have "0 \<le> s \<and> s \<le> 46" using stacked_states [OF assms(1)] by simp
  then have "s \<in> set [0..46]" by (simp only: set_upto atLeastAtMost_iff)
  then have s: "(n = 13 \<or> n = 15 \<or> n = 38 \<longrightarrow> s \<in> {16, 17, 18}) \<and> (23 \<le> n \<and> n \<le> 29 \<longrightarrow> s \<in> set value_states)"
    using value_rules assms(2) unfolding list_all_iff by fastforce
  have "s \<in> set value_states" if "s \<in> {16, 17, 18}" using that by (auto simp: value_states_def)
  then show "n = 13 \<or> n = 15 \<or> n = 38 \<Longrightarrow> pend (s # ss) \<or> (\<exists>us. nest (s # ss) = T_list # us)"
    using s value_place [OF assms(1)] by blast
  show "23 \<le> n \<Longrightarrow> n \<le> 29 \<Longrightarrow> pend (s # ss) \<or> (\<exists>us. nest (s # ss) = T_array # us \<or> nest (s # ss) = T_list # us)"
    using s value_place [OF assms(1)] by blast
qed

lemma pend_reduced:
  assumes "pends n (path @ [b]) b g" and "pend (g # b # ss)"
  shows "n = 11 \<or> (n = 21 \<or> n = 22) \<and> pend (path @ b # ss)"
proof (cases "n = 21 \<or> n = 22")
  case True
  then have "path = [15] \<or> path = [31, 22]" and g: "g = 22" using assms(1) by (auto simp: pends_def split: if_splits)
  moreover have "b = 8" using assms(2) g by (cases ss) auto
  ultimately show ?thesis using True by (cases ss) (auto simp: value_states_def)
next
  case False
  show ?thesis
  proof (cases "n = 11")
    case no: False
    then have "g \<noteq> 5 \<and> g \<noteq> 8 \<and> g \<noteq> 31 \<and> g \<notin> set value_states" using assms(1) False by (simp add: pends_def)
    then show ?thesis using assms(2) by (cases ss) auto
  qed simp
qed

lemma not_with_value: "n \<notin> set with_value \<Longrightarrow> takes n v"
  by (simp add: takes_def with_value_def)

lemma reduce_steps:
  assumes "label_ok B (L_reduce n) p"
  shows "steps_on B (L_reduce n) p (yyreduce n p)"
proof -
  have r: "running B p" "length (p_stack p) < p_size p" "hd (states p) \<noteq> YYFINAL"
    "tab yydefact (hd (states p)) = Some n" "n \<noteq> 0" using assms by simp_all
  obtain s v ss where s: "p_stack p = (s, v) # ss" "states p = s # map fst ss" "stacked (s # map fst ss)"
    by (rule running_stack [OF r(1)])
  have n: "tab yydefact s = Some n" "s \<noteq> 6" using r(3,4) s(2) by simp_all
  obtain len b rest g path where red: "tab yyr2 n = Some len" "nat len < length (s # map fst ss)"
    "drop (nat len) (s # map fst ss) = b # rest" "goto_state n b = Some g" "stacked (g # b # rest)"
    "potential g < potential s" "s # map fst ss = path @ b # rest" "turns n (nest path) (opens g)"
    "pends n (path @ [b]) b g" "\<forall>m. tab yydefact g = Some m \<longrightarrow> m \<notin> set with_value"
    using reduction [OF s(3) n(1) r(5) n(2)] by blast
  let ?ts = "nest (states p)" and ?r = "p_rd p"
  have inv: "parse_ok B ?r" "chain (r_cfg ?r) (r_parent ?r) ?ts" "pend (states p) \<longrightarrow> pending ?r" "takes n v"
    using r(1) n(1) s(1,2) by (simp_all add: running_def)
  have nest: "?ts = nest path @ nest (b # rest)" unfolding s(2) red(7) nest_simps ..
  have "acts B ?r (yy_action n v ?r) (\<lambda>r'. chain (r_cfg r') (r_parent r') (after n ?ts)
      \<and> (n = 11 \<or> (n = 21 \<or> n = 22) \<and> pending ?r \<longrightarrow> pending r'))"
  proof (rule yy_action_acts [OF inv(1,2,4)])
    show "pending ?r \<or> (\<exists>us. ?ts = T_list # us)" if "n = 13 \<or> n = 15 \<or> n = 38"
      using rule_place(1) [OF s(3) n(1) that] inv(3) unfolding s(2) by blast
    show "?ts \<noteq> []" if "n = 14 \<or> n = 16 \<or> n = 39"
      using that red(8) nest by (auto simp: turns_def)
    show "pending ?r \<or> (\<exists>us. ?ts = T_array # us \<or> ?ts = T_list # us)" if "23 \<le> n" "n \<le> 29"
      using rule_place(2) [OF s(3) n(1) that] inv(3) unfolding s(2) by blast
  qed
  then obtain ok r' where a: "yy_action n v ?r = Some (ok, r')" "parse_ok B r'" "rank r' = rank ?r"
    "ok \<longrightarrow> chain (r_cfg r') (r_parent r') (after n ?ts) \<and> (n = 11 \<or> (n = 21 \<or> n = 22) \<and> pending ?r \<longrightarrow> pending r')"
    by (auto simp: acts_def)
  define y where "y = (if nat len = 0 then Y_none else snd (p_stack p ! (nat len - 1)))"
  let ?p = "p\<lparr>p_rd := r', p_stack := (g, y) # drop (nat len) (p_stack p)\<rparr>"
  have below: "map fst (drop (nat len) (p_stack p)) = b # rest" using red(3) unfolding s(1) by (simp only: drop_map [symmetric] list.map fst_conv)
  then have hd_b: "fst (hd (drop (nat len) (p_stack p))) = b" by (cases "drop (nat len) (p_stack p)") auto
  have room: "nat len < length (p_stack p)" using red(2) s(1) by simp
  show ?thesis
  proof (cases ok)
    case False
    then have "yyreduce n p = Some (L_return 1, p\<lparr>p_rd := r'\<rparr>)"
      using red(1) room a(1) s(1) by (simp add: yyreduce_def Let_def)
    then show ?thesis using a(2) by (simp add: steps_on_def)
  next
    case True
    have run: "yyreduce n p = Some (L_setstate, ?p)"
      using True red(1,4) room a(1) s(1) hd_b by (simp add: yyreduce_def Let_def y_def)
    have st: "states ?p = g # b # rest" using below by (simp add: states_def)
    have "nest (g # b # rest) = after n ?ts" unfolding nest using turns_after [OF red(8), of "b # rest"] by simp
    moreover have "pend (g # b # rest) \<longrightarrow> pending r'"
      using pend_reduced [OF red(9)] inv(3) a(4) True unfolding s(2) red(7) by blast
    ultimately have "running B ?p"
      using r(1,2) True a(2,4) st red(5,10) room not_with_value unfolding running_def st by simp
    moreover have "(measure_of L_setstate ?p, measure_of (L_reduce n) p) \<in> closer"
      using r(3) red(6) a(3) s(2) unfolding measure_of_def st by simp
    ultimately show ?thesis using run by (simp add: steps_on_def)
  qed
qed

lemma yystep_steps:
  assumes "label_ok B l p" and "\<not> final l"
  shows "steps_on B l p (yystep l p)"
  using assms setstate_steps backup_steps default_steps reduce_steps errlab_steps errlab1_steps
  by (cases l) (auto simp: yystep_def)

section \<open>Parsing\<close>

theorem yyrun_returns:
  assumes "label_ok B l p"
  shows "\<exists>res p'. yyrun l p = Some (res, p') \<and> parse_ok B (p_rd p') \<and> res \<in> {None, Some 0, Some 1, Some 2}"
  using assms
proof (induction "measure_of l p" arbitrary: l p rule: wf_induct_rule [OF wf_closer])
  case 1
  show ?case
  proof (cases "final l")
    case True
    then show ?thesis using 1(2) by (cases l) (subst yyrun.simps; auto)+
  next
    case False
    from yystep_steps [OF 1(2) this] obtain l' p' where s: "yystep l p = Some (l', p')" "label_ok B l' p'"
      "final l' \<or> (measure_of l' p', measure_of l p) \<in> closer" by (auto simp: steps_on_def)
    have "yyrun l p = yyrun l' p'" using False s(1) by (cases l) (subst yyrun.simps; simp)+
    moreover have "\<exists>res p''. yyrun l' p' = Some (res, p'') \<and> parse_ok B (p_rd p'') \<and> res \<in> {None, Some 0, Some 1, Some 2}"
    proof (cases "final l'")
      case True
      then show ?thesis using s(2) by (cases l') (subst yyrun.simps; auto)+
    next
      case False
      then show ?thesis using 1(1) [OF _ s(2)] s(3) by blast
    qed
    ultimately show ?thesis by simp
  qed
qed

lemma yyparse_returns:
  assumes "parse_ok B r" and "chain (r_cfg r) (r_parent r) []"
  shows "\<exists>res r'. yyparse r = Some (res, r') \<and> parse_ok B r' \<and> res \<in> {None, Some 0, Some 1, Some 2}"
proof -
  have "tab yydefact 0 = Some 2" by (simp add: tab_def rd_def yydefact_def)
  then have "label_ok B L_setstate (yyinit r)"
    using assms by (simp add: running_def yyinit_def states_def takes_def opens_def)
  from yyrun_returns [OF this] show ?thesis by (auto simp: yyparse_def)
qed

end
