(* ===== verification/Config_Reads.thy ===== *)
theory Config_Reads
  imports Config_Safety
begin

text \<open>
  The calls of the library that only read a configuration: getters, elements, members and lookups by
  path. Each is safe on a well-formed configuration as long as no number has to be converted to a type it
  does not fit. With the modifying calls of \<open>Config_Safety\<close> they are the calls a program makes between
  \<open>config_init\<close> and \<open>config_destroy\<close>.
\<close>

section \<open>The calls\<close>

datatype query =
  Get_int addr | Get_int64 addr | Get_float addr | Get_bool addr | Get_string addr | Get_format addr
| Get_length addr | Get_index addr | Get_elem addr u32 | Get_member addr "string option"
| Get_int_elem addr i32 | Get_int64_elem addr i32 | Get_float_elem addr i32 | Get_bool_elem addr i32
| Get_string_elem addr i32
| Member_int addr string | Member_int64 addr string | Member_float addr string | Member_bool addr string
| Member_string addr string
| Lookup addr string | Lookup_int string | Lookup_int64 string | Lookup_float string | Lookup_bool string
| Lookup_string string

text \<open>The state is left as it is; the answer is not looked at here.\<close>

definition answered :: "'a option \<Rightarrow> cstate \<Rightarrow> cstate option" where
  "answered r s = map_option (\<lambda>_. s) r"

fun ask :: "query \<Rightarrow> cstate \<Rightarrow> cstate option" where
  "ask (Get_int p) s = answered (config_setting_get_int p s) s"
| "ask (Get_int64 p) s = answered (config_setting_get_int64 p s) s"
| "ask (Get_float p) s = answered (config_setting_get_float p s) s"
| "ask (Get_bool p) s = answered (config_setting_get_bool p s) s"
| "ask (Get_string p) s = answered (config_setting_get_string p s) s"
| "ask (Get_format p) s = answered (config_setting_get_format p s) s"
| "ask (Get_length p) s = answered (config_setting_length p s) s"
| "ask (Get_index p) s = answered (config_setting_index p s) s"
| "ask (Get_elem p i) s = answered (config_setting_get_elem p i s) s"
| "ask (Get_member p name) s = answered (config_setting_get_member p name s) s"
| "ask (Get_int_elem p i) s = answered (config_setting_get_int_elem p i s) s"
| "ask (Get_int64_elem p i) s = answered (config_setting_get_int64_elem p i s) s"
| "ask (Get_float_elem p i) s = answered (config_setting_get_float_elem p i s) s"
| "ask (Get_bool_elem p i) s = answered (config_setting_get_bool_elem p i s) s"
| "ask (Get_string_elem p i) s = answered (config_setting_get_string_elem p i s) s"
| "ask (Member_int p n) s = answered (config_setting_lookup_int p n s) s"
| "ask (Member_int64 p n) s = answered (config_setting_lookup_int64 p n s) s"
| "ask (Member_float p n) s = answered (config_setting_lookup_float p n s) s"
| "ask (Member_bool p n) s = answered (config_setting_lookup_bool p n s) s"
| "ask (Member_string p n) s = answered (config_setting_lookup_string p n s) s"
| "ask (Lookup p path) s = answered (config_setting_lookup p path s) s"
| "ask (Lookup_int path) s = answered (config_lookup_int path s) s"
| "ask (Lookup_int64 path) s = answered (config_lookup_int64 path s) s"
| "ask (Lookup_float path) s = answered (config_lookup_float path s) s"
| "ask (Lookup_bool path) s = answered (config_lookup_bool path s) s"
| "ask (Lookup_string path) s = answered (config_lookup_string path s) s"

text \<open>
  What the caller has to see to: the settings it names exist, a member of a group is meant by a name, a number in
  a path is an \<open>int\<close>, and a floating-point value that is asked for as an integer with automatic
  conversion fits.
\<close>

fun numbers_fit :: "string \<Rightarrow> bool" where
  "numbers_fit [] = True"
| "numbers_fit (c # cs) = (atoi cs \<noteq> None \<and> numbers_fit cs)"

definition converts :: "addr option \<Rightarrow> cstate \<Rightarrow> bool" where
  "converts p s \<longleftrightarrow> (config_get_auto_convert s \<longrightarrow>
     (case p of
        None \<Rightarrow> True
      | Some p \<Rightarrow> (case settings s p of
          None \<Rightarrow> True
        | Some x \<Rightarrow> (case s_val x of V_float v \<Rightarrow> double_fits v | _ \<Rightarrow> True))))"

fun may_ask :: "query \<Rightarrow> cstate \<Rightarrow> bool" where
  "may_ask (Get_int p) s = (live p s \<and> converts (Some p) s)"
| "may_ask (Get_int64 p) s = (live p s \<and> converts (Some p) s)"
| "may_ask (Get_float p) s = live p s"
| "may_ask (Get_bool p) s = live p s"
| "may_ask (Get_string p) s = live p s"
| "may_ask (Get_format p) s = live p s"
| "may_ask (Get_length p) s = live p s"
| "may_ask (Get_index p) s = live p s"
| "may_ask (Get_elem p i) s = live p s"
| "may_ask (Get_member p name) s = (live p s \<and> (case settings s p of
       None \<Rightarrow> True | Some x \<Rightarrow> name \<noteq> None \<or> s_type x \<noteq> T_group))"
| "may_ask (Get_int_elem p i) s = (live p s \<and> converts (config_setting_get_elem p i s) s)"
| "may_ask (Get_int64_elem p i) s = (live p s \<and> converts (config_setting_get_elem p i s) s)"
| "may_ask (Get_float_elem p i) s = live p s"
| "may_ask (Get_bool_elem p i) s = live p s"
| "may_ask (Get_string_elem p i) s = live p s"
| "may_ask (Member_int p n) s = (live p s \<and> converts (config_setting_get_member p (Some n) s) s)"
| "may_ask (Member_int64 p n) s = (live p s \<and> converts (config_setting_get_member p (Some n) s) s)"
| "may_ask (Member_float p n) s = live p s"
| "may_ask (Member_bool p n) s = live p s"
| "may_ask (Member_string p n) s = live p s"
| "may_ask (Lookup p path) s = (live p s \<and> numbers_fit path)"
| "may_ask (Lookup_int path) s = (numbers_fit path \<and> converts (config_lookup path s) s)"
| "may_ask (Lookup_int64 path) s = (numbers_fit path \<and> converts (config_lookup path s) s)"
| "may_ask (Lookup_float path) s = numbers_fit path"
| "may_ask (Lookup_bool path) s = numbers_fit path"
| "may_ask (Lookup_string path) s = numbers_fit path"

section \<open>Getters\<close>

lemma answeredI: "\<exists>r. a = Some r \<Longrightarrow> answered a s = Some s"
  by (auto simp: answered_def)

lemma zero_fits: "double_to_i32 (Fin False 0 0) \<noteq> None" "double_to_i64 (Fin False 0 0) \<noteq> None"
  by code_simp+

lemma get_int_into_total:
  assumes "cfg_ok s" and "live p s" and "converts (Some p) s"
  shows "\<exists>r. get_int_into p s = Some r"
proof -
  obtain x where x: "settings s p = Some x" using assms(2) by (auto simp: live_def)
  note wf_value [OF assms(1) x]
  with x assms(3) zero_fits show ?thesis
    by (cases "s_val x"; cases "s_type x")
      (auto simp: get_int_into_def converts_def config_get_auto_convert_def double_fits_def container_def)
qed

lemma get_int64_into_total:
  assumes "cfg_ok s" and "live p s" and "converts (Some p) s"
  shows "\<exists>r. get_int64_into p s = Some r"
proof -
  obtain x where x: "settings s p = Some x" using assms(2) by (auto simp: live_def)
  note wf_value [OF assms(1) x]
  with x assms(3) zero_fits show ?thesis
    by (cases "s_val x"; cases "s_type x")
      (auto simp: get_int64_into_def converts_def config_get_auto_convert_def double_fits_def container_def)
qed

lemma get_float_into_total:
  assumes "cfg_ok s" and "live p s"
  shows "\<exists>r. get_float_into p s = Some r"
proof -
  obtain x where x: "settings s p = Some x" using assms(2) by (auto simp: live_def)
  with value_ok_reads(1,3,4) [of "s_val x"] wf_value [OF assms(1) x] show ?thesis
    by (cases "s_type x") (auto simp: get_float_into_def)
qed

lemma get_bool_total:
  assumes "cfg_ok s" and "settings s p = Some x"
  shows "\<exists>r. config_setting_get_bool p s = Some r" and "s_type x = T_bool \<Longrightarrow> \<exists>i. ival (s_val x) = Some i"
  using value_ok_reads(2) [of "s_val x"] wf_value [OF assms] assms(2)
  by (auto simp: config_setting_get_bool_def)

lemma get_string_total:
  assumes "cfg_ok s" and "settings s p = Some x"
  shows "\<exists>r. config_setting_get_string p s = Some r" and "s_type x = T_string \<Longrightarrow> \<exists>t. sval (s_val x) = Some t"
  using value_ok_reads(5) [of "s_val x"] wf_value [OF assms] assms(2)
  by (auto simp: config_setting_get_string_def)

lemma length_total:
  assumes "cfg_ok s" and "live p s"
  shows "\<exists>r. config_setting_length p s = Some r"
proof -
  obtain x where x: "settings s p = Some x" using assms(2) by (auto simp: live_def)
  then show ?thesis
    using value_ok_reads(6) [OF _ wf_value [OF assms(1) x]] by (auto simp: config_setting_length_def)
qed

lemma index_total:
  assumes "cfg_ok s" and "live p s"
  shows "\<exists>r. config_setting_index p s = Some r"
proof -
  obtain x where x: "settings s p = Some x" using assms(2) by (auto simp: live_def)
  show ?thesis
  proof (cases "s_parent x = NULL")
    case False
    then obtain y where y: "settings s (s_parent x) = Some y" "p \<in> set (kids y)"
      using wf_setting [OF assms(1) x] by (auto simp: setting_wf_def)
    then obtain l where "s_val y = V_list l" by (cases "s_val y") (auto simp: kids_def)
    with x y show ?thesis by (simp add: config_setting_index_def)
  qed (use x in \<open>simp add: config_setting_index_def\<close>)
qed

section \<open>Finding a setting\<close>

definition finds_live :: "addr option \<Rightarrow> cstate \<Rightarrow> bool" where
  "finds_live f s \<longleftrightarrow> (\<exists>e. f = Some e \<and> (e \<noteq> NULL \<longrightarrow> live e s))"

lemma found_then:
  assumes "finds_live f s" and "\<And>e. f = Some e \<Longrightarrow> live e s \<Longrightarrow> \<exists>r. g e = Some r"
  shows "\<exists>r. do { e \<leftarrow> f; if e = NULL then Some d else g e } = Some r"
  using assms by (auto simp: finds_live_def)

lemma found_if_found:
  assumes "finds_live f s" and "\<And>e. f = Some e \<Longrightarrow> live e s \<Longrightarrow> \<exists>r. get e s = Some r"
  shows "\<exists>r. do { e \<leftarrow> f; if_found get e s } = Some r"
  unfolding if_found_def using assms by (rule found_then)

lemma elem_found:
  assumes "cfg_ok s" and "live p s"
  shows "finds_live (config_setting_get_elem p i s) s"
proof -
  obtain x where x: "settings s p = Some x" using assms(2) by (auto simp: live_def)
  show ?thesis
    using get_elem_effect [OF assms(1) x, of i] kids_live [OF assms(1) x]
    by (auto simp: finds_live_def live_def)
qed

lemma member_found:
  assumes "cfg_ok s" and "live p s"
  shows "finds_live (config_setting_get_member p (Some n) s) s"
proof -
  obtain x where x: "settings s p = Some x" using assms(2) by (auto simp: live_def)
  show ?thesis
    using get_member_effect [OF assms(1) x, of n] kids_live [OF assms(1) x] member_child [of s x n]
    by (auto simp: finds_live_def live_def split: option.splits)
qed

lemma numbers_fit_suffix:
  "numbers_fit cs \<Longrightarrow> numbers_fit (dropWhile P cs)"
  by (induction cs) auto

lemma lookup_found:
  assumes "cfg_ok s" and "live p s" and "numbers_fit path"
  shows "finds_live (config_setting_lookup p path s) s"
  using assms(2,3)
proof (induction path arbitrary: p rule: length_induct)
  case (1 path)
  define q where "q = dropWhile path_token path"
  have fit: "numbers_fit q" unfolding q_def by (rule numbers_fit_suffix [OF 1(3)])
  have shorter: "length q \<le> length path" by (simp add: q_def length_dropWhile_le)
  show ?case
  proof (cases q)
    case Nil
    then show ?thesis
      using 1(2) by (subst config_setting_lookup.simps) (simp add: finds_live_def q_def)
  next
    case (Cons c cs)
    have c: "\<not> path_token c"
      using Cons by (simp add: q_def dropWhile_eq_Cons_conv)
    have go_on: "finds_live (config_setting_lookup e (dropWhile (\<lambda>c. \<not> path_token c) r) s) s"
      if "live e s" "r = cs \<or> r = q" for e r
    proof -
      have "length (dropWhile (\<lambda>c. \<not> path_token c) r) < length q"
        using that(2) c length_dropWhile_le [of "\<lambda>c. \<not> path_token c" cs] Cons by auto
      moreover have "numbers_fit (dropWhile (\<lambda>c. \<not> path_token c) r)"
        using that(2) fit Cons by (intro numbers_fit_suffix) auto
      ultimately show ?thesis using 1(1) that(1) shorter by (metis less_le_trans)
    qed
    show ?thesis
    proof (cases "c = CHR ''[''")
      case True
      obtain i where i: "atoi cs = Some i" using fit Cons by auto
      obtain e where e: "config_setting_get_elem p i s = Some e" "e \<noteq> NULL \<longrightarrow> live e s"
        using elem_found [OF assms(1) 1(2)] by (auto simp: finds_live_def)
      show ?thesis
        using go_on [of e cs] e i Cons True 1(2)
        by (subst config_setting_lookup.simps) (auto simp: q_def [symmetric] finds_live_def)
    next
      case False
      obtain e where e: "config_setting_get_member p (Some q) s = Some e" "e \<noteq> NULL \<longrightarrow> live e s"
        using member_found [OF assms(1) 1(2)] by (auto simp: finds_live_def)
      show ?thesis
        using go_on [of e q] e Cons False 1(2) c
        by (subst config_setting_lookup.simps) (auto simp: q_def [symmetric] finds_live_def Let_def)
    qed
  qed
qed

lemma root_lookup_found: "cfg_ok s \<Longrightarrow> numbers_fit path \<Longrightarrow> finds_live (config_lookup path s) s"
  unfolding config_lookup_def by (rule lookup_found) (use wf_root in \<open>auto simp: live_def\<close>)

section \<open>Every read is safe\<close>

lemma get_int_total: "cfg_ok s \<Longrightarrow> live p s \<Longrightarrow> converts (Some p) s \<Longrightarrow> \<exists>r. config_setting_get_int p s = Some r"
  using get_int_into_total [of s p] by (auto simp: config_setting_get_int_def)

lemma get_int64_total: "cfg_ok s \<Longrightarrow> live p s \<Longrightarrow> converts (Some p) s \<Longrightarrow> \<exists>r. config_setting_get_int64 p s = Some r"
  using get_int64_into_total [of s p] by (auto simp: config_setting_get_int64_def)

lemma get_float_total: "cfg_ok s \<Longrightarrow> live p s \<Longrightarrow> \<exists>r. config_setting_get_float p s = Some r"
  using get_float_into_total [of s p] by (auto simp: config_setting_get_float_def)

lemma typed_total:
  assumes "cfg_ok s" and "live p s"
  shows "\<exists>r. get_typed T_bool config_setting_get_bool p s = Some r"
    and "\<exists>r. get_typed T_string config_setting_get_string p s = Some r"
  using get_bool_total(1) [OF assms(1)] get_string_total(1) [OF assms(1)] assms(2)
  by (fastforce simp: get_typed_def live_def)+

lemma converts_found: "f = Some e \<Longrightarrow> converts f s \<Longrightarrow> converts (Some e) s"
  by simp

lemmas elem_defs = config_setting_get_int_elem_def config_setting_get_int64_elem_def config_setting_get_float_elem_def
  and member_defs = config_setting_lookup_int_def config_setting_lookup_int64_def config_setting_lookup_float_def
    config_setting_lookup_bool_def config_setting_lookup_string_def
  and path_defs = config_lookup_int_def config_lookup_int64_def config_lookup_float_def config_lookup_bool_def
    config_lookup_string_def
  and totals = get_int_total get_int64_total get_float_total get_int_into_total get_int64_into_total
    get_float_into_total typed_total length_total index_total

lemma bool_elem_total:
  assumes "cfg_ok s" and "live p s"
  shows "\<exists>r. config_setting_get_bool_elem p i s = Some r"
  unfolding config_setting_get_bool_elem_def
  by (rule found_then [OF elem_found [OF assms]])
    (use get_bool_total(2) [OF assms(1)] in \<open>auto simp: live_def\<close>)

lemma string_elem_total:
  assumes "cfg_ok s" and "live p s"
  shows "\<exists>r. config_setting_get_string_elem p i s = Some r"
  unfolding config_setting_get_string_elem_def
  by (rule found_then [OF elem_found [OF assms]])
    (use get_string_total(2) [OF assms(1)] in \<open>auto simp: live_def\<close>)

lemma ask_good:
  assumes "cfg_ok s" and "may_ask q s"
  shows "ask q s = Some s"
proof -
  note at_elem = found_then [OF elem_found [OF assms(1)]]
    and at_member = found_if_found [OF member_found [OF assms(1)]]
    and at_path = found_if_found [OF root_lookup_found [OF assms(1)]]
    and here = totals [OF assms(1)]
  have simple: "ask q s = Some s" if "q = Get_int p \<or> q = Get_int64 p \<or> q = Get_float p \<or> q = Get_length p \<or> q = Get_index p" for p
    using that assms(2) by (auto intro!: answeredI here)
  show ?thesis
  proof (cases q)
    case (Get_member p name)
    with assms(2) obtain x where x: "settings s p = Some x" "name \<noteq> None \<or> s_type x \<noteq> T_group" by (auto simp: live_def)
    have "\<exists>r. config_setting_get_member p name s = Some r"
    proof (cases name)
      case None
      then show ?thesis using get_member_null [OF x(1)] x(2) by auto
    next
      case (Some n)
      then show ?thesis using get_member_effect [OF assms(1) x(1), of n] by auto
    qed
    then show ?thesis using Get_member by (auto intro!: answeredI)
  next
    case (Get_bool p)
    with assms(2) get_bool_total(1) [OF assms(1)] show ?thesis by (auto simp: live_def intro!: answeredI)
  next
    case (Get_string p)
    with assms(2) get_string_total(1) [OF assms(1)] show ?thesis by (auto simp: live_def intro!: answeredI)
  next
    case (Get_format p)
    with assms(2) show ?thesis by (auto simp: live_def config_setting_get_format_def intro!: answeredI)
  next
    case (Get_elem p i)
    with assms(2) elem_found [OF assms(1), of p i] show ?thesis by (auto simp: finds_live_def intro!: answeredI)
  next
    case (Lookup p path)
    with assms(2) lookup_found [OF assms(1), of p path] show ?thesis by (auto simp: finds_live_def intro!: answeredI)
  next
    case (Get_bool_elem p i)
    with assms(2) show ?thesis by (auto intro!: answeredI bool_elem_total [OF assms(1)])
  next
    case (Get_string_elem p i)
    with assms(2) show ?thesis by (auto intro!: answeredI string_elem_total [OF assms(1)])
  qed (use assms(2) simple in \<open>auto simp: elem_defs member_defs path_defs
      intro!: answeredI at_elem at_member at_path here\<close>)
qed

section \<open>A program's calls\<close>

datatype lib_call = Change api_call | Ask query

fun lib_step :: "lib_call \<Rightarrow> cstate \<Rightarrow> cstate option" where
  "lib_step (Change c) s = config_call c s"
| "lib_step (Ask q) s = ask q s"

fun lib_allowed :: "lib_call \<Rightarrow> cstate \<Rightarrow> bool" where
  "lib_allowed (Change c) s = call_allowed c s"
| "lib_allowed (Ask q) s = may_ask q s"

lemma lib_step_good:
  assumes "cfg_ok s" and "lib_allowed c s"
  shows "\<exists>s'. lib_step c s = Some s' \<and> cfg_ok s'"
  using assms config_call_good ask_good by (cases c) auto

interpretation library: safe_interface cfg_ok lib_allowed lib_step
  by unfold_locales (rule lib_step_good)

end
