(* ===== verification/Config_Properties.thy ===== *)
theory Config_Properties
  imports Config_Reads
begin

text \<open>
  What the library promises its callers: safety of sequences of calls, what adding, finding,
  removing and destroying settings do, the values setters store and getters return, and how names and
  paths are resolved.
\<close>

section \<open>Safety\<close>

text \<open>Memory before a configuration is initialised.\<close>

definition config_memory :: cstate where
  "config_memory = \<lparr>settings = Map.empty, next_addr = 1, cfg = config_zero, destroyed = []\<rparr>"

lemma cfg_ok_init: "cfg_ok (config_init config_memory)"
  by (simp add: cfg_ok_def setting_wf_def config_init_def config_memory_def new_setting_def kids_def config_zero_def)

lemma init_root:
  "c_root (cfg (config_init config_memory)) = 1"
  "settings (config_init config_memory) = [1 \<mapsto> new_setting None T_group NULL]"
  "next_addr (config_init config_memory) = 2"
  by (simp_all add: config_init_def config_memory_def)



section \<open>Names\<close>

text \<open>The part of a string that names a member: up to the first path token.\<close>

definition name_part :: "string \<Rightarrow> string" where
  "name_part p = takeWhile (\<lambda>c. \<not> path_token c) p"

lemma name_part_simps:
  "name_end p \<Longrightarrow> name_part p = []"
  "\<not> name_end p \<Longrightarrow> name_part p = hd p # name_part (tl p)"
  by (cases p; simp add: name_part_def name_end_def)+

lemma schar_eq: "schar c = schar d \<longleftrightarrow> c = d"
proof
  assume eq: "schar c = schar d"
  have "of_char c < (256 :: int)" "of_char d < (256 :: int)" "0 \<le> (of_char c :: int)" "0 \<le> (of_char d :: int)"
    by (simp_all add: of_char_def split: char.splits)
  with eq have "of_char c = (of_char d :: int)" by (auto simp: schar_def Let_def split: if_splits)
  then show "c = d" by simp
qed simp

lemma name_compare_zero: "config_name_compare p q = 0 \<longleftrightarrow> name_part p = name_part q"
proof (induction p q rule: config_name_compare.induct)
  case (1 p q)
  show ?case
  proof (cases "name_end p \<or> name_end q")
    case True
    then show ?thesis
      by (auto simp: config_name_compare.simps [of p q] name_part_simps
          elim: contrapos_pp [of "name_part _ = []"])
  next
    case False
    show ?thesis
    proof (cases "hd p = hd q")
      case True
      with False 1 show ?thesis by (simp add: config_name_compare.simps [of p q] name_part_simps)
    next
      case neq: False
      then have "schar (hd p) \<noteq> schar (hd q)" by (simp add: schar_eq)
      with False neq show ?thesis by (simp add: config_name_compare.simps [of p q] name_part_simps)
    qed
  qed
qed

text \<open>C25. \<open>__config_name_compare\<close> finds two names equal exactly when they agree up to the first of the
  characters colon, dot and slash (or the end), whatever follows; so a path can be compared with a name in place.\<close>

theorem config_name_compare_iff:
  "config_name_compare p q = 0 \<longleftrightarrow>
     takeWhile (\<lambda>c. c \<notin> set '':./'') p = takeWhile (\<lambda>c. c \<notin> set '':./'') q"
  using name_compare_zero [of p q] by (simp add: name_part_def path_token_def)

section \<open>Adding and finding\<close>

lemma valid_name_part:
  assumes "config_validate_name n"
  shows "name_part n = n"
proof -
  have tok: "\<not> path_token c" if "is_alpha c \<or> is_digit c \<or> c \<in> set ''*_-''" for c
    using that by (auto simp: is_alpha_def is_digit_def path_token_def Let_def)
  have "list_all (\<lambda>c. is_alpha c \<or> is_digit c \<or> c \<in> set ''*_-'') n"
    using assms by (cases n) (auto simp: config_validate_name_def)
  then show ?thesis
    unfolding name_part_def by (intro takeWhile_eq_all_conv [THEN iffD2] ballI tok) (simp add: list_all_iff)
qed

lemma named_iff:
  "named s n c \<longleftrightarrow> (\<exists>x m. settings s c = Some x \<and> s_name x = Some m \<and> name_part n = name_part m)"
  by (auto simp: named_def name_compare_zero split: option.splits)

lemma member_None: "member s x n = None \<longleftrightarrow> (\<forall>c \<in> set (kids x). \<not> named s n c)"
  unfolding member_def by (rule find_enumerate_None)

lemma find_append:
  "find P (xs @ ys) = (case find P xs of None \<Rightarrow> find P ys | Some x \<Rightarrow> Some x)"
  by (induction xs) auto

lemma member_append:
  assumes "kids x' = kids x @ [q]" and "\<forall>c \<in> set (kids x). named s' n c = named s n c"
  shows "member s' x' n =
    (case member s x n of Some r \<Rightarrow> Some r | None \<Rightarrow> if named s' n q then Some (length (kids x), q) else None)"
proof -
  have "find (\<lambda>(j, c). named s' n c) (enumerate 0 (kids x)) = member s x n"
    using assms(2) unfolding member_def
    by (intro find_cong) (auto simp: in_set_enumerate_eq)
  then show ?thesis
    using assms(1) by (auto simp: member_def enumerate_append_eq find_append split: option.split)
qed

lemma index_from_last: "q \<notin> set cs \<Longrightarrow> index_from (cs @ [q]) i q = i + int (length cs)"
  by (induction cs arbitrary: i) auto

text \<open>What a new child means for the configuration.\<close>

lemma appended_settings:
  assumes "appended s p x new s'" and "cfg_ok s" and "settings s p = Some x"
  shows "\<exists>x'. settings s' p = Some x' \<and> kids x' = kids x @ [next_addr s] \<and> s_type x' = s_type x
    \<and> s_name x' = s_name x \<and> settings s' (next_addr s) = Some new \<and> p \<noteq> next_addr s
    \<and> (\<forall>c. c \<noteq> p \<longrightarrow> c \<noteq> next_addr s \<longrightarrow> settings s' c = settings s c)"
proof -
  have "p \<noteq> next_addr s" using wf_fresh [OF assms(2), of p] assms(3) by auto
  then show ?thesis using assms(1) by (auto simp: appended_def kids_def)
qed

lemma named_appended:
  assumes a: "appended s p x new s'" and ok: "cfg_ok s" and x: "settings s p = Some x"
    and c: "settings s c \<noteq> None"
  shows "named s' n c = named s n c"
proof -
  have "c \<noteq> next_addr s" using wf_fresh [OF ok, of c] c by auto
  moreover obtain x' where "settings s' p = Some x'" "s_name x' = s_name x"
    "\<forall>c. c \<noteq> p \<longrightarrow> c \<noteq> next_addr s \<longrightarrow> settings s' c = settings s c"
    using appended_settings [OF a ok x] by blast
  ultimately show ?thesis using x by (cases "c = p") (simp_all add: named_def)
qed

text \<open>C21. A successful \<open>config_setting_add\<close> to a group makes the new setting findable by its name, gives it
  the last index, and changes nothing else: every other member is found as before and every other
  setting is untouched. It fails, changing nothing, exactly when the name is not valid, is already
  taken or the type does not exist.\<close>

theorem config_setting_add_member:
  assumes "cfg_ok s" and "settings s p = Some x" and "s_type x = T_group"
  shows "(config_validate_name n \<and> 0 \<le> type \<and> type \<le> 8 \<and> config_setting_get_member p (Some n) s = Some NULL
      \<longrightarrow> (\<exists>q s'. config_setting_add p (Some n) type s = Some (q, s') \<and> q \<noteq> NULL \<and> settings s q = None
            \<and> config_setting_get_member p (Some n) s' = Some q
            \<and> config_setting_length p s' = Some (Suc (length (kids x)))
            \<and> config_setting_index q s' = Some (int (length (kids x)))
            \<and> (\<forall>m. name_part m \<noteq> n \<longrightarrow> config_setting_get_member p (Some m) s' = config_setting_get_member p (Some m) s)
            \<and> (\<forall>c. c \<noteq> p \<and> c \<noteq> q \<longrightarrow> settings s' c = settings s c)))
    \<and> (\<not> (config_validate_name n \<and> 0 \<le> type \<and> type \<le> 8 \<and> config_setting_get_member p (Some n) s = Some NULL)
      \<longrightarrow> config_setting_add p (Some n) type s = Some (NULL, s))"
proof (intro conjI impI)
  have cont: "container (s_type x)" using assms(3) by (simp add: container_def)
  have p0: "p \<noteq> NULL" by (rule wf_not_null [OF assms(1,2)])
  note gm = get_member_effect [OF assms(1,2)]
  assume "config_validate_name n \<and> 0 \<le> type \<and> type \<le> 8 \<and> config_setting_get_member p (Some n) s = Some NULL"
  then have v: "config_validate_name n" and free: "config_setting_get_member p (Some n) s = Some NULL"
    and ty: "ctype_of type = Some (all_ctypes ! nat type)" by (simp_all add: ctype_of_def)
  let ?q = "next_addr s" and ?new = "new_setting (Some n) (all_ctypes ! nat type) p"
  obtain s' where s': "config_setting_create p (Some n) (all_ctypes ! nat type) s = Some (?q, s')" "appended s p x ?new s'"
    using config_setting_create_effect [OF assms(1,2) cont] by blast
  then have add: "config_setting_add p (Some n) type s = Some (?q, s')"
    using assms(2,3) p0 v free ty by (simp add: config_setting_add_def)
  obtain x' where x': "settings s' p = Some x'" "kids x' = kids x @ [?q]" "s_type x' = s_type x"
    and q: "settings s' ?q = Some ?new" and rest: "\<forall>c. c \<noteq> p \<longrightarrow> c \<noteq> ?q \<longrightarrow> settings s' c = settings s c"
    and pq: "p \<noteq> ?q"
    using appended_settings [OF s'(2) assms(1,2)] by blast
  have ok': "cfg_ok s'" by (rule wf_appended [OF assms(1,2) cont s'(2)])
  have old: "\<forall>c \<in> set (kids x). named s' m c = named s m c" for m
    using named_appended [OF s'(2) assms(1,2)] kids_live [OF assms(1,2)] by blast
  have mem: "member s' x' m = (case member s x m of Some r \<Rightarrow> Some r
      | None \<Rightarrow> if named s' m ?q then Some (length (kids x), ?q) else None)" for m
    by (rule member_append [OF x'(2) old])
  have nq: "named s' m ?q \<longleftrightarrow> name_part m = n" for m
    using q valid_name_part [OF v] by (auto simp: named_iff new_setting_def)
  have q0: "?q \<noteq> NULL" using wf_setting [OF assms(1,2)] by (simp add: setting_wf_def)
  have "member s x n = None"
    using free gm assms(3) member_child [of s x n] wf_child [OF assms(1,2)] by (fastforce split: option.splits)
  then have "config_setting_get_member p (Some n) s' = Some ?q"
    using get_member_effect [OF ok' x'(1)] mem [of n] nq valid_name_part [OF v] x'(3) assms(3) by simp
  moreover have "config_setting_get_member p (Some m) s' = config_setting_get_member p (Some m) s"
    if "name_part m \<noteq> n" for m
    using get_member_effect [OF ok' x'(1)] gm mem [of m] nq that x'(3) assms(3) by (auto split: option.split)
  moreover have vl: "s_val x' = V_list l \<Longrightarrow> elems l = kids x @ [?q]" for l
    using x'(2) by (simp add: kids_def)
  have "\<exists>l. s_val x' = V_list l" using x'(2) by (auto simp: kids_def split: cvalue.splits)
  then obtain l where l: "s_val x' = V_list l" "elems l = kids x @ [?q]" using vl by blast
  have qk: "?q \<notin> set (kids x)" using kids_live [OF assms(1,2)] wf_fresh [OF assms(1), of ?q] by force
  have "config_setting_length p s' = Some (Suc (length (kids x)))"
    using x' l cont by (simp add: config_setting_length_def)
  moreover have "config_setting_index ?q s' = Some (int (length (kids x)))"
    using q x' l p0 index_from_last [OF qk] by (simp add: config_setting_index_def new_setting_def)
  ultimately show "\<exists>q s'. config_setting_add p (Some n) type s = Some (q, s') \<and> q \<noteq> NULL \<and> settings s q = None
            \<and> config_setting_get_member p (Some n) s' = Some q
            \<and> config_setting_length p s' = Some (Suc (length (kids x)))
            \<and> config_setting_index q s' = Some (int (length (kids x)))
            \<and> (\<forall>m. name_part m \<noteq> n \<longrightarrow> config_setting_get_member p (Some m) s' = config_setting_get_member p (Some m) s)
            \<and> (\<forall>c. c \<noteq> p \<and> c \<noteq> q \<longrightarrow> settings s' c = settings s c)"
    using add q0 rest wf_fresh [OF assms(1), of ?q] by (intro exI [of _ ?q] exI [of _ s']) simp
next
  assume "\<not> (config_validate_name n \<and> 0 \<le> type \<and> type \<le> 8 \<and> config_setting_get_member p (Some n) s = Some NULL)"
  then show "config_setting_add p (Some n) type s = Some (NULL, s)"
    using assms(2,3) get_member_effect [OF assms(1,2), of n]
    by (auto simp: config_setting_add_def ctype_of_def Let_def)
qed

text \<open>A configuration with a group, a number, a list and a text.\<close>

definition demo_calls :: "api_call list" where
  "demo_calls = [Add 1 (Some ''port'') 2, Set_int 2 80, Add 1 (Some ''hosts'') 8,
     Set_string_elem 3 (- 1) (Some ''a''), Add 1 (Some ''limits'') 1, Add 5 (Some ''max'') 3, Set_int64 6 9,
     Set_hook 6 77, Set_destructor True]"

definition demo_config :: cstate where
  "demo_config = (case run_list config_call demo_calls (config_init config_memory) of Some s \<Rightarrow> s)"

lemma demo_config_ok: "cfg_ok demo_config"
proof -
  have "allowed_all call_allowed config_call demo_calls (config_init config_memory)" by code_simp
  then obtain s where "run_list config_call demo_calls (config_init config_memory) = Some s" "cfg_ok s"
    using config_api.calls_good [OF cfg_ok_init] by blast
  then show ?thesis by (simp add: demo_config_def)
qed

text \<open>Its settings, evaluated once.\<close>

lemma demo_settings:
  "settings demo_config 1 = Some \<lparr>s_name = None, s_type = T_group, s_format = 0,
     s_val = V_list \<lparr>elems = [2, 3, 5], lcap = 16\<rparr>, s_parent = 0, s_hook = 0, s_line = 0, s_file = None\<rparr>"
  "settings demo_config 2 = Some \<lparr>s_name = Some ''port'', s_type = T_int, s_format = 0,
     s_val = V_int 80, s_parent = 1, s_hook = 0, s_line = 0, s_file = None\<rparr>"
  "settings demo_config 5 = Some \<lparr>s_name = Some ''limits'', s_type = T_group, s_format = 0,
     s_val = V_list \<lparr>elems = [6], lcap = 16\<rparr>, s_parent = 1, s_hook = 0, s_line = 0, s_file = None\<rparr>"
  by code_simp+

theorem config_setting_add_member_witness:
  "\<exists>q s'. config_setting_add 5 (Some ''min'') 2 demo_config = Some (q, s')
     \<and> config_setting_get_member 5 (Some ''min'') s' = Some q \<and> config_setting_index q s' = Some 1"
proof -
  have free: "config_setting_get_member 5 (Some ''min'') demo_config = Some NULL" by code_simp
  have "config_validate_name ''min''" by code_simp
  with free config_setting_add_member [OF demo_config_ok demo_settings(3), of "''min''" 2] show ?thesis
    by (auto simp: kids_def)
qed

section \<open>Removing and destroying\<close>

lemma remove1_nth:
  "distinct xs \<Longrightarrow> i < length xs \<Longrightarrow> remove1 (xs ! i) xs = take i xs @ drop (Suc i) xs"
proof (induction xs arbitrary: i)
  case (Cons y xs)
  then show ?case by (cases i) auto
qed simp

text \<open>C22. Removing a member of a group removes exactly its tree: the tree's settings are freed, each once,
  every other setting stays, the other members keep their order, and if a destructor is set every hook in the
  tree is handed to it once, children before their parent. If no member has the name, nothing changes.\<close>

theorem config_setting_remove_member:
  assumes "cfg_ok s" and "settings s p = Some x" and "s_type x = T_group"
    and "config_setting_get_member p (Some n) s = Some c"
  shows "if c = NULL then config_setting_remove p (Some n) s = Some (False, s)
    else \<exists>s' x' t. config_setting_remove p (Some n) s = Some (True, s') \<and> cfg_ok s'
      \<and> rep (settings s) t \<and> ptr t = c \<and> distinct (addrs t) \<and> p \<notin> set (addrs t)
      \<and> dom (settings s') = dom (settings s) - set (addrs t)
      \<and> (\<forall>d. d \<noteq> p \<and> d \<notin> set (addrs t) \<longrightarrow> settings s' d = settings s d)
      \<and> settings s' p = Some x' \<and> kids x' = remove1 c (kids x)
      \<and> destroyed s' = destroyed s @ (if c_destructor (cfg s) then hooks (settings s) t else [])"
proof -
  have gm: "c = (case member s x n of None \<Rightarrow> NULL | Some (i, c) \<Rightarrow> c)"
    using get_member_effect [OF assms(1,2)] assms(3,4) by simp
  note eff = config_setting_remove_effect [OF assms(1,2), of n]
  show ?thesis
  proof (cases "member s x n")
    case None
    then show ?thesis using gm eff assms(3) by simp
  next
    case (Some r)
    then obtain i where m: "member s x n = Some (i, c)" using gm by (cases r) simp
    note mc = member_child [OF m]
    have c: "p < c" "c \<noteq> NULL" using mc wf_child [OF assms(1,2), of c] by auto
    from eff m assms(3) obtain s' where s': "config_setting_remove p (Some n) s = Some (True, s')"
      "removed s p x i s'" "cfg_ok s'" by auto
    then obtain l t where lt: "s_val x = V_list l" "rep (settings s) t" "ptr t = kids x ! i"
      "s' = s\<lparr>settings := (settings s)(p \<mapsto> drop_child i x l) |` (- set (addrs t)),
                destroyed := destroyed s @ hooks_gone s [t]\<rparr>" by (auto simp: removed_def)
    have pt: "p \<notin> set (addrs t)" using addrs_live [OF assms(1) lt(2)] lt(3) mc c(1) by fastforce
    have kx: "kids x = elems l" using lt(1) by (simp add: kids_def)
    have "distinct (kids x)" using wf_setting [OF assms(1,2)] by (simp add: setting_wf_def)
    then have "kids (drop_child i x l) = remove1 c (kids x)"
      using remove1_nth [of "elems l" i] mc unfolding kx by (simp add: drop_child_def kids_def)
    moreover have "dom (settings s') = dom (settings s) - set (addrs t)"
      using lt(4) pt assms(2) by (auto simp: restrict_map_def split: if_splits)
    moreover have "settings s' d = settings s d" if "d \<noteq> p" "d \<notin> set (addrs t)" for d
      using that lt(4) by (simp add: restrict_map_def)
    moreover have "settings s' p = Some (drop_child i x l)" using lt(4) pt by (simp add: restrict_map_def)
    moreover have "destroyed s' = destroyed s @ (if c_destructor (cfg s) then hooks (settings s) t else [])"
      using lt(4) by (simp add: hooks_gone_def)
    moreover have "ptr t = c" using lt(3) mc by simp
    ultimately show ?thesis
      using s'(1,3) lt(2) pt c(2) addrs_distinct [OF assms(1) lt(2)] by (simp only: if_False) blast
  qed
qed

theorem config_setting_remove_member_witness:
  "\<exists>s' t. config_setting_remove 1 (Some ''limits'') demo_config = Some (True, s') \<and> cfg_ok s'
     \<and> ptr t = 5 \<and> dom (settings s') = dom (settings demo_config) - set (addrs t)"
proof -
  have "config_setting_get_member 1 (Some ''limits'') demo_config = Some 5" by code_simp
  from config_setting_remove_member [OF demo_config_ok demo_settings(1) _ this] show ?thesis by auto
qed

lemma root_tree_complete:
  assumes "cfg_ok s" and "rep (settings s) t" and "ptr t = c_root (cfg s)"
  shows "set (addrs t) = dom (settings s)"
proof
  show "set (addrs t) \<subseteq> dom (settings s)" using addrs_live [OF assms(1,2)] by auto
  have "q \<in> set (addrs t)" if "settings s q = Some x" for q x
    using that
  proof (induction q arbitrary: x rule: less_induct)
    case (less q)
    note w = wf_setting [OF assms(1) less.prems]
    show ?case
    proof (cases "s_parent x = NULL")
      case True
      then show ?thesis using w assms(3) ptr_in_addrs [of t] by (simp add: setting_wf_def)
    next
      case False
      then obtain y where y: "settings s (s_parent x) = Some y" "q \<in> set (kids y)"
        using w by (auto simp: setting_wf_def)
      then have "s_parent x < q" using wf_child [OF assms(1) y] by simp
      then show ?thesis using addrs_kids [OF assms(2) _ y] less.IH y(1) by blast
    qed
  qed
  then show "dom (settings s) \<subseteq> set (addrs t)" by auto
qed

lemma config_destroy_effect:
  assumes "cfg_ok s"
  shows "\<exists>t. rep (settings s) t \<and> ptr t = c_root (cfg s) \<and> distinct (addrs t) \<and> set (addrs t) = dom (settings s)
    \<and> config_destroy s = Some (s\<lparr>settings := Map.empty, destroyed := destroyed s @ hooks_gone s [t], cfg := config_zero\<rparr>)"
proof -
  obtain r where r: "settings s (c_root (cfg s)) = Some r" using wf_root [OF assms] by auto
  obtain t where t: "rep (settings s) t" "ptr t = c_root (cfg s)" using rep_exists [OF assms r] by blast
  have dist: "distinct (addrs t)" by (rule addrs_distinct [OF assms t(1)])
  have all: "set (addrs t) = dom (settings s)" by (rule root_tree_complete [OF assms t])
  have "destroy_settings (map ptr [t]) s =
    Some (s\<lparr>settings := settings s |` (- set (concat (map addrs [t]))),
            destroyed := destroyed s @ hooks_gone s [t]\<rparr>)"
  proof (rule destroy_settings_effect)
    show "NULL \<notin> set (concat (map addrs [t]))" using all wf_not_null [OF assms] by auto
    show "\<forall>p \<in> set (concat (map addrs [t])). \<forall>x. settings s p = Some x \<longrightarrow> value_ok (s_type x) (s_val x)"
      using wf_value [OF assms] by auto
  qed (use t dist in auto)
  moreover have "settings s |` (- dom (settings s)) = Map.empty"
    by (auto simp: restrict_map_def fun_eq_iff domIff)
  ultimately have "config_destroy s = Some (s\<lparr>settings := Map.empty, destroyed := destroyed s @ hooks_gone s [t],
      cfg := config_zero\<rparr>)"
    using t(2) all by (simp add: config_destroy_def config_setting_destroy_def with_cfg_def)
  then show ?thesis using t dist all by blast
qed

text \<open>C23. \<open>config_destroy\<close> on a well-formed configuration terminates and leaks nothing: every setting there
  is is freed, each exactly once, and if a destructor is set it gets the hook of every setting that has
  one.\<close>

theorem config_destroy_frees_all:
  assumes "cfg_ok s"
  shows "\<exists>s' t. config_destroy s = Some s' \<and> settings s' = Map.empty \<and> cfg s' = config_zero
    \<and> rep (settings s) t \<and> ptr t = c_root (cfg s) \<and> distinct (addrs t) \<and> set (addrs t) = dom (settings s)
    \<and> destroyed s' = destroyed s @ (if c_destructor (cfg s) then hooks (settings s) t else [])"
  using config_destroy_effect [OF assms] by (auto simp: hooks_gone_def)

theorem config_destroy_frees_all_witness:
  "\<exists>s'. config_destroy demo_config = Some s' \<and> settings s' = Map.empty"
  using config_destroy_frees_all [OF demo_config_ok] by blast

section \<open>Values\<close>

lemma put_same: "settings (put p x s) p = Some x" "cfg (put p x s) = cfg s"
  by (simp_all add: put_def)

text \<open>A value in the 32-bit range keeps its value when it is cut to 32 bits.\<close>

lemma sint_narrow:
  assumes "- (2 ^ 31) \<le> sint (v :: i64)" and "sint v < 2 ^ 31"
  shows "sint (ucast v :: i32) = sint v"
proof -
  have "sint (ucast v :: i32) = signed_take_bit 31 (sint v)"
    by transfer (simp add: signed_take_bit_take_bit)
  also have "\<dots> = sint v" by (rule signed_take_bit_int_eq_self) (use assms in simp_all)
  finally show ?thesis .
qed

lemmas getters = get_int_into_def get_int64_into_def get_float_into_def config_setting_get_int_def
  config_setting_get_int64_def config_setting_get_float_def config_setting_get_bool_def
  config_setting_get_string_def

lemmas setters = config_setting_set_int_def config_setting_set_int64_def config_setting_set_float_def
  config_setting_set_bool_def config_setting_set_string_def

text \<open>C26. What a setter stores, the getter of the same type returns, bit for bit, for a setting of that type
  and for one without a type, which takes the type of the first value stored.\<close>

theorem set_then_get:
  assumes "cfg_ok s" and "settings s p = Some x"
  shows "(s_type x \<in> {T_none, T_int} \<longrightarrow>
      (\<exists>s'. config_setting_set_int p i s = Some (True, s') \<and> config_setting_get_int p s' = Some i))
    \<and> (s_type x \<in> {T_none, T_int64} \<longrightarrow>
      (\<exists>s'. config_setting_set_int64 p l s = Some (True, s') \<and> config_setting_get_int64 p s' = Some l))
    \<and> (s_type x \<in> {T_none, T_float} \<longrightarrow>
      (\<exists>s'. config_setting_set_float p d s = Some (True, s') \<and> config_setting_get_float p s' = Some d))
    \<and> (s_type x \<in> {T_none, T_bool} \<longrightarrow>
      (\<exists>s'. config_setting_set_bool p b s = Some (True, s') \<and> config_setting_get_bool p s' = Some b))
    \<and> (s_type x \<in> {T_none, T_string} \<longrightarrow>
      (\<exists>s'. config_setting_set_string p t s = Some (True, s') \<and> config_setting_get_string p s' = Some t))"
proof -
  have "\<exists>r. sval (s_val x) = Some r" if "s_type x \<in> {T_none, T_string}"
    using that wf_value [OF assms] by (cases "s_val x") (auto simp: container_def)
  then have "s_type x \<in> {T_none, T_string} \<longrightarrow>
      (\<exists>s'. config_setting_set_string p t s = Some (True, s') \<and> config_setting_get_string p s' = Some t)"
    using assms by (auto simp: setters getters put_same Let_def split: option.split)
  then show ?thesis using assms by (auto simp: setters getters put_same)
qed

theorem set_then_get_witness:
  "\<exists>s'. config_setting_set_int 2 (- 5) demo_config = Some (True, s') \<and> config_setting_get_int 2 s' = Some (- 5)"
  using set_then_get [OF demo_config_ok demo_settings(2), of "- 5"] by simp

text \<open>A 64-bit value that does not fit 32 bits becomes 0 where the code narrows it, when it is stored
  into a 32-bit setting and when a 64-bit setting is read as an \<open>int\<close>; a value that fits survives both.\<close>

theorem int64_narrowing:
  assumes "settings s p = Some x" and "s_type x = T_int"
    and "settings s q = Some y" and "s_type y = T_int64" and "s_val y = V_int64 v"
  shows "\<exists>s'. config_setting_set_int64 p v s = Some (True, s')
    \<and> config_setting_get_int64 p s' = Some (if - (2 ^ 31) \<le> sint v \<and> sint v < 2 ^ 31 then v else 0)
    \<and> config_setting_get_int q s = Some (if - (2 ^ 31) \<le> sint v \<and> sint v < 2 ^ 31 then ucast v else 0)"
proof -
  have fits: "word_of_int (sint (ucast v :: i32)) = v" if "- (2 ^ 31) \<le> sint v" "sint v < 2 ^ 31"
  proof -
    have "sint (ucast v :: i32) = sint v"
      using that by (simp add: sint_narrow)
    then show ?thesis by simp
  qed
  show ?thesis
    using assms fits by (auto simp: setters getters put_same not_le not_less)
qed

theorem int64_narrowing_witness:
  "\<exists>s'. config_setting_set_int64 2 5000000000 (put 6 ((new_setting None T_int64 5)\<lparr>s_val := V_int64 5000000000\<rparr>) demo_config)
       = Some (True, s') \<and> config_setting_get_int64 2 s' = Some 0"
proof -
  let ?y = "(new_setting None T_int64 5)\<lparr>s_val := V_int64 5000000000\<rparr>"
  have "settings (put 6 ?y demo_config) 2 = settings demo_config 2" by (simp add: put_def)
  then show ?thesis
    using int64_narrowing [of "put 6 ?y demo_config" 2 _ 6 ?y 5000000000] demo_settings(2) put_same(1) [of 6 ?y demo_config]
    by (auto simp: new_setting_def)
qed

lemma nbits_16777217: "nbits 16777217 = 25"
  by (simp add: nbits.simps)

text \<open>With automatic conversion an \<open>int\<close> stored into a floating-point setting is read back unchanged
  when its absolute value is below \<open>2 ^ 24\<close>, but not in general: the setter converts to \<open>float\<close> and not to
  \<open>double\<close>, so 16777217 comes back as 16777216.\<close>

theorem int_through_float_setting:
  assumes "settings s p = Some x" and "s_type x = T_float" and "config_get_auto_convert s"
  shows "\<exists>s'. config_setting_set_int p v s = Some (True, s')
    \<and> (\<bar>sint v\<bar> < 2 ^ 24 \<longrightarrow> config_setting_get_int p s' = Some v)
    \<and> (v = 16777217 \<longrightarrow> config_setting_get_int p s' = Some 16777216)"
proof -
  have opt: "c_options (cfg s) AND OPTION_AUTOCONVERT \<noteq> 0"
    using assms(3) by (simp add: config_get_auto_convert_def)
  have "double_to_i32 (int_to_float (sint v)) = Some v" if "\<bar>sint v\<bar> < 2 ^ 24"
  proof -
    have "- (2 ^ 31) \<le> sint v \<and> sint v < 2 ^ 31" using that by auto
    then show ?thesis using that by (simp add: double_to_i32_def trunc_int_to_float)
  qed
  moreover have "double_to_i32 (int_to_float (sint (16777217 :: i32))) = Some 16777216"
    by (simp add: int_to_float_def round_bits_def nbits_16777217 round_quot_def double_to_i32_def)
  moreover define s1 where "s1 = put p (x\<lparr>s_val := V_float (int_to_float (sint v))\<rparr>) s"
  have "config_setting_set_int p v s = Some (True, s1)"
    using assms by (simp add: config_setting_set_int_def s1_def)
  moreover have "config_setting_get_int p s1 = double_to_i32 (int_to_float (sint v))"
    using assms(2) opt by (cases "double_to_i32 (int_to_float (sint v))")
      (simp_all add: config_setting_get_int_def get_int_into_def s1_def put_same)
  ultimately show ?thesis by simp
qed

theorem int_through_float_setting_witness:
  "\<exists>s'. config_setting_set_int 2 16777217
       (config_set_auto_convert True (put 2 (new_setting None T_float 1) demo_config)) = Some (True, s')
     \<and> config_setting_get_int 2 s' = Some 16777216"
proof -
  let ?s = "config_set_auto_convert True (put 2 (new_setting None T_float 1) demo_config)"
  have "settings ?s 2 = Some (new_setting None T_float 1)"
    by (simp add: config_set_auto_convert_def with_cfg_def put_def)
  moreover have "config_get_auto_convert ?s" by code_simp
  ultimately show ?thesis
    using int_through_float_setting [of ?s 2 "new_setting None T_float 1" 16777217]
    by (auto simp: new_setting_def)
qed

section \<open>Paths\<close>

text \<open>Going down member by member, the specification of path lookup.\<close>

fun walk :: "addr \<Rightarrow> string list \<Rightarrow> cstate \<Rightarrow> addr option" where
  "walk p [] s = Some p"
| "walk p (n # ns) s = do {
     c \<leftarrow> config_setting_get_member p (Some n) s;
     if c = NULL then Some NULL else walk c ns s
   }"

definition dotted :: "string list \<Rightarrow> string" where
  "dotted ns = concat (map (\<lambda>n. CHR ''.'' # n) ns)"

lemma get_member_cong:
  assumes "cfg_ok s" and "settings s p = Some x" and "name_part m = name_part n"
  shows "config_setting_get_member p (Some m) s = config_setting_get_member p (Some n) s"
proof -
  have "named s m c = named s n c" for c using assms(3) by (simp add: named_iff)
  then show ?thesis using get_member_effect [OF assms(1,2)] by (simp add: member_def)
qed

lemma name_part_append:
  "name_part n = n \<Longrightarrow> rest = [] \<or> path_token (hd rest) \<Longrightarrow> name_part (n @ rest) = n"
  by (cases rest) (auto simp: name_part_def)

lemma valid_name_start:
  assumes "config_validate_name n"
  obtains c cs where "n = c # cs" "\<not> path_token c" "c \<noteq> CHR ''[''"
proof -
  obtain c cs where n: "n = c # cs" "is_alpha c \<or> c = CHR ''*''"
    using assms by (cases n) (auto simp: config_validate_name_def)
  then have "c \<noteq> CHR ''[''" by (auto simp: is_alpha_def)
  moreover have "\<not> path_token c"
    using valid_name_part [OF assms] n by (auto simp: name_part_def split: if_splits)
  ultimately show ?thesis using that n by blast
qed

text \<open>What comes after the names, if anything, is looked up from the setting the names lead to.\<close>

lemma lookup_dotted:
  assumes "cfg_ok s" and "settings s p = Some x" and "\<forall>n \<in> set ns. config_validate_name n"
    and after: "ns \<noteq> [] \<Longrightarrow> after = [] \<or> path_token (hd after)"
  shows "config_setting_lookup p (dotted ns @ after) s = do {
           q \<leftarrow> walk p ns s;
           if q = NULL then Some NULL else config_setting_lookup q after s
         }"
  using assms(2,3) after
proof (induction ns arbitrary: p x)
  case Nil
  then show ?case using wf_not_null [OF assms(1)] by (auto simp: dotted_def)
next
  case (Cons n ns)
  obtain c cs where n: "n = c # cs" "\<not> path_token c" "c \<noteq> CHR ''[''"
    using valid_name_start [of n] Cons.prems(2) by auto
  have np: "name_part n = n" using valid_name_part Cons.prems(2) by simp
  have dot: "path_token (CHR ''.'')" by (simp add: path_token_def)
  let ?rest = "dotted ns @ after"
  have rest: "?rest = [] \<or> path_token (hd ?rest)"
    using dot Cons.prems(3) by (cases ns) (simp_all add: dotted_def)
  have part: "name_part (n @ ?rest) = n" by (rule name_part_append [OF np rest])
  then have drop: "dropWhile (\<lambda>c. \<not> path_token c) (n @ ?rest) = ?rest"
    using takeWhile_dropWhile_id [of "\<lambda>c. \<not> path_token c" "n @ ?rest"] by (simp add: name_part_def)
  have q: "dropWhile path_token (dotted (n # ns) @ after) = n @ ?rest"
    using n dot by (simp add: dotted_def)
  obtain m where m: "config_setting_get_member p (Some n) s = Some m" "m = NULL \<or> settings s m \<noteq> None"
    using get_member_effect [OF assms(1) Cons.prems(1), of n] member_child [of s x n]
      kids_live [OF assms(1) Cons.prems(1)] by (fastforce split: option.splits)
  have "config_setting_get_member p (Some (n @ ?rest)) s = Some m"
    using get_member_cong [OF assms(1) Cons.prems(1), of "n @ ?rest" n] part np m(1) by simp
  then have step: "config_setting_lookup p (dotted (n # ns) @ after) s =
      (if m = NULL then Some NULL else config_setting_lookup m ?rest s)"
    using q n drop by (subst config_setting_lookup.simps) simp
  show ?case
  proof (cases "m = NULL")
    case False
    then obtain y where "settings s m = Some y" using m(2) by auto
    from Cons.IH [OF this] Cons.prems(2,3) step m(1) False show ?thesis by simp
  qed (use step m in simp)
qed

lemma walk_live:
  assumes "cfg_ok s" and "live p s" and "walk p ns s = Some q" and "q \<noteq> NULL"
  shows "live q s"
  using assms(2,3)
proof (induction ns arbitrary: p)
  case Nil
  then show ?case by simp
next
  case (Cons n ns)
  obtain e where "config_setting_get_member p (Some n) s = Some e" "e \<noteq> NULL \<longrightarrow> live e s"
    using member_found [OF assms(1) Cons.prems(1)] by (auto simp: finds_live_def)
  with Cons assms(4) show ?case by (auto split: if_splits)
qed

text \<open>C24. Looking a path of valid names up finds what looking the names up one after the other finds; the
  result is null as soon as a name is missing or the setting reached is no group.\<close>

theorem config_lookup_path:
  assumes "cfg_ok s" and "\<forall>n \<in> set ns. config_validate_name n"
  shows "config_lookup (dotted ns) s = walk (c_root (cfg s)) ns s"
proof -
  obtain r where r: "settings s (c_root (cfg s)) = Some r" using wf_root [OF assms(1)] by auto
  have "(do { q \<leftarrow> w; if q = NULL then Some NULL else config_setting_lookup q [] s }) = w" for w
    by (cases w) (simp_all add: config_setting_lookup.simps)
  with lookup_dotted [OF assms(1) r assms(2), of "[]"] show ?thesis by (simp add: config_lookup_def)
qed

theorem config_lookup_path_witness:
  "config_lookup ''.limits.max'' demo_config = Some 6"
proof -
  have "\<forall>n \<in> set [''limits'', ''max'']. config_validate_name n" by code_simp
  from config_lookup_path [OF demo_config_ok this] have "config_lookup ''.limits.max'' demo_config
      = walk (c_root (cfg demo_config)) [''limits'', ''max''] demo_config"
    by (simp add: dotted_def)
  also have "\<dots> = Some 6" by code_simp
  finally show ?thesis .
qed

text \<open>C29. A path of valid names that lead to a setting \<open>q\<close>, of path separators and of an opening bracket as its
  last character: the bracket stands for element 0 of \<open>q\<close>, which is returned when there is one. When there is none
  (\<open>q\<close> is empty, or no aggregate at all) the lookup returns \<open>q\<close> itself instead of null, because the bracket has been
  stepped over and the end of the path is reached.\<close>

theorem lookup_dangling_bracket:
  assumes "cfg_ok s" and "\<forall>n \<in> set ns. config_validate_name n" and "list_all path_token seps"
    and "ns \<noteq> [] \<Longrightarrow> seps \<noteq> []"
    and "walk (c_root (cfg s)) ns s = Some q" and "q \<noteq> NULL" and "settings s q = Some x"
  shows "config_lookup (dotted ns @ seps @ ''['') s =
    Some (if container (s_type x) \<and> kids x \<noteq> [] then hd (kids x) else q)"
proof -
  obtain r where r: "settings s (c_root (cfg s)) = Some r" using wf_root [OF assms(1)] by auto
  have tok: "seps = [] \<or> path_token (hd seps)" using assms(3) by (cases seps) simp_all
  have "config_lookup (dotted ns @ seps @ ''['') s = config_setting_lookup q (seps @ ''['') s"
    using lookup_dotted [OF assms(1) r assms(2), of "seps @ ''[''"] assms(4-6) tok
    by (cases seps) (auto simp: config_lookup_def)
  moreover have "dropWhile path_token (seps @ ''['') = ''[''"
    using assms(3) by (induction seps) (simp_all add: path_token_def)
  moreover have "atoi [] = Some 0" by code_simp
  moreover have "config_setting_get_elem q 0 s =
      Some (if container (s_type x) \<and> kids x \<noteq> [] then hd (kids x) else NULL)"
    using get_elem_effect [OF assms(1,7), of 0] by (auto simp: hd_conv_nth)
  moreover have "kids x \<noteq> [] \<Longrightarrow> hd (kids x) \<noteq> NULL"
    using wf_child [OF assms(1,7), of "hd (kids x)"] by simp
  ultimately show ?thesis
    by (cases "container (s_type x) \<and> kids x \<noteq> []"; subst (asm) config_setting_lookup.simps)
      (auto simp: config_setting_lookup.simps [of _ "[]"])
qed

theorem lookup_dangling_bracket_witness:
  "config_lookup ''.port.['' demo_config = Some 2 \<and> config_lookup ''['' demo_config = Some 2"
proof -
  have valid: "config_validate_name ''port''" and w: "walk (c_root (cfg demo_config)) [''port''] demo_config = Some 2"
    and root: "walk (c_root (cfg demo_config)) [] demo_config = Some 1" by code_simp+
  show ?thesis
    using lookup_dangling_bracket [OF demo_config_ok _ _ _ w _ demo_settings(2), of "''.''"] valid
      lookup_dangling_bracket [OF demo_config_ok _ _ _ root _ demo_settings(1), of "[]"]
    by (simp add: dotted_def kids_def container_def path_token_def)
qed

text \<open>Adding a setting without a name to a group that has a named member makes the library compare
  the null pointer as a string.\<close>

theorem add_unnamed_to_group:
  assumes "cfg_ok s" and "settings s p = Some x" and "s_type x = T_group"
    and "kids x = c # cs" and "settings s c = Some y" and "s_name y = Some m" and "ctype_of type = Some t"
  shows "config_setting_add p None type s = None"
proof -
  obtain l where "s_val x = V_list l" "elems l = c # cs"
    using assms(4) by (auto simp: kids_def split: cvalue.splits)
  then have "config_setting_get_member p None s = None"
    using assms by (simp add: config_setting_get_member_def config_list_search_def)
  then show ?thesis
    using assms wf_not_null [OF assms(1,2)] by (simp add: config_setting_add_def)
qed

theorem add_unnamed_to_group_witness:
  "config_setting_add 1 None 2 demo_config = None"
  by (rule add_unnamed_to_group [OF demo_config_ok demo_settings(1) _ _ demo_settings(2)])
    (simp_all add: kids_def ctype_of_def)

end
