(* ===== verification/Config_Write.thy ===== *)
theory Config_Write
  imports Config_Properties
begin

text \<open>
  Writing a configuration as text (\<open>__config_write_value\<close>, \<open>__config_write_setting\<close>, \<open>config_write\<close> of
  \<open>libconfig.c\<close>). The output stream is the string written; the recursion over values, elements, members
  and settings is one function over the job to do, and it terminates on every well-formed configuration.
\<close>

section \<open>Pieces of text\<close>

fun hex_nat :: "nat \<Rightarrow> string" where
  "hex_nat n = (if n < 16 then [hex_upper n] else hex_nat (n div 16) @ [hex_upper (n mod 16)])"

declare hex_nat.simps [simp del]

definition config_indent :: "int \<Rightarrow> u16 \<Rightarrow> string" where
  "config_indent depth w =
     (if w \<noteq> 0 then replicate (max 1 (nat ((depth - 1) * int (unat w)))) (CHR '' '')
      else replicate (nat (depth - 1)) (CHR 0x09))"

definition write_int :: "int \<Rightarrow> i32 \<Rightarrow> string" where
  "write_int fmt i = (if fmt = FORMAT_HEX then ''0x'' @ hex_nat (unat i) else dec_int (sint i))"

definition write_int64 :: "int \<Rightarrow> i64 \<Rightarrow> string" where
  "write_int64 fmt l = (if fmt = FORMAT_HEX then ''0x'' @ hex_nat (unat l) @ ''L'' else dec_int (sint l) @ ''L'')"

text \<open>The zeros at the end are cut by moving from the last character towards, not including, the first.\<close>

definition cut_zeros :: "string \<Rightarrow> string" where
  "cut_zeros t =
     (let r = dropWhile (\<lambda>c. c = CHR ''0'') (rev (tl t)) in if r = [] then t else hd t # rev r)"

definition write_float :: "double \<Rightarrow> string" where
  "write_float d =
     (let t = format_g 15 d
      in if CHR ''e'' \<in> set t then t
         else if CHR ''.'' \<notin> set t then t @ ''.0''
         else cut_zeros t)"

definition write_char :: "char \<Rightarrow> string" where
  "write_char c =
     (let n = of_char c :: nat
      in if c = CHR 0x22 \<or> c = CHR 0x5C then [CHR 0x5C, c]
         else if c = CHR 0x0A then [CHR 0x5C, CHR ''n'']
         else if c = CHR 0x0D then [CHR 0x5C, CHR ''r'']
         else if c = CHR 0x0C then [CHR 0x5C, CHR ''f'']
         else if c = CHR 0x09 then [CHR 0x5C, CHR ''t'']
         else if 32 \<le> n then [c]
         else [CHR 0x5C, CHR ''x'', hex_upper (n div 16), hex_upper (n mod 16)])"

definition write_string :: "string option \<Rightarrow> string" where
  "write_string t = CHR 0x22 # (case t of None \<Rightarrow> [] | Some cs \<Rightarrow> concat (map write_char cs)) @ [CHR 0x22]"

section \<open>The writer\<close>

datatype wjob =
  WValue cvalue ctype int int
| WElems "addr list" int
| WMembers "addr list" int
| WSetting addr int

definition has_option :: "cstate \<Rightarrow> u32 \<Rightarrow> bool" where
  "has_option s opt \<longleftrightarrow> c_options (cfg s) AND opt \<noteq> 0"

definition depth_indent :: "cstate \<Rightarrow> int \<Rightarrow> string" where
  "depth_indent s depth = (if depth > 1 then config_indent depth (c_tab_width (cfg s)) else [])"

text \<open>The values that contain no settings.\<close>

definition write_scalar :: "cvalue \<Rightarrow> ctype \<Rightarrow> int \<Rightarrow> string option" where
  "write_scalar v t fmt =
     (case t of
        T_bool \<Rightarrow> do { i \<leftarrow> ival v; Some (if i \<noteq> 0 then ''true'' else ''false'') }
      | T_int \<Rightarrow> do { i \<leftarrow> ival v; Some (write_int fmt i) }
      | T_int64 \<Rightarrow> do { l \<leftarrow> llval v; Some (write_int64 fmt l) }
      | T_float \<Rightarrow> do { d \<leftarrow> fval v; Some (write_float d) }
      | T_string \<Rightarrow> do { t \<leftarrow> sval v; Some (write_string t) }
      | _ \<Rightarrow> Some ''???'')"

text \<open>A setting around the text of its value.\<close>

definition write_setting_text :: "cstate \<Rightarrow> csetting \<Rightarrow> int \<Rightarrow> string \<Rightarrow> string" where
  "write_setting_text s x depth out =
     depth_indent s depth
     @ (case s_name x of
          None \<Rightarrow> []
        | Some n \<Rightarrow> n @ '' '' @
            (if has_option s (if s_type x = T_group then OPTION_COLON_GROUPS else OPTION_COLON_NON_GROUPS)
             then '':'' else ''='') @ '' '')
     @ out
     @ (if depth > 0
        then (if has_option s OPTION_SEMICOLON_SEPARATORS then '';'' else []) @ [LF] else [])"

partial_function (option) config_write_job :: "wjob \<Rightarrow> cstate \<Rightarrow> string option" where
  "config_write_job j s =
     (case j of
        WValue v t fmt depth \<Rightarrow>
          (case t of
             T_list \<Rightarrow> do {
               l \<leftarrow> vlist v;
               out \<leftarrow> (case l of None \<Rightarrow> Some [] | Some l \<Rightarrow> config_write_job (WElems (elems l) depth) s);
               Some (''( '' @ out @ '')'')
             }
           | T_array \<Rightarrow> do {
               l \<leftarrow> vlist v;
               out \<leftarrow> (case l of None \<Rightarrow> Some [] | Some l \<Rightarrow> config_write_job (WElems (elems l) depth) s);
               Some (''[ '' @ out @ '']'')
             }
           | T_group \<Rightarrow> do {
               l \<leftarrow> vlist v;
               out \<leftarrow> (case l of None \<Rightarrow> Some [] | Some l \<Rightarrow> config_write_job (WMembers (elems l) depth) s);
               Some ((if depth > 0
                      then (if has_option s OPTION_OPEN_BRACE then [LF] @ depth_indent s depth else []) @ ''{'' @ [LF]
                      else [])
                     @ out @ depth_indent s depth @ (if depth > 0 then ''}'' else []))
             }
           | _ \<Rightarrow> write_scalar v t fmt)
      | WElems es depth \<Rightarrow>
          (case es of
             [] \<Rightarrow> Some []
           | e # es \<Rightarrow> do {
               x \<leftarrow> settings s e;
               fmt \<leftarrow> config_setting_get_format e s;
               out \<leftarrow> config_write_job (WValue (s_val x) (s_type x) fmt (depth + 1)) s;
               rest \<leftarrow> config_write_job (WElems es depth) s;
               Some (out @ (if es \<noteq> [] then '','' else []) @ '' '' @ rest)
             })
      | WMembers es depth \<Rightarrow>
          (case es of
             [] \<Rightarrow> Some []
           | e # es \<Rightarrow> do {
               out \<leftarrow> config_write_job (WSetting e (depth + 1)) s;
               rest \<leftarrow> config_write_job (WMembers es depth) s;
               Some (out @ rest)
             })
      | WSetting p depth \<Rightarrow> do {
          x \<leftarrow> settings s p;
          fmt \<leftarrow> config_setting_get_format p s;
          out \<leftarrow> config_write_job (WValue (s_val x) (s_type x) fmt depth) s;
          Some (write_setting_text s x depth out)
        })"

declare config_write_job.simps [code]

definition config_write :: "cstate \<Rightarrow> string option" where
  "config_write s = config_write_job (WSetting (c_root (cfg s)) 0) s"

section \<open>Termination\<close>

lemma write_elems_total:
  assumes "\<And>e d. e \<in> set es \<Longrightarrow> \<exists>x out. settings s e = Some x \<and>
      (\<exists>fmt. config_setting_get_format e s = Some fmt \<and> config_write_job (WValue (s_val x) (s_type x) fmt d) s = Some out)"
  shows "\<exists>out. config_write_job (WElems es d) s = Some out"
  using assms
proof (induction es)
  case (Cons e es)
  then obtain rest where "config_write_job (WElems es d) s = Some rest" by auto
  moreover obtain x out fmt where "settings s e = Some x" "config_setting_get_format e s = Some fmt"
    "config_write_job (WValue (s_val x) (s_type x) fmt (d + 1)) s = Some out"
    using Cons.prems [of e "d + 1"] by auto
  ultimately show ?case by (subst config_write_job.simps) simp
qed (simp add: config_write_job.simps)

lemma write_members_total:
  assumes "\<And>e d. e \<in> set es \<Longrightarrow> \<exists>out. config_write_job (WSetting e d) s = Some out"
  shows "\<exists>out. config_write_job (WMembers es d) s = Some out"
  using assms
proof (induction es)
  case (Cons e es)
  then obtain rest where "config_write_job (WMembers es d) s = Some rest" by auto
  moreover obtain out where "config_write_job (WSetting e (d + 1)) s = Some out"
    using Cons.prems [of e "d + 1"] by auto
  ultimately show ?case by (subst config_write_job.simps) simp
qed (simp add: config_write_job.simps)

lemma write_value_total:
  assumes ok: "value_ok t v"
    and es: "\<And>d. \<exists>out. config_write_job (WElems (case v of V_list l \<Rightarrow> elems l | _ \<Rightarrow> []) d) s = Some out"
    and ms: "\<And>d. \<exists>out. config_write_job (WMembers (case v of V_list l \<Rightarrow> elems l | _ \<Rightarrow> []) d) s = Some out"
  shows "\<exists>out. config_write_job (WValue v t fmt d) s = Some out"
proof (cases "container t")
  case True
  obtain a b where ab: "config_write_job (WElems (case v of V_list l \<Rightarrow> elems l | _ \<Rightarrow> []) d) s = Some a"
    "config_write_job (WMembers (case v of V_list l \<Rightarrow> elems l | _ \<Rightarrow> []) d) s = Some b"
    using es ms by blast
  have "v = V_zero \<or> (\<exists>l. v = V_list l)" using True ok by (cases v) (auto simp: container_def)
  with True ab show ?thesis
    by (subst config_write_job.simps) (auto simp: container_def)
next
  case False
  then show ?thesis
    using ok value_ok_reads(1-5) [of v]
    by (subst config_write_job.simps) (cases t; auto simp: container_def write_scalar_def)
qed

lemma write_tree_total:
  assumes "cfg_ok s" and "rep (settings s) t" and "settings s (ptr t) = Some x"
  shows "\<exists>out. config_write_job (WValue (s_val x) (s_type x) fmt d) s = Some out"
  using assms(2,3)
proof (induction t arbitrary: x fmt d)
  case (PNode p ts)
  then have k: "(case s_val x of V_list l \<Rightarrow> elems l | _ \<Rightarrow> []) = map ptr ts" by (auto simp: kids_def)
  have each: "\<exists>y out. settings s e = Some y \<and> (\<exists>fmt. config_setting_get_format e s = Some fmt
      \<and> config_write_job (WValue (s_val y) (s_type y) fmt d) s = Some out)" if e: "e \<in> set (map ptr ts)" for e d
  proof -
    obtain u where u: "u \<in> set ts" "e = ptr u" using e by auto
    then have r: "rep (settings s) u" using PNode.prems(1) by auto
    then obtain y where y: "settings s e = Some y" using addrs_live [OF assms(1) r ptr_in_addrs] u(2) by auto
    obtain fmt where "config_setting_get_format e s = Some fmt" using y by (simp add: config_setting_get_format_def)
    with PNode.IH [OF u(1) r, of y fmt d] y u(2) show ?thesis by auto
  qed
  have setting: "\<exists>out. config_write_job (WSetting e d) s = Some out" if "e \<in> set (map ptr ts)" for e d
    using each [OF that, of d] by (subst config_write_job.simps) auto
  show ?case
  proof (rule write_value_total)
    show "value_ok (s_type x) (s_val x)" using PNode.prems(2) by (simp add: wf_value [OF assms(1)])
  qed (use k each setting write_elems_total [of "map ptr ts" s] write_members_total [of "map ptr ts" s] in auto)
qed

text \<open>C30. \<open>config_write\<close> terminates on every well-formed configuration and writes its text without an
  undefined access.\<close>

theorem config_write_total:
  assumes "cfg_ok s"
  shows "\<exists>out. config_write s = Some out"
proof -
  obtain r where r: "settings s (c_root (cfg s)) = Some r" using wf_root [OF assms] by auto
  obtain t where "rep (settings s) t" "ptr t = c_root (cfg s)" using rep_exists [OF assms r] by blast
  moreover obtain fmt where "config_setting_get_format (c_root (cfg s)) s = Some fmt"
    using r by (simp add: config_setting_get_format_def)
  ultimately show ?thesis
    using write_tree_total [OF assms, of t r fmt 0] r
    by (auto simp: config_write_def config_write_job.simps [of "WSetting _ _"])
qed

theorem config_write_total_witness:
  "\<exists>out. config_write demo_config = Some out"
  by (rule config_write_total [OF demo_config_ok])

end
