(* ===== verification/Config_Reader.thy ===== *)
theory Config_Reader
  imports Config_Grammar Config_Write
begin

text \<open>
  Reading and writing whole configurations (\<open>libconfig.c\<close>), and the example program (\<open>main.c\<close>), which
  lists the books and the movies of a store.
\<close>

section \<open>\<open>__config_read\<close>\<close>

text \<open>The configuration is destroyed and made anew; the settings of the object itself are kept.\<close>

definition config_reinit :: "cstate \<Rightarrow> cstate option" where
  "config_reinit s = do {
     let old = cfg s;
     s \<leftarrow> config_destroy (with_cfg (\<lambda>g. g\<lparr>c_include_dir := None\<rparr>) s);
     Some (with_cfg (\<lambda>g. g\<lparr>c_destructor := c_destructor old, c_include_dir := c_include_dir old,
              c_tab_width := c_tab_width old, c_options := c_options old\<rparr>) (config_init s))
   }"

text \<open>The loop that takes the files off the include stack and deletes the buffers.\<close>

fun unwind_includes :: "nat \<Rightarrow> reader \<Rightarrow> reader option" where
  "unwind_includes n r = do {
     (buf, c, f) \<leftarrow> scanctx_pop_include (r_ctx r) (r_io r);
     let r = r\<lparr>r_ctx := c, r_io := f\<rparr>;
     if buf = 0 then Some r
     else (case n of 0 \<Rightarrow> None | Suc n \<Rightarrow> do { r \<leftarrow> delete_buffer buf r; unwind_includes n r })
   }"

declare unwind_includes.simps [simp del]

definition new_reader :: "fentry \<Rightarrow> scan_context \<Rightarrow> cstate \<Rightarrow> io \<Rightarrow> reader" where
  "new_reader e c s f =
     (let r = \<lparr>r_cfg = s, r_ctx = c, r_io = f, r_start = 1, r_bufs = Map.empty, r_cur = 0, r_next = 0,
               r_echo = [], r_parent = c_root (cfg s), r_setting = c_root (cfg s), r_string = strbuf_zero\<rparr>;
          (b, r) = create_buffer e r
      in switch_to_buffer b r)"

text \<open>
  The text that is read is a file or a string. The result is \<open>None\<close> when the process has ended; the
  configuration and the files follow.
\<close>

definition config_read_from ::
  "fentry \<Rightarrow> string option \<Rightarrow> cstate \<Rightarrow> io \<Rightarrow> (bool option \<times> cstate \<times> io) option" where
  "config_read_from e filename s f = do {
     s \<leftarrow> config_reinit s;
     c \<leftarrow> scanctx_init filename;
     top_file \<leftarrow> scanctx_current_filename c;
     root \<leftarrow> settings s (c_root (cfg s));
     let s = Config_Access.put (c_root (cfg s)) (root\<lparr>s_file := top_file\<rparr>) s;
     (res, r) \<leftarrow> yyparse (new_reader e c s f);
     case res of
       None \<Rightarrow> Some (None, r_cfg r, r_io r)
     | Some n \<Rightarrow> do {
         r \<leftarrow> (if n \<noteq> 0 then do {
                 file \<leftarrow> scanctx_current_filename (r_ctx r);
                 unwind_includes (sc_depth (r_ctx r))
                   (r\<lparr>r_cfg := with_cfg (\<lambda>g. g\<lparr>c_error_file := file, c_error_type := Err_parse\<rparr>) (r_cfg r)\<rparr>)
               }
               else Some r);
         r \<leftarrow> delete_buffer (r_cur r) r;
         (names, f) \<leftarrow> scanctx_cleanup (r_ctx r) (r_io r);
         Some (Some (n = 0), with_cfg (\<lambda>g. g\<lparr>c_filenames := names\<rparr>) (r_cfg r), f)
       }
   }"

definition config_read :: "nat \<Rightarrow> cstate \<Rightarrow> io \<Rightarrow> (bool option \<times> cstate \<times> io) option" where
  "config_read stream s f = do { e \<leftarrow> io_open f stream; config_read_from e None s f }"

definition config_read_string :: "string \<Rightarrow> cstate \<Rightarrow> io \<Rightarrow> (bool option \<times> cstate \<times> io) option" where
  "config_read_string t s f = config_read_from (F_file t) None s f"

definition io_error :: string where "io_error = ''file I/O error''"

text \<open>
  A file that cannot be opened is closed all the same: \<open>fclose\<close> of a null pointer, which is undefined.
\<close>

definition config_read_file :: "string \<Rightarrow> cstate \<Rightarrow> io \<Rightarrow> (bool option \<times> cstate \<times> io) option" where
  "config_read_file filename s f = do {
     let (stream, f) = fopen_r filename f;
     let ok = (stream \<noteq> 0 \<and> io_open f stream \<noteq> Some F_dir);
     if \<not> ok then do {
       f \<leftarrow> fclose stream f;
       Some (Some False, with_cfg (\<lambda>g. g\<lparr>c_error_text := Some io_error, c_error_type := Err_file_io\<rparr>) s, f)
     }
     else do {
       e \<leftarrow> io_open f stream;
       (ret, s, f) \<leftarrow> config_read_from e (Some filename) s f;
       case ret of
         None \<Rightarrow> Some (None, s, f)
       | Some ret \<Rightarrow> do { f \<leftarrow> fclose stream f; Some (Some ret, s, f) }
     }
   }"

definition config_write_file :: "string \<Rightarrow> cstate \<Rightarrow> io \<Rightarrow> (bool \<times> cstate \<times> io) option" where
  "config_write_file filename s f =
     (if \<not> io_writable f filename
      then Some (False, with_cfg (\<lambda>g. g\<lparr>c_error_text := Some io_error, c_error_type := Err_file_io\<rparr>) s, f)
      else do {
        t \<leftarrow> config_write s;
        Some (True, with_cfg (\<lambda>g. g\<lparr>c_error_type := Err_none\<rparr>) s,
              f\<lparr>io_files := (io_files f)(filename \<mapsto> F_file t)\<rparr>)
      })"

section \<open>The example program\<close>

definition pad_right :: "nat \<Rightarrow> string \<Rightarrow> string" where
  "pad_right n t = t @ replicate (n - length t) CHR '' ''"

definition pad_left :: "nat \<Rightarrow> string \<Rightarrow> string" where
  "pad_left n t = replicate (n - length t) CHR '' '' @ t"

text \<open>\<open>%s\<close> of a null pointer is undefined.\<close>

definition lookup_text :: "addr \<Rightarrow> string \<Rightarrow> cstate \<Rightarrow> string option option" where
  "lookup_text p name s = do {
     v \<leftarrow> config_setting_lookup_string p name s;
     case v of None \<Rightarrow> Some None | Some t \<Rightarrow> map_option Some t
   }"

text \<open>A line of the table: the two texts, the price and the quantity; nothing unless all are there.\<close>

definition record_line :: "string \<Rightarrow> string \<Rightarrow> nat \<Rightarrow> addr \<Rightarrow> cstate \<Rightarrow> string option" where
  "record_line field1 field2 width p s = do {
     title \<leftarrow> lookup_text p field1 s;
     case title of None \<Rightarrow> Some [] | Some title \<Rightarrow> do {
     other \<leftarrow> lookup_text p field2 s;
     case other of None \<Rightarrow> Some [] | Some other \<Rightarrow> do {
     price \<leftarrow> config_setting_lookup_float p ''price'' s;
     case price of None \<Rightarrow> Some [] | Some price \<Rightarrow> do {
     qty \<leftarrow> config_setting_lookup_int p ''qty'' s;
     case qty of None \<Rightarrow> Some [] | Some qty \<Rightarrow>
       Some (pad_right 30 title @ ''  '' @ pad_right width other @ ''  $''
             @ pad_left 6 (format_f 2 price) @ ''  '' @ pad_left 3 (dec_int (sint qty)) @ [LF])
     }}}
   }"

fun record_lines :: "string \<Rightarrow> string \<Rightarrow> nat \<Rightarrow> addr \<Rightarrow> nat list \<Rightarrow> cstate \<Rightarrow> string option" where
  "record_lines f1 f2 width p [] s = Some []"
| "record_lines f1 f2 width p (i # is) s = do {
     e \<leftarrow> config_setting_get_elem p (of_nat i) s;
     l \<leftarrow> record_line f1 f2 width e s;
     ls \<leftarrow> record_lines f1 f2 width p is s;
     Some (l @ ls)
   }"

definition print_table ::
  "string \<Rightarrow> string \<Rightarrow> string \<Rightarrow> string \<Rightarrow> nat \<Rightarrow> cstate \<Rightarrow> string option" where
  "print_table path f1 f2 title2 width s = do {
     p \<leftarrow> config_lookup path s;
     if p = NULL then Some []
     else do {
       n \<leftarrow> config_setting_length p s;
       ls \<leftarrow> record_lines f1 f2 width p [0..<n] s;
       Some (pad_right 30 ''TITLE'' @ ''  '' @ pad_right width title2 @ ''   PRICE   QTY'' @ [LF] @ ls @ [LF])
     }
   }"

text \<open>The exit status and the output; messages go to the error stream, which is not modelled.\<close>

definition store_main :: "cstate \<Rightarrow> io \<Rightarrow> (nat \<times> string \<times> cstate \<times> io) option" where
  "store_main s f = do {
     (ok, s, f) \<leftarrow> config_read_file ''example.cfg'' (config_init s) f;
     case ok of
       None \<Rightarrow> Some (2, [], s, f)
     | Some False \<Rightarrow> do { s \<leftarrow> config_destroy s; Some (1, [], s, f) }
     | Some True \<Rightarrow> do {
         name \<leftarrow> config_lookup_string ''name'' s;
         head \<leftarrow> (case name of None \<Rightarrow> Some []
           | Some t \<Rightarrow> map_option (\<lambda>t. ''Store name: '' @ t @ [LF, LF]) t);
         books \<leftarrow> print_table ''inventory.books'' ''title'' ''author'' ''AUTHOR'' 30 s;
         movies \<leftarrow> print_table ''inventory.movies'' ''title'' ''media'' ''MEDIA'' 10 s;
         s \<leftarrow> config_destroy s;
         Some (0, head @ books @ movies, s, f)
       }
   }"

end
