(* ===== verification/Config_Reading.thy ===== *)
theory Config_Reading
  imports Config_Parsing Config_Reader
begin

text \<open>
  Reading a configuration as a whole: on texts whose numbers fit, whatever else they hold and whatever they
  include, the scanner returns typed tokens, and \<open>__config_read\<close> returns, without any undefined access, a
  well-formed configuration, with the include files closed again.
\<close>

section \<open>A fresh configuration\<close>

lemma config_init_ok:
  assumes "settings s = Map.empty" and "0 < next_addr s"
  shows "cfg_ok (config_init s)" and "settings (config_init s) (c_root (cfg (config_init s))) = Some (new_setting None T_group NULL)"
  using assms by (simp_all add: cfg_ok_def setting_wf_def config_init_def new_setting_def kids_def Let_def)

lemma config_reinit_ok:
  assumes "cfg_ok s"
  shows "\<exists>s'. config_reinit s = Some s' \<and> cfg_ok s' \<and> settings s' (c_root (cfg s')) = Some (new_setting None T_group NULL)"
proof -
  let ?s = "with_cfg (\<lambda>g. g\<lparr>c_include_dir := None\<rparr>) s"
  have w: "cfg_ok ?s" by (rule with_cfg_ok [OF assms]) simp
  obtain root where "settings s (c_root (cfg s)) = Some root" using wf_root [OF assms] by auto
  then have "0 < next_addr s" using wf_setting [OF assms] by (fastforce simp: setting_wf_def)
  then obtain d where d: "config_destroy ?s = Some d" "settings d = Map.empty" "0 < next_addr d"
    using config_destroy_effect [OF w] by (auto simp: with_cfg_def)
  let ?i = "config_init d" and ?g = "\<lambda>g. g\<lparr>c_destructor := c_destructor (cfg s), c_include_dir := c_include_dir (cfg s),
    c_tab_width := c_tab_width (cfg s), c_options := c_options (cfg s)\<rparr>"
  have "config_reinit s = Some (with_cfg ?g ?i)" using d(1) by (simp add: config_reinit_def Let_def)
  moreover have "cfg_ok (with_cfg ?g ?i)" by (rule with_cfg_ok [OF config_init_ok(1) [OF d(2,3)]]) simp
  moreover have "settings (with_cfg ?g ?i) (c_root (cfg (with_cfg ?g ?i))) = Some (new_setting None T_group NULL)"
    using config_init_ok(2) [OF d(2,3)] by (simp add: with_cfg_def)
  ultimately show ?thesis by blast
qed

section \<open>Beginning\<close>

definition io_ok :: "io \<Rightarrow> bool" where
  "io_ok f \<longleftrightarrow> good_files f \<and> (\<forall>k. io_open f k \<noteq> None \<longrightarrow> 0 < k \<and> k \<le> io_next f)"

lemma scanctx_init_ok:
  assumes "io_ok f"
  shows "\<exists>c. scanctx_init name = Some c \<and> scanctx_ok c f \<and> sc_depth c = 0"
  using assms strbuf_zero_ok(1)
  by (cases name) (auto simp: scanctx_init_def scanctx_zero_def scanctx_add_filename_def scanctx_ok_def io_ok_def)

lemma new_reader_ok:
  assumes "good_entry e" and "io_ok f" and "scanctx_ok c f" and "sc_depth c = 0" and "cfg_ok s"
  shows "parse_ok (io_open f) (new_reader e c s f)" and "r_cfg (new_reader e c s f) = s"
    and "r_parent (new_reader e c s f) = c_root (cfg s)"
proof -
  have "\<exists>b. r_bufs (new_reader e c s f) 1 = Some b \<and> good_text (b_rest b)"
    using assms(1) by (cases e) (simp_all add: new_reader_def create_buffer_def switch_to_buffer_def Let_def good_text_def digits_value_def)
  then have "lex_ok (io_open f) (new_reader e c s f)"
    using assms(2-4) by (simp add: lex_ok_def buf_stack_def buffer_ok_def new_reader_def create_buffer_def
        switch_to_buffer_def Let_def io_ok_def)
  then show "parse_ok (io_open f) (new_reader e c s f)"
    using assms(5) strbuf_zero_ok(1) by (simp add: parse_ok_def new_reader_def create_buffer_def switch_to_buffer_def Let_def)
  show "r_cfg (new_reader e c s f) = s" "r_parent (new_reader e c s f) = c_root (cfg s)"
    by (simp_all add: new_reader_def create_buffer_def switch_to_buffer_def Let_def)
qed

section \<open>Clearing up\<close>

text \<open>After an error the files are taken off the include stack.\<close>

lemma unwind_step:
  assumes ok: "lex_ok B r" and sd: "sc_depth (r_ctx r) = Suc d"
  shows "\<exists>c f buf r'. scanctx_pop_include (r_ctx r) (r_io r) = Some (buf, c, f) \<and> buf \<noteq> 0
    \<and> delete_buffer buf (r\<lparr>r_ctx := c, r_io := f\<rparr>) = Some r' \<and> lex_ok B r' \<and> r_cfg r' = r_cfg r \<and> sc_depth (r_ctx r') = d"
proof -
  note D = lex_okD [OF ok]
  have d: "d < 10" using D(4) sd by simp
  let ?buf = "sc_buffers (r_ctx r) ! d" and ?c = "r_ctx r\<lparr>sc_depth := d\<rparr>"
  obtain f where f: "scanctx_pop_include (r_ctx r) (r_io r) = Some (?buf, ?c, f)" "scanctx_ok ?c f"
    "io_open f = (io_open (r_io r))(sc_streams (r_ctx r) ! d := None)" "io_files f = io_files (r_io r)"
    using pop_include_ok [OF D(1)] sd by auto
  let ?r' = "r\<lparr>r_ctx := ?c, r_io := f, r_bufs := (r_bufs r)(?buf := None)\<rparr>"
  have tk: "take (Suc d) (sc_buffers (r_ctx r)) = take d (sc_buffers (r_ctx r)) @ [?buf]"
    "take (Suc d) (sc_streams (r_ctx r)) = take d (sc_streams (r_ctx r)) @ [sc_streams (r_ctx r) ! d]"
    using D(1,5) d by (simp_all add: take_Suc_conv_app_nth scanctx_ok_def)
  then have st: "buf_stack r = take d (sc_buffers (r_ctx r)) @ [?buf, r_cur r]" "buf_stack ?r' = take d (sc_buffers (r_ctx r)) @ [r_cur r]"
    by (simp_all add: buf_stack_def sd)
  have dist: "distinct (buf_stack r)" "\<forall>k \<in> set (buf_stack r). buffer_ok r k" using ok by (simp_all add: lex_ok_def)
  then have "distinct (buf_stack ?r')" "\<forall>k \<in> set (buf_stack ?r'). buffer_ok ?r' k"
    unfolding st by (auto simp: buffer_ok_def)
  moreover have "good_files f" using D(2) f(3,4) by (auto simp: good_files_def ran_def split: if_splits)
  moreover have "io_open f |` (- set (take d (sc_streams (r_ctx r)))) =
      io_open (r_io r) |` (- set (take (sc_depth (r_ctx r)) (sc_streams (r_ctx r))))"
    using tk(2) f(3) sd by (auto simp: restrict_map_def fun_eq_iff)
  ultimately have "lex_ok B ?r'" using ok f(2) by (simp add: lex_ok_def)
  moreover have "buffer_ok r ?buf" "?buf \<noteq> r_cur r" using dist unfolding st by auto
  then have "?buf \<noteq> 0" "delete_buffer ?buf (r\<lparr>r_ctx := ?c, r_io := f\<rparr>) = Some ?r'"
    by (auto simp: buffer_ok_def delete_buffer_def)
  ultimately show ?thesis using f(1) by (intro exI [of _ ?c] exI [of _ f] exI [of _ ?buf] exI [of _ ?r']) simp
qed

lemma unwind_includes_ok:
  "lex_ok B r \<Longrightarrow> sc_depth (r_ctx r) = n \<Longrightarrow>
     \<exists>r'. unwind_includes n r = Some r' \<and> lex_ok B r' \<and> r_cfg r' = r_cfg r"
proof (induction n arbitrary: r)
  case 0
  then show ?case by (subst unwind_includes.simps) (simp add: scanctx_pop_include_def)
next
  case (Suc n)
  from unwind_step [OF Suc.prems] obtain c f buf r1 where r1: "scanctx_pop_include (r_ctx r) (r_io r) = Some (buf, c, f)"
    "buf \<noteq> 0" "delete_buffer buf (r\<lparr>r_ctx := c, r_io := f\<rparr>) = Some r1" "lex_ok B r1" "r_cfg r1 = r_cfg r" "sc_depth (r_ctx r1) = n"
    by blast
  from Suc.IH [OF r1(4,6)] obtain r' where "unwind_includes n r1 = Some r'" "lex_ok B r'" "r_cfg r' = r_cfg r1" by blast
  with r1 show ?case by (subst unwind_includes.simps) simp
qed

lemma close_streams:
  "n \<le> length xs \<Longrightarrow> distinct (take n xs) \<Longrightarrow> \<forall>k \<in> set (take n xs). io_open f k \<noteq> None \<Longrightarrow>
     \<exists>f'. run_list (\<lambda>i f. do { k \<leftarrow> rd xs i; fclose k f }) [0..<n] f = Some f' \<and> io_open f' = io_open f |` (- set (take n xs))"
proof (induction n)
  case 0
  then show ?case by simp
next
  case (Suc n)
  have tk: "take (Suc n) xs = take n xs @ [xs ! n]" using Suc.prems(1) by (simp add: take_Suc_conv_app_nth)
  with Suc obtain f1 where f1: "run_list (\<lambda>i f. do { k \<leftarrow> rd xs i; fclose k f }) [0..<n] f = Some f1"
    "io_open f1 = io_open f |` (- set (take n xs))" by auto
  have "io_open f1 (xs ! n) \<noteq> None" using Suc.prems(2,3) f1(2) unfolding tk by (auto simp: restrict_map_def)
  then have "fclose (xs ! n) f1 = Some (f1\<lparr>io_open := (io_open f1)(xs ! n := None)\<rparr>)" by (simp add: fclose_def)
  moreover have "(io_open f1)(xs ! n := None) = io_open f |` (- set (take (Suc n) xs))"
    unfolding f1(2) tk by (auto simp: restrict_map_def fun_eq_iff)
  ultimately show ?case using f1(1) Suc.prems(1) by (simp add: run_list_append rd_def)
qed

lemma scanctx_cleanup_ok:
  assumes "scanctx_ok c f"
  shows "\<exists>f'. scanctx_cleanup c f = Some (sc_names c, f') \<and> io_open f' = io_open f |` (- set (take (sc_depth c) (sc_streams c)))"
proof -
  have "sc_depth c \<le> length (sc_streams c)" "distinct (take (sc_depth c) (sc_streams c))"
    "\<forall>k \<in> set (take (sc_depth c) (sc_streams c)). io_open f k \<noteq> None" using assms by (simp_all add: scanctx_ok_def)
  from close_streams [OF this] show ?thesis by (auto simp: scanctx_cleanup_def)
qed

section \<open>Reading\<close>

lemma config_read_from_ok:
  assumes w: "cfg_ok s" and e: "good_entry e" and f: "io_ok f"
  shows "\<exists>res s' f'. config_read_from e name s f = Some (res, s', f') \<and> cfg_ok s' \<and> (res \<noteq> None \<longrightarrow> io_open f' = io_open f)"
proof -
  obtain s1 where s1: "config_reinit s = Some s1" "cfg_ok s1" "settings s1 (c_root (cfg s1)) = Some (new_setting None T_group NULL)"
    using config_reinit_ok [OF w] by blast
  obtain c where c: "scanctx_init name = Some c" "scanctx_ok c f" "sc_depth c = 0" using scanctx_init_ok [OF f] by blast
  obtain t where t: "scanctx_current_filename c = Some t" using current_filename_ok [OF c(2)] by blast
  let ?root = "new_setting None T_group NULL"
  define s2 where "s2 = Config_Access.put (c_root (cfg s1)) (?root\<lparr>s_file := t\<rparr>) s1"
  have s2: "cfg_ok s2" unfolding s2_def by (rule put_other_field [OF s1(2,3)]) simp_all
  note N = new_reader_ok [OF e f c(2,3) s2]
  have root: "c_root (cfg s2) = c_root (cfg s1)" by (simp add: s2_def put_def)
  have "chain s2 (c_root (cfg s1)) []" by (simp add: s2_def put_def new_setting_def)
  then have "chain (r_cfg (new_reader e c s2 f)) (r_parent (new_reader e c s2 f)) []" unfolding N(2,3) root .
  from yyparse_returns [OF N(1) this] obtain res r where p: "yyparse (new_reader e c s2 f) = Some (res, r)"
    "parse_ok (io_open f) r" by blast
  have r: "lex_ok (io_open f) r" "cfg_ok (r_cfg r)" using p(2) by (simp_all add: parse_ok_def)
  let ?rest = "\<lambda>n. do {
         r \<leftarrow> (if n \<noteq> 0 then do {
                 file \<leftarrow> scanctx_current_filename (r_ctx r);
                 unwind_includes (sc_depth (r_ctx r))
                   (r\<lparr>r_cfg := with_cfg (\<lambda>g. g\<lparr>c_error_file := file, c_error_type := Err_parse\<rparr>) (r_cfg r)\<rparr>)
               }
               else Some r);
         r \<leftarrow> delete_buffer (r_cur r) r;
         (names, f) \<leftarrow> scanctx_cleanup (r_ctx r) (r_io r);
         Some (Some (n = 0), with_cfg (\<lambda>g. g\<lparr>c_filenames := names\<rparr>) (r_cfg r), f)
       }"
  have run: "config_read_from e name s f = (case res of None \<Rightarrow> Some (None, r_cfg r, r_io r) | Some n \<Rightarrow> ?rest n)"
    unfolding config_read_from_def using s1(1,3) c(1) t p(1) by (simp add: s2_def)
  show ?thesis
  proof (cases res)
    case None
    then show ?thesis using run r(2) by simp
  next
    case (Some n)
    have "\<exists>q. (if n \<noteq> 0 then do {
                 file \<leftarrow> scanctx_current_filename (r_ctx r);
                 unwind_includes (sc_depth (r_ctx r))
                   (r\<lparr>r_cfg := with_cfg (\<lambda>g. g\<lparr>c_error_file := file, c_error_type := Err_parse\<rparr>) (r_cfg r)\<rparr>)
               }
               else Some r) = Some q \<and> lex_ok (io_open f) q \<and> cfg_ok (r_cfg q)"
    proof (cases "n = 0")
      case False
      obtain fname where fname: "scanctx_current_filename (r_ctx r) = Some fname"
        using current_filename_ok [OF lex_okD(1) [OF r(1)]] by blast
      let ?r = "r\<lparr>r_cfg := with_cfg (\<lambda>g. g\<lparr>c_error_file := fname, c_error_type := Err_parse\<rparr>) (r_cfg r)\<rparr>"
      have "lex_ok (io_open f) ?r" using r(1) by simp
      from unwind_includes_ok [OF this refl] obtain q where "unwind_includes (sc_depth (r_ctx ?r)) ?r = Some q"
        "lex_ok (io_open f) q" "r_cfg q = r_cfg ?r" by blast
      then show ?thesis using False fname r(2) by (simp add: with_cfg_ok)
    qed (use r in simp)
    then obtain q where q: "(if n \<noteq> 0 then do {
                 file \<leftarrow> scanctx_current_filename (r_ctx r);
                 unwind_includes (sc_depth (r_ctx r))
                   (r\<lparr>r_cfg := with_cfg (\<lambda>g. g\<lparr>c_error_file := file, c_error_type := Err_parse\<rparr>) (r_cfg r)\<rparr>)
               }
               else Some r) = Some q" "lex_ok (io_open f) q" "cfg_ok (r_cfg q)" by blast
    obtain q' where d: "delete_buffer (r_cur q) q = Some q'" "r_ctx q' = r_ctx q" "r_io q' = r_io q" "r_cfg q' = r_cfg q"
      using lex_okD(3,6) [OF q(2)] by (auto simp: delete_buffer_def)
    obtain f' where "scanctx_cleanup (r_ctx q) (r_io q) = Some (sc_names (r_ctx q), f')" "io_open f' = io_open f"
      using scanctx_cleanup_ok [OF lex_okD(1) [OF q(2)]] q(2) by (auto simp: lex_ok_def)
    then show ?thesis using run Some q(1,3) d by (simp add: with_cfg_ok)
  qed
qed

section \<open>Texts that can be read\<close>

text \<open>A text with at most nine digits, whatever else it holds.\<close>

lemma digits_bound: "list_all is_digit ds \<Longrightarrow> digits_value ds < 10 ^ length ds"
proof (induction ds rule: rev_induct)
  case (snoc d ds)
  have "(of_char d :: nat) - 48 \<le> 9" using snoc.prems by (auto simp: is_digit_def Let_def)
  then show ?case using snoc by (simp add: digits_value_def)
qed (simp add: digits_value_def)

lemma short_numbers:
  assumes "NUL \<notin> set t" and "length (filter is_digit t) \<le> 9"
  shows "good_text t"
proof -
  have "digits_value ds < 2 ^ 31" if ds: "sublist ds t" "list_all is_digit ds" for ds
  proof -
    obtain a b where "t = a @ ds @ b" using ds(1) by (auto simp: sublist_def)
    moreover have "filter is_digit ds = ds" using ds(2) by (simp add: list_all_iff)
    ultimately have "length ds \<le> length (filter is_digit t)" by simp
    then have "length ds \<le> 9" using assms(2) by simp
    then have "(10::nat) ^ length ds \<le> 10 ^ 9" by (rule power_increasing) simp
    then show ?thesis using digits_bound [OF ds(2)] by simp
  qed
  then show ?thesis using assms(1) by (simp add: good_text_def)
qed

text \<open>A file that includes another, and itself.\<close>

definition demo_io :: io where
  "demo_io = \<lparr>io_files = [''a'' \<mapsto> F_file ''x = [1, 2]; @include \"b\" '', ''b'' \<mapsto> F_file ''y : { z = \"q\" }; @include \"b\"''],
     io_open = Map.empty, io_next = 0, io_writable = \<lambda>_. True\<rparr>"

lemma demo_io_ok: "io_ok demo_io"
  by (auto simp: io_ok_def good_files_def demo_io_def ran_def is_digit_def intro!: short_numbers split: if_splits)

section \<open>Properties\<close>

text \<open>C20. In a reader in order (\<open>lex_ok\<close>: in particular, no buffer and no file holds a NUL or a run of decimal
  digits, wherever it stands, that is worth \<open>2 ^ 31\<close> or more), every call of the scanner's \<open>yylex\<close> returns without an
  undefined access, however deep the include files are nested. Either it has ended the process (\<open>L_exit\<close>), or it
  returns a token with a value of the token's own type (and no string with a NUL), and unless the token is the end of
  the input there is less left to read. In all cases the reader is in order again and the settings are as before.\<close>

theorem yylex_returns_typed_token:
  assumes "lex_ok B r"
  shows "\<exists>t r'. yylex r = Some (t, r') \<and> lex_ok B r' \<and> settings (r_cfg r') = settings (r_cfg r)
    \<and> (case t of L_exit \<Rightarrow> True
       | L_token c v \<Rightarrow> token_ok c v \<and> (c \<noteq> TOK_EOF \<longrightarrow> (rank r', rank r) \<in> lex less_than))"
  using yylex_lexes [OF assms] same_parse_cfg(1)
  by (fastforce simp: lexed_ok_def split: lexed.splits)

theorem yylex_returns_typed_token_witness:
  "\<exists>c t r'. scanctx_init None = Some c
     \<and> yylex (new_reader (F_file ''x = 5'') c (config_init config_memory) demo_io) = Some (t, r')"
proof -
  obtain c where c: "scanctx_init None = Some c" "scanctx_ok c demo_io" "sc_depth c = 0"
    using scanctx_init_ok [OF demo_io_ok] by blast
  have "good_entry (F_file ''x = 5'')" by (simp add: short_numbers is_digit_def)
  from new_reader_ok(1) [OF this demo_io_ok c(2,3) cfg_ok_init] have
    "lex_ok (io_open demo_io) (new_reader (F_file ''x = 5'') c (config_init config_memory) demo_io)" by (simp add: parse_ok_def)
  from yylex_returns_typed_token [OF this] c(1) show ?thesis by blast
qed

text \<open>C19. Reading an existing regular file returns, provided that no file holds a NUL or a run of decimal digits,
  wherever it stands, that is worth \<open>2 ^ 31\<close> or more (\<open>io_ok\<close>; this leaves out 64-bit literals): from any well-formed
  configuration, whatever else the file and the files it includes hold, with syntax errors, nesting and includes of
  itself, \<open>config_read_file\<close> makes no undefined access in the scanner, the parser or the settings, ends, and
  leaves a well-formed configuration. Every stream it opened is closed again, unless the scanner has ended
  the process (\<open>res = None\<close>). For a file that does not exist see \<open>config_read_file_missing\<close>.\<close>

theorem config_read_file_returns:
  assumes "cfg_ok s" and "io_ok f" and "io_files f filename = Some (F_file t)"
  shows "\<exists>res s' f'. config_read_file filename s f = Some (res, s', f') \<and> cfg_ok s'
    \<and> (res \<noteq> None \<longrightarrow> io_open f' = io_open f)"
proof -
  let ?k = "Suc (io_next f)"
  let ?f = "f\<lparr>io_open := (io_open f)(?k \<mapsto> F_file t), io_next := ?k\<rparr>"
  have fresh: "io_open f ?k = None" using assms(2) by (metis io_ok_def Suc_n_not_le_n)
  have opened: "fopen_r filename f = (?k, ?f)" using assms(3) by (simp add: fopen_r_def)
  have good: "good_entry (F_file t)" using assms(2,3) by (force simp: io_ok_def good_files_def ran_def)
  then have "io_ok ?f" using assms(2) by (auto simp: io_ok_def good_files_def ran_def split: if_splits)
  from config_read_from_ok [OF assms(1) good this, of "Some filename"] obtain res s' f' where
    r: "config_read_from (F_file t) (Some filename) s ?f = Some (res, s', f')" "cfg_ok s'"
      "res \<noteq> None \<longrightarrow> io_open f' = io_open ?f" by blast
  show ?thesis
  proof (cases res)
    case None
    then show ?thesis using r opened by (simp add: config_read_file_def)
  next
    case (Some b)
    then have "fclose ?k f' = Some (f'\<lparr>io_open := io_open f\<rparr>)" using r(3) fresh by (simp add: fclose_def fun_upd_idem)
    then show ?thesis using r opened Some by (simp add: config_read_file_def)
  qed
qed

theorem config_read_file_returns_witness:
  "\<exists>res s' f'. config_read_file ''a'' (config_init config_memory) demo_io = Some (res, s', f') \<and> cfg_ok s'"
proof -
  have "io_files demo_io ''a'' = Some (F_file ''x = [1, 2]; @include \"b\" '')" by (simp add: demo_io_def)
  from config_read_file_returns [OF cfg_ok_init demo_io_ok this] show ?thesis by blast
qed

text \<open>A file that cannot be opened is closed all the same, which is undefined.\<close>

lemma config_read_file_missing:
  "io_ok f \<Longrightarrow> io_files f filename = None \<Longrightarrow> config_read_file filename s f = None"
  by (auto simp: config_read_file_def fopen_r_def fclose_def io_ok_def)

end
