(* ===== verification/Config_Buffers_Rounds.thy ===== *)
theory Config_Buffers_Rounds
  imports Config_Buffers_Facts Config_Reading
begin

text \<open>
  A round of the scanner on its buffers does what a round of \<open>yylex\<close> on the whole text does, a new buffer holds its
  file or its string, and a buffer that is left for an included file is found as it was.
\<close>

section \<open>Rounds\<close>

lemma found_bol: "found_at t len y \<Longrightarrow> found_at t len (y\<lparr>fx_buf := fx_buf y\<lparr>fb_bol := b\<rparr>\<rparr>)"
proof -
  assume "found_at t len y"
  then obtain u w where u: "undo_action (fx_cp y) y = Some u" "buffered (fx_text y) u w" "w @ unread_file u = t"
    "fx_cp y = fx_text y + len" "fx_cp u = fx_cp y" "len \<le> length w" unfolding found_at_def by blast
  let ?b = "\<lambda>x. x\<lparr>fx_buf := fx_buf x\<lparr>fb_bol := b\<rparr>\<rparr>"
  have "undo_action (fx_cp y) (?b y) = Some (?b u)" using u(1) by (auto simp: undo_action_def bind_eq_Some_conv)
  moreover have "unread_file (?b u) = unread_file u" by (simp add: unread_file_def)
  moreover have "buffered (fx_text y) (?b u) w" using u(2) calculation(2) by (auto simp: buffered_def)
  ultimately show ?thesis unfolding found_at_def using u(3-6)
    by (intro exI [of _ "?b u"] exI [of _ w]) simp
qed

lemma rule_setup_ok:
  assumes f: "found_at t len y" and len: "0 < len" "len \<le> length t"
  shows "rule_setup y = Some (y\<lparr>fx_buf := fx_buf y\<lparr>fb_bol := (last (take len t) = CHR 0x0A)\<rparr>\<rparr>)"
proof -
  have cp: "fx_cp y = fx_text y + len" using f unfolding found_at_def by blast
  let ?cells = "take len (drop (fx_text y) (fb_ch (fx_buf y)))"
  have "list_all (\<lambda>c. c \<noteq> None) ?cells" "map the ?cells = take len t"
    using found_text [OF f] cp by (auto simp: yytext_of_def Let_def split: if_splits)
  moreover have "map Some (map the ?cells) = ?cells"
    unfolding map_map by (rule map_idI) (use calculation(1) in \<open>auto simp: list_all_iff\<close>)
  ultimately have cells: "?cells = map Some (take len t)" by metis
  then have "length ?cells = len" using len by simp
  then have n: "fx_cp y - 1 < length (fb_ch (fx_buf y))" using cp len(1) by auto
  have "?cells ! (len - 1) = Some (t ! (len - 1))" unfolding cells using len by simp
  then have "fb_ch (fx_buf y) ! (fx_cp y - 1) = Some (t ! (len - 1))" using cp len n by (simp add: add.commute)
  moreover have "last (take len t) = t ! (len - 1)" using len by (subst last_conv_nth) auto
  ultimately show ?thesis using n cp len(1) by (simp add: rule_setup_def rd_char_def rd_def)
qed

lemma give_back_ok:
  assumes f: "found_at t len y" and len: "0 < len"
  shows "\<exists>y'. give_back y = Some y' \<and> found_at t (len - 1) y' \<and> same_start y y'"
proof -
  obtain u w where u: "undo_action (fx_cp y) y = Some u" "buffered (fx_text y) u w" "w @ unread_file u = t"
    "fx_cp y = fx_text y + len" "fx_cp u = fx_cp y" "len \<le> length w" using f unfolding found_at_def by blast
  note f' = undo_fields [OF u(1)]
  let ?cp = "fx_text y + (len - 1)"
  have "len - 1 \<le> length w + 1" using u(6) by simp
  from buffered_char(1) [OF u(2) this] obtain c where "rd_char (fb_ch (fx_buf u)) ?cp = Some c" by blast
  from before_undo [OF this, of "fx_text y"] obtain y' where y': "before_action (fx_text y) ?cp u = Some y'"
    "undo_action ?cp y' = Some (u\<lparr>fx_text := fx_text y, fx_hold := c, fx_cp := ?cp\<rparr>)" "fx_cp y' = ?cp" "fx_text y' = fx_text y"
    by blast
  have "give_back y = Some y'" using u(1,4,5) f'(2) y'(1) len by (simp add: give_back_def)
  moreover have "found_at t (len - 1) y'" unfolding found_at_def using y'(2-4) u(2,3,6)
    by (intro exI [of _ "u\<lparr>fx_text := fx_text y, fx_hold := c, fx_cp := ?cp\<rparr>"] exI [of _ w]) (simp add: buffered_same)
  moreover have "same_start u y'" using y'(1) by (auto simp: before_action_def same_start_def bind_eq_Some_conv)
  ultimately show ?thesis using f'(4) by (blast intro: same_start_trans)
qed

text \<open>The buffer of the model on whole texts, without the line number.\<close>

definition scans :: "flexer \<Rightarrow> lexbuf \<Rightarrow> nat \<Rightarrow> bool" where
  "scans x b start \<longleftrightarrow> holds_text x (b_rest b) \<and> fb_bol (fx_buf x) = b_bol b \<and> fx_start x = start \<and> \<not> b_dir b
     \<and> 0 < start \<and> start < 8"

lemma flex_round_ok:
  assumes "scans x b start"
  shows "if b_rest b = [] then \<exists>y. flex_round x = Some (F_eof, y)
    else \<exists>act len y. run_dfa (b_rest b) (start + (if b_bol b then 1 else 0)) 0 None = Some (act, len) \<and> matched act len
      \<and> (let n = (if act = 40 then len - 1 else len); t = take n (b_rest b)
         in t \<noteq> [] \<and> flex_round x = Some (F_rule act, y) \<and> yytext_of y = Some t
           \<and> (\<forall>line. scans y (b\<lparr>b_rest := drop n (b_rest b), b_line := line, b_bol := (last t = CHR 0x0A)\<rparr>) start))"
proof -
  let ?t = "b_rest b"
  have h: "holds_text x ?t" and first: "first_state x = start + (if b_bol b then 1 else 0)"
    and start: "0 < start" "start < 8" "\<not> b_dir b" "fx_start x = start"
    using assms by (auto simp: scans_def first_state_def)
  then have s: "0 < first_state x" "first_state x < 9" by auto
  show ?thesis
  proof (cases "?t = []")
    case True
    then show ?thesis using next_rule_ok [OF h s] by (auto simp: flex_round_def)
  next
    case False
    then obtain act len y where y: "run_dfa ?t (first_state x) 0 None = Some (act, len)" "next_rule x = Some (F_rule act, y)"
      "found_at ?t len y" "same_start x y" "matched act len" "len \<le> length ?t" using next_rule_ok [OF h s] by auto
    define n where "n = (if act = 40 then len - 1 else len)"
    have n: "0 < n" "n \<le> length ?t" and len: "0 < len" using y(5,6) by (auto simp: n_def matched_def)
    obtain z where z: "(if act = 40 then give_back y else Some y) = Some z" "found_at ?t n z" "same_start x z"
      using give_back_ok [OF y(3) len] y(3,4) by (cases "act = 40") (auto simp: n_def intro: same_start_trans)
    let ?z = "z\<lparr>fx_buf := fx_buf z\<lparr>fb_bol := (last (take n ?t) = CHR 0x0A)\<rparr>\<rparr>"
    have run: "flex_round x = Some (F_rule act, ?z)" using y(2) z(1) rule_setup_ok [OF z(2) n] by (simp add: flex_round_def)
    have f: "found_at ?t n ?z" by (rule found_bol [OF z(2)])
    have "scans ?z (b\<lparr>b_rest := drop n ?t, b_line := line, b_bol := (last (take n ?t) = CHR 0x0A)\<rparr>) start" for line
      using found_holds [OF f] z(3) start by (simp add: scans_def same_start_def)
    moreover have "take n ?t \<noteq> []" using n by auto
    ultimately show ?thesis using False y(1,5) first run found_text [OF f] by (auto simp: Let_def simp flip: n_def)
  qed
qed

section \<open>New buffers\<close>

lemma undo_same:
  assumes "rd_char (fb_ch (fx_buf x)) i = Some c" and "fx_hold x = c"
  shows "undo_action i x = Some x"
proof -
  have "i < length (fb_ch (fx_buf x))" "fb_ch (fx_buf x) ! i = Some c"
    using assms(1) by (auto simp: rd_char_def rd_def split: if_splits)
  moreover from this(2) have "(fb_ch (fx_buf x))[i := Some c] = fb_ch (fx_buf x)" by (metis list_update_id)
  ultimately show ?thesis using assms(2) by (cases x; cases "fx_buf x") (simp add: undo_action_def wr_def)
qed

lemma holds_start:
  assumes "buffered 0 (x\<lparr>fx_text := 0, fx_cp := 0, fx_hold := c\<rparr>) w" and "rd_char (fb_ch (fx_buf x)) 0 = Some c"
  shows "holds_text (x\<lparr>fx_text := 0, fx_cp := 0, fx_hold := c\<rparr>) (w @ unread_file x)"
proof -
  let ?x = "x\<lparr>fx_text := 0, fx_cp := 0, fx_hold := c\<rparr>"
  have "undo_action 0 ?x = Some ?x" using assms(2) by (simp add: undo_same)
  then show ?thesis using assms(1) unfolding holds_text_def by (intro exI [of _ ?x] exI [of _ w]) simp
qed

lemma created_holds:
  assumes "0 < n" and "CHR 0x00 \<notin> set t"
  shows "\<exists>b y. yy_create_buffer (F_file t) n = Some b \<and> yy_load_buffer_state (x\<lparr>fx_buf := b\<rparr>) = Some y \<and> holds_text y t
    \<and> fb_bol (fx_buf y) \<and> fx_start y = fx_start x"
proof -
  let ?b = "\<lparr>fb_input = F_file t, fb_ch = Some (CHR 0x00) # Some (CHR 0x00) # replicate n None, fb_pos = 0, fb_size = n, fb_n = 0,
       fb_ours = True, fb_bol = True, fb_fill = True, fb_status = BUFFER_NEW\<rparr>"
  let ?y = "x\<lparr>fx_buf := ?b, fx_n := 0\<rparr>\<lparr>fx_text := 0, fx_cp := 0, fx_hold := CHR 0x00\<rparr>"
  have b: "yy_create_buffer (F_file t) n = Some ?b"
    by (simp add: yy_create_buffer_def yy_init_buffer_def yy_flush_buffer_def wr_def)
  have y: "yy_load_buffer_state (x\<lparr>fx_buf := ?b\<rparr>) = Some ?y"
    by (simp add: yy_load_buffer_state_def rd_char_def rd_def Let_def)
  have "array_holds (fb_ch ?b) 0 []" by (auto simp: array_holds_def)
  then have "buffered 0 ?y []" using assms by (simp add: buffered_def unread_file_def)
  from holds_start [OF this] have "holds_text ?y t" by (simp add: rd_char_def rd_def unread_file_def)
  then show ?thesis using b y by (intro exI [of _ ?b] exI [of _ ?y]) simp
qed

lemma scanned_string_holds:
  assumes "CHR 0x00 \<notin> set t"
  shows "\<exists>b y. yy_scan_string t = Some (Some b) \<and> yy_load_buffer_state (x\<lparr>fx_buf := b\<rparr>) = Some y \<and> holds_text y t
    \<and> fb_bol (fx_buf y) \<and> fx_start y = fx_start x"
proof -
  let ?ch = "map Some (t @ [CHR 0x00, CHR 0x00])" and ?n = "length t"
  let ?b = "\<lparr>fb_input = F_file [], fb_ch = ?ch, fb_pos = 0, fb_size = ?n, fb_n = ?n,
       fb_ours = True, fb_bol = True, fb_fill = False, fb_status = BUFFER_NEW\<rparr>"
  obtain c where c: "rd_char ?ch 0 = Some c" by (cases t) (simp_all add: rd_char_def rd_def)
  let ?y = "x\<lparr>fx_buf := ?b, fx_n := ?n\<rparr>\<lparr>fx_text := 0, fx_cp := 0, fx_hold := c\<rparr>"
  have "rd_char ?ch ?n = Some (CHR 0x00)" "rd_char ?ch (Suc ?n) = Some (CHR 0x00)"
    by (simp_all add: rd_char_def rd_def nth_append)
  moreover have "takeWhile (\<lambda>c. c \<noteq> CHR 0x00) t = t" using assms by (auto simp: takeWhile_eq_all_conv)
  then have "yy_scan_string t = yy_scan_bytes t" unfolding yy_scan_string_def by (rule arg_cong)
  ultimately have b: "yy_scan_string t = Some (Some ?b)" by (simp add: yy_scan_bytes_def yy_scan_buffer_def Let_def)
  have y: "yy_load_buffer_state (x\<lparr>fx_buf := ?b\<rparr>) = Some ?y" using c by (simp add: yy_load_buffer_state_def Let_def)
  have "array_holds ?ch 0 t" unfolding array_holds_def by (intro exI [of _ "[]"]) simp
  then have "buffered 0 ?y t" using assms by (simp add: buffered_def unread_file_def)
  from holds_start [OF this] have "holds_text ?y t" using c by (simp add: unread_file_def)
  then show ?thesis using b y by (intro exI [of _ ?b] exI [of _ ?y]) simp
qed

section \<open>Changing buffers\<close>

text \<open>A buffer that is left is found as it was, whatever the scanner has done meanwhile.\<close>

lemma reload:
  assumes h: "holds_text x t"
  shows "\<exists>u y. flush_info x = Some u \<and> yy_load_buffer_state (z\<lparr>fx_buf := fx_buf u\<rparr>) = Some y \<and> holds_text y t
    \<and> fb_bol (fx_buf y) = fb_bol (fx_buf x) \<and> fx_start y = fx_start z"
proof -
  obtain u w where u: "undo_action (fx_cp x) x = Some u" "buffered (fx_cp x) u w" "t = w @ unread_file u"
    using h unfolding holds_text_def by blast
  note f = undo_fields [OF u(1)]
  let ?u = "u\<lparr>fx_buf := fx_buf u\<lparr>fb_pos := fx_cp x, fb_n := fx_n u\<rparr>\<rparr>"
  have fl: "flush_info x = Some ?u" using u(1) f(1) by (simp add: flush_info_def)
  obtain c where c: "rd_char (fb_ch (fx_buf u)) (fx_cp x) = Some c" using buffered_char(1) [OF u(2), of 0] by auto
  let ?y = "z\<lparr>fx_buf := fx_buf ?u, fx_n := fx_n u, fx_text := fx_cp x, fx_cp := fx_cp x, fx_hold := c\<rparr>"
  have y: "yy_load_buffer_state (z\<lparr>fx_buf := fx_buf ?u\<rparr>) = Some ?y" using c by (simp add: yy_load_buffer_state_def Let_def)
  have un: "unread_file ?y = unread_file u" by (simp add: unread_file_def)
  have "undo_action (fx_cp x) ?y = Some ?y" using c by (simp add: undo_same)
  moreover have "buffered (fx_cp x) ?y w" using u(2) un by (auto simp: buffered_def)
  ultimately have "holds_text ?y t" unfolding holds_text_def using u(3) un by (intro exI [of _ ?y] exI [of _ w]) simp
  moreover have "fb_bol (fx_buf ?y) = fb_bol (fx_buf x)" using f(4) by (simp add: same_start_def)
  ultimately show ?thesis using fl y by (intro exI [of _ ?u] exI [of _ ?y]) simp
qed

lemma switch_and_return:
  assumes "holds_text x t" and "yy_switch_to_buffer nb x = Some (b, y)"
  shows "\<exists>y'. yy_load_buffer_state (z\<lparr>fx_buf := b\<rparr>) = Some y' \<and> holds_text y' t
    \<and> fb_bol (fx_buf y') = fb_bol (fx_buf x) \<and> fx_start y' = fx_start z"
  using reload [OF assms(1), of z] assms(2) by (auto simp: yy_switch_to_buffer_def bind_eq_Some_conv)

text \<open>The same on the stack, whatever the scanner does with the buffer that is pushed.\<close>

lemma ensured_room: "bs_cells s = Some cs \<Longrightarrow> bs_top s < length cs \<Longrightarrow>
  \<exists>ext. yyensure_buffer_stack s = s\<lparr>bs_cells := Some (cs @ ext)\<rparr> \<and> bs_top s + 1 < length (cs @ ext)"
  by (cases s) (auto simp: yyensure_buffer_stack_def intro: exI [of _ "[]"])

theorem push_then_pop:
  assumes h: "holds_text (bs_x s) t" and cells: "bs_cells s = Some cs" "bs_top s < length cs" "cs ! bs_top s \<noteq> None"
    and nb: "rd_char (fb_ch nb) (fb_pos nb) = Some c"
  shows "\<exists>s1. yypush_buffer_state (Some nb) s = Some s1 \<and> bs_top s1 = bs_top s + 1 \<and> fx_buf (bs_x s1) = nb
    \<and> (\<forall>z. \<exists>s2. yypop_buffer_state (s1\<lparr>bs_x := z\<rparr>) = Some s2 \<and> bs_top s2 = bs_top s \<and> holds_text (bs_x s2) t
        \<and> fb_bol (fx_buf (bs_x s2)) = fb_bol (fx_buf (bs_x s)))"
proof -
  obtain ext where room: "yyensure_buffer_stack s = s\<lparr>bs_cells := Some (cs @ ext)\<rparr>" "bs_top s + 1 < length (cs @ ext)"
    using ensured_room [OF cells(1,2)] by blast
  obtain b where b: "cs ! bs_top s = Some b" using cells(3) by blast
  obtain u where u: "flush_info (bs_x s) = Some u" using reload [OF h] by blast
  define ds where "ds = (cs @ ext)[bs_top s := Some (fx_buf u), bs_top s + 1 := Some nb]"
  have ds: "length ds = length (cs @ ext)" "ds ! bs_top s = Some (fx_buf u)" "ds ! (bs_top s + 1) = Some nb"
    using room(2) cells(2) by (simp_all add: ds_def)
  let ?x = "u\<lparr>fx_buf := nb, fx_n := fb_n nb, fx_text := fb_pos nb, fx_cp := fb_pos nb, fx_hold := c\<rparr>"
  let ?s1 = "s\<lparr>bs_cells := Some ds, bs_top := bs_top s + 1, bs_x := ?x\<rparr>"
  have "yypush_buffer_state (Some nb) s = Some ?s1"
    using room cells b u nb
    by (simp add: yypush_buffer_state_def YY_CURRENT_BUFFER_def rd_def wr_def Let_def nth_append yy_load_buffer_state_def ds_def)
  moreover have "\<exists>s2. yypop_buffer_state (?s1\<lparr>bs_x := z\<rparr>) = Some s2 \<and> bs_top s2 = bs_top s \<and> holds_text (bs_x s2) t
        \<and> fb_bol (fx_buf (bs_x s2)) = fb_bol (fx_buf (bs_x s))" for z
  proof -
    obtain y where y: "yy_load_buffer_state (z\<lparr>fx_buf := fx_buf u\<rparr>) = Some y" "holds_text y t"
      "fb_bol (fx_buf y) = fb_bol (fx_buf (bs_x s))" using reload [OF h, of z] u by auto
    have "yypop_buffer_state (?s1\<lparr>bs_x := z\<rparr>) = Some (s\<lparr>bs_cells := Some (ds[bs_top s + 1 := None]), bs_top := bs_top s, bs_x := y\<rparr>)"
      using ds room(2) y(1) by (simp add: yypop_buffer_state_def YY_CURRENT_BUFFER_def rd_def wr_def Let_def)
    then show ?thesis using y(2,3) by simp
  qed
  ultimately show ?thesis by (intro exI [of _ ?s1]) simp
qed

section \<open>Properties\<close>

text \<open>C28. The scanner on its buffers refines the scanner on whole texts: where the buffers stand for the buffer of the
  reader, a round ends at the end of the input exactly when a round of \<open>yylex\<close> does, and otherwise it matches the same
  rule with the same text in \<open>yytext\<close>, wherever the refilling cuts the text, and what it leaves stands for what the
  round of \<open>yylex\<close> leaves.\<close>

theorem buffers_refine_text:
  assumes "r_bufs r (r_cur r) = Some b" and "scans x b (r_start r)"
  shows "if b_rest b = [] then \<exists>y. flex_round x = Some (F_eof, y) \<and> yylex_round r = action_eof r
    else \<exists>act y t b'. flex_round x = Some (F_rule act, y) \<and> yytext_of y = Some t \<and> t \<noteq> []
      \<and> b_rest b = t @ b_rest b' \<and> scans y b' (r_start r)
      \<and> yylex_round r = yy_do_action act t (r\<lparr>r_bufs := (r_bufs r)(r_cur r \<mapsto> b')\<rparr>)"
proof (cases "b_rest b = []")
  case True
  then show ?thesis using flex_round_ok [OF assms(2)] assms by (simp add: yylex_round_def scans_def)
next
  case False
  obtain act len y where y: "run_dfa (b_rest b) (r_start r + (if b_bol b then 1 else 0)) 0 None = Some (act, len)" "matched act len"
    "let n = (if act = 40 then len - 1 else len); t = take n (b_rest b)
     in t \<noteq> [] \<and> flex_round x = Some (F_rule act, y) \<and> yytext_of y = Some t
       \<and> (\<forall>line. scans y (b\<lparr>b_rest := drop n (b_rest b), b_line := line, b_bol := (last t = CHR 0x0A)\<rparr>) (r_start r))"
    using flex_round_ok [OF assms(2)] False by auto
  define n where "n = (if act = 40 then len - 1 else len)"
  define t where "t = take n (b_rest b)"
  have t: "t \<noteq> []" "flex_round x = Some (F_rule act, y)" "yytext_of y = Some t"
    "\<And>line. scans y (b\<lparr>b_rest := drop n (b_rest b), b_line := line, b_bol := (last t = CHR 0x0A)\<rparr>) (r_start r)"
    using y(3) by (auto simp: Let_def n_def t_def)
  have n: "0 < n" using t(1) by (auto simp: t_def)
  obtain eol where eol: "rd yy_rule_can_match_eol act = Some eol" using y(2) by (auto simp: rd_def matched_def)
  define line where "line = (if eol \<noteq> 0 then b_line b + int (length (filter (\<lambda>c. c = CHR 0x0A) (take len (b_rest b)))) else b_line b)"
  let ?b = "b\<lparr>b_rest := drop n (b_rest b), b_line := line, b_bol := (last t = CHR 0x0A)\<rparr>"
  have "yylex_round r = yy_do_action act t (r\<lparr>r_bufs := (r_bufs r)(r_cur r \<mapsto> ?b)\<rparr>)"
    using assms False y(1) eol n
    by (simp add: yylex_round_def scans_def Let_def line_def t_def n_def)
  moreover have "b_rest b = t @ b_rest ?b" by (simp add: t_def)
  ultimately show ?thesis using False t by (simp only: if_False) blast
qed

theorem buffers_refine_text_witness:
  "\<exists>c x0 b x act y t b'. scanctx_init None = Some c
     \<and> yy_create_buffer (F_file ''x = 5'') 2 = Some b \<and> yy_load_buffer_state (x0\<lparr>fx_buf := b\<rparr>) = Some x
     \<and> flex_round x = Some (F_rule act, y) \<and> yytext_of y = Some t \<and> t \<noteq> []
     \<and> (let r = new_reader (F_file ''x = 5'') c (config_init config_memory) demo_io
        in yylex_round r = yy_do_action act t (r\<lparr>r_bufs := (r_bufs r)(r_cur r \<mapsto> b')\<rparr>))"
proof -
  let ?t = "''x = 5''"
  obtain c where c: "scanctx_init None = Some c" using scanctx_init_ok [OF demo_io_ok] by blast
  let ?r = "new_reader (F_file ?t) c (config_init config_memory) demo_io"
  let ?b = "\<lparr>b_rest = ?t, b_bol = True, b_line = 1, b_dir = False\<rparr>"
  have r: "r_bufs ?r (r_cur ?r) = Some ?b" "r_start ?r = 1"
    by (simp_all add: new_reader_def create_buffer_def switch_to_buffer_def Let_def)
  obtain b0 where "yy_scan_string [] = Some (Some b0)" using scanned_string_holds [of "[]"] by auto
  let ?x0 = "\<lparr>fx_buf = b0, fx_hold = CHR 0x00, fx_n = 0, fx_cp = 0, fx_text = 0, fx_start = 1, fx_last = (0, 0)\<rparr>"
  obtain b x where x: "yy_create_buffer (F_file ?t) 2 = Some b" "yy_load_buffer_state (?x0\<lparr>fx_buf := b\<rparr>) = Some x"
    "holds_text x ?t" "fb_bol (fx_buf x)" "fx_start x = fx_start ?x0" using created_holds [of 2 ?t ?x0] by auto
  have "scans x ?b (r_start ?r)" using x(3-5) r(2) by (simp add: scans_def)
  note main = buffers_refine_text [OF r(1) this]
  have "b_rest ?b \<noteq> []" by simp
  with main obtain act y t b' where "flex_round x = Some (F_rule act, y)" "yytext_of y = Some t" "t \<noteq> []"
    "yylex_round ?r = yy_do_action act t (?r\<lparr>r_bufs := (r_bufs ?r)(r_cur ?r \<mapsto> b')\<rparr>)"
    by (simp only: if_False) blast
  then show ?thesis unfolding Let_def using c x(1,2) by blast
qed

end
