(* ===== verification/Config_Sentences.thy ===== *)
theory Config_Sentences
  imports Config_Reading
begin

text \<open>
  What the parser of libconfig accepts: the tokens it has read form a sentence of the grammar, which is written
  with the names of the symbols (\<open>yytname\<close>).
\<close>

section \<open>The grammar\<close>

definition yytname :: "string list" where
  "yytname =
   [''$end'', ''error'', ''$undefined'', ''TOK_BOOLEAN'', ''TOK_INTEGER'', ''TOK_HEX'', ''TOK_INTEGER64'', ''TOK_HEX64'',
    ''TOK_FLOAT'', ''TOK_STRING'', ''TOK_NAME'', ''TOK_EQUALS'', ''TOK_NEWLINE'', ''TOK_ARRAY_START'', ''TOK_ARRAY_END'',
    ''TOK_LIST_START'', ''TOK_LIST_END'', ''TOK_COMMA'', ''TOK_GROUP_START'', ''TOK_GROUP_END'', ''TOK_SEMICOLON'',
    ''TOK_GARBAGE'', ''TOK_ERROR'', ''$accept'', ''configuration'', ''setting_list'', ''setting_list_optional'',
    ''setting_terminator'', ''setting'', ''$@1'', ''array'', ''$@2'', ''list'', ''$@3'', ''value'', ''string'', ''simple_value'',
    ''value_list'', ''value_list_optional'', ''simple_value_list'', ''simple_value_list_optional'', ''group'', ''$@4'']"

text \<open>Rule \<open>n\<close> of the parser is entry \<open>n\<close>; there is no rule 0.\<close>

definition rules :: "(string \<times> string list) list" where
  "rules =
   [(''$undefined'', []),
    (''$accept'', [''configuration'', ''$end'']),
    (''configuration'', []),
    (''configuration'', [''setting_list'']),
    (''setting_list'', [''setting'']),
    (''setting_list'', [''setting_list'', ''setting'']),
    (''setting_list_optional'', []),
    (''setting_list_optional'', [''setting_list'']),
    (''setting_terminator'', []),
    (''setting_terminator'', [''TOK_SEMICOLON'']),
    (''setting_terminator'', [''TOK_COMMA'']),
    (''$@1'', []),
    (''setting'', [''TOK_NAME'', ''$@1'', ''TOK_EQUALS'', ''value'', ''setting_terminator'']),
    (''$@2'', []),
    (''array'', [''TOK_ARRAY_START'', ''$@2'', ''simple_value_list_optional'', ''TOK_ARRAY_END'']),
    (''$@3'', []),
    (''list'', [''TOK_LIST_START'', ''$@3'', ''value_list_optional'', ''TOK_LIST_END'']),
    (''value'', [''simple_value'']),
    (''value'', [''array'']),
    (''value'', [''list'']),
    (''value'', [''group'']),
    (''string'', [''TOK_STRING'']),
    (''string'', [''string'', ''TOK_STRING'']),
    (''simple_value'', [''TOK_BOOLEAN'']),
    (''simple_value'', [''TOK_INTEGER'']),
    (''simple_value'', [''TOK_INTEGER64'']),
    (''simple_value'', [''TOK_HEX'']),
    (''simple_value'', [''TOK_HEX64'']),
    (''simple_value'', [''TOK_FLOAT'']),
    (''simple_value'', [''string'']),
    (''value_list'', [''value'']),
    (''value_list'', [''value_list'', ''TOK_COMMA'', ''value'']),
    (''value_list_optional'', []),
    (''value_list_optional'', [''value_list'']),
    (''simple_value_list'', [''simple_value'']),
    (''simple_value_list'', [''simple_value_list'', ''TOK_COMMA'', ''simple_value'']),
    (''simple_value_list_optional'', []),
    (''simple_value_list_optional'', [''simple_value_list'']),
    (''$@4'', []),
    (''group'', [''TOK_GROUP_START'', ''$@4'', ''setting_list_optional'', ''TOK_GROUP_END''])]"

text \<open>What a symbol derives.\<close>

inductive derives :: "string \<Rightarrow> string list \<Rightarrow> bool" where
  derives_token: "t \<in> set (take 23 yytname) \<Longrightarrow> derives t [t]"
| derives_rule: "(lhs, rhs) \<in> set (tl rules) \<Longrightarrow> list_all2 derives rhs tss \<Longrightarrow> derives lhs (concat tss)"

definition sentence :: "string list \<Rightarrow> bool" where
  "sentence ts \<longleftrightarrow> derives ''configuration'' ts"

section \<open>The rules of the automaton are the rules of the grammar\<close>

definition name_of :: "int \<Rightarrow> string" where
  "name_of s = yytname ! nat (yystos ! nat s)"

definition rhs_ok :: "int \<Rightarrow> bool" where
  "rhs_ok s \<longleftrightarrow>
     (case tab yydefact s of
        None \<Rightarrow> False
      | Some n \<Rightarrow> n = 0 \<or> s = 6 \<or>
          list_all (\<lambda>path. case goto_state n (last path) of
              None \<Rightarrow> False
            | Some g \<Rightarrow> g \<noteq> 6 \<and> (name_of g, map name_of (rev (butlast path))) \<in> set (tl rules))
            (paths (nat (yyr2 ! nat n)) s))"

lemma right_hand_sides: "list_all rhs_ok [0..46]"
  by code_simp

definition shifts_token :: "int \<Rightarrow> int \<Rightarrow> bool" where
  "shifts_token s t \<longleftrightarrow>
     (case tab yypact s of
        None \<Rightarrow> False
      | Some n \<Rightarrow> n = YYPACT_NINF \<or> n + t < 0 \<or> YYLAST < n + t \<or> tab yycheck (n + t) \<noteq> Some t
          \<or> (case tab yytable (n + t) of None \<Rightarrow> False | Some g \<Rightarrow> nat (yystos ! nat g) = nat t))"

lemma shifted_tokens: "list_all (\<lambda>s. list_all (shifts_token s) [0..22]) [0..46]"
  by code_simp

section \<open>Runs with the tokens that they read\<close>

text \<open>The token that a step takes from the scanner.\<close>

definition step_reads :: "label \<Rightarrow> parser \<Rightarrow> int list" where
  "step_reads l p =
     (case l of
        L_backup \<Rightarrow>
          (if p_char p = YYEMPTY \<and> Option.bind (state_of p) (tab yypact) \<noteq> Some YYPACT_NINF
           then (case yylex (p_rd p) of Some (L_token c v, r) \<Rightarrow> [c] | _ \<Rightarrow> [])
           else [])
      | _ \<Rightarrow> [])"

inductive parses :: "label \<Rightarrow> parser \<Rightarrow> int list \<Rightarrow> int \<Rightarrow> parser \<Rightarrow> bool" where
  parses_return: "parses (L_return n) p [] n p"
| parses_step: "l \<noteq> L_gone \<Longrightarrow> \<forall>m. l \<noteq> L_return m \<Longrightarrow> yystep l p = Some (l', p') \<Longrightarrow> parses l' p' ts n q
    \<Longrightarrow> parses l p (step_reads l p @ ts) n q"

lemma yyrun_parses:
  assumes "yyrun l p = Some (Some n, q)"
  shows "\<exists>ts. parses l p ts n q"
proof -
  have "(Some n, q) = (Some n, q) \<longrightarrow> (\<exists>ts. parses l p ts n q)"
  proof (rule yyrun.raw_induct [where P = "\<lambda>l p r. r = (Some n, q) \<longrightarrow> (\<exists>ts. parses l p ts n q)", OF _ assms], rule impI)
    fix f l p r
    assume IH: "\<And>l p r. f l p = Some r \<Longrightarrow> r = (Some n, q) \<longrightarrow> (\<exists>ts. parses l p ts n q)" and r: "r = (Some n, q)"
      and run: "(case l of L_return n \<Rightarrow> Some (Some n, p) | L_gone \<Rightarrow> Some (None, p)
        | _ \<Rightarrow> do { (l, p) \<leftarrow> yystep l p; f l p }) = Some r"
    have step: "\<exists>ts. parses l p ts n q" if l: "l \<noteq> L_gone" "\<forall>m. l \<noteq> L_return m"
      and s: "Option.bind (yystep l p) (\<lambda>(l, p). f l p) = Some r"
    proof -
      obtain l' p' where s': "yystep l p = Some (l', p')" "f l' p' = Some r" using s by (auto simp: bind_eq_Some_conv)
      from IH [OF s'(2)] r obtain ts where "parses l' p' ts n q" by blast
      from parses_step [OF l s'(1) this] show ?thesis by blast
    qed
    show "\<exists>ts. parses l p ts n q"
    proof (cases l)
      case (L_return m)
      then show ?thesis using run r by (auto intro: parses_return)
    qed (use run r step in simp_all)
  qed
  then show ?thesis by simp
qed

text \<open>The name of a token, by its code.\<close>

definition token_name :: "int \<Rightarrow> string" where
  "token_name c = (if c \<le> YYEOF then ''$end'' else yytname ! nat (the (YYTRANSLATE c)))"

section \<open>What has been read so far\<close>

text \<open>Each state on the stack stands for the tokens that its symbol has been derived from.\<close>

definition covers :: "(int \<times> yylval) list \<Rightarrow> string list list \<Rightarrow> bool" where
  "covers ss tss \<longleftrightarrow> stacked (map fst ss) \<and> list_all2 (\<lambda>s ts. derives (name_of (fst s)) ts) (butlast ss) tss"

definition looked_at :: "parser \<Rightarrow> string list" where
  "looked_at p = (if p_char p = YYEMPTY then [] else [token_name (p_char p)])"

fun label_fits :: "label \<Rightarrow> parser \<Rightarrow> bool" where
  "label_fits L_setstate p = (state_of p = Some YYFINAL \<longrightarrow> p_char p = YYEMPTY)"
| "label_fits L_backup p = (state_of p \<noteq> Some YYFINAL)"
| "label_fits L_default p = (state_of p \<noteq> Some YYFINAL)"
| "label_fits (L_reduce n) p = (state_of p \<noteq> Some YYFINAL \<and> n \<noteq> 0 \<and> Option.bind (state_of p) (tab yydefact) = Some n)"
| "label_fits (L_return n) p = (n = 0 \<longrightarrow> state_of p = Some YYFINAL \<and> p_char p = YYEMPTY)"
| "label_fits _ p = True"

lemma paths_length: "path \<in> set (paths k s) \<Longrightarrow> length path = Suc k \<and> hd path = s"
  by (induction k arbitrary: s path) auto

text \<open>A reduction derives the symbol of the new state.\<close>

lemma covers_reduce:
  assumes c: "covers ss tss" and top: "ss = (s, v) # ss'" and n: "tab yydefact s = Some n" "n \<noteq> 0" "s \<noteq> 6"
    and len: "tab yyr2 n = Some len" and g: "goto_state n (fst (hd (drop (nat len) ss))) = Some g"
  shows "\<exists>uss. covers ((g, u) # drop (nat len) ss) uss \<and> concat (rev uss) = concat (rev tss) \<and> g \<noteq> 6"
proof -
  have st: "stacked (s # map fst ss')" using c top by (simp add: covers_def)
  have "s \<in> set [0..46]" using stacked_states [OF st] by simp
  then have ok: "reduce_ok s" "rhs_ok s" using reduces right_hand_sides by (metis list_all_iff)+
  then have "deep (nat len) s" using n len by (auto simp: reduce_ok_def)
  from stacked_path [OF st this] obtain path rest where path: "s # map fst ss' = path @ rest"
    "path \<in> set (paths (nat len) s)" "length path = Suc (nat len)" "stacked (last path # rest)" by blast
  have yr: "yyr2 ! nat n = len" using len by (auto simp: tab_def rd_def split: if_splits)
  have "path \<noteq> []" using path(3) by auto
  then have split: "path = butlast path @ [last path]" by simp
  have lb: "length (butlast path) = nat len" using path(3) by simp
  let ?top = "take (nat len) ss" and ?low = "drop (nat len) ss"
  have ss: "map fst ss = butlast path @ last path # rest" using path(1) split top by (metis append.assoc append_Cons append_Nil list.simps(9) fst_conv)
  have tops: "map fst ?top = butlast path" and lows: "map fst ?low = last path # rest"
    using ss lb by (simp_all flip: take_map drop_map)
  have hd: "fst (hd ?low) = last path" using lows by (cases ?low) auto
  have gr: "g \<noteq> 6 \<and> (name_of g, map name_of (rev (butlast path))) \<in> set (tl rules) \<and> last path \<in> set (preds g)"
  proof -
    have "path_ok s n path" using ok(1) n len path(2) by (auto simp: reduce_ok_def list_all_iff)
    then have "last path \<in> set (preds g)" using g hd by (simp add: path_ok_def Let_def)
    moreover have "case goto_state n (last path) of None \<Rightarrow> False
        | Some g \<Rightarrow> g \<noteq> 6 \<and> (name_of g, map name_of (rev (butlast path))) \<in> set (tl rules)"
      using ok(2) n path(2) yr by (simp add: rhs_ok_def list_all_iff)
    ultimately show ?thesis using g hd by simp
  qed
  have ne: "?low \<noteq> []" using lows by auto
  then have bl: "butlast ss = ?top @ butlast ?low" by (metis append_take_drop_id butlast_append)
  from c have "list_all2 (\<lambda>s ts. derives (name_of (fst s)) ts) (?top @ butlast ?low) tss" unfolding covers_def bl by blast
  then obtain as bs where t: "tss = as @ bs" "list_all2 (\<lambda>s ts. derives (name_of (fst s)) ts) ?top as"
    "list_all2 (\<lambda>s ts. derives (name_of (fst s)) ts) (butlast ?low) bs" by (auto simp: list_all2_append1)
  from t(2) have "list_all2 derives (map name_of (butlast path)) as"
    unfolding tops [symmetric] by (simp add: list_all2_map1 comp_def)
  then have "list_all2 derives (rev (map name_of (butlast path))) (rev as)" unfolding list_all2_rev .
  then have "list_all2 derives (map name_of (rev (butlast path))) (rev as)" unfolding rev_map .
  with gr have "derives (name_of g) (concat (rev as))" by (blast intro: derives_rule)
  moreover have "stacked (map fst ((g, u) # ?low))" using lows path(4) gr by simp
  ultimately have "covers ((g, u) # ?low) (concat (rev as) # bs)" using t(3) ne by (simp add: covers_def)
  moreover have "concat (rev (concat (rev as) # bs)) = concat (rev tss)" using t(1) by simp
  ultimately show ?thesis using gr by blast
qed

section \<open>Steps\<close>

lemma error_fails: "parses l p ts n q \<Longrightarrow> l = L_errlab1 \<or> l = L_errlab \<Longrightarrow> stacked (map fst (p_stack p)) \<Longrightarrow> n = 1"
proof (induction rule: parses.induct)
  case (parses_step l p l' p' ts n q)
  have unw: "n = 1" if "parses (L_return 1) p'' us n q" for p'' us
    using that by (cases rule: parses.cases) auto
  show ?case
  proof (cases "l = L_errlab1")
    case True
    then have "l' = L_return 1" using parses_step.hyps(3) unwind_empties [OF parses_step.prems(2)]
      by (auto simp: yystep_def yyerrlab1_def bind_eq_Some_conv)
    then show ?thesis using unw parses_step.hyps(4) by simp
  next
    case False
    then have e: "yyerrlab p = Some (l', p')" using parses_step.hyps(3) parses_step.prems(1) by (simp add: yystep_def)
    then have "(l' = L_return 1 \<or> l' = L_errlab1) \<and> p_stack p' = p_stack p"
      by (auto simp: yyerrlab_def bind_eq_Some_conv split: if_splits)
    then show ?thesis using unw parses_step.hyps(4) parses_step.IH parses_step.prems(2) by auto
  qed
qed simp

lemma return_only: "parses (L_return m) p ts n q \<Longrightarrow> n = m \<and> ts = [] \<and> q = p"
  by (cases rule: parses.cases) auto

lemma gone_never: "\<not> parses L_gone p ts n q"
proof
  assume "parses L_gone p ts n q"
  then show False by (cases rule: parses.cases) auto
qed

text \<open>At the end the stack holds the whole configuration, and the end of the input.\<close>

lemma no_rule_for_end: "(''$end'', rhs) \<notin> set (tl rules)"
  by (simp add: rules_def)

lemma derives_end: "derives ''$end'' ts \<Longrightarrow> ts = [''$end'']"
  by (cases rule: derives.cases) (auto simp: no_rule_for_end)

lemma covers_final:
  assumes "covers ss tss" and "fst (hd ss) = 6"
  shows "\<exists>us. concat (rev tss) = us @ [''$end''] \<and> sentence us"
proof -
  have st: "stacked (map fst ss)" using assms(1) by (simp add: covers_def)
  then obtain v ss1 where s: "ss = (6, v) # ss1" using assms(2) by (cases ss) auto
  obtain a as where a: "map fst ss1 = a # as" "a \<in> set (preds 6)" "stacked (a # as)" using stacked_step [of 6 "map fst ss1"] st s by auto
  then have a2: "a = 2" by (simp add: preds_def lower_def)
  obtain b bs where b: "as = b # bs" "b \<in> set (preds 2)" "stacked (b # bs)" using stacked_step [of 2 as] a a2 by auto
  then have b0: "b = 0" by (simp add: preds_def lower_def)
  then have "bs = []" using b(3) by (cases bs) (auto simp: preds_def lower_def)
  with a b s a2 b0 obtain w x where "ss = [(6, v), (2, w), (0, x)]" by (auto simp: Cons_eq_map_conv map_eq_Cons_conv)
  then obtain t1 t2 where "tss = [t1, t2]" "derives (name_of 6) t1" "derives (name_of 2) t2"
    using assms(1) by (auto simp: covers_def list_all2_Cons1)
  moreover have "name_of 6 = ''$end''" "name_of 2 = ''configuration''" by (simp_all add: name_of_def yystos_def yytname_def)
  ultimately show ?thesis using derives_end [of t1] by (auto simp: sentence_def)
qed

lemma yytname_length: "length yytname = 43"
  by (simp add: yytname_def)

lemma shift_covers:
  assumes c: "covers ss tss" and s: "ss = (s, v) # ss'" and t: "0 \<le> t" "t \<le> 22"
    and n: "tab yypact s = Some n" "n \<noteq> YYPACT_NINF" "0 \<le> n + t" "n + t \<le> YYLAST" "tab yycheck (n + t) = Some t"
    and g: "tab yytable (n + t) = Some g"
  shows "0 < g" and "covers ((g, u) # ss) ([yytname ! nat t] # tss)"
proof -
  have st: "stacked (s # map fst ss')" using c s by (simp add: covers_def)
  have sh: "shift_ok s t" by (rule has_shift [OF st t])
  then show g0: "0 < g" using n g by (simp add: shift_ok_def)
  have pr: "s \<in> set (preds g)" using sh n g by (simp add: shift_ok_def)
  have "s \<in> set [0..46]" using stacked_states [OF st] by simp
  moreover have "t \<in> set [0..22]" using t by simp
  ultimately have "shifts_token s t" using shifted_tokens by (metis (mono_tags, lifting) list_all_iff)
  then have "name_of g = yytname ! nat t" using n g by (simp add: shifts_token_def name_of_def)
  moreover have "yytname ! nat t \<in> set (take 23 yytname)"
    using t nth_mem [of "nat t" "take 23 yytname"] yytname_length by simp
  ultimately have "derives (name_of g) [yytname ! nat t]" by (simp add: derives_token)
  then show "covers ((g, u) # ss) ([yytname ! nat t] # tss)" using c pr s by (simp add: covers_def)
qed

lemma translation_range: "list_all (\<lambda>t. 0 \<le> t \<and> t \<le> 22) yytranslate"
  by code_simp

lemma translated:
  assumes "(if c \<le> YYEOF then Some YYEOF else YYTRANSLATE c) = Some t"
  shows "0 \<le> t \<and> t \<le> 22 \<and> token_name c = yytname ! nat t"
proof (cases "c \<le> 0")
  case True
  then show ?thesis using assms by (auto simp: token_name_def yytname_def)
next
  case False
  then have y: "YYTRANSLATE c = Some t" using assms by simp
  then have "t = 2 \<or> t \<in> set yytranslate" by (auto simp: YYTRANSLATE_def tab_def rd_def split: if_splits)
  then show ?thesis using translation_range False y by (auto simp: list_all_iff token_name_def)
qed

lemma setstate_step:
  assumes "yysetstate p = Some (l, p')" and "label_fits L_setstate p"
  shows "label_fits l p' \<and> p_stack p' = p_stack p \<and> p_char p' = p_char p \<and> (l = L_backup \<or> (\<exists>n. l = L_return n))"
proof -
  obtain st where st: "state_of p = Some st" using assms(1) by (auto simp: yysetstate_def bind_eq_Some_conv)
  consider (go) "p_stack p' = p_stack p" "p_char p' = p_char p" "l = (if st = YYFINAL then L_return 0 else L_backup)"
    | (full) m where "p_stack p' = p_stack p" "p_char p' = p_char p" "l = L_return m" "m \<noteq> 0"
  proof (cases "length (p_stack p) < p_size p")
    case True
    then show ?thesis using assms(1) st by (intro go) (auto simp: yysetstate_def ensure_def Let_def split: if_splits)
  next
    case False
    then show ?thesis
    proof (cases "grow_stack (p_size p)")
      case None
      then show ?thesis using assms(1) st False
        by (intro full [of 2]) (auto simp: yysetstate_def ensure_def bind_eq_Some_conv split: if_splits)
    next
      case (Some n)
      then show ?thesis using assms(1) st False go full [of 1]
        by (cases "length (p_stack p) < n") (auto simp: yysetstate_def ensure_def Let_def split: if_splits)
    qed
  qed
  then show ?thesis
  proof cases
    case go
    then show ?thesis using st assms(2) by (auto simp: state_of_def)
  qed auto
qed

lemma lookahead_step:
  assumes "get_lookahead p = Some (b, p')"
  shows "p_stack p' = p_stack p"
    and "b \<Longrightarrow> if p_char p = YYEMPTY then \<exists>c v r. yylex (p_rd p) = Some (L_token c v, r) \<and> p_char p' = c else p' = p"
proof -
  have "p_stack p' = p_stack p
    \<and> (b \<longrightarrow> (if p_char p = YYEMPTY then \<exists>c v r. yylex (p_rd p) = Some (L_token c v, r) \<and> p_char p' = c else p' = p))"
  proof (cases "p_char p = YYEMPTY")
    case True
    then obtain t r where y: "yylex (p_rd p) = Some (t, r)" using assms by (auto simp: get_lookahead_def bind_eq_Some_conv)
    show ?thesis using assms True y by (cases t) (auto simp: get_lookahead_def)
  qed (use assms in \<open>simp add: get_lookahead_def\<close>)
  then show "p_stack p' = p_stack p"
    and "b \<Longrightarrow> if p_char p = YYEMPTY then \<exists>c v r. yylex (p_rd p) = Some (L_token c v, r) \<and> p_char p' = c else p' = p"
    by blast+
qed

lemma default_step:
  assumes "yydefault p = Some (l, p')" and "label_fits L_default p"
  shows "p' = p \<and> label_fits l p \<and> (l = L_errlab \<or> (\<exists>n. l = L_reduce n))"
  using assms by (auto simp: yydefault_def bind_eq_Some_conv split: if_splits)

lemma reduce_step:
  assumes "yyreduce n p = Some (l, p')" and "label_fits (L_reduce n) p" and "covers (p_stack p) tss"
  shows "l = L_return 1 \<or> l = L_setstate \<and> label_fits l p' \<and> p_char p' = p_char p
    \<and> (\<exists>uss. covers (p_stack p') uss \<and> concat (rev uss) = concat (rev tss))"
proof -
  obtain s v ss where s: "p_stack p = (s, v) # ss" "tab yydefact s = Some n" "s \<noteq> 6" "n \<noteq> 0"
    using assms(2) by (auto simp: state_of_def bind_eq_Some_conv split: list.splits)
  obtain len ok r where r: "tab yyr2 n = Some len" "nat len < length (p_stack p)" "yy_action n v (p_rd p) = Some (ok, r)"
    using assms(1) s(1) by (auto simp: yyreduce_def bind_eq_Some_conv ensure_def Let_def split: if_splits)
  show ?thesis
  proof (cases ok)
    case True
    then obtain g u where g: "goto_state n (fst (hd (drop (nat len) (p_stack p)))) = Some g" "l = L_setstate"
      "p' = p\<lparr>p_rd := r, p_stack := (g, u) # drop (nat len) (p_stack p)\<rparr>"
      using assms(1) s(1) r by (auto simp: yyreduce_def bind_eq_Some_conv ensure_def Let_def split: if_splits)
    from covers_reduce [OF assms(3) s(1,2,4,3) r(1) g(1), of u] g(2,3) show ?thesis by (auto simp: state_of_def)
  next
    case False
    then show ?thesis using assms(1) s(1) r by (auto simp: yyreduce_def bind_eq_Some_conv ensure_def Let_def split: if_splits)
  qed
qed

lemma backup_step:
  assumes "yybackup p = Some (l, p')" and "label_fits L_backup p" and c: "covers (p_stack p) tss"
  shows "l = L_gone \<or> label_fits l p' \<and> (\<exists>uss. covers (p_stack p') uss
    \<and> concat (rev uss) @ looked_at p' = concat (rev tss) @ looked_at p @ map token_name (step_reads L_backup p))"
proof -
  obtain s v ss where s: "p_stack p = (s, v) # ss" "s \<noteq> 6"
    using assms(1,2) by (auto simp: yybackup_def state_of_def bind_eq_Some_conv split: list.splits)
  obtain n where n: "tab yypact s = Some n" using assms(1) s(1) by (auto simp: yybackup_def state_of_def bind_eq_Some_conv)
  show ?thesis
  proof (cases "n = YYPACT_NINF")
    case True
    then have "l = L_default" "p' = p" using assms(1) s(1) n by (auto simp: yybackup_def state_of_def)
    moreover have "step_reads L_backup p = []" using s(1) n True by (simp add: step_reads_def state_of_def)
    ultimately show ?thesis using s c by (auto simp: state_of_def)
  next
    case False
    obtain b p1 where b: "get_lookahead p = Some (b, p1)"
      using assms(1) s(1) n False by (auto simp: yybackup_def state_of_def bind_eq_Some_conv)
    show ?thesis
    proof (cases b)
      case False
      then show ?thesis using assms(1) s(1) n b \<open>n \<noteq> YYPACT_NINF\<close> by (auto simp: yybackup_def state_of_def)
    next
      case True
      note la = lookahead_step [OF b]
      have read: "[token_name (p_char p1)] = looked_at p @ map token_name (step_reads L_backup p)"
        using la(2) [OF True] s(1) n \<open>n \<noteq> YYPACT_NINF\<close>
        by (auto simp: looked_at_def step_reads_def state_of_def split: if_splits)
      define p2 where "p2 = (if p_char p1 \<le> YYEOF then p1\<lparr>p_char := YYEOF\<rparr> else p1)"
      obtain t where t: "(if p_char p1 \<le> YYEOF then Some YYEOF else YYTRANSLATE (p_char p1)) = Some t"
        using assms(1) s(1) n False b True by (auto simp: yybackup_def state_of_def bind_eq_Some_conv Let_def split: if_splits)
      note tr = translated [OF t]
      have p2: "p_stack p2 = p_stack p" "looked_at p2 = [token_name (p_char p1)]"
        using la(1) by (auto simp: p2_def looked_at_def token_name_def)
      have rest: "(do {
         c \<leftarrow> (if n + t < 0 \<or> YYLAST < n + t then Some (- 1) else tab yycheck (n + t));
         if n + t < 0 \<or> YYLAST < n + t \<or> c \<noteq> t then Some (L_default, p2)
         else do {
           m \<leftarrow> tab yytable (n + t);
           if m \<le> 0 then Some (L_reduce (- m), p2)
           else Some (L_setstate, p2\<lparr>p_errstatus := (if p_errstatus p2 \<noteq> 0 then p_errstatus p2 - 1 else 0),
               p_char := YYEMPTY, p_stack := (m, p_lval p2) # p_stack p2\<rparr>)
         } }) = Some (l, p')"
        using assms(1) s(1) n False b True t unfolding yybackup_def state_of_def p2_def Let_def by simp
      show ?thesis
      proof (cases "n + t < 0 \<or> YYLAST < n + t \<or> tab yycheck (n + t) \<noteq> Some t")
        case True
        then have "l = L_default" "p' = p2" using rest by (auto simp: bind_eq_Some_conv split: if_splits)
        then show ?thesis using s c p2 read by (auto simp: state_of_def)
      next
        case shift: False
        then obtain m where m: "tab yytable (n + t) = Some m" using rest by (auto simp: bind_eq_Some_conv)
        have in_range: "0 \<le> n + t" "n + t \<le> YYLAST" "tab yycheck (n + t) = Some t" using shift by auto
        have pos: "0 < m" using shift_covers(1) [OF c s(1) _ _ n False in_range m] tr by blast
        then have "l = L_setstate" "p_stack p' = (m, p_lval p2) # p_stack p" "p_char p' = YYEMPTY"
          using rest in_range m p2(1) by auto
        moreover have "covers ((m, p_lval p2) # p_stack p) ([yytname ! nat t] # tss)"
          using shift_covers(2) [OF c s(1) _ _ n False in_range m] tr by blast
        ultimately show ?thesis using read tr
          by (intro disjI2 conjI exI [of _ "[yytname ! nat t] # tss"]) (simp_all add: looked_at_def)
      qed
    qed
  qed
qed

lemma parses_sentence:
  assumes "parses l p ts n q" and "n = 0" and "label_fits l p" and "covers (p_stack p) tss"
  shows "\<exists>us. concat (rev tss) @ looked_at p @ map token_name ts = us @ [''$end''] \<and> sentence us"
  using assms
proof (induction arbitrary: tss rule: parses.induct)
  case (parses_return n p)
  then have "p_char p = YYEMPTY" "fst (hd (p_stack p)) = 6" by (auto simp: state_of_def split: list.splits)
  then show ?case using covers_final [OF parses_return.prems(3)] by (simp add: looked_at_def)
next
  case (parses_step l p l' p' ts n q)
  note run = parses_step.hyps(4) and step = parses_step.hyps(3) and c = parses_step.prems(3)
  have ret: "m = 0 \<and> ts = []" if "l' = L_return m" for m using return_only run parses_step.prems(1) that by blast
  have st: "stacked (map fst (p_stack p))" using c by (simp add: covers_def)
  show ?case
  proof (cases l)
    case L_setstate
    then have "yysetstate p = Some (l', p')" using step by (simp add: yystep_def)
    from setstate_step [OF this] parses_step.prems(2) L_setstate have "label_fits l' p'" "p_stack p' = p_stack p" "p_char p' = p_char p"
      by auto
    moreover from this have "looked_at p' = looked_at p" by (simp add: looked_at_def)
    ultimately show ?thesis using parses_step.IH [of tss] parses_step.prems(1) c L_setstate by (simp add: step_reads_def)
  next
    case L_backup
    then have "yybackup p = Some (l', p')" using step by (simp add: yystep_def)
    from backup_step [OF this _ c] parses_step.prems(2) L_backup run gone_never obtain uss where
      "label_fits l' p'" "covers (p_stack p') uss"
      "concat (rev uss) @ looked_at p' = concat (rev tss) @ looked_at p @ map token_name (step_reads L_backup p)" by blast
    then show ?thesis using parses_step.IH [of uss] parses_step.prems(1) L_backup by (metis append.assoc map_append)
  next
    case L_default
    then have "yydefault p = Some (l', p')" using step by (simp add: yystep_def)
    from default_step [OF this] parses_step.prems(2) L_default have "p' = p" "label_fits l' p" by auto
    then show ?thesis using parses_step.IH [of tss] parses_step.prems(1) c L_default by (simp add: step_reads_def)
  next
    case (L_reduce m)
    then have "yyreduce m p = Some (l', p')" using step by (simp add: yystep_def)
    from reduce_step [OF this _ c] parses_step.prems(2) L_reduce ret obtain uss where
      "label_fits l' p'" "p_char p' = p_char p" "covers (p_stack p') uss" "concat (rev uss) = concat (rev tss)" by fastforce
    moreover from this have "looked_at p' = looked_at p" by (simp add: looked_at_def)
    ultimately show ?thesis using parses_step.IH [of uss] parses_step.prems(1) L_reduce by (simp add: step_reads_def)
  next
    case L_errlab
    then show ?thesis using error_fails [OF parses.parses_step [OF parses_step.hyps]] st parses_step.prems(1) by simp
  next
    case L_errlab1
    then show ?thesis using error_fails [OF parses.parses_step [OF parses_step.hyps]] st parses_step.prems(1) by simp
  qed (use parses_step.hyps(1,2) in auto)
qed

section \<open>Accepted texts\<close>

text \<open>C27. What the parser accepts is a sentence of the grammar: when \<open>yyparse\<close> returns 0, the tokens that it has taken
  from the scanner are those of a configuration, derived by the rules of the grammar, and then the end of the input.
  In particular the tables of the parser have no shift or reduction that the grammar does not have.\<close>

theorem yyparse_accepts_sentences:
  assumes "yyparse r = Some (Some 0, r')"
  shows "\<exists>ts q us. parses L_setstate (yyinit r) ts 0 q \<and> p_rd q = r' \<and> map token_name ts = us @ [''$end''] \<and> sentence us"
proof -
  obtain q where q: "yyrun L_setstate (yyinit r) = Some (Some 0, q)" "p_rd q = r'" using assms by (auto simp: yyparse_def)
  from yyrun_parses [OF q(1)] obtain ts where ts: "parses L_setstate (yyinit r) ts 0 q" by blast
  have "covers (p_stack (yyinit r)) []" by (simp add: covers_def yyinit_def)
  moreover have "label_fits L_setstate (yyinit r)" "looked_at (yyinit r) = []" by (simp_all add: yyinit_def looked_at_def state_of_def)
  ultimately show ?thesis using parses_sentence [OF ts refl] ts q(2) by fastforce
qed

definition accepts_text :: "string \<Rightarrow> bool" where
  "accepts_text t = (case scanctx_init None of None \<Rightarrow> False
     | Some c \<Rightarrow> map_option fst (yyparse (new_reader (F_file t) c (config_init config_memory) demo_io)) = Some (Some 0))"

lemma accepts_demo: "accepts_text ''a=1''"
  by code_simp

theorem yyparse_accepts_sentences_witness:
  "\<exists>c r' ts q us. yyparse (new_reader (F_file ''a=1'') c (config_init config_memory) demo_io) = Some (Some 0, r')
     \<and> parses L_setstate (yyinit (new_reader (F_file ''a=1'') c (config_init config_memory) demo_io)) ts 0 q
     \<and> map token_name ts = us @ [''$end''] \<and> sentence us"
proof -
  obtain c r' where c: "yyparse (new_reader (F_file ''a=1'') c (config_init config_memory) demo_io) = Some (Some 0, r')"
    using accepts_demo by (auto simp: accepts_text_def split: option.splits)
  from yyparse_accepts_sentences [OF this] c show ?thesis by blast
qed

end
