(* ===== verification/Json_Text.thy ===== *)
theory Json_Text
  imports Json_Number
begin

text \<open>
  The text level of \<open>cJSON.c\<close>: comparison without regard to case, white space, the escapes of
  \<open>parse_string\<close>, \<open>print_string_ptr\<close> and \<open>cJSON_Minify\<close>. A pointer into a NUL-terminated text is the
  rest of the text, so that the empty list is a pointer to the NUL; moving a pointer past the NUL is
  \<open>None\<close>, since the code reads through every such pointer next. An output buffer is its size and
  the characters written so far; a write past its end is \<open>None\<close>. The texts hold no NUL.
\<close>

section \<open>Characters\<close>

definition tolower :: "char \<Rightarrow> char" where
  "tolower c = (if 65 \<le> char_code c \<and> char_code c \<le> 90 then char_of (char_code c + 32) else c)"

fun strcasecmp :: "string \<Rightarrow> string \<Rightarrow> int" where
  "strcasecmp [] [] = 0"
| "strcasecmp [] (b # bs) = - int (char_code (tolower b))"
| "strcasecmp (a # as) [] = int (char_code (tolower a))"
| "strcasecmp (a # as) (b # bs) =
     (if tolower a = tolower b then strcasecmp as bs
      else int (char_code (tolower a)) - int (char_code (tolower b)))"

text \<open>\<open>None\<close> is the null pointer.\<close>

fun cJSON_strcasecmp :: "string option \<Rightarrow> string option \<Rightarrow> int" where
  "cJSON_strcasecmp None None = 0"
| "cJSON_strcasecmp None (Some _) = 1"
| "cJSON_strcasecmp (Some _) None = 1"
| "cJSON_strcasecmp (Some a) (Some b) = strcasecmp a b"

definition skip_space :: "string \<Rightarrow> string" where
  "skip_space = dropWhile (\<lambda>c. char_code c \<le> 32)"

definition skip :: "string option \<Rightarrow> string option" where
  "skip p = map_option skip_space p"

definition advance :: "nat \<Rightarrow> string \<Rightarrow> string option" where
  "advance k cs = (if k \<le> length cs then Some (drop k cs) else None)"

definition char_at :: "string \<Rightarrow> nat \<Rightarrow> char option" where
  "char_at cs k = (if k \<le> length cs then Some (peek (drop k cs)) else None)"

text \<open>Writing to the end of an output of size \<open>n\<close>.\<close>

definition put :: "nat \<Rightarrow> string \<Rightarrow> string \<Rightarrow> string option" where
  "put n out cs = (if length out + length cs \<le> n then Some (out @ cs) else None)"

lemma put_Some [mem_simps]: "length out + length cs \<le> n \<Longrightarrow> put n out cs = Some (out @ cs)"
  by (simp add: put_def)

lemma advance_less: "advance k cs = Some r \<Longrightarrow> length r + k = length cs"
  by (auto simp: advance_def split: if_splits)

section \<open>\<open>parse_string\<close>\<close>

definition hex_val :: "char \<Rightarrow> u32 option" where
  "hex_val c =
     (let n = char_code c
      in if 48 \<le> n \<and> n \<le> 57 then Some (of_nat (n - 48))
         else if 65 \<le> n \<and> n \<le> 70 then Some (of_nat (10 + n - 65))
         else if 97 \<le> n \<and> n \<le> 102 then Some (of_nat (10 + n - 97)) else None)"

text \<open>The \<open>k\<close> digits at \<open>cs\<close>, most significant first; 0 when one of them is not a digit.\<close>

fun hex_digits :: "nat \<Rightarrow> u32 \<Rightarrow> string \<Rightarrow> u32" where
  "hex_digits 0 h cs = h"
| "hex_digits (Suc k) h cs =
     (case hex_val (peek cs) of
        None \<Rightarrow> 0
      | Some d \<Rightarrow> if k = 0 then h + d else hex_digits k (push_bit 4 (h + d)) (tl cs))"

definition parse_hex4 :: "string \<Rightarrow> u32" where
  "parse_hex4 cs = hex_digits 4 0 cs"

definition firstByteMark :: "byte list" where
  "firstByteMark = [0x00, 0x00, 0xC0, 0xE0, 0xF0, 0xF8, 0xFC]"

definition byte_char :: "byte \<Rightarrow> char" where
  "byte_char b = char_of (unat b)"

definition utf8_length :: "u32 \<Rightarrow> nat" where
  "utf8_length uc = (if uc < 0x80 then 1 else if uc < 0x800 then 2 else if uc < 0x10000 then 3 else 4)"

text \<open>The bytes, written from the last one to the first.\<close>

fun utf8_bytes :: "nat \<Rightarrow> byte \<Rightarrow> u32 \<Rightarrow> string" where
  "utf8_bytes 0 mark uc = []"
| "utf8_bytes (Suc 0) mark uc = [byte_char (ucast (uc OR ucast mark))]"
| "utf8_bytes (Suc (Suc k)) mark uc =
     utf8_bytes (Suc k) mark (drop_bit 6 uc) @ [byte_char (ucast ((uc OR 0x80) AND 0xBF))]"

definition utf8 :: "u32 \<Rightarrow> string" where
  "utf8 uc = utf8_bytes (utf8_length uc) (firstByteMark ! utf8_length uc) uc"

text \<open>The first loop: the size of the string, counting an escape as one character.\<close>

fun raw_length :: "string \<Rightarrow> nat option" where
  "raw_length [] = Some 0"
| "raw_length (c # cs) =
     (if c = CHR 0x22 then Some 0
      else if c = CHR 0x5C then (case cs of [] \<Rightarrow> None | _ # r \<Rightarrow> map_option Suc (raw_length r))
      else map_option Suc (raw_length cs))"

text \<open>The case \<open>u\<close> of the switch: the output and the pointer when it breaks.\<close>

definition unescape_u :: "nat \<Rightarrow> string \<Rightarrow> string \<Rightarrow> (string \<times> string) option" where
  "unescape_u n out p = do {
     let uc = parse_hex4 (tl p);
     p \<leftarrow> advance 4 p;
     if 0xDC00 \<le> uc \<and> uc \<le> 0xDFFF \<or> uc = 0 then Some (out, p)
     else if 0xD800 \<le> uc \<and> uc \<le> 0xDBFF then do {
       c1 \<leftarrow> char_at p 1;
       if c1 \<noteq> CHR 0x5C then Some (out, p)
       else do {
         c2 \<leftarrow> char_at p 2;
         if c2 \<noteq> CHR ''u'' then Some (out, p)
         else do {
           let uc2 = parse_hex4 (drop 3 p);
           p \<leftarrow> advance 6 p;
           if uc2 < 0xDC00 \<or> uc2 > 0xDFFF then Some (out, p)
           else do {
             out \<leftarrow> put n out (utf8 (0x10000 + ((push_bit 10 (uc AND 0x3FF)) OR (uc2 AND 0x3FF))));
             Some (out, p)
           }
         }
       }
     }
     else do { out \<leftarrow> put n out (utf8 uc); Some (out, p) }
   }"

definition unescape :: "nat \<Rightarrow> string \<Rightarrow> string \<Rightarrow> (string \<times> string) option" where
  "unescape n out p =
     (let c = peek p; keep = (\<lambda>x. map_option (\<lambda>out. (out, p)) (put n out [x]))
      in if c = CHR ''b'' then keep (CHR 0x08)
         else if c = CHR ''f'' then keep (CHR 0x0C)
         else if c = CHR ''n'' then keep (CHR 0x0A)
         else if c = CHR ''r'' then keep (CHR 0x0D)
         else if c = CHR ''t'' then keep (CHR 0x09)
         else if c = CHR ''u'' then unescape_u n out p
         else keep c)"

lemma unescape_u_length: "unescape_u n out p = Some (out', p') \<Longrightarrow> length p' \<le> length p"
  by (auto simp: unescape_u_def Let_def bind_Some_iff split: if_splits dest!: advance_less)

lemma unescape_length: "unescape n out p = Some (out', p') \<Longrightarrow> length p' \<le> length p"
  by (auto simp: unescape_def Let_def split: if_splits dest!: unescape_u_length)

text \<open>The second loop; the pointer is left at the closing quote or at the NUL.\<close>

function (sequential) copy_string :: "nat \<Rightarrow> string \<Rightarrow> string \<Rightarrow> (string \<times> string) option" where
  "copy_string n out [] = Some (out, [])"
| "copy_string n out (c # p) =
     (if c = CHR 0x22 then Some (out, c # p)
      else if c \<noteq> CHR 0x5C then
        (case put n out [c] of None \<Rightarrow> None | Some out \<Rightarrow> copy_string n out p)
      else
        (case unescape n out p of
           None \<Rightarrow> None
         | Some (out, q) \<Rightarrow> (case q of [] \<Rightarrow> None | _ # r \<Rightarrow> copy_string n out r)))"
  by pat_completeness auto

termination copy_string
  by (relation "measure (\<lambda>(n, out, p). length p)") (auto dest: unescape_length)

text \<open>The string that starts at a quote: its characters and the rest of the text.\<close>

definition parse_string_text :: "string \<Rightarrow> (string \<times> string) option" where
  "parse_string_text p = do {
     len \<leftarrow> raw_length (tl p);
     (out, p) \<leftarrow> copy_string (len + 1) [] (tl p);
     _ \<leftarrow> put (len + 1) out [NUL];
     Some (out, if peek p = CHR 0x22 then tl p else p)
   }"

section \<open>\<open>print_string_ptr\<close>\<close>

definition special_char :: "char \<Rightarrow> bool" where
  "special_char c \<longleftrightarrow> c \<in> set [CHR 0x22, CHR 0x5C, CHR 0x08, CHR 0x0C, CHR 0x0A, CHR 0x0D, CHR 0x09]"

fun printed_length :: "string \<Rightarrow> nat" where
  "printed_length [] = 0"
| "printed_length (c # cs) =
     1 + (if special_char c then 1 else if char_code c < 32 then 5 else 0) + printed_length cs"

text \<open>The text of one escape after the backslash; \<open>sprintf\<close> also writes a NUL, which \<open>size\<close> counts.\<close>

definition escape_text :: "char \<Rightarrow> string" where
  "escape_text c =
     (if c = CHR 0x5C then [CHR 0x5C] else if c = CHR 0x22 then [CHR 0x22]
      else if c = CHR 0x08 then ''b'' else if c = CHR 0x0C then ''f''
      else if c = CHR 0x0A then ''n'' else if c = CHR 0x0D then ''r'' else if c = CHR 0x09 then ''t''
      else ''u00'' @ [hex_lower (char_code c div 16), hex_lower (char_code c mod 16)])"

fun escape_string :: "nat \<Rightarrow> string \<Rightarrow> string \<Rightarrow> string option" where
  "escape_string n out [] = Some out"
| "escape_string n out (c # cs) =
     (if 31 < char_code c \<and> c \<noteq> CHR 0x22 \<and> c \<noteq> CHR 0x5C
      then do { out \<leftarrow> put n out [c]; escape_string n out cs }
      else do {
        out \<leftarrow> put n out [CHR 0x5C];
        _ \<leftarrow> put n out (escape_text c @ (if special_char c then [] else [NUL]));
        out \<leftarrow> put n out (escape_text c);
        escape_string n out cs
      })"

definition print_string_text :: "string \<Rightarrow> string option" where
  "print_string_text cs = do {
     let n = printed_length cs + 3;
     out \<leftarrow> put n [] [CHR 0x22];
     out \<leftarrow> escape_string n out cs;
     out \<leftarrow> put n out [CHR 0x22];
     _ \<leftarrow> put n out [NUL];
     Some out
   }"

section \<open>\<open>cJSON_Minify\<close>\<close>

text \<open>The rest after a comment; a comment that is not closed moves the pointer past the NUL.\<close>

fun skip_comment :: "string \<Rightarrow> string option" where
  "skip_comment [] = None"
| "skip_comment (c # cs) =
     (if c = CHR ''*'' \<and> peek cs = CHR ''/'' then Some (tl cs) else skip_comment cs)"

text \<open>A string literal after its opening quote: what is copied and the rest.\<close>

fun minify_string :: "string \<Rightarrow> (string \<times> string) option" where
  "minify_string [] = None"
| "minify_string (c # cs) =
     (if c = CHR 0x22 then Some ([c], cs)
      else if c = CHR 0x5C then
        (case cs of
           [] \<Rightarrow> None
         | d # r \<Rightarrow> map_option (\<lambda>(t, rest). (c # d # t, rest)) (minify_string r))
      else map_option (\<lambda>(t, rest). (c # t, rest)) (minify_string cs))"

lemma skip_comment_length: "skip_comment cs = Some r \<Longrightarrow> length r \<le> length cs"
  by (induction cs) (auto split: if_splits)

lemma minify_string_length: "minify_string cs = Some (t, r) \<Longrightarrow> length t + length r = length cs"
  by (induction cs arbitrary: t r rule: minify_string.induct)
    (auto split: if_splits list.splits)

function (sequential) minify :: "string \<Rightarrow> string option" where
  "minify [] = Some []"
| "minify (c # cs) =
     (if c \<in> set [CHR '' '', CHR 0x09, CHR 0x0D, CHR 0x0A] then minify cs
      else if c = CHR ''/'' \<and> peek cs = CHR ''/'' then minify (dropWhile (\<lambda>d. d \<noteq> CHR 0x0A) cs)
      else if c = CHR ''/'' \<and> peek cs = CHR ''*'' then
        (case skip_comment (c # cs) of None \<Rightarrow> None | Some r \<Rightarrow> minify r)
      else if c = CHR 0x22 then
        (case minify_string cs of
           None \<Rightarrow> None
         | Some (t, r) \<Rightarrow> map_option (\<lambda>m. c # t @ m) (minify r))
      else map_option (\<lambda>m. c # m) (minify cs))"
  by pat_completeness auto

termination minify
  by (relation "measure length")
    (auto simp: le_imp_less_Suc length_dropWhile_le peek_def
      dest: skip_comment_length minify_string_length split: if_splits)

end
