(* ===== verification/Json_Heap.thy ===== *)
theory Json_Heap
  imports Json_Text
begin

text \<open>
  The memory \<open>cJSON.c\<close> works on: items, strings and arrays of pointers, found by address. The
  allocator (\<open>cJSON_malloc\<close>, \<open>malloc\<close> or a hook) may fail at any call: \<open>alloc_ok\<close> says which calls
  succeed. Addresses are not reused; a \<open>free\<close> of a null pointer does nothing, a \<open>free\<close> of anything else
  that is not a live object is \<open>None\<close>. With it the operations on single items: construction,
  \<open>cJSON_Delete\<close> and the constructors of the basic types.
\<close>

section \<open>Items\<close>

record cjson =
  j_next :: addr
  j_prev :: addr
  j_child :: addr
  j_type :: i32
  j_valuestring :: addr
  j_valueint :: i32
  j_valuedouble :: double
  j_string :: addr

abbreviation (input) cJSON_False :: i32 where "cJSON_False \<equiv> 0"
abbreviation (input) cJSON_True :: i32 where "cJSON_True \<equiv> 1"
abbreviation (input) cJSON_NULL :: i32 where "cJSON_NULL \<equiv> 2"
abbreviation (input) cJSON_Number :: i32 where "cJSON_Number \<equiv> 3"
abbreviation (input) cJSON_String :: i32 where "cJSON_String \<equiv> 4"
abbreviation (input) cJSON_Array :: i32 where "cJSON_Array \<equiv> 5"
abbreviation (input) cJSON_Object :: i32 where "cJSON_Object \<equiv> 6"
abbreviation (input) cJSON_IsReference :: i32 where "cJSON_IsReference \<equiv> 256"

definition json_zero :: cjson where
  "json_zero = \<lparr>j_next = NULL, j_prev = NULL, j_child = NULL, j_type = 0, j_valuestring = NULL,
     j_valueint = 0, j_valuedouble = Fin False 0 0, j_string = NULL\<rparr>"

text \<open>An array of pointers, and its length.\<close>

datatype jobj = Item cjson | Text string | Pointers nat

record jstate =
  heap :: "addr \<rightharpoonup> jobj"
  n_alloc :: nat
  alloc_ok :: "nat \<Rightarrow> bool"
  ep :: "string option"

lemma jstate_upd_order [simp]:
  "s\<lparr>heap := h, n_alloc := n\<rparr> = s\<lparr>n_alloc := n, heap := h\<rparr>"
  "s\<lparr>heap := h, ep := e\<rparr> = s\<lparr>ep := e, heap := h\<rparr>"
  "s\<lparr>n_alloc := n, ep := e\<rparr> = s\<lparr>ep := e, n_alloc := n\<rparr>"
  by simp_all

section \<open>Memory\<close>

definition jalloc :: "jobj \<Rightarrow> jstate \<Rightarrow> addr \<times> jstate" where
  "jalloc x s =
     (let k = Suc (n_alloc s)
      in if alloc_ok s k then (k, s\<lparr>heap := (heap s)(k \<mapsto> x), n_alloc := k\<rparr>)
         else (NULL, s\<lparr>n_alloc := k\<rparr>))"

definition jfree :: "addr \<Rightarrow> jstate \<Rightarrow> jstate option" where
  "jfree p s =
     (if p = NULL then Some s
      else if heap s p = None then None
      else Some (s\<lparr>heap := (heap s)(p := None)\<rparr>))"

definition item :: "addr \<Rightarrow> jstate \<Rightarrow> cjson option" where
  "item p s = (case heap s p of Some (Item x) \<Rightarrow> Some x | _ \<Rightarrow> None)"

definition set_item :: "addr \<Rightarrow> (cjson \<Rightarrow> cjson) \<Rightarrow> jstate \<Rightarrow> jstate option" where
  "set_item p f s =
     (case heap s p of Some (Item x) \<Rightarrow> Some (s\<lparr>heap := (heap s)(p \<mapsto> Item (f x))\<rparr>) | _ \<Rightarrow> None)"

definition text_at :: "addr \<Rightarrow> jstate \<Rightarrow> string option" where
  "text_at p s = (case heap s p of Some (Text t) \<Rightarrow> Some t | _ \<Rightarrow> None)"

definition set_text :: "addr \<Rightarrow> string \<Rightarrow> jstate \<Rightarrow> jstate option" where
  "set_text p t s =
     (case heap s p of Some (Text _) \<Rightarrow> Some (s\<lparr>heap := (heap s)(p \<mapsto> Text t)\<rparr>) | _ \<Rightarrow> None)"

text \<open>A string argument that may be a null pointer.\<close>

definition opt_text :: "addr \<Rightarrow> jstate \<Rightarrow> string option option" where
  "opt_text p s = (if p = NULL then Some None else map_option Some (text_at p s))"

definition cJSON_strdup :: "string \<Rightarrow> jstate \<Rightarrow> addr \<times> jstate" where
  "cJSON_strdup t s = jalloc (Text t) s"

definition cJSON_New_Item :: "jstate \<Rightarrow> addr \<times> jstate" where
  "cJSON_New_Item s = jalloc (Item json_zero) s"

definition cJSON_GetErrorPtr :: "jstate \<Rightarrow> string option" where
  "cJSON_GetErrorPtr s = ep s"

section \<open>\<open>cJSON_Delete\<close>\<close>

partial_function (option) cJSON_Delete :: "addr \<Rightarrow> jstate \<Rightarrow> jstate option" where
  "cJSON_Delete c s =
     (if c = NULL then Some s
      else do {
        x \<leftarrow> item c s;
        s \<leftarrow> (if j_type x AND cJSON_IsReference = 0 \<and> j_child x \<noteq> NULL
              then cJSON_Delete (j_child x) s else Some s);
        s \<leftarrow> (if j_type x AND cJSON_IsReference = 0 \<and> j_valuestring x \<noteq> NULL
              then jfree (j_valuestring x) s else Some s);
        s \<leftarrow> (if j_string x \<noteq> NULL then jfree (j_string x) s else Some s);
        s \<leftarrow> jfree c s;
        cJSON_Delete (j_next x) s
      })"

declare cJSON_Delete.simps [code]

section \<open>Basic types\<close>

definition create_type :: "i32 \<Rightarrow> jstate \<Rightarrow> (addr \<times> jstate) option" where
  "create_type t s =
     (let (p, s) = cJSON_New_Item s
      in if p = NULL then Some (NULL, s)
         else map_option (\<lambda>s. (p, s)) (set_item p (\<lambda>x. x\<lparr>j_type := t\<rparr>) s))"

definition cJSON_CreateNull :: "jstate \<Rightarrow> (addr \<times> jstate) option" where
  "cJSON_CreateNull = create_type cJSON_NULL"

definition cJSON_CreateTrue :: "jstate \<Rightarrow> (addr \<times> jstate) option" where
  "cJSON_CreateTrue = create_type cJSON_True"

definition cJSON_CreateFalse :: "jstate \<Rightarrow> (addr \<times> jstate) option" where
  "cJSON_CreateFalse = create_type cJSON_False"

definition cJSON_CreateBool :: "i32 \<Rightarrow> jstate \<Rightarrow> (addr \<times> jstate) option" where
  "cJSON_CreateBool b = create_type (if b \<noteq> 0 then cJSON_True else cJSON_False)"

definition cJSON_CreateArray :: "jstate \<Rightarrow> (addr \<times> jstate) option" where
  "cJSON_CreateArray = create_type cJSON_Array"

definition cJSON_CreateObject :: "jstate \<Rightarrow> (addr \<times> jstate) option" where
  "cJSON_CreateObject = create_type cJSON_Object"

definition cJSON_CreateNumber :: "double \<Rightarrow> jstate \<Rightarrow> (addr \<times> jstate) option" where
  "cJSON_CreateNumber num s =
     (let (p, s) = cJSON_New_Item s
      in if p = NULL then Some (NULL, s)
         else do {
           i \<leftarrow> double_to_i32 num;
           s \<leftarrow> set_item p (\<lambda>x. x\<lparr>j_type := cJSON_Number, j_valuedouble := num, j_valueint := i\<rparr>) s;
           Some (p, s)
         })"

definition cJSON_CreateString :: "string \<Rightarrow> jstate \<Rightarrow> (addr \<times> jstate) option" where
  "cJSON_CreateString t s =
     (let (p, s) = cJSON_New_Item s
      in if p = NULL then Some (NULL, s)
         else do {
           let (v, s) = cJSON_strdup t s;
           s \<leftarrow> set_item p (\<lambda>x. x\<lparr>j_type := cJSON_String, j_valuestring := v\<rparr>) s;
           Some (p, s)
         })"

end
