(* ===== verification/Json_Parse.thy ===== *)
theory Json_Parse
  imports Json_Heap
begin

text \<open>
  The parser of \<open>cJSON.c\<close>. The functions return the pointer behind the value they have read, or the
  null pointer with \<open>ep\<close> set. Their recursion follows the text; it is bounded by \<open>fuel\<close>, which one
  call and one element of a list use up, and running out of it is \<open>None\<close> like an access outside the
  text: one more than the length of the text is enough (\<open>read_text_off\<close> in \<open>Json_Read\<close>).
\<close>

section \<open>Numbers and strings\<close>

definition parse_number :: "addr \<Rightarrow> string \<Rightarrow> jstate \<Rightarrow> (string option \<times> jstate) option" where
  "parse_number it num s = do {
     (n, num) \<leftarrow> parse_number_text num;
     i \<leftarrow> double_to_i32 n;
     s \<leftarrow> set_item it (\<lambda>x. x\<lparr>j_valuedouble := n, j_valueint := i, j_type := cJSON_Number\<rparr>) s;
     Some (Some num, s)
   }"

definition parse_fail :: "string \<Rightarrow> jstate \<Rightarrow> (string option \<times> jstate) option" where
  "parse_fail p s = Some (None, s\<lparr>ep := Some p\<rparr>)"

definition parse_string :: "addr \<Rightarrow> string option \<Rightarrow> jstate \<Rightarrow> (string option \<times> jstate) option" where
  "parse_string it str s = do {
     p \<leftarrow> str;
     if peek p \<noteq> CHR 0x22 then parse_fail p s
     else do {
       len \<leftarrow> raw_length (tl p);
       let (out, s) = jalloc (Text '''') s;
       if out = NULL then Some (None, s)
       else do {
         (t, p) \<leftarrow> parse_string_text p;
         s \<leftarrow> set_text out t s;
         s \<leftarrow> set_item it (\<lambda>x. x\<lparr>j_valuestring := out, j_type := cJSON_String\<rparr>) s;
         Some (Some p, s)
       }
     }
   }"

section \<open>Values, arrays and objects\<close>

definition starts_with :: "string \<Rightarrow> string \<Rightarrow> bool" where
  "starts_with w p \<longleftrightarrow> take (length w) p = w"

text \<open>\<open>new_item\<close>, linked behind \<open>child\<close>.\<close>

definition link_new :: "addr \<Rightarrow> jstate \<Rightarrow> (addr \<times> jstate) option" where
  "link_new child s = do {
     let (n, s) = cJSON_New_Item s;
     if n = NULL then Some (NULL, s)
     else do {
       s \<leftarrow> set_item child (\<lambda>x. x\<lparr>j_next := n\<rparr>) s;
       s \<leftarrow> set_item n (\<lambda>x. x\<lparr>j_prev := child\<rparr>) s;
       Some (n, s)
     }
   }"

text \<open>\<open>child->string=child->valuestring;child->valuestring=0;\<close>\<close>

definition take_name :: "addr \<Rightarrow> jstate \<Rightarrow> jstate option" where
  "take_name child s = set_item child (\<lambda>x. x\<lparr>j_string := j_valuestring x, j_valuestring := NULL\<rparr>) s"

text \<open>
  The functions that call \<open>parse_value\<close> are given it as a parameter; \<open>parse_value\<close> below ties the
  knot. \<open>parse_elements\<close> and \<open>parse_members\<close> are the loops over the elements after the first.
\<close>

type_synonym value_parser = "addr \<Rightarrow> string option \<Rightarrow> jstate \<Rightarrow> (string option \<times> jstate) option"

fun parse_elements :: "value_parser \<Rightarrow> nat \<Rightarrow> addr \<Rightarrow> string \<Rightarrow> jstate \<Rightarrow> (string option \<times> jstate) option" where
  "parse_elements pv 0 child p s = None"
| "parse_elements pv (Suc fuel) child p s =
     (if peek p = CHR '','' then do {
        (n, s) \<leftarrow> link_new child s;
        if n = NULL then Some (None, s)
        else do {
          (v, s) \<leftarrow> pv n (Some (skip_space (tl p))) s;
          case skip v of None \<Rightarrow> Some (None, s) | Some p \<Rightarrow> parse_elements pv fuel n p s
        }
      }
      else if peek p = CHR '']'' then Some (Some (tl p), s)
      else parse_fail p s)"

definition parse_array :: "value_parser \<Rightarrow> nat \<Rightarrow> addr \<Rightarrow> string \<Rightarrow> jstate \<Rightarrow> (string option \<times> jstate) option" where
  "parse_array pv fuel it p s =
     (if peek p \<noteq> CHR ''['' then parse_fail p s
      else do {
        s \<leftarrow> set_item it (\<lambda>x. x\<lparr>j_type := cJSON_Array\<rparr>) s;
        let p = skip_space (tl p);
        if peek p = CHR '']'' then Some (Some (tl p), s)
        else do {
          let (child, s) = cJSON_New_Item s;
          s \<leftarrow> set_item it (\<lambda>x. x\<lparr>j_child := child\<rparr>) s;
          if child = NULL then Some (None, s)
          else do {
            (v, s) \<leftarrow> pv child (Some (skip_space p)) s;
            case skip v of None \<Rightarrow> Some (None, s) | Some p \<Rightarrow> parse_elements pv fuel child p s
          }
        }
      })"

text \<open>A name, the colon and the value.\<close>

definition parse_member :: "value_parser \<Rightarrow> addr \<Rightarrow> string \<Rightarrow> jstate \<Rightarrow> (string option \<times> jstate) option" where
  "parse_member pv child p s = do {
     (v, s) \<leftarrow> parse_string child (Some (skip_space p)) s;
     case skip v of None \<Rightarrow> Some (None, s)
     | Some p \<Rightarrow> do {
         s \<leftarrow> take_name child s;
         if peek p \<noteq> CHR '':'' then parse_fail p s
         else do {
           (v, s) \<leftarrow> pv child (Some (skip_space (tl p))) s;
           Some (skip v, s)
         }
       }
   }"

fun parse_members :: "value_parser \<Rightarrow> nat \<Rightarrow> addr \<Rightarrow> string \<Rightarrow> jstate \<Rightarrow> (string option \<times> jstate) option" where
  "parse_members pv 0 child p s = None"
| "parse_members pv (Suc fuel) child p s =
     (if peek p = CHR '','' then do {
        (n, s) \<leftarrow> link_new child s;
        if n = NULL then Some (None, s)
        else do {
          (v, s) \<leftarrow> parse_member pv n (tl p) s;
          case v of None \<Rightarrow> Some (None, s) | Some p \<Rightarrow> parse_members pv fuel n p s
        }
      }
      else if peek p = CHR ''}'' then Some (Some (tl p), s)
      else parse_fail p s)"

definition parse_object :: "value_parser \<Rightarrow> nat \<Rightarrow> addr \<Rightarrow> string \<Rightarrow> jstate \<Rightarrow> (string option \<times> jstate) option" where
  "parse_object pv fuel it p s =
     (if peek p \<noteq> CHR ''{'' then parse_fail p s
      else do {
        s \<leftarrow> set_item it (\<lambda>x. x\<lparr>j_type := cJSON_Object\<rparr>) s;
        let p = skip_space (tl p);
        if peek p = CHR ''}'' then Some (Some (tl p), s)
        else do {
          let (child, s) = cJSON_New_Item s;
          s \<leftarrow> set_item it (\<lambda>x. x\<lparr>j_child := child\<rparr>) s;
          if child = NULL then Some (None, s)
          else do {
            (v, s) \<leftarrow> parse_member pv child p s;
            case v of None \<Rightarrow> Some (None, s) | Some p \<Rightarrow> parse_members pv fuel child p s
          }
        }
      })"

fun parse_value :: "nat \<Rightarrow> value_parser" where
  "parse_value 0 it value s = None"
| "parse_value (Suc fuel) it value s =
     (case value of None \<Rightarrow> Some (None, s)
      | Some p \<Rightarrow>
        if starts_with ''null'' p then do {
          s \<leftarrow> set_item it (\<lambda>x. x\<lparr>j_type := cJSON_NULL\<rparr>) s; Some (Some (drop 4 p), s) }
        else if starts_with ''false'' p then do {
          s \<leftarrow> set_item it (\<lambda>x. x\<lparr>j_type := cJSON_False\<rparr>) s; Some (Some (drop 5 p), s) }
        else if starts_with ''true'' p then do {
          s \<leftarrow> set_item it (\<lambda>x. x\<lparr>j_type := cJSON_True, j_valueint := 1\<rparr>) s; Some (Some (drop 4 p), s) }
        else if peek p = CHR 0x22 then parse_string it (Some p) s
        else if peek p = CHR ''-'' \<or> digit (peek p) then parse_number it p s
        else if peek p = CHR ''['' then parse_array (parse_value fuel) fuel it p s
        else if peek p = CHR ''{'' then parse_object (parse_value fuel) fuel it p s
        else parse_fail p s)"

section \<open>Entry points\<close>

text \<open>The item, the end of the text that was parsed when it is asked for, and the state.\<close>

definition cJSON_ParseWithOpts ::
  "nat \<Rightarrow> string option \<Rightarrow> bool \<Rightarrow> jstate \<Rightarrow> (addr \<times> string option \<times> jstate) option" where
  "cJSON_ParseWithOpts fuel value require_null s = do {
     let (c, s) = cJSON_New_Item s;
     let s = s\<lparr>ep := None\<rparr>;
     if c = NULL then Some (NULL, None, s)
     else do {
       (v, s) \<leftarrow> parse_value fuel c (skip value) s;
       case v of
         None \<Rightarrow> do { s \<leftarrow> cJSON_Delete c s; Some (NULL, None, s) }
       | Some p \<Rightarrow>
           (let p = (if require_null then skip_space p else p)
            in if require_null \<and> p \<noteq> []
               then do { s \<leftarrow> cJSON_Delete c s; Some (NULL, None, s\<lparr>ep := Some p\<rparr>) }
               else Some (c, Some p, s))
     }
   }"

definition cJSON_Parse :: "string option \<Rightarrow> jstate \<Rightarrow> (addr \<times> jstate) option" where
  "cJSON_Parse value s =
     map_option (\<lambda>(c, _, s). (c, s))
       (cJSON_ParseWithOpts (case value of None \<Rightarrow> 1 | Some t \<Rightarrow> length t + 1) value False s)"

end
