(* ===== verification/Json_Print.thy ===== *)
theory Json_Print
  imports Json_Parse
begin

text \<open>
  The printer of \<open>cJSON.c\<close>. The texts of the elements are printed first, each into a string of its own;
  their lengths give the size of the buffer into which they are then copied. Every write is checked
  against that size, and every string and array that is allocated on the way has to be freed. The
  recursion is bounded by \<open>fuel\<close>: the nesting depth is less than the number of items.
\<close>

section \<open>Numbers and strings\<close>

text \<open>\<open>out=malloc(sz)\<close>, filled with \<open>t\<close> and its NUL.\<close>

definition new_text :: "nat \<Rightarrow> string \<Rightarrow> jstate \<Rightarrow> (addr \<times> jstate) option" where
  "new_text sz t s =
     (let (out, s) = jalloc (Text '''') s
      in if out = NULL then Some (NULL, s)
         else do {
           _ \<leftarrow> put sz [] (t @ [NUL]);
           s \<leftarrow> set_text out t s;
           Some (out, s)
         })"

definition print_number :: "addr \<Rightarrow> jstate \<Rightarrow> (addr \<times> jstate) option" where
  "print_number it s = do {
     x \<leftarrow> item it s;
     let (sz, t) = print_number_text (j_valueint x) (j_valuedouble x);
     new_text sz t s
   }"

definition print_string_ptr :: "addr \<Rightarrow> jstate \<Rightarrow> (addr \<times> jstate) option" where
  "print_string_ptr p s = do {
     str \<leftarrow> opt_text p s;
     case str of
       None \<Rightarrow> Some (cJSON_strdup '''' s)
     | Some cs \<Rightarrow> do {
         let (out, s) = jalloc (Text '''') s;
         if out = NULL then Some (NULL, s)
         else do {
           t \<leftarrow> print_string_text cs;
           s \<leftarrow> set_text out t s;
           Some (out, s)
         }
       }
   }"

definition print_string :: "addr \<Rightarrow> jstate \<Rightarrow> (addr \<times> jstate) option" where
  "print_string it s = do { x \<leftarrow> item it s; print_string_ptr (j_valuestring x) s }"

section \<open>Arrays\<close>

text \<open>The items of a chain; a chain that does not end, or that is broken, is \<open>None\<close>.\<close>

partial_function (option) siblings :: "addr \<Rightarrow> jstate \<Rightarrow> addr list option" where
  "siblings c s =
     (if c = NULL then Some []
      else do { x \<leftarrow> item c s; r \<leftarrow> siblings (j_next x) s; Some (c # r) })"

declare siblings.simps [code]

type_synonym value_printer = "nat \<Rightarrow> addr \<Rightarrow> jstate \<Rightarrow> (addr \<times> jstate) option"

text \<open>The loop that prints the elements: the strings, the size so far, and whether one failed.\<close>

fun print_entries :: "value_printer \<Rightarrow> bool \<Rightarrow> nat \<Rightarrow> nat \<Rightarrow> addr \<Rightarrow> nat \<Rightarrow> jstate
    \<Rightarrow> (addr list \<times> nat \<times> bool \<times> jstate) option" where
  "print_entries pv fmt 0 depth child len s = None"
| "print_entries pv fmt (Suc n) depth child len s =
     (if child = NULL then Some ([], len, False, s)
      else do {
        (ret, s) \<leftarrow> pv (depth + 1) child s;
        if ret = NULL then Some ([NULL], len, True, s)
        else do {
          t \<leftarrow> text_at ret s;
          x \<leftarrow> item child s;
          (es, len, fail, s) \<leftarrow> print_entries pv fmt n depth (j_next x)
            (len + length t + 2 + (if fmt then 1 else 0)) s;
          Some (ret # es, len, fail, s)
        }
      })"

text \<open>The loop that copies them into the output of size \<open>n\<close>.\<close>

fun compose_array :: "nat \<Rightarrow> bool \<Rightarrow> string \<Rightarrow> addr list \<Rightarrow> jstate \<Rightarrow> (string \<times> jstate) option" where
  "compose_array n fmt out [] s = Some (out, s)"
| "compose_array n fmt out (e # es) s = do {
     t \<leftarrow> text_at e s;
     _ \<leftarrow> put n out (t @ [NUL]);
     out \<leftarrow> put n out t;
     out \<leftarrow> (if es \<noteq> [] then do {
                let sep = (if fmt then '', '' else '','');
                _ \<leftarrow> put n out (sep @ [NUL]);
                put n out sep
              }
              else Some out);
     s \<leftarrow> jfree e s;
     compose_array n fmt out es s
   }"

definition print_array :: "value_printer \<Rightarrow> bool \<Rightarrow> value_printer" where
  "print_array pv fmt depth it s = do {
     x \<leftarrow> item it s;
     kids \<leftarrow> siblings (j_child x) s;
     if kids = [] then new_text 3 ''[]'' s
     else do {
       let (entries, s) = jalloc (Pointers (length kids)) s;
       if entries = NULL then Some (NULL, s)
       else do {
         (es, len, fail, s) \<leftarrow> print_entries pv fmt (Suc (length kids)) depth (j_child x) 5 s;
         let (out, s) = (if fail then (NULL, s) else jalloc (Text '''') s);
         if out = NULL then do {
           s \<leftarrow> run_list jfree es s;
           s \<leftarrow> jfree entries s;
           Some (NULL, s)
         }
         else do {
           t \<leftarrow> put len [] ''['';
           _ \<leftarrow> put len t [NUL];
           (t, s) \<leftarrow> compose_array len fmt t es s;
           s \<leftarrow> jfree entries s;
           t \<leftarrow> put len t '']'';
           _ \<leftarrow> put len t [NUL];
           s \<leftarrow> set_text out t s;
           Some (out, s)
         }
       }
     }
   }"

section \<open>Objects\<close>

abbreviation TAB :: char where "TAB \<equiv> CHR 0x09"

text \<open>The loop that prints the names and the values; it does not stop when one fails.\<close>

fun print_members :: "value_printer \<Rightarrow> bool \<Rightarrow> nat \<Rightarrow> nat \<Rightarrow> addr \<Rightarrow> nat \<Rightarrow> bool \<Rightarrow> jstate
    \<Rightarrow> ((addr \<times> addr) list \<times> nat \<times> bool \<times> jstate) option" where
  "print_members pv fmt 0 depth child len fail s = None"
| "print_members pv fmt (Suc n) depth child len fail s =
     (if child = NULL then Some ([], len, fail, s)
      else do {
        x \<leftarrow> item child s;
        (str, s) \<leftarrow> print_string_ptr (j_string x) s;
        (ret, s) \<leftarrow> pv depth child s;
        (len, fail) \<leftarrow> (if str \<noteq> NULL \<and> ret \<noteq> NULL
           then do {
             tr \<leftarrow> text_at ret s;
             ts \<leftarrow> text_at str s;
             Some (len + length tr + length ts + 2 + (if fmt then 2 + depth else 0), fail)
           }
           else Some (len, True));
        x \<leftarrow> item child s;
        (es, len, fail, s) \<leftarrow> print_members pv fmt n depth (j_next x) len fail s;
        Some ((str, ret) # es, len, fail, s)
      })"

text \<open>\<open>put\<close> followed by a NUL that the next write overwrites.\<close>

definition put_str :: "nat \<Rightarrow> string \<Rightarrow> string \<Rightarrow> string option" where
  "put_str n out cs = do { _ \<leftarrow> put n out (cs @ [NUL]); put n out cs }"

fun compose_object :: "nat \<Rightarrow> bool \<Rightarrow> nat \<Rightarrow> string \<Rightarrow> (addr \<times> addr) list \<Rightarrow> jstate
    \<Rightarrow> (string \<times> jstate) option" where
  "compose_object n fmt depth out [] s = Some (out, s)"
| "compose_object n fmt depth out ((str, ret) # es) s = do {
     out \<leftarrow> put n out (if fmt then replicate depth TAB else []);
     ts \<leftarrow> text_at str s;
     out \<leftarrow> put_str n out ts;
     out \<leftarrow> put n out (if fmt then [CHR '':'', TAB] else [CHR '':'']);
     tr \<leftarrow> text_at ret s;
     out \<leftarrow> put_str n out tr;
     out \<leftarrow> put n out (if es \<noteq> [] then '','' else []);
     out \<leftarrow> put_str n out (if fmt then [LF] else []);
     s \<leftarrow> jfree str s;
     s \<leftarrow> jfree ret s;
     compose_object n fmt depth out es s
   }"

text \<open>The failure handler frees \<open>names[i]\<close> and \<open>entries[i]\<close> in turn.\<close>

definition free_member :: "addr \<times> addr \<Rightarrow> jstate \<Rightarrow> jstate option" where
  "free_member e s = do { s \<leftarrow> jfree (fst e) s; jfree (snd e) s }"

definition print_object :: "value_printer \<Rightarrow> bool \<Rightarrow> value_printer" where
  "print_object pv fmt depth it s = do {
     x \<leftarrow> item it s;
     kids \<leftarrow> siblings (j_child x) s;
     if kids = [] then
       new_text (if fmt then depth + 4 else 3)
         (''{'' @ (if fmt then LF # replicate (depth - 1) TAB else []) @ ''}'') s
     else do {
       let (entries, s) = jalloc (Pointers (length kids)) s;
       if entries = NULL then Some (NULL, s)
       else do {
         let (names, s) = jalloc (Pointers (length kids)) s;
         if names = NULL then do { s \<leftarrow> jfree entries s; Some (NULL, s) }
         else do {
           let depth = depth + 1;
           (es, len, fail, s) \<leftarrow> print_members pv fmt (Suc (length kids)) depth (j_child x)
             (7 + (if fmt then depth else 0)) False s;
           let (out, s) = (if fail then (NULL, s) else jalloc (Text '''') s);
           if out = NULL then do {
             s \<leftarrow> run_list free_member es s;
             s \<leftarrow> jfree names s;
             s \<leftarrow> jfree entries s;
             Some (NULL, s)
           }
           else do {
             t \<leftarrow> put_str len [] (if fmt then [CHR ''{'', LF] else ''{'');
             (t, s) \<leftarrow> compose_object len fmt depth t es s;
             s \<leftarrow> jfree names s;
             s \<leftarrow> jfree entries s;
             t \<leftarrow> put len t (if fmt then replicate (depth - 1) TAB else []);
             t \<leftarrow> put len t ''}'';
             _ \<leftarrow> put len t [NUL];
             s \<leftarrow> set_text out t s;
             Some (out, s)
           }
         }
       }
     }
   }"

section \<open>Values\<close>

fun print_value :: "nat \<Rightarrow> bool \<Rightarrow> value_printer" where
  "print_value 0 fmt depth it s = None"
| "print_value (Suc fuel) fmt depth it s =
     (if it = NULL then Some (NULL, s)
      else do {
        x \<leftarrow> item it s;
        let t = j_type x AND 255;
        if t = cJSON_NULL then Some (cJSON_strdup ''null'' s)
        else if t = cJSON_False then Some (cJSON_strdup ''false'' s)
        else if t = cJSON_True then Some (cJSON_strdup ''true'' s)
        else if t = cJSON_Number then print_number it s
        else if t = cJSON_String then print_string it s
        else if t = cJSON_Array then print_array (print_value fuel fmt) fmt depth it s
        else if t = cJSON_Object then print_object (print_value fuel fmt) fmt depth it s
        else Some (NULL, s)
      })"

definition cJSON_Print :: "addr \<Rightarrow> jstate \<Rightarrow> (addr \<times> jstate) option" where
  "cJSON_Print it s = print_value (Suc (n_alloc s)) True 0 it s"

definition cJSON_PrintUnformatted :: "addr \<Rightarrow> jstate \<Rightarrow> (addr \<times> jstate) option" where
  "cJSON_PrintUnformatted it s = print_value (Suc (n_alloc s)) False 0 it s"

end
