(* ===== verification/Json_List.thy ===== *)
theory Json_List
  imports Json_Print
begin

text \<open>
  The operations of \<open>cJSON.c\<close> on the elements of arrays and objects: a doubly linked chain of items
  that starts at \<open>child\<close> of the container. The loops are written as in the code, field by field.
\<close>

section \<open>Access\<close>

text \<open>\<open>while (c && which>0) c=c->next,which--;\<close>\<close>

function walk :: "addr \<Rightarrow> int \<Rightarrow> jstate \<Rightarrow> addr option" where
  "walk c which s =
     (if c \<noteq> NULL \<and> 0 < which
      then (case item c s of None \<Rightarrow> None | Some x \<Rightarrow> walk (j_next x) (which - 1) s)
      else Some c)"
  by pat_completeness auto

termination walk
  by (relation "measure (\<lambda>(c, which, s). nat which)") auto

declare walk.simps [simp del]

text \<open>\<open>while (c && cJSON_strcasecmp(c->string,string)) i++,c=c->next;\<close>\<close>

partial_function (option) find_item :: "addr \<Rightarrow> string option \<Rightarrow> int \<Rightarrow> jstate \<Rightarrow> (addr \<times> int) option" where
  "find_item c name i s =
     (if c = NULL then Some (c, i)
      else do {
        x \<leftarrow> item c s;
        n \<leftarrow> opt_text (j_string x) s;
        if cJSON_strcasecmp n name \<noteq> 0 then find_item (j_next x) name (i + 1) s else Some (c, i)
      })"

text \<open>\<open>while (c && c->next) c=c->next;\<close>\<close>

partial_function (option) last_item :: "addr \<Rightarrow> jstate \<Rightarrow> addr option" where
  "last_item c s =
     (if c = NULL then Some c
      else do { x \<leftarrow> item c s; if j_next x \<noteq> NULL then last_item (j_next x) s else Some c })"

declare find_item.simps [code] last_item.simps [code]

definition cJSON_GetArraySize :: "addr \<Rightarrow> jstate \<Rightarrow> int option" where
  "cJSON_GetArraySize array s = do {
     a \<leftarrow> item array s; cs \<leftarrow> siblings (j_child a) s; Some (int (length cs)) }"

definition cJSON_GetArrayItem :: "addr \<Rightarrow> int \<Rightarrow> jstate \<Rightarrow> addr option" where
  "cJSON_GetArrayItem array i s = do { a \<leftarrow> item array s; walk (j_child a) i s }"

definition cJSON_GetObjectItem :: "addr \<Rightarrow> string option \<Rightarrow> jstate \<Rightarrow> addr option" where
  "cJSON_GetObjectItem object name s = do {
     a \<leftarrow> item object s; map_option fst (find_item (j_child a) name 0 s) }"

section \<open>Adding\<close>

definition suffix_object :: "addr \<Rightarrow> addr \<Rightarrow> jstate \<Rightarrow> jstate option" where
  "suffix_object prev it s = do {
     s \<leftarrow> set_item prev (\<lambda>x. x\<lparr>j_next := it\<rparr>) s;
     set_item it (\<lambda>x. x\<lparr>j_prev := prev\<rparr>) s
   }"

definition create_reference :: "addr \<Rightarrow> jstate \<Rightarrow> (addr \<times> jstate) option" where
  "create_reference it s = do {
     let (ref, s) = cJSON_New_Item s;
     if ref = NULL then Some (NULL, s)
     else do {
       x \<leftarrow> item it s;
       s \<leftarrow> set_item ref (\<lambda>_. x\<lparr>j_string := NULL, j_type := j_type x OR cJSON_IsReference,
              j_next := NULL, j_prev := NULL\<rparr>) s;
       Some (ref, s)
     }
   }"

definition cJSON_AddItemToArray :: "addr \<Rightarrow> addr \<Rightarrow> jstate \<Rightarrow> jstate option" where
  "cJSON_AddItemToArray array it s = do {
     a \<leftarrow> item array s;
     let c = j_child a;
     if it = NULL then Some s
     else if c = NULL then set_item array (\<lambda>x. x\<lparr>j_child := it\<rparr>) s
     else do { c \<leftarrow> last_item c s; suffix_object c it s }
   }"

definition cJSON_AddItemToObject :: "addr \<Rightarrow> string \<Rightarrow> addr \<Rightarrow> jstate \<Rightarrow> jstate option" where
  "cJSON_AddItemToObject object name it s =
     (if it = NULL then Some s
      else do {
        x \<leftarrow> item it s;
        s \<leftarrow> (if j_string x \<noteq> NULL then jfree (j_string x) s else Some s);
        let (n, s) = cJSON_strdup name s;
        s \<leftarrow> set_item it (\<lambda>x. x\<lparr>j_string := n\<rparr>) s;
        cJSON_AddItemToArray object it s
      })"

definition cJSON_AddItemReferenceToArray :: "addr \<Rightarrow> addr \<Rightarrow> jstate \<Rightarrow> jstate option" where
  "cJSON_AddItemReferenceToArray array it s = do {
     (ref, s) \<leftarrow> create_reference it s; cJSON_AddItemToArray array ref s }"

definition cJSON_AddItemReferenceToObject :: "addr \<Rightarrow> string \<Rightarrow> addr \<Rightarrow> jstate \<Rightarrow> jstate option" where
  "cJSON_AddItemReferenceToObject object name it s = do {
     (ref, s) \<leftarrow> create_reference it s; cJSON_AddItemToObject object name ref s }"

section \<open>Removing and replacing\<close>

definition cJSON_DetachItemFromArray :: "addr \<Rightarrow> int \<Rightarrow> jstate \<Rightarrow> (addr \<times> jstate) option" where
  "cJSON_DetachItemFromArray array which s = do {
     a \<leftarrow> item array s;
     c \<leftarrow> walk (j_child a) which s;
     if c = NULL then Some (NULL, s)
     else do {
       x \<leftarrow> item c s;
       s \<leftarrow> (if j_prev x \<noteq> NULL then set_item (j_prev x) (\<lambda>y. y\<lparr>j_next := j_next x\<rparr>) s else Some s);
       x \<leftarrow> item c s;
       s \<leftarrow> (if j_next x \<noteq> NULL then set_item (j_next x) (\<lambda>y. y\<lparr>j_prev := j_prev x\<rparr>) s else Some s);
       a \<leftarrow> item array s;
       x \<leftarrow> item c s;
       s \<leftarrow> (if c = j_child a then set_item array (\<lambda>y. y\<lparr>j_child := j_next x\<rparr>) s else Some s);
       s \<leftarrow> set_item c (\<lambda>y. y\<lparr>j_next := NULL, j_prev := NULL\<rparr>) s;
       Some (c, s)
     }
   }"

definition cJSON_DeleteItemFromArray :: "addr \<Rightarrow> int \<Rightarrow> jstate \<Rightarrow> jstate option" where
  "cJSON_DeleteItemFromArray array which s = do {
     (c, s) \<leftarrow> cJSON_DetachItemFromArray array which s; cJSON_Delete c s }"

definition cJSON_DetachItemFromObject :: "addr \<Rightarrow> string option \<Rightarrow> jstate \<Rightarrow> (addr \<times> jstate) option" where
  "cJSON_DetachItemFromObject object name s = do {
     a \<leftarrow> item object s;
     (c, i) \<leftarrow> find_item (j_child a) name 0 s;
     if c \<noteq> NULL then cJSON_DetachItemFromArray object i s else Some (NULL, s)
   }"

definition cJSON_DeleteItemFromObject :: "addr \<Rightarrow> string option \<Rightarrow> jstate \<Rightarrow> jstate option" where
  "cJSON_DeleteItemFromObject object name s = do {
     (c, s) \<leftarrow> cJSON_DetachItemFromObject object name s; cJSON_Delete c s }"

definition cJSON_ReplaceItemInArray :: "addr \<Rightarrow> int \<Rightarrow> addr \<Rightarrow> jstate \<Rightarrow> jstate option" where
  "cJSON_ReplaceItemInArray array which new s = do {
     a \<leftarrow> item array s;
     c \<leftarrow> walk (j_child a) which s;
     if c = NULL then Some s
     else do {
       x \<leftarrow> item c s;
       s \<leftarrow> set_item new (\<lambda>y. y\<lparr>j_next := j_next x\<rparr>) s;
       x \<leftarrow> item c s;
       s \<leftarrow> set_item new (\<lambda>y. y\<lparr>j_prev := j_prev x\<rparr>) s;
       n \<leftarrow> item new s;
       s \<leftarrow> (if j_next n \<noteq> NULL then set_item (j_next n) (\<lambda>y. y\<lparr>j_prev := new\<rparr>) s else Some s);
       a \<leftarrow> item array s;
       s \<leftarrow> (if c = j_child a then set_item array (\<lambda>y. y\<lparr>j_child := new\<rparr>) s
             else do { n \<leftarrow> item new s; set_item (j_prev n) (\<lambda>y. y\<lparr>j_next := new\<rparr>) s });
       s \<leftarrow> set_item c (\<lambda>y. y\<lparr>j_next := NULL, j_prev := NULL\<rparr>) s;
       cJSON_Delete c s
     }
   }"

definition cJSON_ReplaceItemInObject :: "addr \<Rightarrow> string \<Rightarrow> addr \<Rightarrow> jstate \<Rightarrow> jstate option" where
  "cJSON_ReplaceItemInObject object name new s = do {
     a \<leftarrow> item object s;
     (c, i) \<leftarrow> find_item (j_child a) (Some name) 0 s;
     if c \<noteq> NULL then do {
       let (n, s) = cJSON_strdup name s;
       s \<leftarrow> set_item new (\<lambda>y. y\<lparr>j_string := n\<rparr>) s;
       cJSON_ReplaceItemInArray object i new s
     }
     else Some s
   }"

section \<open>Arrays of values\<close>

text \<open>The loop over the values: \<open>p\<close> is the item of the value before, \<open>first\<close> tells that there is none.\<close>

fun fill_array :: "('v \<Rightarrow> jstate \<Rightarrow> (addr \<times> jstate) option) \<Rightarrow> addr \<Rightarrow> bool \<Rightarrow> addr \<Rightarrow> 'v list \<Rightarrow> jstate
    \<Rightarrow> jstate option" where
  "fill_array create a first p [] s = Some s"
| "fill_array create a first p (v # vs) s = do {
     (n, s) \<leftarrow> create v s;
     s \<leftarrow> (if first then set_item a (\<lambda>x. x\<lparr>j_child := n\<rparr>) s else suffix_object p n s);
     fill_array create a False n vs s
   }"

definition create_array_of ::
  "('v \<Rightarrow> jstate \<Rightarrow> (addr \<times> jstate) option) \<Rightarrow> 'v list \<Rightarrow> jstate \<Rightarrow> (addr \<times> jstate) option" where
  "create_array_of create vs s = do {
     (a, s) \<leftarrow> cJSON_CreateArray s;
     if a = NULL then Some (NULL, s)
     else do { s \<leftarrow> fill_array create a True NULL vs s; Some (a, s) }
   }"

definition cJSON_CreateIntArray :: "i32 list \<Rightarrow> jstate \<Rightarrow> (addr \<times> jstate) option" where
  "cJSON_CreateIntArray = create_array_of (\<lambda>i. cJSON_CreateNumber (int_to_double (sint i)))"

text \<open>Every \<open>float\<close> is a \<open>double\<close>.\<close>

definition cJSON_CreateFloatArray :: "double list \<Rightarrow> jstate \<Rightarrow> (addr \<times> jstate) option" where
  "cJSON_CreateFloatArray = create_array_of cJSON_CreateNumber"

definition cJSON_CreateDoubleArray :: "double list \<Rightarrow> jstate \<Rightarrow> (addr \<times> jstate) option" where
  "cJSON_CreateDoubleArray = create_array_of cJSON_CreateNumber"

definition cJSON_CreateStringArray :: "string list \<Rightarrow> jstate \<Rightarrow> (addr \<times> jstate) option" where
  "cJSON_CreateStringArray = create_array_of cJSON_CreateString"

section \<open>Duplication\<close>

text \<open>A copy of the string at \<open>p\<close>, when there is one, stored into a field of the new item.\<close>

definition dup_field :: "(addr \<Rightarrow> cjson \<Rightarrow> cjson) \<Rightarrow> addr \<Rightarrow> addr \<Rightarrow> jstate \<Rightarrow> (bool \<times> jstate) option" where
  "dup_field upd new p s =
     (if p = NULL then Some (True, s)
      else do {
        t \<leftarrow> text_at p s;
        let (q, s) = cJSON_strdup t s;
        s \<leftarrow> set_item new (upd q) s;
        Some (q \<noteq> NULL, s)
      })"

text \<open>The loop over the chain of children; \<open>nptr\<close> is the copy made last.\<close>

fun dup_children :: "(addr \<Rightarrow> jstate \<Rightarrow> (addr \<times> jstate) option) \<Rightarrow> nat \<Rightarrow> addr \<Rightarrow> addr \<Rightarrow> addr \<Rightarrow> jstate
    \<Rightarrow> (bool \<times> jstate) option" where
  "dup_children dup 0 new cptr nptr s = None"
| "dup_children dup (Suc n) new cptr nptr s =
     (if cptr = NULL then Some (True, s)
      else do {
        (q, s) \<leftarrow> dup cptr s;
        if q = NULL then Some (False, s)
        else do {
          s \<leftarrow> (if nptr \<noteq> NULL then suffix_object nptr q s
                else set_item new (\<lambda>x. x\<lparr>j_child := q\<rparr>) s);
          c \<leftarrow> item cptr s;
          dup_children dup n new (j_next c) q s
        }
      })"

text \<open>\<open>cJSON_Delete(newitem);return 0;\<close> unless all has gone well.\<close>

definition or_delete :: "addr \<Rightarrow> bool \<times> jstate \<Rightarrow> (jstate \<Rightarrow> (addr \<times> jstate) option) \<Rightarrow> (addr \<times> jstate) option" where
  "or_delete new r k =
     (if fst r then k (snd r) else do { s \<leftarrow> cJSON_Delete new (snd r); Some (NULL, s) })"

fun duplicate :: "nat \<Rightarrow> bool \<Rightarrow> addr \<Rightarrow> jstate \<Rightarrow> (addr \<times> jstate) option" where
  "duplicate 0 recurse it s = None"
| "duplicate (Suc fuel) recurse it s =
     (if it = NULL then Some (NULL, s)
      else do {
        let (new, s) = cJSON_New_Item s;
        if new = NULL then Some (NULL, s)
        else do {
          x \<leftarrow> item it s;
          s \<leftarrow> set_item new (\<lambda>y. y\<lparr>j_type := j_type x AND NOT cJSON_IsReference,
                 j_valueint := j_valueint x, j_valuedouble := j_valuedouble x\<rparr>) s;
          r \<leftarrow> dup_field (\<lambda>q y. y\<lparr>j_valuestring := q\<rparr>) new (j_valuestring x) s;
          or_delete new r (\<lambda>s. do {
            r \<leftarrow> dup_field (\<lambda>q y. y\<lparr>j_string := q\<rparr>) new (j_string x) s;
            or_delete new r (\<lambda>s.
              if \<not> recurse then Some (new, s)
              else do {
                r \<leftarrow> dup_children (duplicate fuel True) fuel new (j_child x) NULL s;
                or_delete new r (\<lambda>s. Some (new, s))
              })
          })
        }
      })"

definition cJSON_Duplicate :: "addr \<Rightarrow> bool \<Rightarrow> jstate \<Rightarrow> (addr \<times> jstate) option" where
  "cJSON_Duplicate it recurse s = duplicate (n_alloc s + 2) recurse it s"

end
