(* ===== verification/Json_Tools.thy ===== *)
theory Json_Tools
  imports Json_List
begin

text \<open>
  \<open>json_wrap.c\<close> and \<open>manipulate_list.c\<close>: reading and writing JSON files, and the programs that
  simplify the lists of resources and make the links to them. The files, the commands given to the
  shell and the bytes \<open>malloc\<close> leaves in new memory are the environment. \<open>get_str_from_file\<close> does not
  terminate the text it has read; a buffer without a NUL is not a string, and handing it to
  \<open>cJSON_Parse\<close> is taken as undefined. Messages for the user are left out.
\<close>

section \<open>The environment\<close>

record world =
  js :: jstate
  files :: "string \<rightharpoonup> string"
  can_write :: "string \<Rightarrow> bool"
  junk :: "nat \<Rightarrow> char"
  shell :: "string list"
  opened :: nat

text \<open>Lifting of the operations on memory.\<close>

definition on_json :: "(jstate \<Rightarrow> ('a \<times> jstate) option) \<Rightarrow> world \<Rightarrow> ('a \<times> world) option" where
  "on_json f w = map_option (\<lambda>(r, s). (r, w\<lparr>js := s\<rparr>)) (f (js w))"

definition do_json :: "(jstate \<Rightarrow> jstate option) \<Rightarrow> world \<Rightarrow> world option" where
  "do_json f w = map_option (\<lambda>s. w\<lparr>js := s\<rparr>) (f (js w))"

definition system :: "string \<Rightarrow> world \<Rightarrow> world" where
  "system cmd w = w\<lparr>shell := shell w @ [cmd]\<rparr>"

section \<open>\<open>json_wrap.c\<close>\<close>

text \<open>
  The quotes are cut off the printed string: the last one by a NUL, the first one by copying from the
  second character; \<open>strncpy\<close> writes \<open>len - 1\<close> characters, the NUL that ends the string being one of them.
\<close>

definition print_unquote_string :: "addr \<Rightarrow> jstate \<Rightarrow> (addr \<times> jstate) option" where
  "print_unquote_string str_obj s = do {
     x \<leftarrow> item str_obj s;
     if j_type x \<noteq> cJSON_String then Some (NULL, s)
     else do {
       (ori_str, s) \<leftarrow> cJSON_PrintUnformatted str_obj s;
       ori \<leftarrow> text_at ori_str s;
       let len = length ori;
       let ori = ori[len - 1 := NUL];
       let (new_str, s) = jalloc (Text '''') s;
       from \<leftarrow> advance 1 ori;
       let body = takeWhile (\<lambda>c. c \<noteq> NUL) from;
       _ \<leftarrow> put (len - 1) [] (take (len - 1) (body @ [NUL]));
       s \<leftarrow> set_text new_str body s;
       s \<leftarrow> jfree ori_str s;
       Some (new_str, s)
     }
   }"

text \<open>The characters of a buffer up to its NUL.\<close>

definition c_string :: "char list \<Rightarrow> string option" where
  "c_string b = (if NUL \<in> set b then Some (takeWhile (\<lambda>c. c \<noteq> NUL) b) else None)"

text \<open>
  The buffer, and its address. \<open>opened\<close> counts the streams that are open: the one of a file for which
  there is no memory stays so.
\<close>

definition get_str_from_file :: "string \<Rightarrow> world \<Rightarrow> (addr \<times> char list) \<times> world" where
  "get_str_from_file name w =
     (case files w name of
        None \<Rightarrow> ((NULL, []), w)
      | Some t \<Rightarrow>
          let w = w\<lparr>opened := Suc (opened w)\<rparr>;
              (data, s) = jalloc (Text '''') (js w);
              w = w\<lparr>js := s\<rparr>
          in if data = NULL then ((NULL, []), w)
             else ((data, t @ [junk w (n_alloc s)]), w\<lparr>opened := opened w - 1\<rparr>))"

definition get_json_from_file :: "string \<Rightarrow> world \<Rightarrow> (addr \<times> world) option" where
  "get_json_from_file name w =
     (let ((file_str, b), w) = get_str_from_file name w
      in if file_str = NULL then Some (NULL, w)
         else do {
           t \<leftarrow> c_string b;
           (root, w) \<leftarrow> on_json (cJSON_Parse (Some t)) w;
           w \<leftarrow> do_json (jfree file_str) w;
           Some (root, w)
         })"

definition write_json_to_file :: "addr \<Rightarrow> string \<Rightarrow> world \<Rightarrow> world option" where
  "write_json_to_file root name w = do {
     (json_str, w) \<leftarrow> on_json (cJSON_Print root) w;
     if json_str = NULL then Some w
     else if \<not> can_write w name then Some w
     else do {
       t \<leftarrow> text_at json_str (js w);
       let w = w\<lparr>files := (files w)(name \<mapsto> t)\<rparr>;
       do_json (jfree json_str) w
     }
   }"

section \<open>\<open>manipulate_list.c\<close>\<close>

definition RES_LIST_FILE :: string where "RES_LIST_FILE = ''./flashbot.resource''"
definition RES_CATEGORY_FILE :: string where "RES_CATEGORY_FILE = ''./flashbot.list''"
definition SIMPLE_RES_FILE :: string where "SIMPLE_RES_FILE = ''./flashbot.res_simple''"
definition SIMPLE_CAT_FILE :: string where "SIMPLE_CAT_FILE = ''./flashbot.list_simple''"

definition APP_UTF8 :: string where
  "APP_UTF8 = [CHR 0xE5, CHR 0xBA, CHR 0x94, CHR 0xE7, CHR 0x94, CHR 0xA8]"

definition GAME_UTF8 :: string where
  "GAME_UTF8 = [CHR 0xE6, CHR 0xB8, CHR 0xB8, CHR 0xE6, CHR 0x88, CHR 0x8F]"

text \<open>A fresh copy of \<open>it\<close>, added to \<open>array\<close> or, under a name, to \<open>object\<close>.\<close>

definition add_copy :: "addr \<Rightarrow> addr \<Rightarrow> jstate \<Rightarrow> jstate option" where
  "add_copy array it s = do {
     (c, s) \<leftarrow> cJSON_Duplicate it True s; cJSON_AddItemToArray array c s }"

definition add_named_copy :: "addr \<Rightarrow> string \<Rightarrow> addr \<Rightarrow> jstate \<Rightarrow> jstate option" where
  "add_named_copy object name it s = do {
     (c, s) \<leftarrow> cJSON_Duplicate it True s; cJSON_AddItemToObject object name c s }"

definition mk_fake_list :: "world \<Rightarrow> world option" where
  "mk_fake_list w = do {
     (root, w) \<leftarrow> get_json_from_file RES_LIST_FILE w;
     (fake_array, w) \<leftarrow> on_json cJSON_CreateArray w;
     it \<leftarrow> cJSON_GetArrayItem root 0 (js w);
     w \<leftarrow> do_json (run_list (\<lambda>_. add_copy fake_array it) [0..<100]) w;
     write_json_to_file fake_array ''fake_resource_100.json'' w
   }"

text \<open>\<open>sprintf\<close> into the buffer of 256 bytes, and \<open>system\<close>.\<close>

definition run_command :: "string \<Rightarrow> world \<Rightarrow> world option" where
  "run_command cmd w = do { _ \<leftarrow> put 256 [] (cmd @ [NUL]); Some (system cmd w) }"

definition prepare_dirs :: "string \<Rightarrow> string \<Rightarrow> world \<Rightarrow> world option" where
  "prepare_dirs ios_target_dir and_target_dir w = do {
     w \<leftarrow> run_command (''mkdir -p '' @ ios_target_dir) w;
     w \<leftarrow> run_command (''mkdir -p '' @ and_target_dir) w;
     w \<leftarrow> run_command (''rm -f '' @ ios_target_dir @ ''*'') w;
     run_command (''rm -f '' @ and_target_dir @ ''*'') w
   }"

definition link_resource :: "string \<Rightarrow> string \<Rightarrow> string \<Rightarrow> string \<Rightarrow> world \<Rightarrow> world option" where
  "link_resource storage target res_id suffix w = do {
     w \<leftarrow> run_command (''ln -sf '' @ storage @ res_id @ '' '' @ target @ res_id @ suffix) w;
     run_command (''ln -sf '' @ storage @ res_id @ ''.icon '' @ target @ res_id @ ''.icon'') w
   }"

text \<open>One round of the loop of \<open>make_new_map\<close>.\<close>

definition map_resource :: "addr \<Rightarrow> string \<Rightarrow> string \<Rightarrow> string \<Rightarrow> nat \<Rightarrow> world \<Rightarrow> world option" where
  "map_resource root storage_dir ios_dir and_dir i w = do {
     it \<leftarrow> cJSON_GetArrayItem root (int i) (js w);
     tmp \<leftarrow> cJSON_GetObjectItem it (Some ''resourceId'') (js w);
     (res_id, w) \<leftarrow> on_json (print_unquote_string tmp) w;
     tmp \<leftarrow> cJSON_GetObjectItem it (Some ''type'') (js w);
     (res_type, w) \<leftarrow> on_json (print_unquote_string tmp) w;
     t \<leftarrow> text_at res_type (js w);
     w \<leftarrow> (if starts_with ''apk'' t then do {
              r \<leftarrow> text_at res_id (js w); link_resource storage_dir and_dir r ''.apk'' w }
           else if starts_with ''ipa'' t then do {
              r \<leftarrow> text_at res_id (js w); link_resource storage_dir ios_dir r ''.ipa'' w }
           else Some w);
     w \<leftarrow> do_json (jfree res_id) w;
     do_json (jfree res_type) w
   }"

text \<open>\<open>False\<close>: the program exits because there is no list.\<close>

definition make_new_map ::
  "string \<Rightarrow> string \<Rightarrow> string \<Rightarrow> string \<Rightarrow> world \<Rightarrow> (bool \<times> world) option" where
  "make_new_map list_file storage_dir ios_dir and_dir w = do {
     (root, w) \<leftarrow> get_json_from_file list_file w;
     w \<leftarrow> prepare_dirs ios_dir and_dir w;
     if root = NULL then Some (False, w)
     else do {
       n \<leftarrow> cJSON_GetArraySize root (js w);
       w \<leftarrow> run_list (map_resource root storage_dir ios_dir and_dir) [0..<nat n] w;
       w \<leftarrow> do_json (cJSON_Delete root) w;
       Some (True, w)
     }
   }"

definition category_entry :: "addr \<Rightarrow> addr \<Rightarrow> nat \<Rightarrow> world \<Rightarrow> world option" where
  "category_entry root root_simple i w = do {
     it \<leftarrow> cJSON_GetArrayItem root (int i) (js w);
     title \<leftarrow> cJSON_GetObjectItem it (Some ''title'') (js w);
     (str, w) \<leftarrow> on_json (print_unquote_string title) w;
     t \<leftarrow> text_at str (js w);
     w \<leftarrow> (if starts_with GAME_UTF8 t then do {
              tags \<leftarrow> cJSON_GetObjectItem it (Some ''tags'') (js w);
              tag \<leftarrow> cJSON_GetArrayItem tags 0 (js w);
              do_json (add_named_copy root_simple ''game'' tag) w
            }
            else if starts_with APP_UTF8 t then do {
              tags \<leftarrow> cJSON_GetObjectItem it (Some ''tags'') (js w);
              tag \<leftarrow> cJSON_GetArrayItem tags 0 (js w);
              do_json (add_named_copy root_simple ''app'' tag) w
            }
            else Some w);
     do_json (jfree str) w
   }"

definition simplify_category :: "string \<Rightarrow> world \<Rightarrow> (int \<times> world) option" where
  "simplify_category filename w = do {
     (list, w) \<leftarrow> get_json_from_file filename w;
     (root_simple, w) \<leftarrow> on_json cJSON_CreateObject w;
     if list = NULL then Some (- 1, w)
     else do {
       root \<leftarrow> cJSON_GetObjectItem list (Some ''list'') (js w);
       if root = NULL then Some (- 1, w)
       else do {
         n \<leftarrow> cJSON_GetArraySize root (js w);
         w \<leftarrow> run_list (category_entry root root_simple) [0..<nat n] w;
         w \<leftarrow> write_json_to_file root_simple SIMPLE_CAT_FILE w;
         w \<leftarrow> do_json (cJSON_Delete list) w;
         w \<leftarrow> do_json (cJSON_Delete root_simple) w;
         Some (0, w)
       }
     }
   }"

text \<open>The fields that are kept, in the order in which they are copied.\<close>

definition kept_fields :: "string list" where
  "kept_fields = [''type'', ''size'', ''title'', ''resourceId'', ''description'', ''tags'']"

definition reslist_entry :: "addr \<Rightarrow> addr \<Rightarrow> nat \<Rightarrow> jstate \<Rightarrow> jstate option" where
  "reslist_entry root root_simple i s = do {
     (new, s) \<leftarrow> cJSON_CreateObject s;
     ori \<leftarrow> cJSON_GetArrayItem root (int i) s;
     s \<leftarrow> run_list (\<lambda>f s. do {
            tmp \<leftarrow> cJSON_GetObjectItem ori (Some f) s;
            add_named_copy new f tmp s
          }) kept_fields s;
     cJSON_AddItemToArray root_simple new s
   }"

definition simplify_reslist :: "string \<Rightarrow> world \<Rightarrow> (int \<times> world) option" where
  "simplify_reslist filename w = do {
     (root, w) \<leftarrow> get_json_from_file filename w;
     (root_simple, w) \<leftarrow> on_json cJSON_CreateArray w;
     if root = NULL then Some (- 1, w)
     else do {
       n \<leftarrow> cJSON_GetArraySize root (js w);
       w \<leftarrow> do_json (run_list (reslist_entry root root_simple) [0..<nat n]) w;
       w \<leftarrow> write_json_to_file root_simple SIMPLE_RES_FILE w;
       w \<leftarrow> do_json (cJSON_Delete root) w;
       w \<leftarrow> do_json (cJSON_Delete root_simple) w;
       Some (0, w)
     }
   }"

text \<open>The main program.\<close>

definition json_main :: "world \<Rightarrow> world option" where
  "json_main w = do {
     w \<leftarrow> mk_fake_list w;
     (_, w) \<leftarrow> simplify_reslist RES_LIST_FILE w;
     (_, w) \<leftarrow> simplify_category RES_CATEGORY_FILE w;
     Some w
   }"

end
