(* ===== verification/Json_Number_Facts.thy ===== *)
theory Json_Number_Facts
  imports Json_Number
begin

text \<open>
  The texts of numbers fit the buffers \<open>print_number\<close> allocates for them: bounds on the lengths of
  the texts of \<open>%d\<close>, \<open>%.0f\<close>, \<open>%f\<close> and \<open>%e\<close>.
\<close>

section \<open>Digits\<close>

lemma dec_nat_bound: "n < 10 ^ length (dec_nat n)"
proof (induction n rule: dec_nat.induct)
  case (1 n)
  show ?case
  proof (cases "n < 10")
    case False
    have "n div 10 < 10 ^ length (dec_nat (n div 10))" by (rule "1.IH" [OF False])
    then have "n < 10 ^ length (dec_nat (n div 10)) * 10" by (simp add: div_less_iff_less_mult)
    moreover have "length (dec_nat n) = Suc (length (dec_nat (n div 10)))"
      using False by (subst dec_nat.simps) simp
    ultimately show ?thesis by simp
  qed (simp add: dec_nat_small)
qed

lemma dec_nat_length: "n < 10 ^ k \<Longrightarrow> 0 < k \<Longrightarrow> length (dec_nat n) \<le> k"
proof (induction k arbitrary: n)
  case (Suc k)
  show ?case
  proof (cases "n < 10")
    case False
    then have "0 < k" using Suc.prems(1) by (cases k) auto
    have "n div 10 < 10 ^ k" using Suc.prems(1) by (simp add: div_less_iff_less_mult mult.commute)
    then have "length (dec_nat (n div 10)) \<le> k" by (rule Suc.IH [OF _ \<open>0 < k\<close>])
    moreover have "length (dec_nat n) = Suc (length (dec_nat (n div 10)))"
      using False by (subst dec_nat.simps) simp
    ultimately show ?thesis by simp
  qed (simp add: dec_nat_small)
qed simp

lemma dec_nat_length_le: "n \<le> b \<Longrightarrow> b < 10 ^ k \<Longrightarrow> 0 < k \<Longrightarrow> length (dec_nat n) \<le> k"
  by (rule dec_nat_length) auto

lemma round_quot_le: "n \<le> b * d \<Longrightarrow> 0 < d \<Longrightarrow> round_quot n d \<le> b"
proof -
  assume n: "n \<le> b * d" and d: "0 < d"
  show ?thesis
  proof (cases "n div d < b")
    case True
    then show ?thesis by (auto simp: round_quot_def Let_def)
  next
    case False
    then have "b \<le> n div d" by simp
    then have "b * d \<le> n" using d by (metis less_eq_div_iff_mult_less_eq)
    then have "n = b * d" using n by simp
    then show ?thesis using d by (simp add: round_quot_def)
  qed
qed

lemma dec_int_length: "length (dec_int (sint (i :: i32))) \<le> 11"
proof -
  have "- (2 ^ 31) \<le> sint i" "sint i < 2 ^ 31" using sint_ge [of i] sint_lt [of i] by simp_all
  then have "nat \<bar>sint i\<bar> < 10 ^ 10" by auto
  then have "length (dec_nat (nat \<bar>sint i\<bar>)) \<le> 10" by (rule dec_nat_length) simp
  then show ?thesis by (auto simp: dec_int_def)
qed

section \<open>Comparisons\<close>

lemma dless_quot:
  assumes "dless (Fin False m e) (Fin False n f)" and "0 \<le> f"
  shows "if 0 \<le> e then m * 2 ^ nat e < n * 2 ^ nat f else m < n * 2 ^ nat f * 2 ^ nat (- e)"
proof -
  let ?k = "min e f"
  have *: "m * 2 ^ nat (e - ?k) < n * 2 ^ nat (f - ?k)"
    using assms(1) by (simp add: scaled_def Let_def flip: of_nat_mult of_nat_power)
  show ?thesis
  proof (cases "0 \<le> e")
    case True
    then have "nat e = nat (e - ?k) + nat ?k" "nat f = nat (f - ?k) + nat ?k" using assms(2) by auto
    then show ?thesis using * True by (simp add: power_add)
  next
    case False
    then have "nat (f - ?k) = nat f + nat (- e)" "nat (e - ?k) = 0" using assms(2) by auto
    then show ?thesis using * False by (simp add: power_add)
  qed
qed

lemma not_dless_quot:
  assumes "\<not> dless (Fin False n f) (Fin False m e)" and "0 \<le> f"
  shows "if 0 \<le> e then m * 2 ^ nat e \<le> n * 2 ^ nat f else m \<le> n * 2 ^ nat f * 2 ^ nat (- e)"
proof -
  let ?k = "min f e"
  have *: "m * 2 ^ nat (e - ?k) \<le> n * 2 ^ nat (f - ?k)"
    using assms(1) by (simp add: scaled_def Let_def not_less flip: of_nat_mult of_nat_power)
  show ?thesis
  proof (cases "0 \<le> e")
    case True
    then have "nat e = nat (e - ?k) + nat ?k" "nat f = nat (f - ?k) + nat ?k" using assms(2) by auto
    then show ?thesis using * True by (simp add: power_add)
  next
    case False
    then have "nat (f - ?k) = nat f + nat (- e)" "nat (e - ?k) = 0" using assms(2) by auto
    then show ?thesis using * False by (simp add: power_add)
  qed
qed

section \<open>\<open>%f\<close>\<close>

lemma format_f_0_length:
  assumes "n \<le> 10 ^ 61 * d" and "0 < d"
  shows "length (format_f_pos 0 n d) \<le> 62"
proof -
  have "round_quot (n * 10 ^ 0) d \<le> 10 ^ 61" using assms by (intro round_quot_le) simp_all
  from dec_nat_length_le [OF this, of 62] show ?thesis by (simp add: format_f_pos_def)
qed

lemma format_f_6_length:
  assumes "n \<le> 10 ^ 9 * d" and "0 < d"
  shows "length (format_f_pos 6 n d) \<le> 17"
proof -
  let ?q = "round_quot (n * 10 ^ 6) d"
  have "?q \<le> 10 ^ 15" using assms by (intro round_quot_le) simp_all
  then have "?q div 10 ^ 6 \<le> 10 ^ 9" by (simp add: div_le_mono [of _ "10 ^ 15" "10 ^ 6", simplified])
  then have "length (dec_nat (?q div 10 ^ 6)) \<le> 10" by (rule dec_nat_length_le) simp_all
  moreover have "length (dec_nat (?q mod 10 ^ 6)) \<le> 6" by (rule dec_nat_length) simp_all
  ultimately show ?thesis by (simp add: format_f_pos_def pad_zeros_def Let_def)
qed

section \<open>\<open>%e\<close>\<close>

lemma scale_up_bound: "scale_up fuel n d \<noteq> 0 \<Longrightarrow> n * 10 ^ (scale_up fuel n d - 1) < d"
proof (induction fuel arbitrary: n)
  case (Suc fuel)
  show ?case
  proof (cases "scale_up fuel (10 * n) d")
    case 0
    then show ?thesis using Suc.prems by (simp split: if_splits)
  next
    case (Suc k)
    then show ?thesis using Suc.IH [of "10 * n"] Suc.prems by (simp split: if_splits)
  qed
qed simp

lemma scale_up_le: "scale_up fuel n d \<le> fuel"
  by (induction fuel arbitrary: n) auto

lemma dec_exponent_bound:
  assumes "n < 10 ^ K" "d < 10 ^ K" "0 < d" "0 < K"
  shows "\<bar>dec_exponent n d\<bar> \<le> int K"
proof (cases "d \<le> n")
  case True
  have "n div d < 10 ^ K" using assms(1) by (rule le_less_trans [OF div_le_dividend])
  then have "length (dec_nat (n div d)) \<le> K" by (rule dec_nat_length) (rule assms)
  with True assms(4) show ?thesis by (simp add: dec_exponent_def)
next
  case False
  have "length (dec_nat d) \<le> K" using assms(2) by (rule dec_nat_length) (rule assms)
  with False show ?thesis using scale_up_le [of "length (dec_nat d)" n d] by (simp add: dec_exponent_def)
qed

text \<open>The significant digits: at most \<open>prec + 1\<close> of them, or the power of ten above.\<close>

lemma significant_le:
  assumes "0 < d" and "k = int prec - dec_exponent n d"
  shows "(if 0 \<le> k then round_quot (n * 10 ^ nat k) d else round_quot n (d * 10 ^ nat (- k))) \<le> 10 ^ Suc prec"
proof (cases "d \<le> n")
  case True
  define L where "L = length (dec_nat (n div d))"
  have "n div d < 10 ^ L" unfolding L_def by (rule dec_nat_bound)
  then have n: "n \<le> 10 ^ L * d" using assms(1) by (simp add: div_less_iff_less_mult)
  have k: "k = int prec + 1 - int L" using assms(2) True by (simp add: dec_exponent_def L_def)
  show ?thesis
  proof (cases "0 \<le> k")
    case True
    then have "L + nat k = Suc prec" using k by simp
    moreover have "n * 10 ^ nat k \<le> 10 ^ (L + nat k) * d"
      using mult_le_mono1 [OF n, of "10 ^ nat k"] by (simp add: power_add ac_simps)
    ultimately show ?thesis using True assms(1) round_quot_le by simp
  next
    case False
    then have "L = Suc prec + nat (- k)" using k by simp
    then have "n \<le> 10 ^ Suc prec * (d * 10 ^ nat (- k))" using n by (simp add: power_add ac_simps)
    then show ?thesis using False assms(1) by (simp add: round_quot_le del: power_Suc)
  qed
next
  case False
  define K where "K = scale_up (length (dec_nat d)) n d"
  have k: "k = int (prec + K)" using assms(2) False by (simp add: dec_exponent_def K_def)
  have "n * 10 ^ K \<le> 10 * d"
  proof (cases K)
    case 0
    then show ?thesis using False by simp
  next
    case (Suc j)
    then show ?thesis using scale_up_bound [of "length (dec_nat d)" n d] by (simp add: K_def [symmetric])
  qed
  from mult_le_mono1 [OF this, of "10 ^ prec"]
  have "n * 10 ^ nat k \<le> 10 ^ Suc prec * d" using k by (simp add: power_add ac_simps nat_int_add)
  then show ?thesis using k assms(1) by (simp add: round_quot_le del: power_Suc)
qed

lemma exponent_text_length: "\<bar>x\<bar> < 1000 \<Longrightarrow> length (exponent_text x) \<le> 6"
proof -
  assume "\<bar>x\<bar> < 1000"
  define t where "t = dec_nat (nat \<bar>x\<bar>)"
  have "length t \<le> 3" unfolding t_def using \<open>\<bar>x\<bar> < 1000\<close> by (intro dec_nat_length) auto
  then show ?thesis unfolding exponent_text_def Let_def t_def [symmetric] by simp
qed

lemma format_e_6_length:
  assumes "n < 10 ^ K" "d < 10 ^ K" "0 < d" "0 < K" "K \<le> 400"
  shows "length (format_e_pos 6 n d) \<le> 14"
proof -
  define x0 where "x0 = dec_exponent n d"
  define k where "k = int 6 - x0"
  define ds0 where "ds0 = (if 0 \<le> k then round_quot (n * 10 ^ nat k) d else round_quot n (d * 10 ^ nat (- k)))"
  define ds where "ds = (if 10 ^ Suc 6 \<le> ds0 then ds0 div 10 else ds0)"
  define x where "x = (if 10 ^ Suc 6 \<le> ds0 then x0 + 1 else x0)"
  have "ds0 \<le> 10 ^ Suc 6" unfolding ds0_def by (rule significant_le) (simp_all add: assms k_def x0_def)
  then have "ds < 10 ^ 7" by (simp add: ds_def)
  then have "length (dec_nat ds) \<le> 7" by (rule dec_nat_length) simp
  moreover have "\<bar>x0\<bar> \<le> int K" unfolding x0_def by (rule dec_exponent_bound [OF assms(1-4)])
  then have "length (exponent_text x) \<le> 6"
    unfolding x_def using assms(5) by (intro exponent_text_length) auto
  moreover have "format_e_pos 6 n d = take 1 (dec_nat ds) @ (CHR ''.'' # drop 1 (dec_nat ds)) @ exponent_text x"
    unfolding format_e_pos_def Let_def ds_def x_def ds0_def k_def x0_def by simp
  ultimately show ?thesis by simp
qed

section \<open>Integers are read back\<close>

lemma double_round_int: "m < 2 ^ 53 \<Longrightarrow> double_round s m 0 = Fin s m 0"
  using nbits_le [of m 53] by (simp add: double_round_def Let_def)

lemma double_digit_int:
  assumes "n * 10 + digit_val c < 2 ^ 53"
  shows "double_digit (Fin False n 0) c = Fin False (n * 10 + digit_val c) 0"
proof -
  have "dmul (Fin False n 0) (Fin False 10 0) = Fin False (n * 10) 0"
    using assms by (simp add: double_round_int)
  then show ?thesis using assms
    by (auto simp: double_digit_def scaled_def nat_add_distrib double_round_int Let_def simp flip: of_nat_add of_nat_mult)
qed

definition dec_val :: "nat \<Rightarrow> string \<Rightarrow> nat" where
  "dec_val = foldl (\<lambda>n c. n * 10 + digit_val c)"

lemma dec_val_simps [simp]: "dec_val a [] = a" "dec_val a (c # cs) = dec_val (a * 10 + digit_val c) cs"
  "dec_val a (cs @ ds) = dec_val (dec_val a cs) ds"
  by (simp_all add: dec_val_def)

lemma dec_val_ge: "a \<le> dec_val a cs"
proof (induction cs arbitrary: a)
  case (Cons c cs)
  then show ?case using order_trans [OF _ Cons.IH [of "a * 10 + digit_val c"], of a] by simp
qed simp

lemma double_digits_int:
  "dec_val a cs < 2 ^ 53 \<Longrightarrow> foldl double_digit (Fin False a 0) cs = Fin False (dec_val a cs) 0"
proof (induction cs arbitrary: a)
  case (Cons c cs)
  then show ?case using dec_val_ge [of "a * 10 + digit_val c" cs] by (simp add: double_digit_int)
qed simp

lemma digit_char_facts: "m < 10 \<Longrightarrow> digit (digit_char m) \<and> digit_val (digit_char m) = m \<and> (digit_char m = CHR ''0'' \<longleftrightarrow> m = 0)"
proof -
  assume "m < 10"
  then have "m \<in> {0, 1, 2, 3, 4, 5, 6, 7, 8, 9}" by auto
  then show ?thesis
    by (auto simp: digit_char_def digit_def digit_val_def eval_nat_numeral)
qed

lemma dec_nat_digits: "c \<in> set (dec_nat n) \<Longrightarrow> digit c"
proof (induction n rule: dec_nat.induct)
  case (1 n)
  then show ?case using digit_char_facts [of n] digit_char_facts [of "n mod 10"]
    by (subst (asm) (2) dec_nat.simps) (auto split: if_splits)
qed

lemma dec_val_dec_nat: "dec_val 0 (dec_nat n) = n"
proof (induction n rule: dec_nat.induct)
  case (1 n)
  then show ?case using digit_char_facts [of n] digit_char_facts [of "n mod 10"]
    by (subst dec_nat.simps) auto
qed

lemma dec_nat_head: "0 < n \<Longrightarrow> \<exists>c cs. dec_nat n = c # cs \<and> c \<noteq> CHR ''0''"
proof (induction n rule: dec_nat.induct)
  case (1 n)
  show ?case
  proof (cases "n < 10")
    case True
    then show ?thesis using 1(2) digit_char_facts [of n] by (simp add: dec_nat_small)
  next
    case False
    then have "0 < n div 10" by simp
    with 1(1) [OF False] obtain c cs where "dec_nat (n div 10) = c # cs" "c \<noteq> CHR ''0''" by blast
    then show ?thesis using False by (subst dec_nat.simps) simp
  qed
qed

text \<open>The characters that may follow a number without belonging to it.\<close>

definition number_ends :: "string \<Rightarrow> bool" where
  "number_ends r \<longleftrightarrow> \<not> digit (peek r) \<and> peek r \<notin> set ''.eE''"

lemma takeWhile_digits: "\<not> digit (peek r) \<Longrightarrow> (\<And>c. c \<in> set cs \<Longrightarrow> digit c) \<Longrightarrow>
   takeWhile digit (cs @ r) = cs \<and> dropWhile digit (cs @ r) = r"
  by (induction cs) (cases r; simp)+

lemma parse_nat:
  assumes "number_ends r" "n < 2 ^ 53"
  shows "parse_number_text (dec_nat n @ r) = Some (Fin False n 0, r)"
    and "parse_number_text (CHR ''-'' # dec_nat n @ r) = Some (Fin True n 0, r)"
proof -
  have one: "pow10 0 = Fin False 1 0"
    by (simp add: pow10_def double_round_int)
  have r: "\<not> digit (peek r)" "peek r \<noteq> CHR ''.''" "peek r \<noteq> CHR ''e''" "peek r \<noteq> CHR ''E''"
    using assms(1) by (auto simp: number_ends_def)
  let ?num = "if peek (dec_nat n @ r) = CHR ''0'' then tl (dec_nat n @ r) else dec_nat n @ r"
  have num: "(if digit (peek ?num) \<and> peek ?num \<noteq> CHR ''0''
      then (foldl double_digit (Fin False 0 0) (takeWhile digit ?num), dropWhile digit ?num)
      else (Fin False 0 0, ?num)) = (Fin False n 0, r)"
  proof (cases "n = 0")
    case True
    then have "?num = r" by (simp add: dec_nat_small digit_char_def)
    then show ?thesis using r(1) True by simp
  next
    case False
    then obtain c cs where c: "dec_nat n = c # cs" "c \<noteq> CHR ''0''" using dec_nat_head [of n] by auto
    then have "digit c" using dec_nat_digits [of c n] by simp
    moreover have "?num = dec_nat n @ r" using c by simp
    moreover have "foldl double_digit (Fin False 0 0) (dec_nat n) = Fin False n 0"
      using double_digits_int [of 0 "dec_nat n"] assms(2) by (simp add: dec_val_dec_nat)
    ultimately show ?thesis
      using takeWhile_digits [OF r(1), of "dec_nat n"] dec_nat_digits [of _ n] c by auto
  qed
  have hd: "peek (dec_nat n @ r) \<noteq> CHR ''-''"
  proof -
    obtain c cs where c: "dec_nat n = c # cs" using dec_nat_head [of n] dec_nat_small [of 0] by (cases "n = 0") auto
    then have "digit c" using dec_nat_digits [of c n] by simp
    then show ?thesis using c by (auto simp: digit_def)
  qed
  show "parse_number_text (dec_nat n @ r) = Some (Fin False n 0, r)"
    unfolding parse_number_text_def using hd num r assms(2) one
    by (simp add: Let_def double_round_int)
  show "parse_number_text (CHR ''-'' # dec_nat n @ r) = Some (Fin True n 0, r)"
    unfolding parse_number_text_def using num r assms(2) one
    by (simp add: Let_def double_round_int)
qed

lemma int_to_double_exact: "\<bar>v\<bar> < 2 ^ 53 \<Longrightarrow> int_to_double v = Fin (v < 0) (nat \<bar>v\<bar>) 0"
  by (simp add: int_to_double_def round_bits_exact nat_less_iff)

lemma dle_int: "\<bar>v\<bar> < 2 ^ 53 \<Longrightarrow> \<bar>w\<bar> < 2 ^ 53 \<Longrightarrow> dle (int_to_double v) (int_to_double w) \<longleftrightarrow> v \<le> w"
  by (auto simp: int_to_double_exact scaled_def Let_def)

lemma print_int:
  "print_number_text i (int_to_double (sint i)) = (21, dec_int (sint i))"
proof -
  have i: "- (2 ^ 31) \<le> sint i" "sint i \<le> 2 ^ 31 - 1" using sint_ge [of i] sint_lt [of i] by simp_all
  then have "\<bar>sint i\<bar> < 2 ^ 53" by auto
  then have "dle (dabs (dsub (int_to_double (sint i)) (int_to_double (sint i)))) DBL_EPSILON"
    by (auto simp: int_to_double_exact dsub_def scaled_def DBL_EPSILON_def)
  moreover have "dle (int_to_double (sint i)) (int_to_double (2 ^ 31 - 1))"
    "dle (int_to_double (- (2 ^ 31))) (int_to_double (sint i))"
    using i by (subst dle_int; auto)+
  ultimately show ?thesis by (simp add: print_number_text_def)
qed

lemma parse_int:
  assumes "number_ends r"
  shows "parse_number_text (dec_int (sint (i :: i32)) @ r) = Some (int_to_double (sint i), r)"
    and "double_to_i32 (int_to_double (sint i)) = Some i"
proof -
  have "\<bar>sint i\<bar> < 2 ^ 53" using sint_ge [of i] sint_lt [of i] by auto
  then have *: "nat \<bar>sint i\<bar> < 2 ^ 53" "int_to_double (sint i) = Fin (sint i < 0) (nat \<bar>sint i\<bar>) 0"
    by (auto simp: int_to_double_exact)
  show "parse_number_text (dec_int (sint i) @ r) = Some (int_to_double (sint i), r)"
    using parse_nat [OF assms *(1)] by (cases "sint i < 0") (simp_all add: dec_int_def *(2))
  show "double_to_i32 (int_to_double (sint i)) = Some i"
    using trunc_int_to_double [OF \<open>\<bar>sint i\<bar> < 2 ^ 53\<close>] sint_ge [of i] sint_lt [of i]
    by (simp add: double_to_i32_def)
qed

section \<open>Properties\<close>

text \<open>The values a \<open>double\<close> has.\<close>

fun is_double :: "double \<Rightarrow> bool" where
  "is_double (Fin s m e) = (m \<le> 2 ^ 53 \<and> - 1074 \<le> e \<and> e \<le> 1024)"
| "is_double d = True"

lemma powers_of_ten: "pow10 60 = Fin False 5605193857299268 147" "pow10 9 = Fin False 1000000000 0"
  by (simp_all add: pow10_def double_round_def nbits.simps round_quot_def Let_def)

lemma format_f_0_fits:
  assumes "dless (dabs d) (pow10 60)"
  shows "length (format_f 0 d) < 64"
proof (cases d)
  case (Fin s m e)
  have "5605193857299268 * 2 ^ nat 147 \<le> (10 :: nat) ^ 61" by simp
  then have "if 0 \<le> e then m * 2 ^ nat e \<le> 10 ^ 61 * 1 else m \<le> 10 ^ 61 * 2 ^ nat (- e)"
    using dless_quot [of m e 5605193857299268 147] assms Fin
    by (auto simp: powers_of_ten split: if_splits elim!: order_trans [OF less_imp_le] intro: mult_le_mono1)
  then show ?thesis
    using format_f_0_length [of "m * 2 ^ nat e" 1] format_f_0_length [of m "2 ^ nat (- e)"]
    by (auto simp: Fin split: if_splits)
qed (use assms in \<open>auto simp: powers_of_ten\<close>)

lemma format_f_6_fits:
  assumes "\<not> dless (pow10 9) (dabs d)"
  shows "length (format_f 6 d) < 64"
proof (cases d)
  case (Fin s m e)
  have "if 0 \<le> e then m * 2 ^ nat e \<le> 10 ^ 9 * 1 else m \<le> 10 ^ 9 * 2 ^ nat (- e)"
    using not_dless_quot [of 1000000000 0 m e] assms Fin by (auto simp: powers_of_ten split: if_splits)
  then show ?thesis
    using format_f_6_length [of "m * 2 ^ nat e" 1] format_f_6_length [of m "2 ^ nat (- e)"]
    by (auto simp: Fin split: if_splits)
qed auto

lemma power_2_10: "a \<le> 3 * k \<Longrightarrow> 0 < k \<Longrightarrow> (2 :: nat) ^ a < 10 ^ k"
proof -
  assume "a \<le> 3 * k" and k: "0 < k"
  then have "(2 :: nat) ^ a \<le> 2 ^ (3 * k)" by (intro power_increasing) auto
  also have "\<dots> = 8 ^ k" by (simp add: power_mult)
  also have "\<dots> < 10 ^ k" using k by (intro power_strict_mono) auto
  finally show ?thesis .
qed

lemma format_e_6_fits:
  assumes "is_double d"
  shows "length (format_e 6 d) < 64"
proof (cases d)
  case (Fin s m e)
  obtain K :: nat where K: "0 < K" "K \<le> 400" "1200 \<le> 3 * K" by (rule that [of 400]) simp_all
  have m: "m \<le> 2 ^ 53" and e: "nat e \<le> 1024" "nat (- e) \<le> 1074" using assms Fin by auto
  have "m * 2 ^ nat e \<le> 2 ^ (53 + nat e)" using m unfolding power_add by (rule mult_le_mono1)
  moreover have "(2 :: nat) ^ (53 + nat e) < 10 ^ K" by (rule power_2_10) (use K e(1) in auto)
  ultimately have 1: "m * 2 ^ nat e < 10 ^ K" by (rule le_less_trans)
  have 2: "m < 10 ^ K" using m by (rule le_less_trans) (rule power_2_10; use K in simp)
  have 3: "(2 :: nat) ^ nat (- e) < 10 ^ K" by (rule power_2_10) (use K e(2) in auto)
  have "(1 :: nat) < 10 ^ K" using K(1) by (rule one_less_power [rotated]) simp
  from format_e_6_length [OF 1 this _ K(1,2)]
  have "length (format_e_pos 6 (m * 2 ^ nat e) 1) \<le> 14" by simp
  moreover from format_e_6_length [OF 2 3 _ K(1,2)]
  have "length (format_e_pos 6 m (2 ^ nat (- e))) \<le> 14" by simp
  ultimately show ?thesis by (simp add: Fin)
qed auto

lemma print_number_fits_buffer:
  assumes "is_double d"
  shows "length (snd (print_number_text i d)) < fst (print_number_text i d)"
  using dec_int_length [of i] format_f_0_fits [of d] format_f_6_fits [of d] format_e_6_fits [OF assms]
  by (auto simp: print_number_text_def simp del: format_f.simps format_e.simps)

text \<open>C36. \<open>print_number\<close> never writes past its buffer: 21 bytes for an \<open>int\<close>, 64 for any other
  \<open>double\<close>, the infinities and the values printed with 60 digits included.\<close>

theorem print_number_fits:
  assumes "is_double d"
  shows "length (snd (print_number_text i d)) < fst (print_number_text i d)"
  using assms by (rule print_number_fits_buffer)

theorem print_number_fits_witness:
  "length (snd (print_number_text 0 (Fin True 1 199))) < fst (print_number_text 0 (Fin True 1 199))"
  by (rule print_number_fits) simp

end
