(* ===== verification/Json_Text_Facts.thy ===== *)
theory Json_Text_Facts
  imports Json_Text
begin

text \<open>
  What the text functions of \<open>cJSON.c\<close> compute: \<open>print_string_ptr\<close> fills its buffer with the quoted text
  and never writes past it, \<open>parse_string\<close> reads it back, \<open>cJSON_Minify\<close> copies it; and the texts on
  which \<open>parse_string\<close> writes past its buffer.
\<close>

section \<open>The quoted text\<close>

definition quote_char :: "char \<Rightarrow> string" where
  "quote_char c =
     (if 31 < char_code c \<and> c \<noteq> CHR 0x22 \<and> c \<noteq> CHR 0x5C then [c] else CHR 0x5C # escape_text c)"

definition quote :: "string \<Rightarrow> string" where
  "quote cs = CHR 0x22 # concat (map quote_char cs) @ [CHR 0x22]"

lemma escape_string_quote:
  "length out + printed_length cs + 1 \<le> n \<Longrightarrow>
     escape_string n out cs = Some (out @ concat (map quote_char cs))"
proof (induction cs arbitrary: out)
  case (Cons c cs)
  have len: "length (escape_text c) = (if special_char c then 1 else 5)"
    by (auto simp: escape_text_def special_char_def)
  show ?case
  proof (cases "31 < char_code c \<and> c \<noteq> CHR 0x22 \<and> c \<noteq> CHR 0x5C")
    case True
    have "escape_string n (out @ [c]) cs = Some ((out @ [c]) @ concat (map quote_char cs))"
      by (rule Cons.IH) (use Cons.prems in simp)
    with True Cons.prems show ?thesis by (simp add: put_def quote_char_def [of c])
  next
    case False
    have small: "\<not> special_char c \<Longrightarrow> char_code c < 32"
      using False by (auto simp: special_char_def)
    have "escape_string n (out @ CHR 0x5C # escape_text c) cs
        = Some ((out @ CHR 0x5C # escape_text c) @ concat (map quote_char cs))"
      by (rule Cons.IH) (use Cons.prems len small in \<open>auto split: if_splits\<close>)
    with False Cons.prems len small show ?thesis
      by (auto simp: put_def quote_char_def [of c] split: if_splits)
  qed
qed simp

lemma length_escapes: "length (concat (map quote_char cs)) \<le> printed_length cs"
proof (induction cs)
  case (Cons c cs)
  have "length (quote_char c) \<le> 1 + (if special_char c then 1 else if char_code c < 32 then 5 else 0)"
    by (auto simp: quote_char_def escape_text_def special_char_def)
  with Cons show ?case by simp
qed simp

lemma print_string_quote: "print_string_text cs = Some (quote cs)"
  using length_escapes [of cs]
  by (simp add: print_string_text_def Let_def put_def escape_string_quote quote_def)

section \<open>Reading it back\<close>

text \<open>The characters that are written as \<open>\u00XX\<close>.\<close>

definition control_codes :: "nat list" where
  "control_codes = [1, 2, 3, 4, 5, 6, 7, 11, 14, 15, 16, 17, 18, 19, 20, 21, 22, 23, 24, 25, 26, 27, 28, 29, 30, 31]"

lemma hex_lower_control:
  "list_all (\<lambda>n. hex_val (hex_lower (n div 16)) = Some (of_nat (n div 16))
     \<and> hex_val (hex_lower (n mod 16)) = Some (of_nat (n mod 16))) control_codes"
  by code_simp

lemma parse_hex4_four:
  assumes "hex_val a = Some x" "hex_val b = Some y" "hex_val c = Some z" "hex_val d = Some w"
  shows "parse_hex4 (a # b # c # d # r) = push_bit 4 (push_bit 4 (push_bit 4 x + y) + z) + w"
proof -
  have "parse_hex4 (a # b # c # d # r) = hex_digits (Suc (Suc (Suc (Suc 0)))) 0 (a # b # c # d # r)"
    by (simp add: parse_hex4_def eval_nat_numeral del: hex_digits.simps)
  with assms show ?thesis by simp
qed

lemma parse_hex4_control:
  assumes "n \<in> set control_codes"
  shows "parse_hex4 (''00'' @ [hex_lower (n div 16), hex_lower (n mod 16)] @ r) = of_nat n"
proof -
  have "hex_val (hex_lower (n div 16)) = Some (of_nat (n div 16))"
    "hex_val (hex_lower (n mod 16)) = Some (of_nat (n mod 16))"
    using hex_lower_control assms by (auto simp: list_all_iff)
  moreover have "hex_val CHR ''0'' = Some 0" by (simp add: hex_val_def Let_def)
  moreover have "push_bit 4 (of_nat (n div 16) :: u32) + of_nat (n mod 16) = of_nat n"
  proof -
    have "(of_nat (n div 16 * 16 + n mod 16) :: u32) = of_nat (n div 16) * 16 + of_nat (n mod 16)"
      by (simp only: of_nat_add of_nat_mult of_nat_numeral)
    then have "(of_nat n :: u32) = of_nat (n div 16) * 16 + of_nat (n mod 16)"
      by (simp only: div_mult_mod_eq)
    moreover have "push_bit 4 (of_nat (n div 16) :: u32) = of_nat (n div 16) * 16"
      by (simp add: push_bit_eq_mult)
    ultimately show ?thesis by metis
  qed
  ultimately show ?thesis by (simp add: parse_hex4_four)
qed

lemma utf8_control:
  "list_all (\<lambda>n. utf8 (of_nat n) = [char_of n]) control_codes"
  by code_simp

lemma char_code_eq: "(char_code c = char_code d) = (c = d)"
  by simp

lemma control_code:
  assumes "\<not> special_char c" "\<not> (31 < char_code c \<and> c \<noteq> CHR 0x22 \<and> c \<noteq> CHR 0x5C)" "c \<noteq> NUL"
  shows "char_code c \<in> set control_codes"
proof -
  have lt: "char_code c < 32" using assms(1,2) by (auto simp: special_char_def)
  have "char_code c \<in> set control_codes \<or> char_code c \<in> {0, 8, 9, 10, 12, 13}"
    using lt by (simp add: control_codes_def) arith
  moreover have "char_code c \<notin> {0, 8, 9, 10, 12, 13}"
    using assms(1,3) char_code_eq [of c NUL] char_code_eq [of c "CHR 0x08"] char_code_eq [of c "CHR 0x09"]
      char_code_eq [of c "CHR 0x0A"] char_code_eq [of c "CHR 0x0C"] char_code_eq [of c "CHR 0x0D"]
    by (simp add: special_char_def)
  ultimately show ?thesis by blast
qed

lemma unescape_u_plain:
  assumes "parse_hex4 (tl p) = uc" "advance 4 p = Some q" "uc \<noteq> 0" "uc < 0xD800"
  shows "unescape_u n out p = map_option (\<lambda>out. (out, q)) (put n out (utf8 uc))"
proof -
  have "\<not> 0xDC00 \<le> uc" "\<not> 0xD800 \<le> uc"
    using assms(4) by (auto simp: word_le_nat_alt word_less_nat_alt)
  then show ?thesis using assms
    by (cases "put n out (utf8 uc)") (simp_all add: unescape_u_def)
qed

lemma copy_string_quote_char:
  assumes "c \<noteq> NUL" and "length out < n"
  shows "copy_string n out (quote_char c @ t) = copy_string n (out @ [c]) t"
proof (cases "31 < char_code c \<and> c \<noteq> CHR 0x22 \<and> c \<noteq> CHR 0x5C")
  case True
  then show ?thesis using assms by (simp add: quote_char_def put_def)
next
  case False
  show ?thesis
  proof (cases "special_char c")
    case True
    then show ?thesis using False assms
      by (auto simp: special_char_def quote_char_def escape_text_def unescape_def put_def Let_def)
  next
    case ns: False
    let ?n = "char_code c"
    have mem: "?n \<in> set control_codes" by (rule control_code [OF ns False assms(1)])
    then have n: "0 < ?n" "?n < 0x80" by (auto simp: control_codes_def)
    have q: "quote_char c = CHR 0x5C # CHR ''u'' # ''00'' @ [hex_lower (?n div 16), hex_lower (?n mod 16)]"
      using ns False by (auto simp: special_char_def quote_char_def escape_text_def)
    have hex: "parse_hex4 (''00'' @ [hex_lower (?n div 16), hex_lower (?n mod 16)] @ t) = of_nat ?n"
      by (rule parse_hex4_control [OF mem])
    have uc: "unat (of_nat ?n :: u32) = ?n" using n by (simp add: unat_of_nat)
    have "utf8 (of_nat ?n) = [c]" using utf8_control mem by (auto simp: list_all_iff)
    moreover have "(of_nat ?n :: u32) \<noteq> 0" "(of_nat ?n :: u32) < 0xD800"
      using n uc by (auto simp: word_less_nat_alt unat_eq_0)
    ultimately have "unescape_u n out (CHR ''u'' # ''00'' @ [hex_lower (?n div 16), hex_lower (?n mod 16)] @ t)
        = Some (out @ [c], hex_lower (?n mod 16) # t)"
      using hex assms(2) by (subst unescape_u_plain [of _ "of_nat ?n"]) (simp_all add: advance_def put_def)
    then show ?thesis unfolding q by (simp add: unescape_def)
  qed
qed

lemma copy_string_quote:
  "NUL \<notin> set cs \<Longrightarrow> length out + length cs \<le> n \<Longrightarrow>
     copy_string n out (concat (map quote_char cs) @ CHR 0x22 # r) = Some (out @ cs, CHR 0x22 # r)"
proof (induction cs arbitrary: out)
  case (Cons c cs)
  then have "copy_string n out (quote_char c @ concat (map quote_char cs) @ CHR 0x22 # r)
      = copy_string n (out @ [c]) (concat (map quote_char cs) @ CHR 0x22 # r)"
    by (intro copy_string_quote_char) auto
  with Cons show ?case by simp
qed simp

lemma raw_length_quote_char:
  assumes "c \<noteq> NUL" and "raw_length t = Some m"
  shows "\<exists>k. raw_length (quote_char c @ t) = Some (Suc (k + m))"
proof (cases "31 < char_code c \<and> c \<noteq> CHR 0x22 \<and> c \<noteq> CHR 0x5C")
  case True
  then show ?thesis using assms by (intro exI [of _ 0]) (simp add: quote_char_def)
next
  case False
  show ?thesis
  proof (cases "special_char c")
    case True
    then show ?thesis using False assms
      by (intro exI [of _ 0]) (auto simp: special_char_def quote_char_def escape_text_def)
  next
    case ns: False
    let ?n = "char_code c"
    have "?n \<in> set control_codes" by (rule control_code [OF ns False assms(1)])
    moreover have "list_all (\<lambda>n. hex_lower (n div 16) \<noteq> CHR 0x22 \<and> hex_lower (n div 16) \<noteq> CHR 0x5C
        \<and> hex_lower (n mod 16) \<noteq> CHR 0x22 \<and> hex_lower (n mod 16) \<noteq> CHR 0x5C) control_codes"
      by code_simp
    ultimately show ?thesis using ns False assms
      by (intro exI [of _ 4]) (auto simp: special_char_def quote_char_def escape_text_def list_all_iff)
  qed
qed

lemma raw_length_quote:
  "NUL \<notin> set cs \<Longrightarrow> \<exists>m \<ge> length cs. raw_length (concat (map quote_char cs) @ CHR 0x22 # r) = Some m"
proof (induction cs)
  case (Cons c cs)
  then obtain m where m: "length cs \<le> m" "raw_length (concat (map quote_char cs) @ CHR 0x22 # r) = Some m"
    by auto
  from raw_length_quote_char [OF _ m(2), of c] Cons.prems
  obtain k where "raw_length (quote_char c @ concat (map quote_char cs) @ CHR 0x22 # r) = Some (Suc (k + m))"
    by auto
  then show ?case using m(1) by auto
qed simp

lemma parse_string_quote:
  assumes "NUL \<notin> set cs"
  shows "parse_string_text (quote cs @ r) = Some (cs, r)"
proof -
  from raw_length_quote [OF assms] obtain m where m: "length cs \<le> m"
    "raw_length (concat (map quote_char cs) @ CHR 0x22 # r) = Some m" by blast
  then show ?thesis
    using copy_string_quote [OF assms, of "[]" "m + 1" r]
    by (simp add: parse_string_text_def quote_def put_def)
qed

section \<open>Properties\<close>

text \<open>C33. Strings survive printing and parsing: \<open>print_string_ptr\<close> never writes past the buffer it has
  sized, and \<open>parse_string\<close> reads back exactly the characters, leaving what follows the closing
  quote, for every string, control characters and quotes included.\<close>

theorem string_round_trip:
  assumes "NUL \<notin> set cs"
  shows "\<exists>t. print_string_text cs = Some t \<and> parse_string_text (t @ r) = Some (cs, r)"
  using parse_string_quote [OF assms] by (simp add: print_string_quote)

theorem string_round_trip_witness:
  "\<exists>t. print_string_text [CHR 0x22, CHR 0x01, CHR 0xC3, LF] = Some t
     \<and> parse_string_text (t @ '':1'') = Some ([CHR 0x22, CHR 0x01, CHR 0xC3, LF], '':1'')"
  by (rule string_round_trip) simp

lemma copy_string_plain:
  "CHR 0x22 \<notin> set w \<Longrightarrow> CHR 0x5C \<notin> set w \<Longrightarrow>
     copy_string n out (w @ CHR 0x22 # r) =
       (if w = [] \<or> length out + length w \<le> n then Some (out @ w, CHR 0x22 # r) else None)"
  by (induction w arbitrary: out) (auto simp: put_def)

text \<open>C34. An escape \<open>\u\<close> directly before the closing quote makes \<open>parse_string\<close> write past the end of
  the block it has allocated: the first loop takes the quote for the end of the string, the second one
  jumps over it and copies what follows, up to the next quote.\<close>

theorem escape_before_quote_overflows:
  assumes "CHR 0x22 \<notin> set w" and "CHR 0x5C \<notin> set w" and "2 \<le> length w"
  shows "parse_string_text ([CHR 0x22, CHR 0x5C, CHR ''u'', CHR 0x22, a, b, c] @ w @ CHR 0x22 # r) = None"
proof -
  let ?p = "CHR ''u'' # CHR 0x22 # a # b # c # w @ CHR 0x22 # r"
  have "parse_hex4 (tl ?p) = 0"
    by (simp add: parse_hex4_def eval_nat_numeral hex_val_def)
  then have "unescape 2 [] ?p = Some ([], c # w @ CHR 0x22 # r)"
    by (simp add: unescape_def unescape_u_def advance_def)
  then have "copy_string 2 [] (CHR 0x5C # ?p) =
      (if length w \<le> 2 then Some (w, CHR 0x22 # r) else None)"
    using assms by (auto simp: copy_string_plain)
  moreover have "raw_length (CHR 0x5C # ?p) = Some 1" by simp
  ultimately show ?thesis
    using assms(3) by (simp add: parse_string_text_def put_def eval_nat_numeral)
qed

theorem escape_before_quote_overflows_witness:
  "parse_string_text ([CHR 0x22, CHR 0x5C, CHR ''u'', CHR 0x22, CHR '','', CHR 0x22, CHR ''a'']
     @ ''bc'' @ CHR 0x22 # '']'') = None"
  by (rule escape_before_quote_overflows) simp_all

end
