(* ===== verification/Json_Tree.thy ===== *)
theory Json_Tree
  imports Json_Text_Facts
begin

text \<open>
  JSON values as trees and the text \<open>cJSON_Print\<close> and \<open>cJSON_PrintUnformatted\<close> are to produce for them:
  the reference for the printer, whose memory and buffers it leaves out. \<open>cJSON_Minify\<close> turns the
  formatted text into the unformatted one.
\<close>

section \<open>Values and their text\<close>

text \<open>A number has an \<open>int\<close> and a \<open>double\<close>, as in the items.\<close>

datatype json =
  J_null | J_false | J_true | J_num i32 double | J_str string
| J_arr "json list" | J_obj "(string \<times> json) list"

fun join :: "string \<Rightarrow> string list \<Rightarrow> string" where
  "join sep [] = []"
| "join sep [x] = x"
| "join sep (x # y # xs) = x @ sep @ join sep (y # xs)"

abbreviation (input) TAB :: char where "TAB \<equiv> CHR 0x09"

text \<open>A member of an object, at the depth of the members.\<close>

definition member_text :: "bool \<Rightarrow> nat \<Rightarrow> string \<Rightarrow> string \<Rightarrow> string" where
  "member_text fmt depth name val =
     (if fmt then replicate depth TAB else []) @ quote name
     @ (if fmt then [CHR '':'', TAB] else [CHR '':'']) @ val"

fun render :: "bool \<Rightarrow> nat \<Rightarrow> json \<Rightarrow> string" where
  "render fmt depth J_null = ''null''"
| "render fmt depth J_false = ''false''"
| "render fmt depth J_true = ''true''"
| "render fmt depth (J_num i d) = snd (print_number_text i d)"
| "render fmt depth (J_str cs) = quote cs"
| "render fmt depth (J_arr ts) =
     ''['' @ join (if fmt then '', '' else '','') (map (render fmt (Suc depth)) ts) @ '']''"
| "render fmt depth (J_obj ms) =
     (if ms = [] then ''{'' @ (if fmt then LF # replicate (depth - 1) TAB else []) @ ''}''
      else ''{'' @ (if fmt then [LF] else [])
        @ join (if fmt then [CHR '','', LF] else '','')
            (map (\<lambda>(n, t). member_text fmt (Suc depth) n (render fmt (Suc depth) t)) ms)
        @ (if fmt then LF # replicate depth TAB else []) @ ''}'')"

section \<open>\<open>cJSON_Minify\<close>\<close>

text \<open>Minifying \<open>xs\<close> gives \<open>ys\<close>, whatever follows.\<close>

definition minifies :: "string \<Rightarrow> string \<Rightarrow> bool" where
  "minifies xs ys \<longleftrightarrow> (\<forall>r. minify (xs @ r) = map_option (\<lambda>m. ys @ m) (minify r))"

lemma minifies_append: "minifies xs ys \<Longrightarrow> minifies xs' ys' \<Longrightarrow> minifies (xs @ xs') (ys @ ys')"
  by (simp add: minifies_def option.map_comp o_def)

lemma minifies_Nil: "minifies [] []"
  by (simp add: minifies_def option.map_ident)

definition white :: "char \<Rightarrow> bool" where
  "white c \<longleftrightarrow> c \<in> set [CHR '' '', CHR 0x09, CHR 0x0D, CHR 0x0A]"

definition kept_char :: "char \<Rightarrow> bool" where
  "kept_char c \<longleftrightarrow> \<not> white c \<and> c \<noteq> CHR ''/'' \<and> c \<noteq> CHR 0x22"

lemma minifies_white: "white c \<Longrightarrow> minifies [c] []"
  by (auto simp: minifies_def white_def option.map_ident)

lemma minifies_kept: "kept_char c \<Longrightarrow> minifies [c] [c]"
  by (auto simp: minifies_def kept_char_def white_def)

lemma minifies_whites: "list_all white w \<Longrightarrow> minifies w []"
proof (induction w)
  case (Cons c w)
  then show ?case using minifies_append [OF minifies_white, of c w "[]"] by simp
qed (rule minifies_Nil)

lemma minifies_word: "list_all kept_char w \<Longrightarrow> minifies w w"
proof (induction w)
  case (Cons c w)
  then show ?case using minifies_append [OF minifies_kept, of c w w] by simp
qed (rule minifies_Nil)

lemma hex_lower_plain: "d < 16 \<Longrightarrow> hex_lower d \<notin> {CHR 0x22, CHR 0x5C}"
proof -
  assume "d < 16"
  then have "hex_lower d \<in> set ''0123456789abcdef''" unfolding hex_lower_def by (intro nth_mem) simp
  then show ?thesis by auto
qed

lemma minify_string_quote_char:
  "minify_string (quote_char c @ r) = map_option (\<lambda>(t, rest). (quote_char c @ t, rest)) (minify_string r)"
proof (cases "31 < char_code c \<and> c \<noteq> CHR 0x22 \<and> c \<noteq> CHR 0x5C")
  case True
  then show ?thesis by (simp add: quote_char_def)
next
  case False
  have "char_code c = char_code c mod 256" by simp
  then have "char_code c < 256" by (metis mod_less_divisor zero_less_numeral)
  then have "hex_lower (char_code c div 16) \<notin> {CHR 0x22, CHR 0x5C}"
    "hex_lower (char_code c mod 16) \<notin> {CHR 0x22, CHR 0x5C}"
    by (intro hex_lower_plain; simp add: less_mult_imp_div_less)+
  with False show ?thesis
    by (cases "minify_string r") (auto simp: quote_char_def escape_text_def split_beta)
qed

lemma minifies_quote: "minifies (quote cs) (quote cs)"
proof -
  have "minify_string (concat (map quote_char cs) @ CHR 0x22 # r)
      = Some (concat (map quote_char cs) @ [CHR 0x22], r)" for r
    by (induction cs) (simp_all add: minify_string_quote_char)
  then show ?thesis by (simp add: minifies_def quote_def)
qed

lemma minifies_join:
  assumes "minifies sep sep'" and "list_all2 minifies xs ys"
  shows "minifies (join sep xs) (join sep' ys)"
  using assms(2)
proof (induction xs arbitrary: ys rule: induct_list012)
  case (3 x y zs)
  then obtain x' y' zs' where ys: "ys = x' # y' # zs'" "minifies x x'"
    "list_all2 minifies (y # zs) (y' # zs')"
    by (auto simp: list_all2_Cons1)
  from minifies_append [OF ys(2) minifies_append [OF assms(1) "3.IH"(2) [OF ys(3)]]]
  show ?case by (simp add: ys(1))
qed (auto simp: list_all2_Cons1 minifies_Nil)

section \<open>The characters of a number\<close>

definition number_chars :: "char set" where
  "number_chars = set ''0123456789+-.einfa''"

lemma in_number_chars [simp]:
  "CHR ''.'' \<in> number_chars" "CHR ''-'' \<in> number_chars" "CHR ''+'' \<in> number_chars"
  "CHR ''e'' \<in> number_chars" "CHR ''0'' \<in> number_chars" "CHR ''i'' \<in> number_chars"
  "CHR ''n'' \<in> number_chars" "CHR ''f'' \<in> number_chars" "CHR ''a'' \<in> number_chars"
  by (simp_all add: number_chars_def)

lemma digit_char_number: "m < 10 \<Longrightarrow> digit_char m \<in> number_chars"
proof -
  assume "m < 10"
  then have "digit_char m \<in> set ''0123456789''" unfolding digit_char_def by (intro nth_mem) simp
  then show ?thesis by (auto simp: number_chars_def)
qed

lemma dec_nat_chars: "set (dec_nat n) \<subseteq> number_chars"
proof (induction n rule: dec_nat.induct)
  case (1 n)
  then show ?case by (subst dec_nat.simps) (auto intro: digit_char_number)
qed

lemma dec_nat_char: "c \<in> set (dec_nat n) \<Longrightarrow> c \<in> number_chars"
  using dec_nat_chars by blast

lemma exponent_char: "c \<in> set (exponent_text x) \<Longrightarrow> c \<in> number_chars"
  by (auto simp: exponent_text_def Let_def dest: dec_nat_char split: if_splits)

lemma format_f_pos_char: "c \<in> set (format_f_pos prec n d) \<Longrightarrow> c \<in> number_chars"
  by (auto simp: format_f_pos_def pad_zeros_def Let_def dest: dec_nat_char split: if_splits)

lemma format_e_pos_char: "c \<in> set (format_e_pos prec n d) \<Longrightarrow> c \<in> number_chars"
  unfolding format_e_pos_def Let_def
  by (auto dest: dec_nat_char exponent_char in_set_takeD in_set_dropD split: if_splits)

lemma format_f_char: "c \<in> set (format_f prec d) \<Longrightarrow> c \<in> number_chars"
  by (cases d) (auto dest: format_f_pos_char split: if_splits)

lemma format_e_char: "c \<in> set (format_e prec d) \<Longrightarrow> c \<in> number_chars"
  by (cases d) (auto dest: format_e_pos_char split: if_splits)

lemma dec_int_char: "c \<in> set (dec_int v) \<Longrightarrow> c \<in> number_chars"
  by (auto simp: dec_int_def dest: dec_nat_char split: if_splits)

lemma number_text_char: "c \<in> set (snd (print_number_text i d)) \<Longrightarrow> c \<in> number_chars"
  unfolding print_number_text_def
  by (auto dest: dec_int_char format_f_char format_e_char split: if_splits
      simp del: format_f.simps format_e.simps)

lemma number_chars_kept: "c \<in> number_chars \<Longrightarrow> kept_char c"
  by (auto simp: number_chars_def kept_char_def white_def)

lemma minifies_number: "minifies (snd (print_number_text i d)) (snd (print_number_text i d))"
  by (rule minifies_word) (auto simp: list_all_iff dest: number_text_char number_chars_kept)

section \<open>Minified text\<close>

lemma minifies_member:
  "minifies x y \<Longrightarrow> minifies (member_text True depth n x) (member_text False depth' n y)"
proof -
  assume xy: "minifies x y"
  have tabs: "minifies (replicate depth TAB) []" by (rule minifies_whites) (simp add: list_all_iff white_def)
  have colon: "minifies [CHR '':'', TAB] [CHR '':'']"
    using minifies_append [OF minifies_kept minifies_white, of "CHR '':''" TAB]
    by (simp add: kept_char_def white_def)
  show ?thesis
    using minifies_append [OF tabs minifies_append [OF minifies_quote minifies_append [OF colon xy]]]
    by (simp add: member_text_def)
qed

lemma minifies_sep: "minifies '', '' '',''" "minifies [CHR '','', LF] '',''" "minifies [LF] []"
  using minifies_append [OF minifies_kept minifies_white, of "CHR '',''" "CHR '' ''"]
    minifies_append [OF minifies_kept minifies_white, of "CHR '',''" LF] minifies_white [of LF]
  by (simp_all add: kept_char_def white_def)

lemma minifies_bracket:
  "minifies x y \<Longrightarrow> kept_char a \<Longrightarrow> kept_char b \<Longrightarrow> minifies (a # x @ [b]) (a # y @ [b])"
  using minifies_append [OF minifies_kept [of a] minifies_append [OF _ minifies_kept [of b]], of x y] by simp

lemma minifies_render: "minifies (render True depth t) (render False depth' t)"
proof (induction t arbitrary: depth depth')
  case (J_arr ts)
  have "list_all2 minifies (map (render True (Suc depth)) ts) (map (render False (Suc depth')) ts)"
    unfolding list_all2_map1 list_all2_map2 by (rule list.rel_refl_strong) (rule J_arr.IH)
  from minifies_bracket [OF minifies_join [OF minifies_sep(1) this]]
  show ?case by (simp add: kept_char_def white_def)
next
  case (J_obj ms)
  have tabs: "minifies (LF # replicate k TAB) []" for k
    by (rule minifies_whites) (simp add: list_all_iff white_def)
  show ?case
  proof (cases "ms = []")
    case True
    then show ?thesis
      using minifies_bracket [OF tabs [of "depth - 1"], of "CHR ''{''" "CHR ''}''"]
      by (simp add: kept_char_def white_def)
  next
    case False
    let ?x = "\<lambda>fmt d. map (\<lambda>(n, t). member_text fmt (Suc d) n (render fmt (Suc d) t)) ms"
    have "list_all2 minifies (?x True depth) (?x False depth')"
      unfolding list_all2_map1 list_all2_map2
      by (rule list.rel_refl_strong) (auto intro!: minifies_member J_obj.IH)
    from minifies_append [OF minifies_sep(3) minifies_append [OF minifies_join [OF minifies_sep(2) this] tabs [of depth]]]
    have "minifies ([LF] @ join [CHR '','', LF] (?x True depth) @ LF # replicate depth TAB)
        (join '','' (?x False depth'))" by simp
    from minifies_bracket [OF this, of "CHR ''{''" "CHR ''}''"] False
    show ?thesis by (simp add: kept_char_def white_def)
  qed
qed (auto intro!: minifies_number minifies_quote minifies_word simp: kept_char_def white_def)

text \<open>C35. \<open>cJSON_Minify\<close> turns the formatted text of any value into the unformatted text of the
  same value, and does not read past its end.\<close>

theorem minify_formatted: "minify (render True 0 t) = Some (render False 0 t)"
  using minifies_render [of 0 t 0] by (auto simp: minifies_def dest: spec [of _ "[]"])

end
