(* ===== verification/Json_Read.thy ===== *)
theory Json_Read
  imports Json_Number_Facts Json_Tree Json_Parse "HOL-Library.Sublist"
begin

text \<open>
  The reference for the parser: the value a text denotes and the text after it, without memory. The
  inner option is the syntax error, the outer one a fault: an access outside the text, or a number that
  does not fit an \<open>int\<close>. The text of a value is read back as the same value.
\<close>

section \<open>Reading values\<close>

type_synonym 'a reading = "('a \<times> string) option option"

fun read_elements :: "(string \<Rightarrow> json reading) \<Rightarrow> nat \<Rightarrow> string \<Rightarrow> json list reading" where
  "read_elements rv 0 p = None"
| "read_elements rv (Suc n) p =
     (if peek p = CHR '','' then do {
        v \<leftarrow> rv (skip_space (tl p));
        case v of None \<Rightarrow> Some None
        | Some (t, p) \<Rightarrow> do {
            r \<leftarrow> read_elements rv n (skip_space p);
            Some (map_option (\<lambda>(ts, q). (t # ts, q)) r)
          }
      }
      else if peek p = CHR '']'' then Some (Some ([], tl p))
      else Some None)"

definition read_array :: "(string \<Rightarrow> json reading) \<Rightarrow> nat \<Rightarrow> string \<Rightarrow> json list reading" where
  "read_array rv n p =
     (let p = skip_space (tl p)
      in if peek p = CHR '']'' then Some (Some ([], tl p))
         else do {
           v \<leftarrow> rv (skip_space p);
           case v of None \<Rightarrow> Some None
           | Some (t, p) \<Rightarrow> do {
               r \<leftarrow> read_elements rv n (skip_space p);
               Some (map_option (\<lambda>(ts, q). (t # ts, q)) r)
             }
         })"

definition read_string :: "string \<Rightarrow> string reading" where
  "read_string p = (if peek p \<noteq> CHR 0x22 then Some None else map_option Some (parse_string_text p))"

definition read_member :: "(string \<Rightarrow> json reading) \<Rightarrow> string \<Rightarrow> (string \<times> json) reading" where
  "read_member rv p = do {
     v \<leftarrow> read_string (skip_space p);
     case v of None \<Rightarrow> Some None
     | Some (n, p) \<Rightarrow>
         (let p = skip_space p
          in if peek p \<noteq> CHR '':'' then Some None
             else do {
               v \<leftarrow> rv (skip_space (tl p));
               Some (map_option (\<lambda>(t, p). ((n, t), skip_space p)) v)
             })
   }"

fun read_members :: "(string \<Rightarrow> json reading) \<Rightarrow> nat \<Rightarrow> string \<Rightarrow> (string \<times> json) list reading" where
  "read_members rv 0 p = None"
| "read_members rv (Suc n) p =
     (if peek p = CHR '','' then do {
        v \<leftarrow> read_member rv (tl p);
        case v of None \<Rightarrow> Some None
        | Some (m, p) \<Rightarrow> do {
            r \<leftarrow> read_members rv n p;
            Some (map_option (\<lambda>(ms, q). (m # ms, q)) r)
          }
      }
      else if peek p = CHR ''}'' then Some (Some ([], tl p))
      else Some None)"

definition read_object :: "(string \<Rightarrow> json reading) \<Rightarrow> nat \<Rightarrow> string \<Rightarrow> (string \<times> json) list reading" where
  "read_object rv n p =
     (let p = skip_space (tl p)
      in if peek p = CHR ''}'' then Some (Some ([], tl p))
         else do {
           v \<leftarrow> read_member rv p;
           case v of None \<Rightarrow> Some None
           | Some (m, p) \<Rightarrow> do {
               r \<leftarrow> read_members rv n p;
               Some (map_option (\<lambda>(ms, q). (m # ms, q)) r)
             }
         })"

definition read_number :: "string \<Rightarrow> json reading" where
  "read_number p = do { (d, q) \<leftarrow> parse_number_text p; i \<leftarrow> double_to_i32 d; Some (Some (J_num i d, q)) }"

fun read_value :: "nat \<Rightarrow> string \<Rightarrow> json reading" where
  "read_value 0 p = None"
| "read_value (Suc fuel) p =
     (if starts_with ''null'' p then Some (Some (J_null, drop 4 p))
      else if starts_with ''false'' p then Some (Some (J_false, drop 5 p))
      else if starts_with ''true'' p then Some (Some (J_true, drop 4 p))
      else if peek p = CHR 0x22 then map_option (map_option (\<lambda>(t, q). (J_str t, q))) (read_string p)
      else if peek p = CHR ''-'' \<or> digit (peek p) then read_number p
      else if peek p = CHR ''['' then
        map_option (map_option (\<lambda>(ts, q). (J_arr ts, q))) (read_array (read_value fuel) fuel p)
      else if peek p = CHR ''{'' then
        map_option (map_option (\<lambda>(ms, q). (J_obj ms, q))) (read_object (read_value fuel) fuel p)
      else Some None)"

definition read_text :: "string \<Rightarrow> json reading" where
  "read_text p = read_value (length p + 1) (skip_space p)"

section \<open>The text of a value is read back\<close>

text \<open>Strings that C can hold, and the numbers that are of type \<open>int\<close>.\<close>

fun plain :: "json \<Rightarrow> bool" where
  "plain (J_num i d) = (d = int_to_double (sint i))"
| "plain (J_str cs) = (NUL \<notin> set cs)"
| "plain (J_arr ts) = list_all plain ts"
| "plain (J_obj ms) = list_all (\<lambda>(n, t). NUL \<notin> set n \<and> plain t) ms"
| "plain t = True"

lemma starts_with_simps [simp]:
  "starts_with [] p" "starts_with (a # w) [] = False"
  "starts_with (a # w) (c # p) = (a = c \<and> starts_with w p)"
  by (auto simp: starts_with_def)

lemma skip_space_simps [simp]:
  "32 < char_code c \<Longrightarrow> skip_space (c # p) = c # p"
  "\<not> 32 < char_code c \<Longrightarrow> skip_space (c # p) = skip_space p"
  "skip_space [] = []"
  by (simp_all add: skip_space_def)

lemma skip_space_append: "list_all (\<lambda>c. char_code c \<le> 32) w \<Longrightarrow> skip_space (w @ p) = skip_space p"
  by (induction w) simp_all

lemma length_skip_space: "length (skip_space p) \<le> length p"
  by (simp add: skip_space_def length_dropWhile_le)

lemma join_Cons: "join sep (x # xs) = x @ concat (map (\<lambda>x. sep @ x) xs)"
  by (induction xs arbitrary: x) simp_all

lemma quote_Cons: "quote cs = CHR 0x22 # tl (quote cs)"
  by (simp add: quote_def)

lemma dec_int_head: "\<exists>c cs. dec_int v = c # cs \<and> (c = CHR ''-'' \<or> digit c)"
proof -
  have "\<exists>c cs. dec_nat n = c # cs \<and> digit c" for n
    using dec_nat_digits [of _ n] dec_nat_head [of n] dec_nat_small [of 0] by (cases "n = 0") fastforce+
  then show ?thesis by (cases "v < 0") (simp_all add: dec_int_def, metis)
qed

lemma digit_codes: "digit c \<Longrightarrow> 48 \<le> char_code c \<and> char_code c \<le> 57"
  by (simp add: digit_def)

text \<open>The first character of a value is not white space and does not close a list.\<close>

lemma render_head:
  "plain t \<Longrightarrow> \<exists>c cs. render fmt d t = c # cs \<and> 32 < char_code c \<and> c \<noteq> CHR '']''"
proof (cases t)
  case (J_num i x)
  moreover assume "plain t"
  moreover obtain c cs where "dec_int (sint i) = c # cs" "c = CHR ''-'' \<or> digit c" using dec_int_head by blast
  ultimately show ?thesis by (auto simp: print_int dest: digit_codes)
qed (auto simp: quote_def)

lemma skip_render: "plain t \<Longrightarrow> skip_space (render fmt d t @ q) = render fmt d t @ q"
  using render_head [of t fmt d] by auto

lemma read_int: "number_ends r \<Longrightarrow> read_number (dec_int (sint i) @ r) = Some (Some (J_num i (int_to_double (sint i)), r))"
  by (simp add: read_number_def parse_int)

lemma read_string_quote: "NUL \<notin> set cs \<Longrightarrow> read_string (quote cs @ r) = Some (Some (cs, r))"
  using parse_string_quote [of cs r] by (simp add: read_string_def quote_def)

text \<open>\<open>rv\<close> reads back the text \<open>x\<close> of the value \<open>t\<close>, when at most \<open>k\<close> characters are left.\<close>

definition reads :: "nat \<Rightarrow> (string \<Rightarrow> 'a reading) \<Rightarrow> string \<Rightarrow> 'a \<Rightarrow> bool" where
  "reads k rv x t \<longleftrightarrow> (\<forall>q. number_ends q \<longrightarrow> length (x @ q) < k \<longrightarrow> rv (x @ q) = Some (Some (t, q)))"

lemma number_ends_char: "c \<in> {CHR '','', CHR '']'', CHR ''}'', LF} \<Longrightarrow> number_ends (c # q)"
  by (auto simp: number_ends_def digit_def)

lemma read_elements_back:
  assumes sep: "sep = '','' \<or> sep = '', ''"
    and R: "\<And>t. t \<in> set ts \<Longrightarrow> reads k rv (R t) t" "\<And>t q. t \<in> set ts \<Longrightarrow> skip_space (R t @ q) = R t @ q"
    and len: "length (concat (map (\<lambda>t. sep @ R t) ts) @ '']'' @ r) \<le> k"
      "length (concat (map (\<lambda>t. sep @ R t) ts) @ '']'' @ r) \<le> n"
  shows "read_elements rv n (concat (map (\<lambda>t. sep @ R t) ts) @ '']'' @ r) = Some (Some (ts, r))"
  using assms
proof (induction ts arbitrary: n)
  case Nil
  then show ?case by (cases n) auto
next
  case (Cons t ts)
  let ?q = "concat (map (\<lambda>t. sep @ R t) ts) @ '']'' @ r"
  from Cons.prems(1,5) obtain m where n: "n = Suc m" "length ?q \<le> m" by (cases n) auto
  have q: "number_ends ?q" "skip_space ?q = ?q"
    using Cons.prems(1) by (cases ts; auto intro!: number_ends_char)+
  have "rv (R t @ ?q) = Some (Some (t, ?q))"
    using Cons.prems(2) [of t] q(1) Cons.prems(4) sep unfolding reads_def by fastforce
  moreover have "skip_space (tl (sep @ R t @ ?q)) = R t @ ?q"
    using Cons.prems(3) [of t ?q] sep by auto
  moreover have "read_elements rv m ?q = Some (Some (ts, r))"
    using Cons.prems n by (intro Cons.IH) auto
  ultimately show ?case using n(1) q(2) sep by auto
qed

lemma read_array_back:
  assumes sep: "sep = '','' \<or> sep = '', ''"
    and R: "\<And>t. t \<in> set ts \<Longrightarrow> reads k rv (R t) t" "\<And>t q. t \<in> set ts \<Longrightarrow> skip_space (R t @ q) = R t @ q"
      "\<And>t q. t \<in> set ts \<Longrightarrow> peek (R t @ q) \<noteq> CHR '']''"
    and len: "length (''['' @ join sep (map R ts) @ '']'' @ r) \<le> k"
      "length (''['' @ join sep (map R ts) @ '']'' @ r) \<le> n"
  shows "read_array rv n (''['' @ join sep (map R ts) @ '']'' @ r) = Some (Some (ts, r))"
proof (cases ts)
  case Nil
  then show ?thesis by (simp add: read_array_def)
next
  case (Cons t us)
  let ?q = "concat (map (\<lambda>t. sep @ R t) us) @ '']'' @ r"
  have p: "join sep (map R ts) @ '']'' @ r = R t @ ?q" by (simp add: Cons join_Cons o_def)
  have q: "number_ends ?q" "skip_space ?q = ?q"
    using sep by (cases us; auto intro!: number_ends_char)+
  have len': "length (R t @ ?q) < k" "length (R t @ ?q) \<le> n" using len unfolding p [symmetric] by simp_all
  have "rv (R t @ ?q) = Some (Some (t, ?q))"
    using R(1) [of t] q(1) len' Cons unfolding reads_def by simp
  moreover have "skip_space (R t @ ?q) = R t @ ?q" "peek (R t @ ?q) \<noteq> CHR '']''"
    using R(2,3) [of t ?q] Cons by simp_all
  moreover have "read_elements rv n ?q = Some (Some (us, r))"
    using len' by (intro read_elements_back [OF sep, where k = k]) (auto simp: Cons R)
  ultimately show ?thesis unfolding p using q(2) by (simp add: read_array_def Cons Let_def)
qed

text \<open>The white space between the members of an object.\<close>

lemma skip_layout: "list_all (\<lambda>c. char_code c \<le> 32) w \<Longrightarrow> 32 < char_code c \<Longrightarrow> skip_space (w @ c # p) = c # p"
  by (simp add: skip_space_append)

lemma read_member_back:
  assumes "NUL \<notin> set n" and R: "reads k rv x t" "\<And>q. skip_space (x @ q) = x @ q"
    and "list_all (\<lambda>c. char_code c \<le> 32) w" and "number_ends q"
    and len: "length (x @ q) < k"
  shows "read_member rv (w @ member_text fmt d n x @ q) = Some (Some ((n, t), skip_space q))"
proof -
  let ?colon = "if fmt then [CHR '':'', TAB] else [CHR '':'']"
  let ?tabs = "if fmt then replicate d TAB else []"
  have "list_all (\<lambda>c. char_code c \<le> 32) (w @ ?tabs)" using assms(4) by (auto simp: list_all_iff)
  then have "skip_space ((w @ ?tabs) @ quote n @ ?colon @ x @ q) = quote n @ ?colon @ x @ q"
    unfolding quote_def by (subst skip_space_append) simp_all
  moreover have "read_string (quote n @ ?colon @ x @ q) = Some (Some (n, ?colon @ x @ q))"
    by (rule read_string_quote [OF assms(1)])
  moreover have "skip_space (?colon @ x @ q) = ?colon @ x @ q" "peek (?colon @ x @ q) = CHR '':''"
    "skip_space (tl (?colon @ x @ q)) = x @ q"
    using R(2) [of q] by simp_all
  moreover have "rv (x @ q) = Some (Some (t, q))" using R(1) assms(5) len by (simp add: reads_def)
  ultimately show ?thesis by (simp add: read_member_def member_text_def Let_def)
qed

text \<open>The members after the first one, with the layout at the end of the object.\<close>

definition members_end :: "bool \<Rightarrow> nat \<Rightarrow> string" where
  "members_end fmt d = (if fmt then LF # replicate d TAB else [])"

lemma read_members_back:
  fixes fmt :: bool
  defines "sep \<equiv> if fmt then [CHR '','', LF] else '',''"
  assumes R: "\<And>n t. (n, t) \<in> set ms \<Longrightarrow> NUL \<notin> set n \<and> reads k rv (R t) t \<and> (\<forall>q. skip_space (R t @ q) = R t @ q)"
    and p: "p = concat (map (\<lambda>(n, t). sep @ member_text fmt d n (R t)) ms) @ members_end fmt e @ ''}'' @ r"
    and len: "length p \<le> k" "length p \<le> m"
  shows "read_members rv m (skip_space p) = Some (Some (ms, r))"
  using R p len
proof (induction ms arbitrary: m p)
  case Nil
  have "skip_space p = ''}'' @ r"
    using Nil.prems(2) skip_layout [of "members_end fmt e" "CHR ''}''" r]
    by (auto simp: members_end_def list_all_iff)
  then show ?case using Nil.prems(2,4) by (cases m) auto
next
  case (Cons x ms)
  obtain n t where x: "x = (n, t)" by (cases x)
  let ?q = "concat (map (\<lambda>(n, t). sep @ member_text fmt d n (R t)) ms) @ members_end fmt e @ ''}'' @ r"
  have p: "p = CHR '','' # (if fmt then [LF] else []) @ member_text fmt d n (R t) @ ?q"
    using Cons.prems(2) by (simp add: x sep_def)
  then obtain m' where m: "m = Suc m'" "length ?q \<le> m'" using Cons.prems(4) by (cases m) auto
  have q: "number_ends ?q"
    by (cases ms) (auto simp: sep_def members_end_def intro!: number_ends_char)
  have "length (R t @ ?q) < k" using p Cons.prems(3) by (simp add: member_text_def)
  then have "read_member rv ((if fmt then [LF] else []) @ member_text fmt d n (R t) @ ?q) = Some (Some ((n, t), skip_space ?q))"
    using Cons.prems(1) [of n t] q by (intro read_member_back) (auto simp: x)
  moreover have "read_members rv m' (skip_space ?q) = Some (Some (ms, r))"
    using Cons.prems(1,3) p m by (intro Cons.IH) auto
  moreover have "skip_space p = p" using p by simp
  ultimately show ?case by (simp add: m(1) p x)
qed

lemma read_object_back:
  assumes R: "\<And>n t. (n, t) \<in> set ms \<Longrightarrow> NUL \<notin> set n \<and> reads k rv (R t) t \<and> (\<forall>q. skip_space (R t @ q) = R t @ q)"
    and p: "p = ''{'' @ (if fmt then [LF] else [])
      @ join (if fmt then [CHR '','', LF] else '','') (map (\<lambda>(n, t). member_text fmt d n (R t)) ms)
      @ members_end fmt e @ ''}'' @ r"
    and "ms \<noteq> []" and len: "length p \<le> k" "length p \<le> m"
  shows "read_object rv m p = Some (Some (ms, r))"
proof -
  let ?sep = "if fmt then [CHR '','', LF] else '',''"
  obtain n t us where ms: "ms = (n, t) # us" using assms(3) by (cases ms) auto
  let ?q = "concat (map (\<lambda>(n, t). ?sep @ member_text fmt d n (R t)) us) @ members_end fmt e @ ''}'' @ r"
  let ?tabs = "if fmt then replicate d TAB else []"
  have "p = CHR ''{'' # ((if fmt then [LF] else []) @ ?tabs) @ member_text fmt 0 n (R t) @ ?q"
    by (simp add: p ms join_Cons o_def case_prod_unfold member_text_def)
  moreover have "list_all (\<lambda>c. char_code c \<le> 32) ((if fmt then [LF] else []) @ ?tabs)" by (auto simp: list_all_iff)
  moreover have "skip_space (member_text fmt 0 n (R t) @ ?q) = member_text fmt 0 n (R t) @ ?q"
    by (simp add: member_text_def quote_def)
  ultimately have tl: "skip_space (tl p) = member_text fmt 0 n (R t) @ ?q"
    and lens: "length (R t @ ?q) < k" "length ?q \<le> m" "length ?q \<le> k"
    using len by (simp_all add: skip_space_append member_text_def)
  have q: "number_ends ?q"
    by (cases us) (auto simp: members_end_def intro!: number_ends_char)
  have "read_member rv ([] @ member_text fmt 0 n (R t) @ ?q) = Some (Some ((n, t), skip_space ?q))"
    using R [of n t] ms lens(1) q by (intro read_member_back) auto
  moreover have "read_members rv m (skip_space ?q) = Some (Some (us, r))"
    using R ms lens(2,3) by (intro read_members_back [where k = k and fmt = fmt]) auto
  moreover have "peek (member_text fmt 0 n (R t) @ ?q) \<noteq> CHR ''}''"
    by (simp add: member_text_def quote_def)
  ultimately show ?thesis by (simp add: read_object_def tl ms Let_def)
qed

lemma length_render_pos: "plain t \<Longrightarrow> 0 < length (render fmt d t)"
  using render_head [of t fmt d] by auto

lemma read_render:
  "plain t \<Longrightarrow> number_ends q \<Longrightarrow> length (render fmt d t @ q) < k \<Longrightarrow>
     read_value k (render fmt d t @ q) = Some (Some (t, q))"
proof (induction t arbitrary: d q k)
  case (J_num i x)
  then obtain m where "k = Suc m" by (cases k) auto
  moreover obtain c cs where "dec_int (sint i) = c # cs" "c = CHR ''-'' \<or> digit c" using dec_int_head by blast
  ultimately show ?case using J_num read_int [of q i]
    by (auto simp: print_int dest!: digit_codes)
next
  case (J_str cs)
  then obtain m where "k = Suc m" by (cases k) auto
  then show ?case using J_str read_string_quote [of cs q] by (simp add: quote_def)
next
  case (J_arr ts)
  then obtain m where k: "k = Suc m" by (cases k) auto
  let ?sep = "if fmt then '', '' else '',''" and ?R = "render fmt (Suc d)"
  have "read_array (read_value m) m (''['' @ join ?sep (map ?R ts) @ '']'' @ q) = Some (Some (ts, q))"
  proof (rule read_array_back [where k = m])
    fix t q' assume "t \<in> set ts"
    then have t: "plain t" using J_arr.prems(1) by (simp add: list_all_iff)
    show "reads m (read_value m) (?R t) t" unfolding reads_def using J_arr.IH [OF \<open>t \<in> set ts\<close> t] by blast
    show "skip_space (?R t @ q') = ?R t @ q'" by (rule skip_render [OF t])
    show "peek (?R t @ q') \<noteq> CHR '']''" using render_head [OF t, of fmt "Suc d"] by auto
  qed (use J_arr.prems(3) k in auto)
  then show ?case using k by (simp add: digit_def)
next
  case (J_obj ms)
  then obtain m where k: "k = Suc m" by (cases k) auto
  let ?R = "render fmt (Suc d)"
  show ?case
  proof (cases "ms = []")
    case True
    have "skip_space ((if fmt then LF # replicate (d - 1) TAB else []) @ ''}'' @ q) = ''}'' @ q"
      using skip_layout [of "if fmt then LF # replicate (d - 1) TAB else []" "CHR ''}''" q] by (auto simp: list_all_iff)
    then show ?thesis using k True by (simp add: read_object_def digit_def Let_def)
  next
    case False
    have "plain t \<and> NUL \<notin> set n" if "(n, t) \<in> set ms" for n t
      using J_obj.prems(1) that by (auto simp: list_all_iff)
    then have "read_object (read_value m) m (render fmt d (J_obj ms) @ q) = Some (Some (ms, q))"
      using J_obj.prems(3) k False skip_render
      by (intro read_object_back [where k = m and R = ?R and fmt = fmt and d = "Suc d" and e = d])
        (auto simp: reads_def members_end_def intro!: J_obj.IH)
    then show ?thesis using k False by (simp add: digit_def)
  qed
qed (simp_all, (case_tac k; simp)+)

lemma read_text_render: "plain t \<Longrightarrow> read_text (render fmt 0 t) = Some (Some (t, []))"
  using read_render [of t "[]" fmt 0] skip_render [of t fmt 0 "[]"]
  by (simp add: read_text_def number_ends_def digit_def del: read_value.simps)

section \<open>Reading ends, on every text\<close>

text \<open>What is left after a string or a number is a shorter end of the text.\<close>

lemma suffix_tl: "suffix q p \<Longrightarrow> suffix (tl q) p"
  by (cases q) (auto dest: suffix_ConsD)

lemma suffix_strict_tl: "suffix q (tl p) \<Longrightarrow> p \<noteq> [] \<Longrightarrow> strict_suffix q p"
  by (cases p) (auto simp: strict_suffix_def suffix_Cons dest: suffix_length_le)

lemma advance_suffix: "advance k p = Some q \<Longrightarrow> suffix q p"
  by (auto simp: advance_def suffix_drop split: if_splits)

lemma unescape_suffix: "unescape n out p = Some (out', q) \<Longrightarrow> suffix q p"
proof -
  have "unescape_u n out p = Some (out', q) \<Longrightarrow> suffix q p"
    by (auto simp: unescape_u_def Let_def bind_Some_iff split: if_splits
        dest!: advance_suffix intro: suffix_order.trans)
  then show "unescape n out p = Some (out', q) \<Longrightarrow> suffix q p"
    by (auto simp: unescape_def Let_def split: if_splits)
qed

lemma copy_string_suffix: "copy_string n out p = Some (out', q) \<Longrightarrow> suffix q p"
proof (induction n out p rule: copy_string.induct)
  case (2 n out c p)
  show ?case
  proof (cases "c = CHR 0x22")
    case False
    show ?thesis
    proof (cases "c = CHR 0x5C")
      case True
      with 2(3) False obtain o2 d r where u: "unescape n out p = Some (o2, d # r)" "copy_string n o2 r = Some (out', q)"
        by (auto split: option.splits list.splits)
      have "suffix q r" using 2(2) [OF False _ u(1) refl refl u(2)] True by simp
      moreover have "suffix (d # r) p" by (rule unescape_suffix [OF u(1)])
      ultimately show ?thesis by (meson suffix_ConsD suffix_ConsI suffix_order.trans)
    next
      case c: False
      with 2(3) False obtain o2 where u: "put n out [c] = Some o2" "copy_string n o2 p = Some (out', q)"
        by (auto split: option.splits)
      then show ?thesis using 2(1) [OF False c u] by (auto intro: suffix_ConsI)
    qed
  qed (use 2 in auto)
qed simp

lemma parse_string_suffix:
  assumes "parse_string_text p = Some (t, q)" "p \<noteq> []"
  shows "strict_suffix q p"
proof -
  from assms obtain n r where "copy_string n [] (tl p) = Some (t, r)" "q = (if peek r = CHR 0x22 then tl r else r)"
    by (auto simp: parse_string_text_def bind_Some_iff)
  then have "suffix q (tl p)" by (auto dest!: copy_string_suffix intro: suffix_tl)
  then show ?thesis using assms(2) by (rule suffix_strict_tl)
qed

definition number_rest :: "double \<Rightarrow> double \<Rightarrow> int \<Rightarrow> string \<Rightarrow> (double \<times> string) option" where
  "number_rest sign n scale num = do {
     (subscale, num) \<leftarrow> (if peek num = CHR ''e'' \<or> peek num = CHR ''E''
        then do {
          let num = tl num;
          let (sgn, num) = (if peek num = CHR ''+'' then (1, tl num)
                            else if peek num = CHR ''-'' then (- 1, tl num) else (1, num));
          x \<leftarrow> exponent_digits 0 (takeWhile digit num);
          Some (sgn * x, dropWhile digit num)
        }
        else Some (0, num));
     Some (dmul (dmul sign n) (pow10 (scale + subscale)), num)
   }"

lemma number_rest_suffix: "number_rest sign n scale num = Some (d, q) \<Longrightarrow> suffix q num"
  by (auto simp: number_rest_def bind_Some_iff Let_def split: if_splits
      intro!: suffix_order.trans [OF suffix_dropWhile] suffix_tl)

lemma case_if_pair:
  "(case (if c then (a, b) else (a', b')) of (x, y) \<Rightarrow> f x y) = f (if c then a else a') (if c then b else b')"
  by simp

lemma parse_number_suffix:
  assumes "parse_number_text p = Some (d, q)" "peek p = CHR ''-'' \<or> digit (peek p)"
  shows "strict_suffix q p"
proof -
  define p1 where "p1 = (if peek p = CHR ''-'' then tl p else p)"
  define p2 where "p2 = (if peek p1 = CHR ''0'' then tl p1 else p1)"
  define p3 where "p3 = (if digit (peek p2) \<and> peek p2 \<noteq> CHR ''0'' then dropWhile digit p2 else p2)"
  define p4 where "p4 = (if peek p3 = CHR ''.'' \<and> digit (peek (tl p3)) then dropWhile digit (tl p3) else p3)"
  have "\<exists>sign n scale. parse_number_text p = number_rest sign n scale p4"
    unfolding parse_number_text_def number_rest_def p4_def p3_def p2_def p1_def Let_def case_if_pair
    by (intro exI) (rule refl)
  then have "suffix q p4" using assms(1) number_rest_suffix by metis
  moreover have "suffix p4 p3" by (auto simp: p4_def intro: suffix_order.trans [OF suffix_dropWhile] suffix_tl)
  moreover have "suffix p2 p1" "suffix p3 p2" by (auto simp: p2_def p3_def suffix_dropWhile intro: suffix_tl)
  moreover have "suffix p3 (tl p)"
  proof -
    consider "peek p = CHR ''-''" | "peek p = CHR ''0''" | "peek p \<noteq> CHR ''-''" "digit (peek p)" "peek p \<noteq> CHR ''0''"
      using assms(2) by blast
    then show ?thesis
    proof cases
      case 3
      then have "p3 = dropWhile digit (tl p)" by (cases p) (auto simp: p3_def p2_def p1_def digit_def)
      then show ?thesis by (simp add: suffix_dropWhile)
    qed (use calculation(3,4) in \<open>auto simp: p1_def p2_def intro: suffix_order.trans\<close>)
  qed
  moreover have "p \<noteq> []" using assms(2) by (auto simp: digit_def)
  ultimately show ?thesis by (meson suffix_order.trans suffix_strict_tl)
qed

text \<open>Reading neither faults nor runs out of fuel, and what it leaves is a shorter end of the text.\<close>

definition reads_off :: "string \<Rightarrow> 'a reading \<Rightarrow> bool" where
  "reads_off p r \<longleftrightarrow> r \<noteq> None \<and> (\<forall>t q. r = Some (Some (t, q)) \<longrightarrow> strict_suffix q p)"

lemma reads_off_simps [simp]:
  "reads_off p None = False" "reads_off p (Some None)" "reads_off p (Some (Some (t, q))) = strict_suffix q p"
  "reads_off p (map_option (map_option (\<lambda>(t, q). (f t, q))) r) = reads_off p r"
  by (auto simp: reads_off_def)

text \<open>A text whose strings and numbers all can be read.\<close>

definition readable :: "string \<Rightarrow> bool" where
  "readable p \<longleftrightarrow> (\<forall>q. suffix q p \<longrightarrow>
     (peek q = CHR 0x22 \<longrightarrow> parse_string_text q \<noteq> None)
     \<and> (peek q = CHR ''-'' \<or> digit (peek q) \<longrightarrow> read_number q \<noteq> None))"

lemma readable_suffix: "readable p \<Longrightarrow> suffix q p \<Longrightarrow> readable q"
  unfolding readable_def by (meson suffix_order.trans)

lemma suffix_skip: "suffix q p \<Longrightarrow> suffix (skip_space q) p"
  unfolding skip_space_def by (rule suffix_order.trans [OF suffix_dropWhile])

lemma read_string_off: "readable p \<Longrightarrow> reads_off p (read_string p)"
  by (cases "parse_string_text p"; cases "p = []")
    (auto simp: read_string_def readable_def intro: parse_string_suffix)

lemma read_number_off: "readable p \<Longrightarrow> peek p = CHR ''-'' \<or> digit (peek p) \<Longrightarrow> reads_off p (read_number p)"
  unfolding reads_off_def using parse_number_suffix [of p]
  by (auto simp: readable_def read_number_def bind_Some_iff)

lemma reads_off_longer: "reads_off q r \<Longrightarrow> suffix q p \<Longrightarrow> reads_off p r"
  by (auto simp: reads_off_def intro: suffix_order.strict_trans2)

lemma reads_off_case:
  assumes "reads_off p' v" and "\<And>t q. strict_suffix q p' \<Longrightarrow> reads_off p (f t q)"
  shows "reads_off p (do { v \<leftarrow> v; case v of None \<Rightarrow> Some None | Some (t, q) \<Rightarrow> f t q })"
  using assms by (cases v) (auto split: option.splits)

lemma reads_off_map: "reads_off p (do { r \<leftarrow> r; Some (map_option (\<lambda>(x, q). (g x, q)) r) }) = reads_off p r"
  by (cases r) (auto simp: reads_off_def)

text \<open>\<open>rv\<close> reads off the texts that are shorter than \<open>k\<close>.\<close>

definition reader :: "nat \<Rightarrow> (string \<Rightarrow> 'a reading) \<Rightarrow> bool" where
  "reader k rv \<longleftrightarrow> (\<forall>p. readable p \<longrightarrow> length p < k \<longrightarrow> reads_off p (rv p))"

lemma readerD: "reader k rv \<Longrightarrow> readable p \<Longrightarrow> suffix q p \<Longrightarrow> length p < k \<Longrightarrow> reads_off q (rv q)"
  using readable_suffix suffix_length_le by (fastforce simp: reader_def)

lemma strict_tl: "p \<noteq> [] \<Longrightarrow> strict_suffix (tl p) p"
  by (rule suffix_strict_tl) simp

lemma skip_tl: "p \<noteq> [] \<Longrightarrow> strict_suffix (skip_space (tl p)) p"
  by (rule suffix_strict_tl) (simp add: suffix_skip)

lemma strict_suffix_length: "strict_suffix q p \<Longrightarrow> length q < length p"
  by (auto simp: strict_suffix_def suffix_def)

lemma strict_skip: "strict_suffix q p \<Longrightarrow> strict_suffix (skip_space q) p"
  by (meson suffix_order.le_less_trans suffix_order.order_refl suffix_skip)

lemma read_elements_off:
  "reader k rv \<Longrightarrow> readable p \<Longrightarrow> length p \<le> k \<Longrightarrow> length p < n \<Longrightarrow> reads_off p (read_elements rv n p)"
proof (induction n arbitrary: p)
  case (Suc n)
  show ?case
  proof (cases "p = []")
    case False
    have s: "strict_suffix (skip_space (tl p)) p" by (rule skip_tl [OF False])
    then have v: "reads_off (skip_space (tl p)) (rv (skip_space (tl p)))"
      using Suc.prems(1-3) strict_suffix_length [OF s] readable_suffix [OF Suc.prems(2)] by (auto simp: reader_def)
    have "reads_off p (read_elements rv n (skip_space q))" if "strict_suffix q (skip_space (tl p))" for q
    proof -
      have q: "strict_suffix (skip_space q) p" using that s by (meson strict_skip suffix_order.less_trans)
      then have "reads_off (skip_space q) (read_elements rv n (skip_space q))"
        using Suc.prems strict_suffix_length [OF q] by (intro Suc.IH) (auto intro: readable_suffix)
      then show ?thesis using q by (auto intro: reads_off_longer)
    qed
    then show ?thesis using strict_tl [OF False] by (auto simp: reads_off_map intro!: reads_off_case [OF v])
  qed simp
qed simp

lemma read_array_off:
  assumes "reader k rv" "readable p" "length p \<le> k" "length p \<le> n" "p \<noteq> []"
  shows "reads_off p (read_array rv n p)"
proof -
  let ?p = "skip_space (tl p)"
  have s: "strict_suffix ?p p" by (rule skip_tl [OF assms(5)])
  then have s': "strict_suffix (skip_space ?p) p" by (rule strict_skip)
  then have v: "reads_off (skip_space ?p) (rv (skip_space ?p))"
    using assms(1-3) strict_suffix_length [OF s'] readable_suffix [OF assms(2)] by (auto simp: reader_def)
  have "reads_off p (read_elements rv n (skip_space q))" if "strict_suffix q (skip_space ?p)" for q
  proof -
    have q: "strict_suffix (skip_space q) p" using that s' by (meson strict_skip suffix_order.less_trans)
    then have "reads_off (skip_space q) (read_elements rv n (skip_space q))"
      using assms strict_suffix_length [OF q] by (intro read_elements_off) (auto intro: readable_suffix)
    then show ?thesis using q by (auto intro: reads_off_longer)
  qed
  moreover have "strict_suffix (tl ?p) p" using s by (auto intro: suffix_tl suffix_order.le_less_trans)
  ultimately show ?thesis by (auto simp: read_array_def Let_def reads_off_map intro!: reads_off_case [OF v])
qed

lemma read_member_off:
  assumes "reader k rv" "readable p" "length p \<le> k"
  shows "reads_off p (read_member rv p)"
proof -
  let ?p = "skip_space p"
  have s: "suffix ?p p" by (simp add: suffix_skip)
  have v: "reads_off ?p (read_string ?p)" by (rule read_string_off [OF readable_suffix [OF assms(2) s]])
  have "reads_off p (let q = skip_space q in if peek q \<noteq> CHR '':'' then Some None
      else do { v \<leftarrow> rv (skip_space (tl q)); Some (map_option (\<lambda>(t, p). ((n, t), skip_space p)) v) })"
    if q: "strict_suffix q ?p" for n :: string and q
  proof (cases "peek (skip_space q) = CHR '':''")
    case True
    let ?q = "skip_space (tl (skip_space q))"
    have "suffix ?q q" by (intro suffix_skip suffix_tl) simp
    then have q': "strict_suffix ?q p" using q s by (meson suffix_order.le_less_trans suffix_order.less_le_trans)
    then have "reads_off ?q (rv ?q)"
      using assms strict_suffix_length [OF q'] readable_suffix [OF assms(2)] by (auto simp: reader_def)
    then have "reads_off p (rv ?q)" using q' by (auto intro: reads_off_longer)
    then have "reads_off p (do { v \<leftarrow> rv ?q; Some (map_option (\<lambda>(t, p). ((n, t), skip_space p)) v) })"
      by (cases "rv ?q") (auto simp: reads_off_def intro: strict_skip)
    then show ?thesis using True by (simp add: Let_def)
  qed (simp add: Let_def)
  then show ?thesis unfolding read_member_def by (intro reads_off_case [OF v]) auto
qed

lemma read_members_off:
  "reader k rv \<Longrightarrow> readable p \<Longrightarrow> length p \<le> k \<Longrightarrow> length p < n \<Longrightarrow> reads_off p (read_members rv n p)"
proof (induction n arbitrary: p)
  case (Suc n)
  show ?case
  proof (cases "p = []")
    case False
    have s: "strict_suffix (tl p) p" by (rule strict_tl [OF False])
    have v: "reads_off (tl p) (read_member rv (tl p))"
      using Suc.prems s by (intro read_member_off [of k]) (auto intro: readable_suffix)
    have "reads_off p (read_members rv n q)" if "strict_suffix q (tl p)" for q
    proof -
      have q: "strict_suffix q p" using that s by (meson suffix_order.less_trans)
      then have "reads_off q (read_members rv n q)"
        using Suc.prems strict_suffix_length [OF q] by (intro Suc.IH) (auto intro: readable_suffix)
      then show ?thesis using q by (auto intro: reads_off_longer)
    qed
    then show ?thesis using strict_tl [OF False] by (auto simp: reads_off_map intro!: reads_off_case [OF v])
  qed simp
qed simp

lemma read_object_off:
  assumes "reader k rv" "readable p" "length p \<le> k" "length p \<le> n" "p \<noteq> []"
  shows "reads_off p (read_object rv n p)"
proof -
  let ?p = "skip_space (tl p)"
  have s: "strict_suffix ?p p" by (rule skip_tl [OF assms(5)])
  then have v: "reads_off ?p (read_member rv ?p)"
    using assms(1-3) strict_suffix_length [OF s] readable_suffix [OF assms(2)] by (intro read_member_off [of k]) auto
  have "reads_off p (read_members rv n q)" if "strict_suffix q ?p" for q
  proof -
    have q: "strict_suffix q p" using that s by (meson suffix_order.less_trans)
    then have "reads_off q (read_members rv n q)"
      using assms strict_suffix_length [OF q] by (intro read_members_off) (auto intro: readable_suffix)
    then show ?thesis using q by (auto intro: reads_off_longer)
  qed
  moreover have "strict_suffix (tl ?p) p" using s by (auto intro: suffix_tl suffix_order.le_less_trans)
  ultimately show ?thesis by (auto simp: read_object_def Let_def reads_off_map intro!: reads_off_case [OF v])
qed

lemma starts_with_drop: "starts_with w p \<Longrightarrow> w \<noteq> [] \<Longrightarrow> strict_suffix (drop (length w) p) p"
proof -
  assume "starts_with w p" "w \<noteq> []"
  then have "length (drop (length w) p) < length p" by (cases p; cases w) auto
  then have "drop (length w) p \<noteq> p" by (metis less_irrefl)
  then show "strict_suffix (drop (length w) p) p" by (simp add: strict_suffix_def suffix_drop)
qed

lemma starts_with_word:
  "starts_with ''null'' p \<Longrightarrow> strict_suffix (drop 4 p) p"
  "starts_with ''false'' p \<Longrightarrow> strict_suffix (drop 5 p) p"
  "starts_with ''true'' p \<Longrightarrow> strict_suffix (drop 4 p) p"
  using starts_with_drop [of "''null''" p] starts_with_drop [of "''false''" p] starts_with_drop [of "''true''" p]
  by (simp_all add: numeral_eq_Suc)

lemma read_value_off: "reader k (read_value k)"
proof (induction k)
  case (Suc k)
  show ?case unfolding reader_def
  proof (intro allI impI)
    fix p assume p: "readable p" "length p < Suc k"
    have "reads_off p (read_array (read_value k) k p)" if "p \<noteq> []"
      by (rule read_array_off [OF Suc p(1)]) (use p(2) that in auto)
    moreover have "reads_off p (read_object (read_value k) k p)" if "p \<noteq> []"
      by (rule read_object_off [OF Suc p(1)]) (use p(2) that in auto)
    moreover have "peek p = c \<Longrightarrow> c \<noteq> NUL \<Longrightarrow> p \<noteq> []" for c by auto
    ultimately show "reads_off p (read_value (Suc k) p)"
      using read_string_off [OF p(1)] read_number_off [OF p(1)] starts_with_word [of p]
      by (simp only: read_value.simps reads_off_simps split: if_split) simp
  qed
qed (simp add: reader_def)

lemma read_text_off: "readable p \<Longrightarrow> reads_off p (read_text p)"
proof -
  assume p: "readable p"
  have s: "suffix (skip_space p) p" by (simp add: suffix_skip)
  have "reads_off (skip_space p) (read_value (length p + 1) (skip_space p))"
    by (rule readerD [OF read_value_off p s]) simp
  then show "reads_off p (read_text p)" using s unfolding read_text_def by (rule reads_off_longer)
qed

end
