(* ===== verification/Json_Memory.thy ===== *)
theory Json_Memory
  imports Json_List Json_Tree
begin

text \<open>
  Reasoning about the memory of \<open>cJSON.c\<close>: well-formed states, what a piece of code has allocated on top
  of a given memory (\<open>owned\<close>), and which JSON value an item holds (\<open>holds\<close>).
\<close>

section \<open>Well-formed states\<close>

text \<open>Live objects are at addresses handed out before.\<close>

definition fresh :: "jstate \<Rightarrow> bool" where
  "fresh s \<longleftrightarrow> (\<forall>a. heap s a \<noteq> None \<longrightarrow> 0 < a \<and> a \<le> n_alloc s)"

text \<open>Only the memory changes, and calls of the allocator are only added.\<close>

definition later :: "jstate \<Rightarrow> jstate \<Rightarrow> bool" where
  "later s s' \<longleftrightarrow> n_alloc s \<le> n_alloc s' \<and> alloc_ok s' = alloc_ok s \<and> ep s' = ep s"

lemma later_refl [simp]: "later s s"
  by (simp add: later_def)

lemma later_trans [trans]: "later s s' \<Longrightarrow> later s' s'' \<Longrightarrow> later s s''"
  by (auto simp: later_def)

lemma fresh_next: "fresh s \<Longrightarrow> heap s (Suc (n_alloc s)) = None"
  by (cases "heap s (Suc (n_alloc s))") (auto simp: fresh_def)

lemma fresh_NULL: "fresh s \<Longrightarrow> heap s NULL = None"
  by (cases "heap s NULL") (auto simp: fresh_def)

lemma jalloc_cases:
  assumes "fresh s"
  obtains (fail) s' where "jalloc x s = (NULL, s')" "heap s' = heap s" "later s s'" "fresh s'"
      "\<exists>k. \<not> alloc_ok s k"
  | (ok) p s' where "jalloc x s = (p, s')" "p \<noteq> NULL" "heap s p = None" "heap s' = (heap s)(p \<mapsto> x)"
      "later s s'" "fresh s'"
proof (cases "alloc_ok s (Suc (n_alloc s))")
  case True
  let ?k = "Suc (n_alloc s)"
  show ?thesis
  proof (rule ok [of ?k "s\<lparr>heap := (heap s)(?k \<mapsto> x), n_alloc := ?k\<rparr>"])
    show "fresh (s\<lparr>heap := (heap s)(?k \<mapsto> x), n_alloc := ?k\<rparr>)"
      using assms by (auto simp: fresh_def le_Suc_eq)
  qed (use True fresh_next [OF assms] in \<open>simp_all add: jalloc_def Let_def later_def\<close>)
next
  case False
  show ?thesis
  proof (rule fail [of "s\<lparr>n_alloc := Suc (n_alloc s)\<rparr>"])
    show "fresh (s\<lparr>n_alloc := Suc (n_alloc s)\<rparr>)" using assms by (auto simp: fresh_def)
  qed (use False in \<open>auto simp: jalloc_def Let_def later_def\<close>)
qed

lemma set_text_new:
  "heap s p = Some (Text u) \<Longrightarrow> set_text p t s = Some (s\<lparr>heap := (heap s)(p \<mapsto> Text t)\<rparr>)"
  by (simp add: set_text_def)

lemma jfree_live: "p \<noteq> NULL \<Longrightarrow> heap s p \<noteq> None \<Longrightarrow> jfree p s = Some (s\<lparr>heap := (heap s)(p := None)\<rparr>)"
  by (simp add: jfree_def)

lemma jfree_NULL [simp]: "jfree NULL s = Some s"
  by (simp add: jfree_def)

lemma fresh_upd: "fresh s \<Longrightarrow> heap s p \<noteq> None \<Longrightarrow> fresh (s\<lparr>heap := (heap s)(p := v)\<rparr>)"
  by (auto simp: fresh_def)

lemma fresh_del: "fresh s \<Longrightarrow> fresh (s\<lparr>heap := (heap s)(p := None)\<rparr>)"
  by (auto simp: fresh_def)

lemma later_heap [simp]: "later s (s\<lparr>heap := h\<rparr>)"
  by (simp add: later_def)

section \<open>Ownership\<close>

text \<open>\<open>h\<close> is the memory \<open>H\<close> with an object at each of the addresses; null pointers do not count.\<close>

definition owned :: "(addr \<rightharpoonup> jobj) \<Rightarrow> addr list \<Rightarrow> (addr \<rightharpoonup> jobj) \<Rightarrow> bool" where
  "owned H es h \<longleftrightarrow>
     distinct (filter (\<lambda>e. e \<noteq> NULL) es)
     \<and> (\<forall>e \<in> set es. e \<noteq> NULL \<longrightarrow> H e = None \<and> h e \<noteq> None)
     \<and> (\<forall>p. p \<notin> set es \<or> p = NULL \<longrightarrow> h p = H p)"

lemma owned_Nil [simp]: "owned H [] h = (h = H)"
  by (auto simp: owned_def)

lemma owned_trans: "owned H es h1 \<Longrightarrow> owned h1 es' h \<Longrightarrow> owned H (es @ es') h"
proof -
  assume A: "owned H es h1" and B: "owned h1 es' h"
  have disj: "e \<notin> set es'" if "e \<in> set es" "e \<noteq> NULL" for e
    using A B that by (auto simp: owned_def)
  have "H e = None \<and> h e \<noteq> None" if "e \<in> set (es @ es')" "e \<noteq> NULL" for e
  proof (cases "e \<in> set es")
    case True
    then have "h e = h1 e" using B disj [OF True that(2)] by (simp add: owned_def)
    then show ?thesis using A True that(2) by (simp add: owned_def)
  next
    case False
    then have "h1 e = H e" using A by (simp add: owned_def)
    then show ?thesis using B False that by (auto simp: owned_def)
  qed
  moreover have "h p = H p" if "p \<notin> set (es @ es') \<or> p = NULL" for p
    using A B that by (auto simp: owned_def)
  moreover have "distinct (filter (\<lambda>e. e \<noteq> NULL) (es @ es'))"
    using A B disj by (auto simp: owned_def)
  ultimately show ?thesis by (simp add: owned_def)
qed

lemma owned_kept: "owned H es h \<Longrightarrow> H p \<noteq> None \<Longrightarrow> h p = H p"
  by (metis owned_def)

lemma owned_le: "owned H es h \<Longrightarrow> H \<subseteq>\<^sub>m h"
  using owned_kept by (force simp: map_le_def)

lemma owned_NULL: "owned H (xs @ NULL # ys) h = owned H (xs @ ys) h"
  by (auto simp: owned_def)

lemma owned_distinct: "owned H (xs @ e # ys) h \<Longrightarrow> e \<noteq> NULL \<Longrightarrow> e \<notin> set xs \<and> e \<notin> set ys \<and> h e \<noteq> None"
  by (auto simp: owned_def)

text \<open>One of the objects is freed.\<close>

lemma owned_free: "owned H (xs @ e # ys) h \<Longrightarrow> e \<noteq> NULL \<Longrightarrow> owned H (xs @ ys) (h(e := None))"
  by (auto simp: owned_def)

lemma owned_upd: "owned H (xs @ e # ys) h \<Longrightarrow> e \<noteq> NULL \<Longrightarrow> owned H (xs @ e # ys) (h(e \<mapsto> v))"
  by (auto simp: owned_def)

lemma owned_one: "H p = None \<Longrightarrow> p \<noteq> NULL \<Longrightarrow> owned H [p] (H(p \<mapsto> x))"
  by (simp add: owned_def)

lemma owned_snoc: "owned H es h \<Longrightarrow> h p = None \<Longrightarrow> p \<noteq> NULL \<Longrightarrow> owned H (es @ [p]) (h(p \<mapsto> x))"
  by (erule owned_trans) (rule owned_one)

lemma owned_only: "owned H [p] h \<Longrightarrow> p \<noteq> NULL \<Longrightarrow> h = H(p := h p)"
  by (auto simp: owned_def fun_eq_iff)

lemma free_some:
  "owned H (as @ es @ bs) (heap s) \<Longrightarrow> fresh s \<Longrightarrow>
     \<exists>s'. run_list jfree es s = Some s' \<and> owned H (as @ bs) (heap s') \<and> later s s' \<and> fresh s'"
proof (induction es arbitrary: s)
  case (Cons e es)
  show ?case
  proof (cases "e = NULL")
    case False
    let ?s = "s\<lparr>heap := (heap s)(e := None)\<rparr>"
    have "heap s e \<noteq> None" "owned H (as @ es @ bs) (heap ?s)"
      using owned_free [of H as e "es @ bs" "heap s"] owned_distinct [of H as e "es @ bs" "heap s"]
        Cons.prems(1) False by simp_all
    moreover from Cons.IH [OF this(2) fresh_del [OF Cons.prems(2)]]
    obtain s' where "run_list jfree es ?s = Some s'" "owned H (as @ bs) (heap s')" "later ?s s'" "fresh s'"
      by blast
    ultimately show ?thesis using False later_trans [OF later_heap]
      by (fastforce simp: jfree_live)
  qed (use Cons owned_NULL [of H as "es @ bs"] in auto)
qed auto

lemma free_all:
  "owned H es (heap s) \<Longrightarrow> fresh s \<Longrightarrow>
     \<exists>s'. run_list jfree es s = Some s' \<and> heap s' = H \<and> later s s' \<and> fresh s'"
  using free_some [of H "[]" es "[]" s] by simp

section \<open>The value an item holds\<close>

fun chain :: "(addr \<rightharpoonup> jobj) \<Rightarrow> addr \<Rightarrow> addr list \<Rightarrow> bool" where
  "chain h p [] = (p = NULL)"
| "chain h p (q # qs) = (p = q \<and> q \<noteq> NULL \<and> (\<exists>x. h q = Some (Item x) \<and> chain h (j_next x) qs))"

definition named :: "(addr \<rightharpoonup> jobj) \<Rightarrow> addr \<Rightarrow> string \<Rightarrow> bool" where
  "named h q n \<longleftrightarrow> (\<exists>x. h q = Some (Item x) \<and> j_string x \<noteq> NULL \<and> h (j_string x) = Some (Text n))"

inductive holds :: "(addr \<rightharpoonup> jobj) \<Rightarrow> addr \<Rightarrow> json \<Rightarrow> bool" for h where
  null: "h p = Some (Item x) \<Longrightarrow> j_type x AND 255 = cJSON_NULL \<Longrightarrow> holds h p J_null"
| false: "h p = Some (Item x) \<Longrightarrow> j_type x AND 255 = cJSON_False \<Longrightarrow> holds h p J_false"
| true: "h p = Some (Item x) \<Longrightarrow> j_type x AND 255 = cJSON_True \<Longrightarrow> holds h p J_true"
| num: "h p = Some (Item x) \<Longrightarrow> j_type x AND 255 = cJSON_Number \<Longrightarrow>
    holds h p (J_num (j_valueint x) (j_valuedouble x))"
| str: "h p = Some (Item x) \<Longrightarrow> j_type x AND 255 = cJSON_String \<Longrightarrow> j_valuestring x \<noteq> NULL \<Longrightarrow>
    h (j_valuestring x) = Some (Text t) \<Longrightarrow> holds h p (J_str t)"
| arr: "h p = Some (Item x) \<Longrightarrow> j_type x AND 255 = cJSON_Array \<Longrightarrow> chain h (j_child x) ps \<Longrightarrow>
    list_all2 (holds h) ps ts \<Longrightarrow> holds h p (J_arr ts)"
| obj: "h p = Some (Item x) \<Longrightarrow> j_type x AND 255 = cJSON_Object \<Longrightarrow> chain h (j_child x) ps \<Longrightarrow>
    list_all2 (\<lambda>q m. named h q (fst m) \<and> holds h q (snd m)) ps ms \<Longrightarrow> holds h p (J_obj ms)"
monos list_all2_mono

inductive_cases holds_nullE: "holds h p J_null"
inductive_cases holds_falseE: "holds h p J_false"
inductive_cases holds_trueE: "holds h p J_true"
inductive_cases holds_numE: "holds h p (J_num i d)"
inductive_cases holds_strE: "holds h p (J_str t)"
inductive_cases holds_arrE: "holds h p (J_arr ts)"
inductive_cases holds_objE: "holds h p (J_obj ms)"

lemma chain_mono: "chain h p qs \<Longrightarrow> h \<subseteq>\<^sub>m h' \<Longrightarrow> chain h' p qs"
proof (induction qs arbitrary: p)
  case (Cons q qs)
  then obtain x where x: "p = q" "q \<noteq> NULL" "h q = Some (Item x)" "chain h' (j_next x) qs" by auto
  then have "h' q = Some (Item x)" using Cons.prems(2) by (force simp: map_le_def)
  with x show ?case by simp
qed simp

lemma map_le_Some: "h \<subseteq>\<^sub>m h' \<Longrightarrow> h p = Some x \<Longrightarrow> h' p = Some x"
  by (force simp: map_le_def)

lemma named_mono: "named h q n \<Longrightarrow> h \<subseteq>\<^sub>m h' \<Longrightarrow> named h' q n"
  by (auto simp: named_def dest: map_le_Some)

lemma holds_mono: "holds h p t \<Longrightarrow> h \<subseteq>\<^sub>m h' \<Longrightarrow> holds h' p t"
proof (induction rule: holds.induct)
  case (arr p x ps ts)
  then have "list_all2 (holds h') ps ts" by (auto elim!: list_all2_mono)
  with arr show ?case by (auto intro: holds.arr map_le_Some chain_mono)
next
  case (obj p x ps ms)
  then have "list_all2 (\<lambda>q m. named h' q (fst m) \<and> holds h' q (snd m)) ps ms"
    by (auto elim!: list_all2_mono intro: named_mono)
  with obj show ?case by (auto intro: holds.obj map_le_Some chain_mono)
qed (auto intro: holds.intros map_le_Some)

lemma holds_item: "holds h p t \<Longrightarrow> \<exists>x. h p = Some (Item x)"
  by (cases rule: holds.cases) auto

lemma siblings_chain: "chain (heap s) p qs \<Longrightarrow> heap s NULL = None \<Longrightarrow> siblings p s = Some qs"
proof (induction qs arbitrary: p)
  case (Cons q qs)
  then show ?case by (subst siblings.simps) (auto simp: item_def)
qed (subst siblings.simps, simp)

section \<open>An example\<close>

text \<open>An array with one string.\<close>

definition demo_state :: jstate where
  "demo_state = \<lparr>heap = [1 \<mapsto> Item (json_zero\<lparr>j_type := cJSON_Array, j_child := 2\<rparr>),
     2 \<mapsto> Item (json_zero\<lparr>j_type := cJSON_String, j_valuestring := 3\<rparr>), 3 \<mapsto> Text ''a''],
     n_alloc = 3, alloc_ok = (\<lambda>k. True), ep = None\<rparr>"

lemma demo_holds: "holds (heap demo_state) 1 (J_arr [J_str ''a''])"
proof -
  have "holds (heap demo_state) 2 (J_str ''a'')"
    by (rule holds.str [where x = "json_zero\<lparr>j_type := cJSON_String, j_valuestring := 3\<rparr>"]) (simp_all add: demo_state_def)
  moreover have "chain (heap demo_state) 2 [2]" by (simp add: demo_state_def json_zero_def)
  ultimately show ?thesis by (intro holds.arr [where x = "json_zero\<lparr>j_type := cJSON_Array, j_child := 2\<rparr>" and ps = "[2]"])
      (simp_all add: demo_state_def)
qed

lemma demo_fresh: "fresh demo_state"
  by (auto simp: fresh_def demo_state_def)

end
