(* ===== verification/Json_Forest.thy ===== *)
theory Json_Forest
  imports Json_Memory
begin

text \<open>
  Which objects belong to an item and the items after it: what \<open>cJSON_Delete\<close> frees. \<open>forest h c as\<close>
  lists them in the order in which they are freed, an item with its values before the items after it.
\<close>

section \<open>The objects of a chain of items\<close>

definition own :: "addr \<Rightarrow> addr list" where
  "own p = (if p = NULL then [] else [p])"

lemma own_NULL [simp]: "own NULL = []"
  by (simp add: own_def)

lemma own_some [simp]: "p \<noteq> NULL \<Longrightarrow> own p = [p]"
  by (simp add: own_def)

lemma in_own [simp]: "a \<in> set (own p) \<longleftrightarrow> a = p \<and> p \<noteq> NULL"
  by (auto simp: own_def)

inductive forest :: "(addr \<rightharpoonup> jobj) \<Rightarrow> addr \<Rightarrow> addr list \<Rightarrow> bool" for h where
  empty: "forest h NULL []"
| plain: "c \<noteq> NULL \<Longrightarrow> h c = Some (Item x) \<Longrightarrow> j_type x AND cJSON_IsReference = 0 \<Longrightarrow>
    forest h (j_child x) cs \<Longrightarrow> forest h (j_next x) ns \<Longrightarrow>
    forest h c (cs @ own (j_valuestring x) @ own (j_string x) @ [c] @ ns)"
| reference: "c \<noteq> NULL \<Longrightarrow> h c = Some (Item x) \<Longrightarrow> j_type x AND cJSON_IsReference \<noteq> 0 \<Longrightarrow>
    forest h (j_next x) ns \<Longrightarrow> forest h c (own (j_string x) @ [c] @ ns)"

inductive_cases forest_NULLE: "forest h NULL as"
inductive_simps forest_NULL [simp]: "forest h NULL as"

lemma forest_not_NULL: "forest h c as \<Longrightarrow> NULL \<notin> set as"
  by (induction rule: forest.induct) auto

lemma forest_head: "forest h c as \<Longrightarrow> c \<noteq> NULL \<Longrightarrow> c \<in> set as"
  by (cases rule: forest.cases) auto

lemma forest_cong: "forest h c as \<Longrightarrow> (\<And>a. a \<in> set as \<Longrightarrow> h' a = h a) \<Longrightarrow> forest h' c as"
proof (induction rule: forest.induct)
  case (plain c x cs ns)
  then show ?case by (intro forest.plain) auto
next
  case (reference c x ns)
  then show ?case by (intro forest.reference) auto
qed simp

text \<open>Items are linked behind the last one.\<close>

lemma forest_append:
  assumes "forest h c as" "c \<noteq> NULL" "h c = Some (Item x)" "j_next x = NULL" "distinct as"
    and "h' c = Some (Item (x\<lparr>j_next := n\<rparr>))" "\<And>a. a \<in> set as \<Longrightarrow> a \<noteq> c \<Longrightarrow> h' a = h a"
    and "forest h' n bs"
  shows "forest h' c (as @ bs)"
  using assms(1)
proof (cases rule: forest.cases)
  case (plain y cs ns)
  then have y: "y = x" "ns = []" using assms(3,4) by auto
  have "forest h' (j_child x) cs"
    using plain(5) y(1) assms(5,7) unfolding plain(1) by (intro forest_cong [of h "j_child x" cs h']) auto
  then show ?thesis
    using forest.plain [of c h' "x\<lparr>j_next := n\<rparr>" cs bs] plain(1,4) y assms(2,6,8) by simp
next
  case (reference y ns)
  then have "y = x" "ns = []" using assms(3,4) by auto
  then show ?thesis
    using forest.reference [of c h' "x\<lparr>j_next := n\<rparr>" bs] reference(1,4) assms(2,6,8) by simp
qed (use assms(2) in simp)

section \<open>\<open>cJSON_Delete\<close>\<close>

definition without :: "addr list \<Rightarrow> jstate \<Rightarrow> jstate" where
  "without as s = s\<lparr>heap := heap s |` (- set as)\<rparr>"

lemma without_simps [simp]:
  "heap (without as s) = heap s |` (- set as)" "n_alloc (without as s) = n_alloc s"
  "alloc_ok (without as s) = alloc_ok s" "ep (without as s) = ep s"
  by (simp_all add: without_def)

lemma without_Nil [simp]: "without [] s = s"
  by (simp add: without_def)

lemma without_append: "without (as @ bs) s = without bs (without as s)"
  by (simp add: without_def Int_commute)

lemma jfree_own:
  assumes "\<And>a. a \<in> set (own p) \<Longrightarrow> heap s a \<noteq> None"
  shows "jfree p s = Some (without (own p) s)"
proof (cases "p = NULL")
  case False
  have "(heap s)(p := None) = heap s |` (- {p})"
    by (auto simp: fun_eq_iff restrict_map_def)
  then show ?thesis using assms False by (simp add: jfree_def without_def)
qed simp

lemma Delete_NULL [simp]: "cJSON_Delete NULL s = Some s"
  by (simp add: cJSON_Delete.simps)

text \<open>One step, with the frees of the strings made unconditional, as a \<open>free\<close> of \<open>NULL\<close> does nothing.\<close>

lemma Delete_item:
  "c \<noteq> NULL \<Longrightarrow> heap s c = Some (Item x) \<Longrightarrow>
   cJSON_Delete c s = do {
     s \<leftarrow> (if j_type x AND cJSON_IsReference = 0 then cJSON_Delete (j_child x) s else Some s);
     s \<leftarrow> (if j_type x AND cJSON_IsReference = 0 then jfree (j_valuestring x) s else Some s);
     s \<leftarrow> jfree (j_string x) s;
     s \<leftarrow> jfree c s;
     cJSON_Delete (j_next x) s
   }"
  by (subst cJSON_Delete.simps) (auto simp: item_def)

lemma Delete_forest:
  "forest h c as \<Longrightarrow> distinct as \<Longrightarrow> (\<And>a. a \<in> set as \<Longrightarrow> heap s a = h a \<and> h a \<noteq> None) \<Longrightarrow>
     cJSON_Delete c s = Some (without as s)"
proof (induction arbitrary: s rule: forest.induct)
  case (plain c x cs ns)
  let ?v = "own (j_valuestring x)" and ?n = "own (j_string x)"
  let ?s1 = "without cs s" let ?s2 = "without ?v ?s1" let ?s3 = "without ?n ?s2" let ?s4 = "without [c] ?s3"
  have 1: "cJSON_Delete (j_child x) s = Some ?s1" using plain.prems by (intro plain.IH(1)) auto
  have 2: "jfree (j_valuestring x) ?s1 = Some ?s2" using plain.prems by (intro jfree_own) auto
  have 3: "jfree (j_string x) ?s2 = Some ?s3" using plain.prems by (intro jfree_own) auto
  have 4: "jfree c ?s3 = Some ?s4" using plain.prems plain.hyps(1) jfree_own [of c ?s3] by auto
  have 5: "cJSON_Delete (j_next x) ?s4 = Some (without ns ?s4)"
    using plain.prems by (intro plain.IH(2)) (auto simp: restrict_map_def)
  have "heap s c = Some (Item x)" using plain.prems plain.hyps(2) by simp
  from Delete_item [OF plain.hyps(1) this] plain.hyps(3) 1 2 3 4 5
  show ?case by (simp add: without_append without_append [of "[c]" ns, simplified])
next
  case (reference c x ns)
  let ?n = "own (j_string x)"
  let ?s3 = "without ?n s" let ?s4 = "without [c] ?s3"
  have 3: "jfree (j_string x) s = Some ?s3" using reference.prems by (intro jfree_own) auto
  have 4: "jfree c ?s3 = Some ?s4" using reference.prems reference.hyps(1) jfree_own [of c ?s3] by auto
  have 5: "cJSON_Delete (j_next x) ?s4 = Some (without ns ?s4)"
    using reference.prems by (intro reference.IH) (auto simp: restrict_map_def)
  have "heap s c = Some (Item x)" using reference.prems reference.hyps(2) by simp
  from Delete_item [OF reference.hyps(1) this] reference.hyps(3) 3 4 5
  show ?case by (simp add: without_append without_append [of "[c]" ns, simplified])
qed simp

text \<open>Deleting what a piece of code has allocated gives the memory it started with.\<close>

lemma owned_without: "owned H as (heap s) \<Longrightarrow> NULL \<notin> set as \<Longrightarrow> heap (without as s) = H"
proof
  fix a assume "owned H as (heap s)" "NULL \<notin> set as"
  then show "heap (without as s) a = H a"
    by (cases "a \<in> set as") (auto simp: owned_def restrict_map_def)
qed

lemma Delete_owned:
  assumes "forest (heap s) c as" and "owned H as (heap s)"
  shows "\<exists>s'. cJSON_Delete c s = Some s' \<and> heap s' = H \<and> n_alloc s' = n_alloc s \<and> alloc_ok s' = alloc_ok s \<and> ep s' = ep s"
proof -
  have nn: "NULL \<notin> set as" by (rule forest_not_NULL [OF assms(1)])
  then have "filter (\<lambda>e. e \<noteq> NULL) as = as" by (induction as) auto
  then have "distinct as" using assms(2) by (simp add: owned_def)
  moreover have "heap s a \<noteq> None" if "a \<in> set as" for a
    using assms(2) that nn by (auto simp: owned_def)
  ultimately have "cJSON_Delete c s = Some (without as s)" by (intro Delete_forest [OF assms(1)]) auto
  then show ?thesis using owned_without [OF assms(2) nn] by simp
qed

section \<open>Properties\<close>

text \<open>C32. \<open>cJSON_Delete\<close> of a chain of items returns, frees every object of the chain exactly once,
  the children of references left alone, and nothing else.\<close>

theorem cJSON_Delete_frees:
  assumes "forest (heap s) c as" and "distinct as" and "set as \<subseteq> dom (heap s)"
  shows "\<exists>s'. cJSON_Delete c s = Some s' \<and> heap s' = heap s |` (- set as)"
proof -
  have "cJSON_Delete c s = Some (without as s)"
    using assms(3) by (intro Delete_forest [OF assms(1,2)]) auto
  then show ?thesis by simp
qed

lemma demo_forest: "forest (heap demo_state) 1 [3, 2, 1]"
proof -
  have "forest (heap demo_state) 2 ([] @ own 3 @ own NULL @ [2] @ [])"
    using forest.plain [of 2 "heap demo_state" "json_zero\<lparr>j_type := cJSON_String, j_valuestring := 3\<rparr>" "[]" "[]"]
    by (simp add: demo_state_def json_zero_def)
  then show ?thesis
    using forest.plain [of 1 "heap demo_state" "json_zero\<lparr>j_type := cJSON_Array, j_child := 2\<rparr>" "[3, 2]" "[]"]
    by (simp add: demo_state_def json_zero_def)
qed

theorem cJSON_Delete_frees_witness:
  "\<exists>s'. cJSON_Delete 1 demo_state = Some s' \<and> heap s' = heap demo_state |` (- set [3, 2, 1])"
  by (rule cJSON_Delete_frees [OF demo_forest]) (simp_all add: demo_state_def)

end
