(* ===== verification/Json_Print_Facts.thy ===== *)
theory Json_Print_Facts
  imports Json_Memory Json_Number_Facts
begin

text \<open>
  The printer computes the reference text: for an item that holds a value, \<open>print_value\<close> returns a new
  string with exactly the text \<open>render\<close> gives, or a null pointer when an allocation has failed. Either
  way every other string and array it has allocated is freed again, no other object changes, and no
  write passes the end of a buffer.
\<close>

section \<open>What printing has to do\<close>

text \<open>The result is the only new object, or nothing is left behind.\<close>

definition printed :: "jstate \<Rightarrow> (addr \<times> jstate) option \<Rightarrow> string \<Rightarrow> bool" where
  "printed s r t \<longleftrightarrow>
     (\<exists>q s'. r = Some (q, s') \<and> fresh s' \<and> later s s' \<and> owned (heap s) [q] (heap s')
        \<and> (if q = NULL then \<exists>k. \<not> alloc_ok s k else heap s' q = Some (Text t)))"

lemma printedE:
  assumes "printed s r t"
  obtains (fail) s' where "r = Some (NULL, s')" "fresh s'" "later s s'" "heap s' = heap s"
      "\<exists>k. \<not> alloc_ok s k"
  | (ok) q s' where "r = Some (q, s')" "fresh s'" "later s s'" "q \<noteq> NULL" "owned (heap s) [q] (heap s')"
      "heap s' q = Some (Text t)"
  using assms owned_NULL [of "heap s" "[]" "[]"] unfolding printed_def
  by (cases r) (auto split: if_splits)

lemma printed_fail:
  "fresh s' \<Longrightarrow> later s s' \<Longrightarrow> heap s' = heap s \<Longrightarrow> \<exists>k. \<not> alloc_ok s k \<Longrightarrow> printed s (Some (NULL, s')) t"
  using owned_NULL [of "heap s" "[]" "[]"] by (simp add: printed_def)

lemma printed_ok:
  "fresh s' \<Longrightarrow> later s s' \<Longrightarrow> q \<noteq> NULL \<Longrightarrow> owned (heap s) [q] (heap s') \<Longrightarrow>
     heap s' q = Some (Text t) \<Longrightarrow> printed s (Some (q, s')) t"
  by (simp add: printed_def)

lemma later_alloc_ok: "later s s' \<Longrightarrow> alloc_ok s' = alloc_ok s"
  by (simp add: later_def)

section \<open>Single texts\<close>

lemma strdup_printed: "fresh s \<Longrightarrow> printed s (Some (cJSON_strdup t s)) t"
proof -
  assume "fresh s"
  then show ?thesis
    by (rule jalloc_cases [of s "Text t"])
      (auto simp: cJSON_strdup_def intro!: printed_fail printed_ok owned_one)
qed

text \<open>A new string that is filled after it was allocated.\<close>

lemma filled_printed:
  assumes "fresh s"
  shows "printed s (let (out, s) = jalloc (Text '''') s
      in if out = NULL then Some (NULL, s) else do { s \<leftarrow> set_text out t s; Some (out, s) }) t"
  using assms
proof (rule jalloc_cases [of s "Text ''''"])
  fix s' assume "jalloc (Text '''') s = (NULL, s')" "heap s' = heap s" "later s s'" "fresh s'"
    "\<exists>k. \<not> alloc_ok s k"
  then show ?thesis by (simp add: printed_fail)
next
  fix p s' assume p: "jalloc (Text '''') s = (p, s')" "p \<noteq> NULL" "heap s p = None"
    "heap s' = (heap s)(p \<mapsto> Text '''')" "later s s'" "fresh s'"
  let ?s = "s'\<lparr>heap := (heap s)(p \<mapsto> Text t)\<rparr>"
  have "set_text p t s' = Some ?s" using p by (simp add: set_text_new)
  moreover have "fresh ?s" using fresh_upd [OF p(6), of p "Some (Text t)"] p(4) by simp
  moreover have "later s ?s" using p(5) by (simp add: later_def)
  ultimately show ?thesis using p by (simp add: printed_ok owned_one)
qed

lemma new_text_printed:
  assumes "fresh s" and "length t < sz"
  shows "printed s (new_text sz t s) t"
  using filled_printed [OF assms(1), of t] assms(2)
  by (cases "jalloc (Text '''') s") (simp add: new_text_def put_def split: if_splits)

lemma print_string_ptr_printed:
  assumes "fresh s" and "p \<noteq> NULL" and "heap s p = Some (Text cs)"
  shows "printed s (print_string_ptr p s) (quote cs)"
  using filled_printed [OF assms(1), of "quote cs"] assms(2,3)
  by (cases "jalloc (Text '''') s")
    (simp add: print_string_ptr_def opt_text_def text_at_def print_string_quote split: if_splits)

lemma print_number_printed:
  assumes "fresh s" and "heap s it = Some (Item x)" and "is_double (j_valuedouble x)"
  shows "printed s (print_number it s) (snd (print_number_text (j_valueint x) (j_valuedouble x)))"
  using new_text_printed [OF assms(1) print_number_fits_buffer [OF assms(3), of "j_valueint x"]] assms(2)
  by (simp add: print_number_def item_def split_beta)

section \<open>Arrays\<close>

abbreviation text_in :: "(addr \<rightharpoonup> jobj) \<Rightarrow> addr \<Rightarrow> string \<Rightarrow> bool" where
  "text_in h e x \<equiv> e \<noteq> NULL \<and> h e = Some (Text x)"

text \<open>\<open>pv\<close> prints the item \<open>q\<close> as \<open>x\<close> in every memory that extends \<open>H\<close>.\<close>

definition prints :: "(addr \<rightharpoonup> jobj) \<Rightarrow> (addr \<Rightarrow> jstate \<Rightarrow> (addr \<times> jstate) option) \<Rightarrow> addr \<Rightarrow> string \<Rightarrow> bool" where
  "prints H pv q x \<longleftrightarrow> (\<forall>s. fresh s \<longrightarrow> H \<subseteq>\<^sub>m heap s \<longrightarrow> printed s (pv q s) x)"

definition sum_len :: "nat \<Rightarrow> string list \<Rightarrow> nat" where
  "sum_len k xs = sum_list (map (\<lambda>x. length x + k) xs)"

lemma sum_len_simps [simp]: "sum_len k [] = 0" "sum_len k (x # xs) = length x + k + sum_len k xs"
  by (simp_all add: sum_len_def)

definition entries_done :: "nat \<Rightarrow> nat \<Rightarrow> string list \<Rightarrow> jstate
    \<Rightarrow> (addr list \<times> nat \<times> bool \<times> jstate) option \<Rightarrow> bool" where
  "entries_done k len xs s r \<longleftrightarrow>
     (\<exists>es len' fail s'. r = Some (es, len', fail, s') \<and> fresh s' \<and> later s s'
        \<and> owned (heap s) es (heap s')
        \<and> (if fail then \<exists>k. \<not> alloc_ok s k
           else list_all2 (text_in (heap s')) es xs \<and> len' = len + sum_len k xs))"

lemma entries_done_step:
  assumes "owned (heap s) [q] (heap s')" "q \<noteq> NULL" "heap s' q = Some (Text x)" "later s s'"
    and "entries_done k (len + length x + k) xs s' r"
  shows "entries_done k len (x # xs) s (do { (es, len, fail, s) \<leftarrow> r; Some (q # es, len, fail, s) })"
proof -
  from assms(5) obtain es len' fail s'' where r: "r = Some (es, len', fail, s'')" "fresh s''" "later s' s''"
    "owned (heap s') es (heap s'')"
    and f: "if fail then \<exists>k. \<not> alloc_ok s' k
      else list_all2 (text_in (heap s'')) es xs \<and> len' = len + length x + k + sum_len k xs"
    unfolding entries_done_def by blast
  have "owned (heap s) (q # es) (heap s'')" using owned_trans [OF assms(1) r(4)] by simp
  moreover have "heap s'' q = Some (Text x)" using owned_kept [OF r(4)] assms(3) by simp
  moreover have "later s s''" by (rule later_trans [OF assms(4) r(3)])
  ultimately show ?thesis using r(1,2) f assms(2) later_alloc_ok [OF assms(4)]
    unfolding entries_done_def by (cases fail) auto
qed

lemma print_entries_done:
  "chain H child qs \<Longrightarrow> list_all2 (prints H (pv (depth + 1))) qs xs \<Longrightarrow> H \<subseteq>\<^sub>m heap s \<Longrightarrow> fresh s \<Longrightarrow>
     length qs < n \<Longrightarrow>
     entries_done (2 + (if fmt then 1 else 0)) len xs s (print_entries pv fmt n depth child len s)"
proof (induction qs arbitrary: child xs s n len)
  case Nil
  then show ?case by (cases n) (auto simp: entries_done_def)
next
  case (Cons q qs)
  let ?k = "2 + (if fmt then 1 else 0) :: nat"
  from Cons.prems(2) obtain y ys where xs: "xs = y # ys" "prints H (pv (depth + 1)) q y"
    "list_all2 (prints H (pv (depth + 1))) qs ys" by (auto simp: list_all2_Cons1)
  from Cons.prems(5) obtain m where n: "n = Suc m" "length qs < m" by (cases n) auto
  from Cons.prems(1) obtain x where x: "child = q" "q \<noteq> NULL" "H q = Some (Item x)" "chain H (j_next x) qs"
    by auto
  have "printed s (pv (depth + 1) q s) y" using xs(2) Cons.prems(3,4) by (simp add: prints_def)
  then show ?case
  proof (cases rule: printedE)
    case (fail s')
    then show ?thesis using x(1,2) n(1) owned_NULL [of "heap s" "[]" "[]"]
      by (auto simp: entries_done_def intro!: exI [of _ True])
  next
    case (ok e s')
    have le: "H \<subseteq>\<^sub>m heap s'" using Cons.prems(3) owned_le [OF ok(5)] by (rule map_le_trans)
    have "heap s' q = Some (Item x)" using le x(3) by (rule map_le_Some)
    then have "print_entries pv fmt n depth child len s =
        do { (es, len, fail, s) \<leftarrow> print_entries pv fmt m depth (j_next x) (len + length y + ?k) s';
             Some (e # es, len, fail, s) }"
      using x(1,2) n(1) ok(1,4,6) by (simp add: text_at_def item_def)
    moreover have "entries_done ?k (len + length y + ?k) ys s' (print_entries pv fmt m depth (j_next x) (len + length y + ?k) s')"
      by (rule Cons.IH [OF x(4) xs(3) le ok(2) n(2)])
    ultimately show ?thesis using entries_done_step [OF ok(5,4,6,3)] xs(1) by simp
  qed
qed

lemma length_join: "length (join sep xs) \<le> sum_len (length sep) xs"
  by (induction sep xs rule: join.induct) auto

text \<open>Copying and freeing the elements.\<close>

lemma free_owned:
  assumes "owned H (as @ e # bs) (heap s)" "e \<noteq> NULL" "fresh s"
  shows "\<exists>s'. jfree e s = Some s' \<and> heap s' = (heap s)(e := None) \<and> owned H (as @ bs) (heap s')
    \<and> fresh s' \<and> later s s' \<and> e \<notin> set as \<union> set bs"
  using owned_distinct [OF assms(1,2)] owned_free [OF assms(1,2)] assms(2,3)
  by (auto simp: jfree_live fresh_del)

lemma list_all2_text_upd:
  "list_all2 (text_in h) es xs \<Longrightarrow> e \<notin> set es \<Longrightarrow> list_all2 (text_in (h(e := v))) es xs"
  by (induction es xs rule: list_all2_induct) auto

lemma compose_array_done:
  "owned H (as @ es @ bs) (heap s) \<Longrightarrow> fresh s \<Longrightarrow> list_all2 (text_in (heap s)) es xs \<Longrightarrow>
     length out + sum_len (if fmt then 3 else 2) xs \<le> n \<Longrightarrow>
     \<exists>s'. compose_array n fmt out es s = Some (out @ join (if fmt then '', '' else '','') xs, s')
       \<and> owned H (as @ bs) (heap s') \<and> fresh s' \<and> later s s'
       \<and> (\<forall>p. p \<notin> set es \<longrightarrow> heap s' p = heap s p)"
proof (induction es arbitrary: out xs s)
  case (Cons e es)
  let ?sep = "if fmt then '', '' else '',''"
  from Cons.prems(3) obtain y ys where xs: "xs = y # ys" "text_in (heap s) e y"
    "list_all2 (text_in (heap s)) es ys" by (auto simp: list_all2_Cons1)
  from free_owned [of H as e "es @ bs" s] Cons.prems(1,2) xs(2)
  obtain s1 where s1: "jfree e s = Some s1" "heap s1 = (heap s)(e := None)" "owned H (as @ es @ bs) (heap s1)"
    "fresh s1" "later s s1" "e \<notin> set as \<union> set (es @ bs)" by auto
  define out' where "out' = out @ y @ (if es \<noteq> [] then ?sep else [])"
  have "list_all2 (text_in (heap s1)) es ys" using list_all2_text_upd [OF xs(3)] s1(2,6) by simp
  moreover have "length out' + sum_len (if fmt then 3 else 2) ys \<le> n"
    using Cons.prems(4) xs(1) by (auto simp: out'_def)
  ultimately obtain s2 where s2: "compose_array n fmt out' es s1 = Some (out' @ join ?sep ys, s2)"
    "owned H (as @ bs) (heap s2)" "fresh s2" "later s1 s2" "\<forall>p. p \<notin> set es \<longrightarrow> heap s2 p = heap s1 p"
    using Cons.IH [OF s1(3,4)] by blast
  have "compose_array n fmt out (e # es) s = compose_array n fmt out' es s1"
    using xs(1,2) Cons.prems(4) s1(1) by (auto simp: text_at_def put_def out'_def)
  moreover have "out' @ join ?sep ys = out @ join ?sep xs"
    using xs(1,3) by (cases ys) (auto simp: out'_def)
  ultimately show ?case using s1(2) s2 later_trans [OF s1(5) s2(4)] by simp
qed auto

lemma sum_len_mono: "j \<le> k \<Longrightarrow> sum_len j xs \<le> sum_len k xs"
  by (induction xs) auto

text \<open>The failure path: the strings printed so far, then the arrays of pointers.\<close>

lemma owned_swap: "owned H (xs @ ys) h = owned H (ys @ xs) h"
  by (auto simp: owned_def)

lemma cleanup_printed:
  assumes "owned (heap s) es (heap s')" "later s s'" "fresh s'" "\<exists>k. \<not> alloc_ok s k"
  shows "printed s (do { s \<leftarrow> run_list jfree es s'; Some (NULL, s) }) t"
proof -
  from free_all [OF assms(1,3)] obtain s'' where "run_list jfree es s' = Some s''" "heap s'' = heap s"
    "later s' s''" "fresh s''" by auto
  then show ?thesis using assms(2,4) later_trans by (auto intro!: printed_fail)
qed

lemma fill_printed:
  assumes "owned (heap s) [q] (heap s')" "heap s' q = Some (Text u)" "q \<noteq> NULL" "later s s'" "fresh s'"
  shows "printed s (do { s \<leftarrow> set_text q t s'; Some (q, s) }) t"
proof -
  let ?s = "s'\<lparr>heap := (heap s')(q \<mapsto> Text t)\<rparr>"
  have "fresh ?s" using assms(2,5) by (intro fresh_upd) auto
  moreover have "owned (heap s) [q] (heap ?s)" using owned_upd [of "heap s" "[]" q "[]"] assms(1,3) by simp
  moreover have "later s ?s" using assms(4) by (simp add: later_def)
  ultimately show ?thesis using assms(2,3) by (simp add: set_text_new printed_ok)
qed

text \<open>The two ends of \<open>print_array\<close> once the elements are printed: the arrays \<open>as\<close> are freed last.\<close>

lemma finish_printed:
  assumes o2: "owned (heap s) (as @ es) (heap s2)" and l2: "later s s2" and "fresh s2"
    and f: "fail \<Longrightarrow> \<exists>k. \<not> alloc_ok s k"
    and ok: "\<And>q s3. \<not> fail \<Longrightarrow> owned (heap s) (as @ es @ [q]) (heap s3) \<Longrightarrow> q \<notin> set es \<Longrightarrow> q \<notin> set as \<Longrightarrow>
        q \<noteq> NULL \<Longrightarrow> heap s3 = (heap s2)(q \<mapsto> Text '''') \<Longrightarrow> later s s3 \<Longrightarrow> fresh s3 \<Longrightarrow>
        printed s (fin q s3) t"
  shows "printed s (let (out, s) = (if fail then (NULL, s2) else jalloc (Text '''') s2)
     in if out = NULL then do { s \<leftarrow> run_list jfree (es @ as) s; Some (NULL, s) } else fin out s) t"
proof -
  have clean: "printed s (do { s \<leftarrow> run_list jfree (es @ as) s'; Some (NULL, s) }) t"
    if "heap s' = heap s2" "later s2 s'" "fresh s'" "\<exists>k. \<not> alloc_ok s k" for s'
    using o2 that l2 owned_swap [of "heap s" as es] by (intro cleanup_printed) (auto intro: later_trans)
  show ?thesis
  proof (cases fail)
    case True
    then show ?thesis using clean [of s2] f assms(3) by simp
  next
    case False
    from assms(3) show ?thesis
    proof (rule jalloc_cases [of s2 "Text ''''"])
      fix s' assume "jalloc (Text '''') s2 = (NULL, s')" "heap s' = heap s2" "later s2 s'" "fresh s'"
        "\<exists>k. \<not> alloc_ok s2 k"
      then show ?thesis using clean [of s'] False later_alloc_ok [OF l2] by simp
    next
      fix q s3 assume q: "jalloc (Text '''') s2 = (q, s3)" "q \<noteq> NULL" "heap s2 q = None"
        "heap s3 = (heap s2)(q \<mapsto> Text '''')" "later s2 s3" "fresh s3"
      have o3: "owned (heap s) ((as @ es) @ [q]) (heap s3)" unfolding q(4) by (rule owned_snoc [OF o2 q(3,2)])
      have "q \<notin> set (as @ es)" using owned_distinct [OF o3 q(2)] by simp
      then have "printed s (fin q s3) t"
        using False o3 q(2,4,6) later_trans [OF l2 q(5)] by (intro ok) auto
      then show ?thesis using False q(1,2) by simp
    qed
  qed
qed

lemma run_list_two: "do { s \<leftarrow> run_list f (xs @ [a]) s; g s } = do { s \<leftarrow> run_list f xs s; s \<leftarrow> f a s; g s }"
  by (simp add: run_list_append)

lemma print_array_printed:
  assumes s: "fresh s" "heap s it = Some (Item x)" "chain (heap s) (j_child x) qs"
    and pv: "list_all2 (prints (heap s) (pv (depth + 1))) qs xs"
  shows "printed s (print_array pv fmt depth it s)
    (''['' @ join (if fmt then '', '' else '','') xs @ '']'')"
proof -
  let ?sep = "if fmt then '', '' else '',''" and ?k = "2 + (if fmt then 1 else 0) :: nat"
  have sib: "siblings (j_child x) s = Some qs" by (rule siblings_chain [OF s(3) fresh_NULL [OF s(1)]])
  show ?thesis
  proof (cases "qs = []")
    case True
    then have "xs = []" using pv by simp
    then show ?thesis using new_text_printed [OF s(1), of "''[]''" 3] s(2) sib True
      by (simp add: print_array_def item_def)
  next
    case False
    from s(1) show ?thesis
    proof (rule jalloc_cases [of s "Pointers (length qs)"])
      fix s' assume "jalloc (Pointers (length qs)) s = (NULL, s')" "heap s' = heap s" "later s s'" "fresh s'"
        "\<exists>k. \<not> alloc_ok s k"
      then show ?thesis using s(2) sib False by (simp add: print_array_def item_def printed_fail)
    next
      fix a s1 assume a: "jalloc (Pointers (length qs)) s = (a, s1)" "a \<noteq> NULL" "heap s a = None"
        "heap s1 = (heap s)(a \<mapsto> Pointers (length qs))" "later s s1" "fresh s1"
      have o1: "owned (heap s) [a] (heap s1)" unfolding a(4) using a(3,2) by (rule owned_one)
      from print_entries_done [where pv = pv and depth = depth and n = "Suc (length qs)" and len = 5 and fmt = fmt,
        OF s(3) pv owned_le [OF o1] a(6)]
      obtain es len fail s2 where e: "print_entries pv fmt (Suc (length qs)) depth (j_child x) 5 s1 = Some (es, len, fail, s2)"
        "fresh s2" "later s1 s2" "owned (heap s1) es (heap s2)"
        and f: "if fail then \<exists>k. \<not> alloc_ok s1 k
          else list_all2 (text_in (heap s2)) es xs \<and> len = 5 + sum_len ?k xs"
        unfolding entries_done_def by auto
      let ?fin = "\<lambda>out s. do {
         t \<leftarrow> put len [] ''['';
         _ \<leftarrow> put len t [NUL];
         (t, s) \<leftarrow> compose_array len fmt t es s;
         s \<leftarrow> jfree a s;
         t \<leftarrow> put len t '']'';
         _ \<leftarrow> put len t [NUL];
         s \<leftarrow> set_text out t s;
         Some (out, s)
       }"
      have run: "print_array pv fmt depth it s =
        (let (out, s) = (if fail then (NULL, s2) else jalloc (Text '''') s2)
         in if out = NULL then do { s \<leftarrow> run_list jfree (es @ [a]) s; Some (NULL, s) } else ?fin out s)"
        using s(2) sib False a(1,2) e(1) unfolding run_list_two
        by (simp add: print_array_def item_def Let_def del: print_entries.simps)
      have fin: "printed s (?fin q s3) (''['' @ join ?sep xs @ '']'')"
        if ok: "\<not> fail" and o3: "owned (heap s) ([a] @ es @ [q]) (heap s3)" and q: "q \<notin> set es" "q \<notin> set [a]" "q \<noteq> NULL"
          "heap s3 = (heap s2)(q \<mapsto> Text '''')" "later s s3" "fresh s3" for q s3
      proof -
        have "list_all2 (text_in (heap s3)) es xs"
          unfolding q(4) using f ok q(1) by (intro list_all2_text_upd) auto
        moreover have len: "len = 5 + sum_len (if fmt then 3 else 2) xs" using f ok by (cases fmt) auto
        ultimately obtain s4 where s4: "compose_array len fmt ''['' es s3 = Some (''['' @ join ?sep xs, s4)"
          "owned (heap s) ([a] @ [q]) (heap s4)" "fresh s4" "later s3 s4" "heap s4 q = Some (Text '''')"
          using compose_array_done [OF o3 q(6), of xs "''[''" fmt len] q(1,4) by auto
        from free_owned [of "heap s" "[]" a "[q]" s4] s4(2,3) a(2)
        obtain s5 where s5: "jfree a s4 = Some s5" "heap s5 = (heap s4)(a := None)" "owned (heap s) [q] (heap s5)"
          "fresh s5" "later s4 s5" by auto
        have "length (join ?sep xs) \<le> sum_len (if fmt then 3 else 2) xs"
          using length_join [of ?sep xs] sum_len_mono [of "length ?sep" "if fmt then 3 else 2" xs] by (cases fmt) auto
        then have "?fin q s3 = do { s \<leftarrow> set_text q (''['' @ join ?sep xs @ '']'') s5; Some (q, s) }"
          using s4(1) s5(1) len by (simp add: put_def)
        moreover have "later s s5" using q(5) s4(4) s5(5) by (blast intro: later_trans)
        ultimately show ?thesis using fill_printed [OF s5(3) _ q(3) _ s5(4)] s5(2) s4(5) q(2) by simp
      qed
      show ?thesis unfolding run
      proof (rule finish_printed [OF owned_trans [OF o1 e(4)] later_trans [OF a(5) e(3)] e(2)])
        show "\<exists>k. \<not> alloc_ok s k" if fail using f that later_alloc_ok [OF a(5)] by simp
      qed (rule fin)
    qed
  qed
qed

section \<open>Objects\<close>

definition flat :: "(addr \<times> addr) list \<Rightarrow> addr list" where
  "flat es = concat (map (\<lambda>(a, b). [a, b]) es)"

lemma flat_simps [simp]: "flat [] = []" "flat ((a, b) # es) = a # b # flat es"
  by (simp_all add: flat_def)

lemma free_members: "run_list free_member es s = run_list jfree (flat es) s"
proof (induction es arbitrary: s)
  case (Cons e es)
  obtain a b where "e = (a, b)" by (cases e)
  moreover have "run_list free_member es = run_list jfree (flat es)" using Cons by (simp add: fun_eq_iff)
  ultimately show ?case by (cases "jfree a s") (simp_all add: free_member_def [of "(a, b)"])
qed simp

text \<open>The name and the value of a member, and the room they take.\<close>

definition text_member :: "(addr \<rightharpoonup> jobj) \<Rightarrow> addr \<times> addr \<Rightarrow> string \<times> string \<Rightarrow> bool" where
  "text_member h e x \<longleftrightarrow> text_in h (fst e) (fst x) \<and> text_in h (snd e) (snd x)"

definition members_len :: "bool \<Rightarrow> nat \<Rightarrow> (string \<times> string) list \<Rightarrow> nat" where
  "members_len fmt depth xs = sum_len (2 + (if fmt then 2 + depth else 0)) (map (\<lambda>(n, v). n @ v) xs)"

lemma members_len_simps [simp]:
  "members_len fmt depth [] = 0"
  "members_len fmt depth ((n, v) # xs) =
     length n + length v + 2 + (if fmt then 2 + depth else 0) + members_len fmt depth xs"
  by (simp_all add: members_len_def)

definition members_done :: "bool \<Rightarrow> nat \<Rightarrow> nat \<Rightarrow> bool \<Rightarrow> (string \<times> string) list \<Rightarrow> jstate
    \<Rightarrow> ((addr \<times> addr) list \<times> nat \<times> bool \<times> jstate) option \<Rightarrow> bool" where
  "members_done fmt depth len fail xs s r \<longleftrightarrow>
     (\<exists>es len' fail' s'. r = Some (es, len', fail', s') \<and> fresh s' \<and> later s s'
        \<and> owned (heap s) (flat es) (heap s')
        \<and> (if fail' then fail \<or> (\<exists>k. \<not> alloc_ok s k)
           else \<not> fail \<and> list_all2 (text_member (heap s')) es xs \<and> len' = len + members_len fmt depth xs))"

text \<open>The member at \<open>q\<close> is printed as the name \<open>fst x\<close> and the value \<open>snd x\<close>.\<close>

definition prints_member :: "(addr \<rightharpoonup> jobj) \<Rightarrow> (addr \<Rightarrow> jstate \<Rightarrow> (addr \<times> jstate) option) \<Rightarrow> addr \<Rightarrow> string \<times> string \<Rightarrow> bool" where
  "prints_member H pv q x \<longleftrightarrow> (\<exists>n. named H q n \<and> fst x = quote n) \<and> prints H pv q (snd x)"

lemma members_done_step:
  assumes o: "owned (heap s) [a, b] (heap s2)" and l: "later s s2"
    and a: "a = NULL \<or> b = NULL \<Longrightarrow> \<exists>k. \<not> alloc_ok s k"
    and t: "a \<noteq> NULL \<Longrightarrow> b \<noteq> NULL \<Longrightarrow> text_member (heap s2) (a, b) x"
    and r: "members_done fmt depth
        (if a \<noteq> NULL \<and> b \<noteq> NULL then len + members_len fmt depth [x] else len)
        (\<not> (a \<noteq> NULL \<and> b \<noteq> NULL) \<or> fail) xs s2 r"
  shows "members_done fmt depth len fail (x # xs) s
    (do { (es, len, fail, s) \<leftarrow> r; Some ((a, b) # es, len, fail, s) })"
proof -
  let ?ok = "a \<noteq> NULL \<and> b \<noteq> NULL"
  from r obtain es len' fail' s' where r': "r = Some (es, len', fail', s')" "fresh s'" "later s2 s'"
    "owned (heap s2) (flat es) (heap s')"
    and f: "if fail' then (\<not> ?ok \<or> fail) \<or> (\<exists>k. \<not> alloc_ok s2 k)
      else \<not> (\<not> ?ok \<or> fail) \<and> list_all2 (text_member (heap s')) es xs
        \<and> len' = (if ?ok then len + members_len fmt depth [x] else len) + members_len fmt depth xs"
    unfolding members_done_def by blast
  have "owned (heap s) (flat ((a, b) # es)) (heap s')" using owned_trans [OF o r'(4)] by simp
  moreover have "text_member (heap s') (a, b) x" if ?ok
    using t that owned_kept [OF r'(4)] by (auto simp: text_member_def)
  moreover have "members_len fmt depth (x # xs) = members_len fmt depth [x] + members_len fmt depth xs"
    by (cases x) simp
  ultimately show ?thesis using r'(1,2) f a later_trans [OF l r'(3)] later_alloc_ok [OF l]
    unfolding members_done_def by (cases fail') auto
qed

lemma print_members_done:
  "chain H child qs \<Longrightarrow> list_all2 (prints_member H (pv depth)) qs xs \<Longrightarrow> H \<subseteq>\<^sub>m heap s \<Longrightarrow> fresh s \<Longrightarrow>
     length qs < n \<Longrightarrow>
     members_done fmt depth len fail xs s (print_members pv fmt n depth child len fail s)"
proof (induction qs arbitrary: child xs s n len fail)
  case Nil
  then show ?case by (cases n) (auto simp: members_done_def)
next
  case (Cons q qs)
  from Cons.prems(2) obtain y ys where xs: "xs = y # ys" "prints_member H (pv depth) q y"
    "list_all2 (prints_member H (pv depth)) qs ys" by (auto simp: list_all2_Cons1)
  from Cons.prems(5) obtain m where n: "n = Suc m" "length qs < m" by (cases n) auto
  from Cons.prems(1) obtain x where x: "child = q" "q \<noteq> NULL" "H q = Some (Item x)" "chain H (j_next x) qs"
    by auto
  from xs(2) x(3) obtain nm where nm: "j_string x \<noteq> NULL" "H (j_string x) = Some (Text nm)" "fst y = quote nm"
    by (auto simp: prints_member_def named_def)
  have "printed s (print_string_ptr (j_string x) s) (fst y)"
    unfolding nm(3) by (rule print_string_ptr_printed [OF Cons.prems(4) nm(1) map_le_Some [OF Cons.prems(3) nm(2)]])
  then obtain a s1 where a: "print_string_ptr (j_string x) s = Some (a, s1)" "fresh s1" "later s s1"
    "owned (heap s) [a] (heap s1)" "if a = NULL then \<exists>k. \<not> alloc_ok s k else heap s1 a = Some (Text (fst y))"
    by (auto simp: printed_def)
  have le1: "H \<subseteq>\<^sub>m heap s1" using Cons.prems(3) owned_le [OF a(4)] by (rule map_le_trans)
  then have "printed s1 (pv depth q s1) (snd y)" using xs(2) a(2) by (auto simp: prints_member_def prints_def)
  then obtain b s2 where b: "pv depth q s1 = Some (b, s2)" "fresh s2" "later s1 s2"
    "owned (heap s1) [b] (heap s2)" "if b = NULL then \<exists>k. \<not> alloc_ok s1 k else heap s2 b = Some (Text (snd y))"
    by (auto simp: printed_def)
  have le2: "H \<subseteq>\<^sub>m heap s2" using le1 owned_le [OF b(4)] by (rule map_le_trans)
  have o: "owned (heap s) [a, b] (heap s2)" using owned_trans [OF a(4) b(4)] by simp
  have al: "a \<noteq> NULL \<Longrightarrow> heap s2 a = Some (Text (fst y))" using a(5) owned_kept [OF b(4)] by simp
  let ?ok = "a \<noteq> NULL \<and> b \<noteq> NULL"
  let ?len = "if ?ok then len + members_len fmt depth [y] else len" and ?fail = "\<not> ?ok \<or> fail"
  have "heap s q = Some (Item x)" "heap s2 q = Some (Item x)"
    using map_le_Some [OF Cons.prems(3) x(3)] map_le_Some [OF le2 x(3)] by simp_all
  then have "print_members pv fmt n depth child len fail s =
      do { (es, len, fail, s) \<leftarrow> print_members pv fmt m depth (j_next x) ?len ?fail s2;
           Some ((a, b) # es, len, fail, s) }"
    using x(1,2) n(1) a(1) b(1,5) al by (cases y) (auto simp: text_at_def item_def ac_simps)
  moreover have "members_done fmt depth ?len ?fail ys s2 (print_members pv fmt m depth (j_next x) ?len ?fail s2)"
    by (rule Cons.IH [OF x(4) xs(3) le2 b(2) n(2)])
  moreover have "text_member (heap s2) (a, b) y" if ?ok using al that b(5) by (simp add: text_member_def)
  moreover have "\<exists>k. \<not> alloc_ok s k" if "a = NULL \<or> b = NULL"
    using that a(5) b(5) later_alloc_ok [OF a(3)] by auto
  ultimately show ?case
    using members_done_step [OF o later_trans [OF a(3) b(3)]] xs(1) by simp
qed

text \<open>A member as the copying loop writes it.\<close>

definition put_member :: "bool \<Rightarrow> nat \<Rightarrow> string \<times> string \<Rightarrow> string" where
  "put_member fmt depth x =
     (if fmt then replicate depth TAB else []) @ fst x @ (if fmt then [CHR '':'', TAB] else [CHR '':'']) @ snd x"

definition put_members :: "bool \<Rightarrow> nat \<Rightarrow> (string \<times> string) list \<Rightarrow> string" where
  "put_members fmt depth xs =
     join (if fmt then [CHR '','', LF] else '','') (map (put_member fmt depth) xs)
     @ (if fmt \<and> xs \<noteq> [] then [LF] else [])"

lemma put_members_Cons:
  "put_members fmt depth (x # xs) =
     put_member fmt depth x @ (if xs \<noteq> [] then '','' else []) @ (if fmt then [LF] else []) @ put_members fmt depth xs"
  by (cases xs) (auto simp: put_members_def)

lemma length_put_members: "length (put_members fmt depth xs) \<le> members_len fmt depth xs"
proof (induction xs)
  case (Cons x xs)
  then show ?case by (cases x) (auto simp: put_members_Cons put_member_def)
qed (simp add: put_members_def)

lemma list_all2_member_upd:
  "list_all2 (text_member h) es xs \<Longrightarrow> e \<notin> set (flat es) \<Longrightarrow> list_all2 (text_member (h(e := v))) es xs"
  by (induction es xs rule: list_all2_induct) (auto simp: text_member_def)

lemma compose_object_done:
  "owned H (as @ flat es @ bs) (heap s) \<Longrightarrow> fresh s \<Longrightarrow> list_all2 (text_member (heap s)) es xs \<Longrightarrow>
     length out + members_len fmt depth xs < n \<Longrightarrow>
     \<exists>s'. compose_object n fmt depth out es s = Some (out @ put_members fmt depth xs, s')
       \<and> owned H (as @ bs) (heap s') \<and> fresh s' \<and> later s s'
       \<and> (\<forall>p. p \<notin> set (flat es) \<longrightarrow> heap s' p = heap s p)"
proof (induction es arbitrary: out xs s)
  case Nil
  then show ?case by (simp add: put_members_def)
next
  case (Cons e es)
  obtain a b where e: "e = (a, b)" by (cases e)
  from Cons.prems(3) obtain y ys where xs: "xs = y # ys" "text_member (heap s) (a, b) y"
    "list_all2 (text_member (heap s)) es ys" by (auto simp: list_all2_Cons1 e)
  from free_owned [of H as a "b # flat es @ bs" s] Cons.prems(1,2) xs(2)
  obtain s1 where s1: "jfree a s = Some s1" "heap s1 = (heap s)(a := None)" "owned H (as @ b # flat es @ bs) (heap s1)"
    "fresh s1" "later s s1" "a \<notin> set (as @ b # flat es @ bs)" by (auto simp: e text_member_def)
  from free_owned [OF s1(3) _ s1(4)] xs(2)
  obtain s2 where s2: "jfree b s1 = Some s2" "heap s2 = (heap s1)(b := None)" "owned H (as @ flat es @ bs) (heap s2)"
    "fresh s2" "later s1 s2" "b \<notin> set (as @ flat es @ bs)" by (auto simp: text_member_def)
  define out' where "out' = out @ put_member fmt depth y @ (if es \<noteq> [] then '','' else []) @ (if fmt then [LF] else [])"
  have "list_all2 (text_member (heap s2)) es ys"
    unfolding s2(2) s1(2) using s1(6) s2(6) by (intro list_all2_member_upd xs(3)) auto
  moreover have len: "length out' + members_len fmt depth ys < n"
    using Cons.prems(4) unfolding xs(1) by (cases y) (auto simp: out'_def put_member_def)
  ultimately obtain s3 where s3: "compose_object n fmt depth out' es s2 = Some (out' @ put_members fmt depth ys, s3)"
    "owned H (as @ bs) (heap s3)" "fresh s3" "later s2 s3" "\<forall>p. p \<notin> set (flat es) \<longrightarrow> heap s3 p = heap s2 p"
    using Cons.IH [OF s2(3,4)] by blast
  have "es = [] \<longleftrightarrow> ys = []" using xs(3) by auto
  then have "out' @ put_members fmt depth ys = out @ put_members fmt depth xs"
    by (simp add: xs(1) put_members_Cons out'_def)
  moreover have "compose_object n fmt depth out (e # es) s = compose_object n fmt depth out' es s2"
    using xs(2) Cons.prems(4) s1(1) s2(1) unfolding xs(1) e
    by (cases y) (auto simp: text_at_def text_member_def put_def put_str_def put_member_def out'_def)
  moreover have "later s s3" using s1(5) s2(5) s3(4) by (blast intro: later_trans)
  ultimately show ?case using s1(2) s2(2) s3 e by auto
qed

lemma print_object_printed:
  assumes s: "fresh s" "heap s it = Some (Item x)" "chain (heap s) (j_child x) qs"
    and pv: "list_all2 (prints_member (heap s) (pv (depth + 1))) qs xs"
  shows "printed s (print_object pv fmt depth it s)
    (if xs = [] then ''{'' @ (if fmt then LF # replicate (depth - 1) TAB else []) @ ''}''
     else ''{'' @ (if fmt then [LF] else []) @ put_members fmt (depth + 1) xs
       @ (if fmt then replicate depth TAB else []) @ ''}'')"
proof -
  have sib: "siblings (j_child x) s = Some qs" by (rule siblings_chain [OF s(3) fresh_NULL [OF s(1)]])
  show ?thesis
  proof (cases "qs = []")
    case True
    then have "xs = []" using pv by simp
    then show ?thesis using new_text_printed [OF s(1), of "''{'' @ (if fmt then LF # replicate (depth - 1) TAB else []) @ ''}''"
        "if fmt then depth + 4 else 3"] s(2) sib True
      by (cases fmt) (simp_all add: print_object_def item_def)
  next
    case False
    then have "xs \<noteq> []" using pv by auto
    from s(1) show ?thesis
    proof (rule jalloc_cases [of s "Pointers (length qs)"])
      fix s' assume "jalloc (Pointers (length qs)) s = (NULL, s')" "heap s' = heap s" "later s s'" "fresh s'"
        "\<exists>k. \<not> alloc_ok s k"
      then show ?thesis using s(2) sib False by (simp add: print_object_def item_def printed_fail)
    next
      fix a s1 assume a: "jalloc (Pointers (length qs)) s = (a, s1)" "a \<noteq> NULL" "heap s a = None"
        "heap s1 = (heap s)(a \<mapsto> Pointers (length qs))" "later s s1" "fresh s1"
      have o1: "owned (heap s) [a] (heap s1)" unfolding a(4) using a(3,2) by (rule owned_one)
      from a(6) show ?thesis
      proof (rule jalloc_cases [of s1 "Pointers (length qs)"])
        fix s' assume b: "jalloc (Pointers (length qs)) s1 = (NULL, s')" "heap s' = heap s1" "later s1 s'" "fresh s'"
          "\<exists>k. \<not> alloc_ok s1 k"
        have "owned (heap s) [a] (heap s')" using o1 b(2) by simp
        from cleanup_printed [OF this later_trans [OF a(5) b(3)] b(4)] b(5) later_alloc_ok [OF a(5)]
        show ?thesis using s(2) sib False a(1,2) b(1) by (simp add: print_object_def item_def)
      next
        fix b s2 assume b: "jalloc (Pointers (length qs)) s1 = (b, s2)" "b \<noteq> NULL" "heap s1 b = None"
          "heap s2 = (heap s1)(b \<mapsto> Pointers (length qs))" "later s1 s2" "fresh s2"
        have o2: "owned (heap s) ([b] @ [a]) (heap s2)"
          using owned_snoc [OF o1 b(3,2)] unfolding b(4) by (subst owned_swap)
        have l2: "later s s2" by (rule later_trans [OF a(5) b(5)])
        from print_members_done [where pv = pv and depth = "depth + 1" and n = "Suc (length qs)" and fmt = fmt
            and len = "7 + (if fmt then depth + 1 else 0)" and fail = False, OF s(3) pv owned_le [OF o2] b(6)]
        obtain es len fail s3 where e: "print_members pv fmt (Suc (length qs)) (depth + 1) (j_child x)
              (7 + (if fmt then depth + 1 else 0)) False s2 = Some (es, len, fail, s3)"
          "fresh s3" "later s2 s3" "owned (heap s2) (flat es) (heap s3)"
          and f: "if fail then \<exists>k. \<not> alloc_ok s2 k
            else list_all2 (text_member (heap s3)) es xs
              \<and> len = 7 + (if fmt then depth + 1 else 0) + members_len fmt (depth + 1) xs"
          unfolding members_done_def simp_thms by blast
        let ?fin = "\<lambda>out s. do {
             t \<leftarrow> put_str len [] (if fmt then [CHR ''{'', LF] else ''{'');
             (t, s) \<leftarrow> compose_object len fmt (depth + 1) t es s;
             s \<leftarrow> jfree b s;
             s \<leftarrow> jfree a s;
             t \<leftarrow> put len t (if fmt then replicate depth TAB else []);
             t \<leftarrow> put len t ''}'';
             _ \<leftarrow> put len t [NUL];
             s \<leftarrow> set_text out t s;
             Some (out, s)
           }"
        let ?head = "''{'' @ (if fmt then [LF] else [])" and ?ms = "put_members fmt (depth + 1) xs"
        let ?text = "?head @ ?ms @ (if fmt then replicate depth TAB else []) @ ''}''"
        have two: "do { s \<leftarrow> run_list f (flat es @ [b, a]) s; g s } =
            do { s \<leftarrow> run_list f (flat es) s; s \<leftarrow> f b s; s \<leftarrow> f a s; g s }"
          for f :: "addr \<Rightarrow> jstate \<Rightarrow> jstate option" and g :: "jstate \<Rightarrow> (addr \<times> jstate) option" and s
          by (simp add: run_list_append)
        have run: "print_object pv fmt depth it s =
          (let (out, s) = (if fail then (NULL, s3) else jalloc (Text '''') s3)
           in if out = NULL then do { s \<leftarrow> run_list jfree (flat es @ [b] @ [a]) s; Some (NULL, s) } else ?fin out s)"
          using s(2) sib False a(1,2) b(1,2) e(1)
          unfolding append_Cons append_Nil two print_object_def free_members Let_def add_diff_cancel_right'
          by (cases fmt) (simp_all add: item_def del: print_members.simps)
        have fin: "printed s (?fin q s4) ?text"
          if ok: "\<not> fail" and o4: "owned (heap s) (([b] @ [a]) @ flat es @ [q]) (heap s4)"
            and q: "q \<notin> set (flat es)" "q \<notin> set ([b] @ [a])" "q \<noteq> NULL"
              "heap s4 = (heap s3)(q \<mapsto> Text '''')" "later s s4" "fresh s4" for q s4
        proof -
          have xs4: "list_all2 (text_member (heap s4)) es xs"
            unfolding q(4) using f ok q(1) by (intro list_all2_member_upd) auto
          have len: "len = 7 + (if fmt then depth + 1 else 0) + members_len fmt (depth + 1) xs" using f ok by simp
          have room: "length ?head + members_len fmt (depth + 1) xs < len" using len by (cases fmt) simp_all
          obtain s5 where s5: "compose_object len fmt (depth + 1) ?head es s4 = Some (?head @ ?ms, s5)"
            "owned (heap s) (([b] @ [a]) @ [q]) (heap s5)" "fresh s5" "later s4 s5" "heap s5 q = Some (Text '''')"
            using compose_object_done [OF o4 q(6) xs4 room] q(1,4) by auto
          from free_owned [of "heap s" "[]" b "[a, q]" s5] s5(2,3) b(2)
          obtain s6 where s6: "jfree b s5 = Some s6" "heap s6 = (heap s5)(b := None)" "owned (heap s) [a, q] (heap s6)"
            "fresh s6" "later s5 s6" by auto
          from free_owned [of "heap s" "[]" a "[q]" s6] s6(3,4) a(2)
          obtain s7 where s7: "jfree a s6 = Some s7" "heap s7 = (heap s6)(a := None)" "owned (heap s) [q] (heap s7)"
            "fresh s7" "later s6 s7" by auto
          have "?fin q s4 = do { s \<leftarrow> set_text q ?text s7; Some (q, s) }"
            using s5(1) s6(1) s7(1) len length_put_members [of fmt "depth + 1" xs]
            by (cases fmt) (simp_all add: put_def put_str_def)
          moreover have "later s s7" using q(5) s5(4) s6(5) s7(5) by (blast intro: later_trans)
          ultimately show ?thesis using fill_printed [OF s7(3) _ q(3) _ s7(4)] s7(2) s6(2) s5(5) q(2) by simp
        qed
        have "printed s (print_object pv fmt depth it s) ?text" unfolding run
        proof (rule finish_printed [OF owned_trans [OF o2 e(4)] later_trans [OF l2 e(3)] e(2)])
          show "\<exists>k. \<not> alloc_ok s k" if fail using f that later_alloc_ok [OF l2] by simp
        qed (rule fin)
        then show ?thesis using \<open>xs \<noteq> []\<close> by simp
      qed
    qed
  qed
qed

section \<open>Values\<close>

fun height :: "json \<Rightarrow> nat" where
  "height (J_arr ts) = foldr max (map (\<lambda>t. Suc (height t)) ts) 0"
| "height (J_obj ms) = foldr max (map (\<lambda>(n, t). Suc (height t)) ms) 0"
| "height t = 0"

fun all_doubles :: "json \<Rightarrow> bool" where
  "all_doubles (J_num i d) = is_double d"
| "all_doubles (J_arr ts) = list_all all_doubles ts"
| "all_doubles (J_obj ms) = list_all (\<lambda>(n, t). all_doubles t) ms"
| "all_doubles t = True"

lemma foldr_max_le: "x \<in> set xs \<Longrightarrow> x \<le> foldr max xs (0 :: nat)"
  by (induction xs) auto

lemma height_elem: "t \<in> set ts \<Longrightarrow> height t < height (J_arr ts)"
  using foldr_max_le [of "Suc (height t)" "map (\<lambda>t. Suc (height t)) ts"] by auto

lemma height_member: "m \<in> set ms \<Longrightarrow> height (snd m) < height (J_obj ms)"
  using foldr_max_le [of "Suc (height (snd m))" "map (\<lambda>(n, t). Suc (height t)) ms"]
  by (force simp: split_beta)

text \<open>\<open>print_value\<close> with fuel above the nesting depth.\<close>

lemma holds_item_type: "h p = Some (Item x) \<Longrightarrow> holds h p t \<Longrightarrow>
   j_type x AND 255 = (case t of J_null \<Rightarrow> cJSON_NULL | J_false \<Rightarrow> cJSON_False | J_true \<Rightarrow> cJSON_True
     | J_num i d \<Rightarrow> cJSON_Number | J_str cs \<Rightarrow> cJSON_String | J_arr ts \<Rightarrow> cJSON_Array | J_obj ms \<Rightarrow> cJSON_Object)"
  by (cases rule: holds.cases) auto

lemma print_value_printed:
  "holds (heap s) p t \<Longrightarrow> p \<noteq> NULL \<Longrightarrow> fresh s \<Longrightarrow> all_doubles t \<Longrightarrow> height t < fuel \<Longrightarrow>
     printed s (print_value fuel fmt depth p s) (render fmt depth t)"
proof (induction t arbitrary: fuel depth p s)
  case J_null
  then obtain n x where "fuel = Suc n" "heap s p = Some (Item x)" "j_type x AND 255 = cJSON_NULL"
    by (cases fuel) (auto elim: holds_nullE)
  then show ?case using J_null strdup_printed [of s "''null''"] by (simp add: item_def)
next
  case J_false
  then obtain n x where "fuel = Suc n" "heap s p = Some (Item x)" "j_type x AND 255 = cJSON_False"
    by (cases fuel) (auto elim: holds_falseE)
  then show ?case using J_false strdup_printed [of s "''false''"] by (simp add: item_def)
next
  case J_true
  then obtain n x where "fuel = Suc n" "heap s p = Some (Item x)" "j_type x AND 255 = cJSON_True"
    by (cases fuel) (auto elim: holds_trueE)
  then show ?case using J_true strdup_printed [of s "''true''"] by (simp add: item_def)
next
  case (J_num i d)
  then obtain n x where x: "fuel = Suc n" "heap s p = Some (Item x)" "j_type x AND 255 = cJSON_Number"
    "i = j_valueint x" "d = j_valuedouble x"
    by (cases fuel) (auto elim: holds_numE)
  then show ?case using J_num print_number_printed [OF J_num.prems(3) x(2)] by (simp add: item_def)
next
  case (J_str cs)
  then obtain n x where x: "fuel = Suc n" "heap s p = Some (Item x)" "j_type x AND 255 = cJSON_String"
    "j_valuestring x \<noteq> NULL" "heap s (j_valuestring x) = Some (Text cs)"
    by (cases fuel) (auto elim: holds_strE)
  then show ?case using J_str print_string_ptr_printed [OF J_str.prems(3) x(4,5)]
    by (simp add: item_def print_string_def)
next
  case (J_arr ts)
  then obtain n x qs where x: "fuel = Suc n" "heap s p = Some (Item x)" "j_type x AND 255 = cJSON_Array"
    "chain (heap s) (j_child x) qs" "list_all2 (holds (heap s)) qs ts"
    by (cases fuel) (auto elim: holds_arrE)
  have "prints (heap s) (print_value n fmt (depth + 1)) q (render fmt (depth + 1) t)"
    if "(q, t) \<in> set (zip qs ts)" for q t
    unfolding prints_def
  proof (intro allI impI)
    fix s' assume s': "fresh s'" "heap s \<subseteq>\<^sub>m heap s'"
    have t: "t \<in> set ts" "holds (heap s) q t" using that x(5) by (auto simp: list_all2_iff dest: set_zip_rightD)
    then have "holds (heap s') q t" using s'(2) by (blast intro: holds_mono)
    moreover have "q \<noteq> NULL" using holds_item [OF t(2)] fresh_NULL [OF J_arr.prems(3)] by (metis option.distinct(1))
    moreover have "all_doubles t" using J_arr.prems(4) t(1) by (auto simp: list_all_iff)
    moreover have "height t < n" using height_elem [OF t(1)] J_arr.prems(5) x(1) by simp
    ultimately show "printed s' (print_value n fmt (depth + 1) q s') (render fmt (depth + 1) t)"
      by (intro J_arr.IH t(1) s'(1))
  qed
  then have "list_all2 (prints (heap s) (print_value n fmt (depth + 1))) qs (map (render fmt (depth + 1)) ts)"
    using x(5) by (auto simp: list_all2_iff zip_map2)
  from print_array_printed [where pv = "print_value n fmt" and depth = depth and fmt = fmt,
      OF J_arr.prems(3) x(2,4) this]
  show ?case using x(1-3) J_arr.prems(2) by (simp add: item_def)
next
  case (J_obj ms)
  then obtain n x qs where x: "fuel = Suc n" "heap s p = Some (Item x)" "j_type x AND 255 = cJSON_Object"
    "chain (heap s) (j_child x) qs" "list_all2 (\<lambda>q m. named (heap s) q (fst m) \<and> holds (heap s) q (snd m)) qs ms"
    by (cases fuel) (auto elim: holds_objE)
  let ?x = "\<lambda>m. (quote (fst m), render fmt (depth + 1) (snd m))"
  have "prints_member (heap s) (print_value n fmt (depth + 1)) q (?x m)"
    if "(q, m) \<in> set (zip qs ms)" for q m
    unfolding prints_member_def prints_def
  proof (intro conjI allI impI)
    have m: "m \<in> set ms" "named (heap s) q (fst m)" "holds (heap s) q (snd m)"
      using that x(5) by (auto simp: list_all2_iff dest: set_zip_rightD)
    show "\<exists>n. named (heap s) q n \<and> fst (?x m) = quote n" using m(2) by auto
    fix s' assume s': "fresh s'" "heap s \<subseteq>\<^sub>m heap s'"
    have "holds (heap s') q (snd m)" using m(3) s'(2) by (blast intro: holds_mono)
    moreover have "q \<noteq> NULL" using holds_item [OF m(3)] fresh_NULL [OF J_obj.prems(3)] by (metis option.distinct(1))
    moreover have "all_doubles (snd m)" using J_obj.prems(4) m(1) by (auto simp: list_all_iff)
    moreover have "height (snd m) < n" using height_member [OF m(1)] J_obj.prems(5) x(1) by simp
    ultimately show "printed s' (print_value n fmt (depth + 1) q s') (snd (?x m))"
      using J_obj.IH [of m "snd m"] m(1) s'(1) by (cases m) auto
  qed
  then have "list_all2 (prints_member (heap s) (print_value n fmt (depth + 1))) qs (map ?x ms)"
    using x(5) by (auto simp: list_all2_iff zip_map2)
  from print_object_printed [where pv = "print_value n fmt" and depth = depth and fmt = fmt,
      OF J_obj.prems(3) x(2,4) this]
  moreover have "(if map ?x ms = [] then ''{'' @ (if fmt then LF # replicate (depth - 1) TAB else []) @ ''}''
      else ''{'' @ (if fmt then [LF] else []) @ put_members fmt (depth + 1) (map ?x ms)
        @ (if fmt then replicate depth TAB else []) @ ''}'') = render fmt depth (J_obj ms)"
    by (cases fmt; cases "ms = []")
      (simp_all add: put_members_def put_member_def member_text_def case_prod_unfold o_def)
  ultimately show ?case using x(1-3) J_obj.prems(2) by (simp add: item_def)
qed

section \<open>The fuel is enough\<close>

text \<open>An item holds one value only, so that no item is nested in itself.\<close>

lemma chain_det: "chain h p qs \<Longrightarrow> chain h p qs' \<Longrightarrow> qs = qs'"
proof (induction qs arbitrary: p qs')
  case Nil
  then show ?case by (cases qs') auto
next
  case (Cons q qs)
  then show ?case by (cases qs') auto
qed

lemma list_all2_det:
  assumes "list_all2 P xs ys" "list_all2 Q xs zs" "\<And>x y z. P x y \<Longrightarrow> Q x z \<Longrightarrow> y = z"
  shows "ys = zs"
  using assms by (induction xs arbitrary: ys zs) (auto simp: list_all2_Cons1)

lemma holds_det: "holds h p t \<Longrightarrow> holds h p t' \<Longrightarrow> t = t'"
proof (induction t arbitrary: p t')
  case (J_arr ts)
  then obtain x qs where x: "h p = Some (Item x)" "j_type x AND 255 = cJSON_Array"
    "chain h (j_child x) qs" "list_all2 (holds h) qs ts" by (auto elim: holds_arrE)
  from J_arr.prems(2) x(1-3) obtain ts' where t': "t' = J_arr ts'" "list_all2 (holds h) qs ts'"
    by (cases rule: holds.cases) (auto dest: chain_det)
  have "list_all2 (\<lambda>q t. t \<in> set ts \<and> holds h q t) qs ts"
    using x(4) by (auto simp: list_all2_iff dest: set_zip_rightD)
  then have "ts = ts'" using t'(2) by (rule list_all2_det) (use J_arr.IH in blast)
  then show ?case using t'(1) by simp
next
  case (J_obj ms)
  then obtain x qs where x: "h p = Some (Item x)" "j_type x AND 255 = cJSON_Object"
    "chain h (j_child x) qs" "list_all2 (\<lambda>q m. named h q (fst m) \<and> holds h q (snd m)) qs ms"
    by (auto elim: holds_objE)
  from J_obj.prems(2) x(1-3) obtain ms' where t': "t' = J_obj ms'"
    "list_all2 (\<lambda>q m. named h q (fst m) \<and> holds h q (snd m)) qs ms'"
    by (cases rule: holds.cases) (auto dest: chain_det)
  have "list_all2 (\<lambda>q m. m \<in> set ms \<and> named h q (fst m) \<and> holds h q (snd m)) qs ms"
    using x(4) by (auto simp: list_all2_iff dest: set_zip_rightD)
  then have "ms = ms'" using t'(2)
  proof (rule list_all2_det)
    fix q m m' assume *: "m \<in> set ms \<and> named h q (fst m) \<and> holds h q (snd m)" "named h q (fst m') \<and> holds h q (snd m')"
    then have "snd m = snd m'" using J_obj.IH [of m "snd m" q "snd m'"] by (cases m) auto
    moreover have "fst m = fst m'" using * by (auto simp: named_def)
    ultimately show "m = m'" by (simp add: prod_eq_iff)
  qed
  then show ?case using t'(1) by simp
qed (auto elim!: holds_nullE holds_falseE holds_trueE holds_numE holds_strE elim: holds.cases)

text \<open>Below an item there is an item of every smaller height.\<close>

lemma foldr_max_ge: "k \<le> foldr max xs 0 \<Longrightarrow> k = 0 \<or> (\<exists>x \<in> set xs. k \<le> (x :: nat))"
  by (induction xs) (auto simp: le_max_iff_disj)

lemma holds_levels: "holds h p t \<Longrightarrow> k \<le> height t \<Longrightarrow> \<exists>q u. holds h q u \<and> height u = k"
proof (induction t arbitrary: p)
  case (J_arr ts)
  show ?case
  proof (cases "k = height (J_arr ts)")
    case False
    then have "Suc k \<le> foldr max (map (\<lambda>t. Suc (height t)) ts) 0" using J_arr.prems(2) by simp
    then obtain t where t: "t \<in> set ts" "k \<le> height t" using foldr_max_ge by fastforce
    from J_arr.prems(1) t(1) obtain q where "holds h q t"
      by (fastforce elim!: holds_arrE simp: list_all2_conv_all_nth in_set_conv_nth)
    from J_arr.IH [OF t(1) this t(2)] show ?thesis .
  qed (use J_arr.prems in blast)
next
  case (J_obj ms)
  show ?case
  proof (cases "k = height (J_obj ms)")
    case False
    then have "Suc k \<le> foldr max (map (\<lambda>(n, t). Suc (height t)) ms) 0" using J_obj.prems(2) by simp
    then obtain n t where t: "(n, t) \<in> set ms" "k \<le> height t" using foldr_max_ge by fastforce
    from J_obj.prems(1) t(1) obtain q where "holds h q t"
      by (fastforce elim!: holds_objE simp: list_all2_conv_all_nth in_set_conv_nth)
    from J_obj.IH [OF t(1) _ this t(2)] show ?thesis by simp
  qed (use J_obj.prems in blast)
qed (simp; metis height.simps)+

lemma height_less_n_alloc:
  assumes "holds (heap s) p t" "fresh s"
  shows "height t < n_alloc s"
proof -
  have "\<forall>k \<in> {0..height t}. \<exists>q u. holds (heap s) q u \<and> height u = k"
    using holds_levels [OF assms(1)] by simp
  then obtain f where f: "\<And>k. k \<le> height t \<Longrightarrow> \<exists>u. holds (heap s) (f k) u \<and> height u = k"
    by (metis atLeastAtMost_iff le0)
  have "inj_on f {0..height t}"
  proof (rule inj_onI)
    fix j k assume "j \<in> {0..height t}" "k \<in> {0..height t}" "f j = f k"
    with f [of j] f [of k] show "j = k" by (auto dest: holds_det)
  qed
  moreover have "f ` {0..height t} \<subseteq> {1..n_alloc s}"
  proof (rule image_subsetI)
    fix k assume "k \<in> {0..height t}"
    with f [of k] show "f k \<in> {1..n_alloc s}"
      using assms(2) by (fastforce simp: fresh_def dest: holds_item)
  qed
  ultimately have "card {0..height t} \<le> card {1..n_alloc s}" by (intro card_inj_on_le) auto
  then show ?thesis by simp
qed

lemma print_printed:
  assumes "fresh s" and "holds (heap s) p t" and "p \<noteq> NULL" and "all_doubles t"
  shows "printed s (if fmt then cJSON_Print p s else cJSON_PrintUnformatted p s) (render fmt 0 t)"
proof -
  have "height t < Suc (n_alloc s)" using height_less_n_alloc [OF assms(2,1)] by simp
  from print_value_printed [OF assms(2,3,1,4) this, of fmt 0] show ?thesis
    by (cases fmt) (simp_all add: cJSON_Print_def cJSON_PrintUnformatted_def)
qed

section \<open>Properties\<close>

text \<open>C31. \<open>cJSON_Print\<close> and \<open>cJSON_PrintUnformatted\<close> of an item that holds a value: they return, never
  read or write outside an object, and either give a new string with exactly the text of the value and
  leave every other object as it was, or, when an allocation failed, a null pointer and the memory as it
  was, so that nothing leaks.\<close>

theorem cJSON_Print_text:
  assumes "fresh s" and "holds (heap s) p t" and "p \<noteq> NULL" and "all_doubles t"
  shows "\<exists>q s'. (if fmt then cJSON_Print p s else cJSON_PrintUnformatted p s) = Some (q, s')
    \<and> (if q = NULL then heap s' = heap s \<and> (\<exists>k. \<not> alloc_ok s k)
        else heap s q = None \<and> heap s' = (heap s)(q \<mapsto> Text (render fmt 0 t)))"
proof -
  from print_printed [OF assms, of fmt] show ?thesis
  proof (cases rule: printedE)
    case (ok q s')
    then have "heap s q = None" by (auto simp: owned_def)
    moreover have "heap s' = (heap s)(q \<mapsto> Text (render fmt 0 t))" using owned_only [OF ok(5,4)] ok(6) by simp
    ultimately show ?thesis using ok(1,4) by (intro exI [of _ q] exI [of _ s']) simp
  next
    case (fail s')
    then show ?thesis by (intro exI [of _ NULL] exI [of _ s']) simp
  qed
qed

theorem cJSON_Print_text_witness:
  "\<exists>q s'. cJSON_PrintUnformatted 1 demo_state = Some (q, s')
    \<and> (if q = NULL then heap s' = heap demo_state \<and> (\<exists>k. \<not> alloc_ok demo_state k)
        else heap demo_state q = None \<and> heap s' = (heap demo_state)(q \<mapsto> Text (render False 0 (J_arr [J_str ''a'']))))"
  using cJSON_Print_text [OF demo_fresh demo_holds, of False] by simp

end
