(* ===== verification/Json_Parse_Facts.thy ===== *)
theory Json_Parse_Facts
  imports Json_Read Json_Forest Json_Print_Facts
begin

text \<open>
  The parser computes the reference reading: on a text that can be read, \<open>cJSON_Parse\<close> returns an item
  that holds the value, in memory that is new and belongs to it, or a null pointer with everything freed
  again, when the text is not JSON or an allocation fails.
\<close>

section \<open>Values by their items\<close>

text \<open>The value of an item, apart from its place in a list: \<open>holds\<close> without the address.\<close>

fun has_value :: "(addr \<rightharpoonup> jobj) \<Rightarrow> cjson \<Rightarrow> json \<Rightarrow> bool" where
  "has_value h x J_null = (j_type x AND 255 = cJSON_NULL)"
| "has_value h x J_false = (j_type x AND 255 = cJSON_False)"
| "has_value h x J_true = (j_type x AND 255 = cJSON_True)"
| "has_value h x (J_num i d) = (j_type x AND 255 = cJSON_Number \<and> j_valueint x = i \<and> j_valuedouble x = d)"
| "has_value h x (J_str t) =
     (j_type x AND 255 = cJSON_String \<and> j_valuestring x \<noteq> NULL \<and> h (j_valuestring x) = Some (Text t))"
| "has_value h x (J_arr ts) =
     (j_type x AND 255 = cJSON_Array \<and> (\<exists>ps. chain h (j_child x) ps \<and> list_all2 (holds h) ps ts))"
| "has_value h x (J_obj ms) =
     (j_type x AND 255 = cJSON_Object
      \<and> (\<exists>ps. chain h (j_child x) ps \<and> list_all2 (\<lambda>q m. named h q (fst m) \<and> holds h q (snd m)) ps ms))"

lemma holds_has_value: "holds h p t \<longleftrightarrow> (\<exists>x. h p = Some (Item x) \<and> has_value h x t)"
proof
  assume "holds h p t"
  then show "\<exists>x. h p = Some (Item x) \<and> has_value h x t" by (cases rule: holds.cases) auto
next
  assume "\<exists>x. h p = Some (Item x) \<and> has_value h x t"
  then show "holds h p t" by (cases t) (auto intro: holds.intros)
qed

lemma has_value_mono: "has_value h x t \<Longrightarrow> h \<subseteq>\<^sub>m h' \<Longrightarrow> has_value h' x t"
  by (cases t) (auto 0 3 intro: map_le_Some chain_mono holds_mono named_mono elim!: list_all2_mono)

lemma has_value_next [simp]: "has_value h (x\<lparr>j_next := n\<rparr>) t = has_value h x t"
  by (cases t) auto

text \<open>The name and the value of a member.\<close>

definition has_member :: "(addr \<rightharpoonup> jobj) \<Rightarrow> cjson \<Rightarrow> string \<times> json \<Rightarrow> bool" where
  "has_member h x m \<longleftrightarrow> j_string x \<noteq> NULL \<and> h (j_string x) = Some (Text (fst m)) \<and> has_value h x (snd m)"

text \<open>What is said of an entry of a list survives growth of the memory and the linking of the next entry.\<close>

definition stable :: "((addr \<rightharpoonup> jobj) \<Rightarrow> cjson \<Rightarrow> 'a \<Rightarrow> bool) \<Rightarrow> bool" where
  "stable P \<longleftrightarrow> (\<forall>h h' x t n. P h x t \<longrightarrow> h \<subseteq>\<^sub>m h' \<longrightarrow> P h' (x\<lparr>j_next := n\<rparr>) t)"

lemma stable_has_value: "stable has_value"
  by (auto simp: stable_def intro: has_value_mono)

lemma stable_has_member: "stable has_member"
  by (auto simp: stable_def has_member_def intro: has_value_mono map_le_Some)

definition entry :: "((addr \<rightharpoonup> jobj) \<Rightarrow> cjson \<Rightarrow> 'a \<Rightarrow> bool) \<Rightarrow> (addr \<rightharpoonup> jobj) \<Rightarrow> addr \<Rightarrow> 'a \<Rightarrow> bool" where
  "entry P h q t \<longleftrightarrow> (\<exists>x. h q = Some (Item x) \<and> P h x t)"

lemma entry_mono: "stable P \<Longrightarrow> entry P h q t \<Longrightarrow> h \<subseteq>\<^sub>m h' \<Longrightarrow> entry P h' q t"
proof -
  assume "stable P" "entry P h q t" "h \<subseteq>\<^sub>m h'"
  moreover from this obtain x where "h q = Some (Item x)" "P h x t" by (auto simp: entry_def)
  ultimately have "P h' (x\<lparr>j_next := j_next x\<rparr>) t" "h' q = Some (Item x)"
    unfolding stable_def by (blast, blast intro: map_le_Some)
  then show ?thesis by (auto simp: entry_def)
qed

lemma entry_has_value: "entry has_value h q t = holds h q t"
  by (simp add: entry_def holds_has_value)

lemma entry_has_member: "entry has_member h q m = (named h q (fst m) \<and> holds h q (snd m))"
  by (auto simp: entry_def has_member_def named_def holds_has_value)

section \<open>What parsing has to do\<close>

definition grown :: "jstate \<Rightarrow> jstate \<Rightarrow> bool" where
  "grown s s' \<longleftrightarrow> n_alloc s \<le> n_alloc s' \<and> alloc_ok s' = alloc_ok s"

lemma grown_refl [simp]: "grown s s" "grown s (s\<lparr>heap := h\<rparr>)" "grown s (s\<lparr>ep := e\<rparr>)"
  by (simp_all add: grown_def)

lemma grown_trans: "grown s s' \<Longrightarrow> grown s' s'' \<Longrightarrow> grown s s''"
  by (auto simp: grown_def)

lemma later_grown: "later s s' \<Longrightarrow> grown s s'"
  by (simp add: later_def grown_def)

lemma fresh_ep [simp]: "fresh (s\<lparr>ep := e\<rparr>) = fresh s"
  by (simp add: fresh_def)

text \<open>The pointer that is returned and the reference reading \<open>R\<close>.\<close>

definition outcome :: "jstate \<Rightarrow> string option \<Rightarrow> ('a \<times> string) option \<Rightarrow> ('a \<Rightarrow> bool) \<Rightarrow> bool" where
  "outcome s v R P \<longleftrightarrow>
     (case v of None \<Rightarrow> R = None \<or> (\<exists>k. \<not> alloc_ok s k) | Some q \<Rightarrow> \<exists>t. R = Some (t, q) \<and> P t)"

lemma outcome_None [simp]: "outcome s None R P \<longleftrightarrow> R = None \<or> (\<exists>k. \<not> alloc_ok s k)"
  and outcome_Some [simp]: "outcome s (Some q) R P \<longleftrightarrow> (\<exists>t. R = Some (t, q) \<and> P t)"
  by (simp_all add: outcome_def)

text \<open>A value has been parsed into the item \<open>it\<close>, which was \<open>x\<close>.\<close>

definition value_done :: "jstate \<Rightarrow> addr \<Rightarrow> cjson \<Rightarrow> (string option \<times> jstate) option
    \<Rightarrow> (json \<times> string) option \<Rightarrow> bool" where
  "value_done s it x r R \<longleftrightarrow>
     (\<exists>v s' x' cs. r = Some (v, s') \<and> fresh s' \<and> grown s s' \<and> heap s' it = Some (Item x')
        \<and> j_next x' = j_next x \<and> j_prev x' = j_prev x \<and> j_string x' = j_string x
        \<and> j_type x' AND cJSON_IsReference = 0
        \<and> forest (heap s') (j_child x') cs
        \<and> owned ((heap s)(it := None)) (cs @ own (j_valuestring x') @ [it]) (heap s')
        \<and> outcome s v R (has_value (heap s' |` set (cs @ own (j_valuestring x'))) x'))"

text \<open>The items of a list from \<open>c\<close> on have been parsed, in memory that is new over \<open>H\<close>.\<close>

definition list_done :: "((addr \<rightharpoonup> jobj) \<Rightarrow> cjson \<Rightarrow> 'a \<Rightarrow> bool) \<Rightarrow> (addr \<rightharpoonup> jobj) \<Rightarrow> jstate \<Rightarrow> addr
    \<Rightarrow> (string option \<times> jstate) option \<Rightarrow> ('a list \<times> string) option \<Rightarrow> bool" where
  "list_done P H s c r R \<longleftrightarrow>
     (\<exists>v s' as. r = Some (v, s') \<and> fresh s' \<and> grown s s' \<and> forest (heap s') c as \<and> owned H as (heap s')
        \<and> outcome s v R (\<lambda>ts. \<exists>qs. chain (heap s' |` set as) c qs
            \<and> list_all2 (entry P (heap s' |` set as)) qs ts))"

text \<open>An entry of a list has been parsed into the item \<open>it\<close>.\<close>

definition entry_done :: "((addr \<rightharpoonup> jobj) \<Rightarrow> cjson \<Rightarrow> 'a \<Rightarrow> bool) \<Rightarrow> jstate \<Rightarrow> addr
    \<Rightarrow> (string option \<times> jstate) option \<Rightarrow> ('a \<times> string) option \<Rightarrow> bool" where
  "entry_done P s it r R \<longleftrightarrow>
     (\<exists>v s' x' as. r = Some (v, s') \<and> fresh s' \<and> grown s s' \<and> heap s' it = Some (Item x') \<and> j_next x' = NULL
        \<and> forest (heap s') it (as @ [it]) \<and> owned ((heap s)(it := None)) (as @ [it]) (heap s')
        \<and> outcome s v R (P (heap s' |` set as) x'))"

section \<open>Lists\<close>

text \<open>Both loops, over the parser \<open>el\<close> of an entry.\<close>

type_synonym entry_parser = "addr \<Rightarrow> string \<Rightarrow> jstate \<Rightarrow> (string option \<times> jstate) option"

fun list_loop :: "char \<Rightarrow> entry_parser \<Rightarrow> nat \<Rightarrow> entry_parser" where
  "list_loop close el 0 child p s = None"
| "list_loop close el (Suc fuel) child p s =
     (if peek p = CHR '','' then do {
        (n, s) \<leftarrow> link_new child s;
        if n = NULL then Some (None, s)
        else do {
          (v, s) \<leftarrow> el n (tl p) s;
          case v of None \<Rightarrow> Some (None, s) | Some p \<Rightarrow> list_loop close el fuel n p s
        }
      }
      else if peek p = close then Some (Some (tl p), s)
      else parse_fail p s)"

definition parse_list :: "char \<Rightarrow> i32 \<Rightarrow> entry_parser \<Rightarrow> nat \<Rightarrow> entry_parser" where
  "parse_list close ty el fuel it p s = do {
     s \<leftarrow> set_item it (\<lambda>x. x\<lparr>j_type := ty\<rparr>) s;
     let p = skip_space (tl p);
     if peek p = close then Some (Some (tl p), s)
     else do {
       let (child, s) = cJSON_New_Item s;
       s \<leftarrow> set_item it (\<lambda>x. x\<lparr>j_child := child\<rparr>) s;
       if child = NULL then Some (None, s)
       else do {
         (v, s) \<leftarrow> el child p s;
         case v of None \<Rightarrow> Some (None, s) | Some p \<Rightarrow> list_loop close el fuel child p s
       }
     }
   }"

definition element :: "value_parser \<Rightarrow> entry_parser" where
  "element pv n p s = do { (v, s) \<leftarrow> pv n (Some (skip_space p)) s; Some (skip v, s) }"

lemma parse_elements_loop: "parse_elements pv fuel = list_loop CHR '']'' (element pv) fuel"
proof (induction fuel)
  case (Suc fuel)
  show ?case
    by (intro ext) (unfold parse_elements.simps list_loop.simps Suc.IH element_def case_prod_unfold Option.bind_assoc
        Option.bind.simps fst_conv snd_conv, rule refl)
qed (simp add: fun_eq_iff)

lemma parse_members_loop: "parse_members pv fuel = list_loop CHR ''}'' (parse_member pv) fuel"
proof (induction fuel)
  case (Suc fuel)
  show ?case by (intro ext) (unfold parse_members.simps list_loop.simps Suc.IH, rule refl)
qed (simp add: fun_eq_iff)

lemma parse_array_list:
  "peek p = CHR ''['' \<Longrightarrow> parse_array pv fuel it p s = parse_list CHR '']'' cJSON_Array (element pv) fuel it p s"
  unfolding parse_array_def parse_list_def parse_elements_loop element_def case_prod_unfold Option.bind_assoc
    Option.bind.simps fst_conv snd_conv Let_def by simp

lemma parse_object_list:
  "peek p = CHR ''{'' \<Longrightarrow> parse_object pv fuel it p s = parse_list CHR ''}'' cJSON_Object (parse_member pv) fuel it p s"
  unfolding parse_object_def parse_list_def parse_members_loop by simp

text \<open>The same for the reference.\<close>

fun read_loop :: "char \<Rightarrow> (string \<Rightarrow> 'a reading) \<Rightarrow> nat \<Rightarrow> string \<Rightarrow> 'a list reading" where
  "read_loop close rel 0 p = None"
| "read_loop close rel (Suc n) p =
     (if peek p = CHR '','' then do {
        v \<leftarrow> rel (tl p);
        case v of None \<Rightarrow> Some None
        | Some (t, p) \<Rightarrow> do {
            r \<leftarrow> read_loop close rel n p;
            Some (map_option (\<lambda>(ts, q). (t # ts, q)) r)
          }
      }
      else if peek p = close then Some (Some ([], tl p))
      else Some None)"

definition read_list :: "char \<Rightarrow> (string \<Rightarrow> 'a reading) \<Rightarrow> nat \<Rightarrow> string \<Rightarrow> 'a list reading" where
  "read_list close rel n p =
     (let p = skip_space (tl p)
      in if peek p = close then Some (Some ([], tl p))
         else do {
           v \<leftarrow> rel p;
           case v of None \<Rightarrow> Some None
           | Some (t, p) \<Rightarrow> do {
               r \<leftarrow> read_loop close rel n p;
               Some (map_option (\<lambda>(ts, q). (t # ts, q)) r)
             }
         })"

definition read_element :: "(string \<Rightarrow> json reading) \<Rightarrow> string \<Rightarrow> json reading" where
  "read_element rv p = do { v \<leftarrow> rv (skip_space p); Some (map_option (\<lambda>(t, q). (t, skip_space q)) v) }"

lemma read_element_case:
  "do { v \<leftarrow> read_element rv p; case v of None \<Rightarrow> Some None | Some (t, p) \<Rightarrow> f t p }
   = do { v \<leftarrow> rv (skip_space p); case v of None \<Rightarrow> Some None | Some (t, p) \<Rightarrow> f t (skip_space p) }"
  by (cases "rv (skip_space p)") (auto simp: read_element_def split: option.split)

lemma read_elements_loop: "read_elements rv n = read_loop CHR '']'' (read_element rv) n"
proof (induction n)
  case (Suc n)
  show ?case
    by (intro ext) (unfold read_elements.simps read_loop.simps Suc.IH read_element_case, rule refl)
qed (simp add: fun_eq_iff)

lemma read_members_loop: "read_members rv n = read_loop CHR ''}'' (read_member rv) n"
proof (induction n)
  case (Suc n)
  show ?case by (intro ext) (unfold read_members.simps read_loop.simps Suc.IH, rule refl)
qed (simp add: fun_eq_iff)

lemma read_array_list: "read_array rv n p = read_list CHR '']'' (read_element rv) n p"
  unfolding read_array_def read_list_def read_elements_loop read_element_case Let_def by (rule refl)

lemma read_object_list: "read_object rv n p = read_list CHR ''}'' (read_member rv) n p"
  unfolding read_object_def read_list_def read_members_loop Let_def by (rule refl)

section \<open>Memory\<close>

lemma owned_all: "owned H as h \<Longrightarrow> NULL \<notin> set as \<Longrightarrow> distinct as \<and> (\<forall>a \<in> set as. h a \<noteq> None \<and> H a = None)"
proof -
  assume o: "owned H as h" and n: "NULL \<notin> set as"
  from n have "filter (\<lambda>e. e \<noteq> NULL) as = as" by (induction as) auto
  with o n show ?thesis by (auto simp: owned_def)
qed

lemma owned_perm: "owned H as h \<Longrightarrow> NULL \<notin> set as \<Longrightarrow> set bs = set as \<Longrightarrow> length bs = length as \<Longrightarrow> owned H bs h"
proof -
  assume o: "owned H as h" and n: "NULL \<notin> set as" and p: "set bs = set as" "length bs = length as"
  have "distinct as" using owned_all [OF o n] by simp
  then have "card (set bs) = length bs" using p by (simp add: distinct_card)
  then have "distinct bs" by (rule card_distinct)
  then have "distinct (filter (\<lambda>e. e \<noteq> NULL) bs)" by (rule distinct_filter)
  then show ?thesis using o p(1) by (simp add: owned_def)
qed

lemma set_item_at: "heap s p = Some (Item x) \<Longrightarrow> set_item p f s = Some (s\<lparr>heap := (heap s)(p \<mapsto> Item (f x))\<rparr>)"
  by (simp add: set_item_def)

lemma fresh_set: "fresh s \<Longrightarrow> heap s p \<noteq> None \<Longrightarrow> fresh (s\<lparr>heap := (heap s)(p \<mapsto> v)\<rparr>)"
  by (rule fresh_upd)

lemma fresh_live: "fresh s \<Longrightarrow> heap s p = Some v \<Longrightarrow> p \<noteq> NULL"
  by (metis fresh_NULL option.distinct(1))

lemma link_new_cases:
  assumes "fresh s" and "heap s c = Some (Item y)"
  obtains (fail) s' where "link_new c s = Some (NULL, s')" "heap s' = heap s" "grown s s'" "fresh s'"
      "\<exists>k. \<not> alloc_ok s k"
  | (ok) n s' where "link_new c s = Some (n, s')" "n \<noteq> NULL" "n \<noteq> c" "heap s n = None"
      "heap s' = (heap s)(c \<mapsto> Item (y\<lparr>j_next := n\<rparr>), n \<mapsto> Item (json_zero\<lparr>j_prev := c\<rparr>))"
      "grown s s'" "fresh s'"
  using assms(1)
proof (rule jalloc_cases [of s "Item json_zero"])
  fix s' assume "jalloc (Item json_zero) s = (NULL, s')" "heap s' = heap s" "later s s'" "fresh s'"
    "\<exists>k. \<not> alloc_ok s k"
  then show thesis by (intro fail [of s']) (auto simp: link_new_def cJSON_New_Item_def later_grown)
next
  fix n s' assume n: "jalloc (Item json_zero) s = (n, s')" "n \<noteq> NULL" "heap s n = None"
    "heap s' = (heap s)(n \<mapsto> Item json_zero)" "later s s'" "fresh s'"
  have nc: "n \<noteq> c" using n(3) assms(2) by auto
  let ?h = "(heap s)(c \<mapsto> Item (y\<lparr>j_next := n\<rparr>), n \<mapsto> Item (json_zero\<lparr>j_prev := c\<rparr>))"
  have "(heap s')(c \<mapsto> Item (y\<lparr>j_next := n\<rparr>)) = (heap s)(c \<mapsto> Item (y\<lparr>j_next := n\<rparr>), n \<mapsto> Item json_zero)"
    using nc n(4) by (simp add: fun_upd_twist)
  then have "link_new c s = Some (n, s'\<lparr>heap := ?h\<rparr>)"
    using n nc assms(2) by (simp add: link_new_def cJSON_New_Item_def set_item_at)
  moreover have "fresh (s'\<lparr>heap := ?h\<rparr>)" using n(4,6) assms(2) by (auto simp: fresh_def split: if_splits)
  moreover have "grown s (s'\<lparr>heap := ?h\<rparr>)" using n(5) by (simp add: grown_def later_def)
  ultimately show thesis using n(2,3) nc by (intro ok [of n "s'\<lparr>heap := ?h\<rparr>"]) auto
qed

lemma outcome_cong: "alloc_ok s' = alloc_ok s \<Longrightarrow> outcome s' v R P = outcome s v R P"
  by (cases v) simp_all

lemma list_done_grown: "list_done P H s1 c r R \<Longrightarrow> grown s s1 \<Longrightarrow> list_done P H s c r R"
proof -
  assume d: "list_done P H s1 c r R" and g: "grown s s1"
  have a: "alloc_ok s1 = alloc_ok s" using g by (simp add: grown_def)
  from d obtain v s' as where r: "r = Some (v, s')" "fresh s'" "grown s1 s'" "forest (heap s') c as"
    "owned H as (heap s')"
    "outcome s1 v R (\<lambda>ts. \<exists>qs. chain (heap s' |` set as) c qs \<and> list_all2 (entry P (heap s' |` set as)) qs ts)"
    unfolding list_done_def by blast
  show ?thesis unfolding list_done_def
    using r(1-5) grown_trans [OF g r(3)] r(6) [unfolded outcome_cong [OF a]]
    by (intro exI [of _ v] exI [of _ s'] exI [of _ as]) simp
qed

section \<open>Lists of entries\<close>

text \<open>The first entry, and the loop for those after it.\<close>

lemma entry_list:
  assumes P: "stable P" and n: "n \<noteq> NULL"
    and e: "entry_done P s n (el n p s) R0"
    and rest: "\<And>t q s2 y. R0 = Some (t, q) \<Longrightarrow> fresh s2 \<Longrightarrow> heap s2 n = Some (Item y) \<Longrightarrow> j_next y = NULL \<Longrightarrow>
        \<exists>m. list_done P ((heap s2)(n \<mapsto> Item (y\<lparr>j_next := m\<rparr>))) s2 m (loop q s2) (R1 q)"
  shows "list_done P ((heap s)(n := None)) s n
    (do { (v, s) \<leftarrow> el n p s; case v of None \<Rightarrow> Some (None, s) | Some q \<Rightarrow> loop q s })
    (case R0 of None \<Rightarrow> None | Some (t, q) \<Rightarrow> map_option (\<lambda>(ts, q). (t # ts, q)) (R1 q))"
proof -
  let ?H = "(heap s)(n := None)"
  from e obtain v s2 x' as where r: "el n p s = Some (v, s2)" "fresh s2" "grown s s2" "heap s2 n = Some (Item x')"
    "j_next x' = NULL" "forest (heap s2) n (as @ [n])" "owned ?H (as @ [n]) (heap s2)"
    "outcome s v R0 (P (heap s2 |` set as) x')"
    unfolding entry_done_def by blast
  show ?thesis
  proof (cases v)
    case None
    then show ?thesis using r unfolding list_done_def
      by (intro exI [of _ None] exI [of _ s2] exI [of _ "as @ [n]"]) (auto split: option.split)
  next
    case (Some q)
    then obtain t where t: "R0 = Some (t, q)" "P (heap s2 |` set as) x' t" using r(8) by auto
    from rest [OF t(1) r(2,4,5)] obtain m where
      m: "list_done P ((heap s2)(n \<mapsto> Item (x'\<lparr>j_next := m\<rparr>))) s2 m (loop q s2) (R1 q)" by blast
    let ?h = "(heap s2)(n \<mapsto> Item (x'\<lparr>j_next := m\<rparr>))"
    from m obtain v3 s3 bs where l: "loop q s2 = Some (v3, s3)" "fresh s3" "grown s2 s3" "forest (heap s3) m bs"
      "owned ?h bs (heap s3)" "outcome s2 v3 (R1 q)
        (\<lambda>ts. \<exists>qs. chain (heap s3 |` set bs) m qs \<and> list_all2 (entry P (heap s3 |` set bs)) qs ts)"
      unfolding list_done_def by blast
    have nn: "NULL \<notin> set (as @ [n])" by (rule forest_not_NULL [OF r(6)])
    note live = owned_all [OF r(7) nn]
    have "owned ?H (as @ [n]) ?h" using owned_upd [of ?H as n "[]" "heap s2"] r(7) n by simp
    from owned_trans [OF this l(5)] have o: "owned ?H ((as @ [n]) @ bs) (heap s3)" .
    have at: "heap s3 n = Some (Item (x'\<lparr>j_next := m\<rparr>))" using owned_kept [OF l(5), of n] by simp
    have same: "heap s3 a = heap s2 a" if "a \<in> set as" for a
    proof -
      have "a \<noteq> n" "heap s2 a \<noteq> None" using live that by auto
      then show ?thesis using owned_kept [OF l(5), of a] by simp
    qed
    have f: "forest (heap s3) n ((as @ [n]) @ bs)"
      by (rule forest_append [OF r(6) n r(4,5) _ at _ l(4)]) (use live same in auto)
    let ?r = "heap s3 |` set ((as @ [n]) @ bs)"
    have "heap s2 |` set as \<subseteq>\<^sub>m ?r" using same by (auto simp: map_le_def restrict_map_def)
    then have "P ?r (x'\<lparr>j_next := m\<rparr>) t" using P t(2) unfolding stable_def by blast
    then have first: "entry P ?r n t" using at by (simp add: entry_def)
    have sub: "heap s3 |` set bs \<subseteq>\<^sub>m ?r" by (auto simp: map_le_def restrict_map_def)
    have "outcome s v3 (map_option (\<lambda>(ts, q). (t # ts, q)) (R1 q))
        (\<lambda>ts. \<exists>qs. chain ?r n qs \<and> list_all2 (entry P ?r) qs ts)"
    proof (cases v3)
      case None
      then show ?thesis using l(6) r(3) by (simp add: grown_def)
    next
      case (Some q3)
      then obtain ts qs where ts: "R1 q = Some (ts, q3)" "chain (heap s3 |` set bs) m qs"
        "list_all2 (entry P (heap s3 |` set bs)) qs ts" using l(6) by auto
      have "chain ?r n (n # qs)" using at n chain_mono [OF ts(2) sub] by simp
      moreover have "list_all2 (entry P ?r) qs ts" using ts(3) by (rule list_all2_mono) (rule entry_mono [OF P _ sub])
      then have "list_all2 (entry P ?r) (n # qs) (t # ts)" using first by simp
      ultimately show ?thesis using Some ts(1) by (auto intro!: exI [of _ "n # qs"])
    qed
    then show ?thesis using r(1) l(1,2) grown_trans [OF r(3) l(3)] f o Some t(1) unfolding list_done_def
      by (intro exI [of _ v3] exI [of _ s3] exI [of _ "(as @ [n]) @ bs"]) simp
  qed
qed

text \<open>An item as it is before a value is parsed into it.\<close>

definition blank :: "cjson \<Rightarrow> bool" where
  "blank x \<longleftrightarrow> j_child x = NULL \<and> j_valuestring x = NULL \<and> j_type x AND cJSON_IsReference = 0"

definition parses :: "((addr \<rightharpoonup> jobj) \<Rightarrow> cjson \<Rightarrow> 'a \<Rightarrow> bool) \<Rightarrow> entry_parser \<Rightarrow> (string \<Rightarrow> 'a reading) \<Rightarrow> bool" where
  "parses P el rel \<longleftrightarrow> (\<forall>n p s x R. fresh s \<longrightarrow> heap s n = Some (Item x) \<longrightarrow> blank x \<longrightarrow> j_string x = NULL \<longrightarrow>
     j_next x = NULL \<longrightarrow> rel p = Some R \<longrightarrow> entry_done P s n (el n p s) R)"

lemma list_loop_done:
  "stable P \<Longrightarrow> parses P el rel \<Longrightarrow> read_loop close rel k q = Some R \<Longrightarrow> fresh s \<Longrightarrow>
     heap s n = Some (Item y) \<Longrightarrow> j_next y = NULL \<Longrightarrow>
     \<exists>m. list_done P ((heap s)(n \<mapsto> Item (y\<lparr>j_next := m\<rparr>))) s m (list_loop close el k n q s) R"
proof (induction k arbitrary: q R s n y)
  case (Suc k)
  have same: "(heap s)(n \<mapsto> Item (y\<lparr>j_next := NULL\<rparr>)) = heap s" using Suc.prems(5,6) by (simp add: fun_upd_idem)
  consider (more) "peek q = CHR '',''" | (close) "peek q \<noteq> CHR '',''" "peek q = close"
    | (bad) "peek q \<noteq> CHR '',''" "peek q \<noteq> close" by blast
  then show ?case
  proof cases
    case close
    then show ?thesis using Suc.prems(3,4) same
      by (intro exI [of _ NULL]) (auto simp: list_done_def intro!: exI [of _ "[]"])
  next
    case bad
    then show ?thesis using Suc.prems(3,4) same
      by (intro exI [of _ NULL]) (auto simp: list_done_def parse_fail_def intro!: exI [of _ "[]"])
  next
    case more
    from Suc.prems(4,5) show ?thesis
    proof (cases rule: link_new_cases)
      case (fail s')
      then show ?thesis using more same
        by (intro exI [of _ NULL]) (auto simp: list_done_def intro!: exI [of _ "[]"])
    next
      case (ok n' s')
      from Suc.prems(3) more obtain R0 where R0: "rel (tl q) = Some R0" by (cases "rel (tl q)") auto
      let ?R = "case R0 of None \<Rightarrow> None | Some (t, q) \<Rightarrow> map_option (\<lambda>(ts, q). (t # ts, q)) (the (read_loop close rel k q))"
      have R: "R = ?R" using Suc.prems(3) more R0 by (cases R0) (auto simp: bind_eq_Some_conv)
      have at: "heap s' n' = Some (Item (json_zero\<lparr>j_prev := n\<rparr>))" using ok(5) by simp
      have e: "entry_done P s' n' (el n' (tl q) s') R0"
        using Suc.prems(2) ok(7) at R0 by (auto simp: parses_def blank_def json_zero_def)
      have "list_done P ((heap s')(n' := None)) s' n'
          (do { (v, s) \<leftarrow> el n' (tl q) s'; case v of None \<Rightarrow> Some (None, s) | Some q \<Rightarrow> list_loop close el k n' q s }) ?R"
      proof (rule entry_list [where el = el and p = "tl q" and loop = "\<lambda>q s. list_loop close el k n' q s"
            and ?R1.0 = "\<lambda>q. the (read_loop close rel k q)", OF Suc.prems(1) ok(2) e])
        fix t q2 s2 y2 assume *: "R0 = Some (t, q2)" "fresh s2" "heap s2 n' = Some (Item y2)" "j_next y2 = NULL"
        then obtain R2 where "read_loop close rel k q2 = Some R2"
          using Suc.prems(3) more R0 by (cases "read_loop close rel k q2") auto
        from Suc.IH [OF Suc.prems(1,2) this *(2-4)] this
        show "\<exists>m. list_done P ((heap s2)(n' \<mapsto> Item (y2\<lparr>j_next := m\<rparr>))) s2 m (list_loop close el k n' q2 s2)
            (the (read_loop close rel k q2))" by (simp only: option.sel)
      qed
      moreover have "(heap s')(n' := None) = (heap s)(n \<mapsto> Item (y\<lparr>j_next := n'\<rparr>))"
        using ok(3,4,5) by (auto simp: fun_eq_iff)
      moreover have "list_loop close el (Suc k) n q s =
          (do { (v, s) \<leftarrow> el n' (tl q) s'; case v of None \<Rightarrow> Some (None, s) | Some q \<Rightarrow> list_loop close el k n' q s })"
        using more ok(1,2) by simp
      ultimately show ?thesis using list_done_grown [OF _ ok(6)] R by metis
    qed
  qed
qed simp

section \<open>Containers\<close>

lemma parse_list_done:
  assumes P: "stable P" "parses P el rel"
    and s: "fresh s" "heap s it = Some (Item x)" "blank x"
    and R: "read_list close rel k p = Some R"
    and ty: "ty AND cJSON_IsReference = 0"
    and mk: "\<And>h y qs ts. j_type y = ty \<Longrightarrow> chain h (j_child y) qs \<Longrightarrow> list_all2 (entry P h) qs ts \<Longrightarrow> has_value h y (mk ts)"
  shows "value_done s it x (parse_list close ty el k it p s) (map_option (\<lambda>(ts, q). (mk ts, q)) R)"
proof -
  have itn: "it \<noteq> NULL" by (rule fresh_live [OF s(1,2)])
  have b: "j_child x = NULL" "j_valuestring x = NULL" using s(3) by (simp_all add: blank_def)
  define x1 where "x1 = x\<lparr>j_type := ty\<rparr>"
  define s1 where "s1 = s\<lparr>heap := (heap s)(it \<mapsto> Item x1)\<rparr>"
  have s1: "set_item it (\<lambda>x. x\<lparr>j_type := ty\<rparr>) s = Some s1" using s(2) by (simp add: set_item_at s1_def x1_def)
  have f1: "fresh s1" unfolding s1_def using s(1,2) by (intro fresh_set) auto
  let ?p = "skip_space (tl p)" and ?H = "(heap s)(it := None)"
  have one: "owned ?H [it] (?H(it \<mapsto> Item y))" for y by (rule owned_one) (use itn in auto)
  show ?thesis
  proof (cases "peek ?p = close")
    case True
    then have r: "parse_list close ty el k it p s = Some (Some (tl ?p), s1)" "R = Some ([], tl ?p)"
      using R s1 by (auto simp: parse_list_def read_list_def)
    have "has_value (heap s1 |` {}) x1 (mk [])" by (rule mk [of _ _ "[]"]) (simp_all add: x1_def b)
    then show ?thesis using r f1 one [of x1] b ty unfolding value_done_def
      by (intro exI [of _ "Some (tl ?p)"] exI [of _ s1] exI [of _ x1] exI [of _ "[]"])
        (simp add: s1_def x1_def grown_def)
  next
    case False
    from R False obtain R0 where R0: "rel ?p = Some R0" by (cases "rel ?p") (auto simp: read_list_def)
    let ?R1 = "\<lambda>q. the (read_loop close rel k q)"
    let ?R = "case R0 of None \<Rightarrow> None | Some (t, q) \<Rightarrow> map_option (\<lambda>(ts, q). (t # ts, q)) (?R1 q)"
    have RR: "R = ?R" using R False R0 by (cases R0) (auto simp: read_list_def bind_eq_Some_conv)
    from f1 show ?thesis
    proof (rule jalloc_cases [of s1 "Item json_zero"])
      fix s2 assume a: "jalloc (Item json_zero) s1 = (NULL, s2)" "heap s2 = heap s1" "later s1 s2" "fresh s2"
        "\<exists>k. \<not> alloc_ok s1 k"
      let ?s = "s2\<lparr>heap := (heap s2)(it \<mapsto> Item x1)\<rparr>"
      have x1: "x1\<lparr>j_child := NULL\<rparr> = x1" using b by (simp add: x1_def)
      have "parse_list close ty el k it p s = Some (None, ?s)"
        using s1 False a(1,2) x1 by (simp add: parse_list_def cJSON_New_Item_def set_item_def s1_def Let_def)
      moreover have "heap ?s = ?H(it \<mapsto> Item x1)" using a(2) by (simp add: s1_def)
      moreover have "fresh ?s" using a(2,4) by (intro fresh_set) (simp_all add: s1_def)
      moreover have "grown s ?s" "\<exists>k. \<not> alloc_ok s k" using a(3,5) by (simp_all add: s1_def grown_def later_def)
      ultimately show ?thesis using one [of x1] b ty unfolding value_done_def
        by (intro exI [of _ None] exI [of _ ?s] exI [of _ x1] exI [of _ "[]"]) (simp add: x1_def)
    next
      fix c s2 assume a: "jalloc (Item json_zero) s1 = (c, s2)" "c \<noteq> NULL" "heap s1 c = None"
        "heap s2 = (heap s1)(c \<mapsto> Item json_zero)" "later s1 s2" "fresh s2"
      have cit: "c \<noteq> it" using a(3) by (auto simp: s1_def)
      define x2 where "x2 = x1\<lparr>j_child := c\<rparr>"
      define s3 where "s3 = s2\<lparr>heap := (heap s2)(it \<mapsto> Item x2)\<rparr>"
      have h3: "heap s3 = (heap s)(it \<mapsto> Item x2, c \<mapsto> Item json_zero)"
        using cit a(4) by (auto simp: s3_def s1_def fun_eq_iff)
      have f3: "fresh s3" unfolding s3_def using a(4,6) cit by (intro fresh_set) (auto simp: s1_def)
      have g3: "grown s s3" using a(5) by (simp add: s1_def s3_def grown_def later_def)
      let ?run = "do { (v, s) \<leftarrow> el c ?p s3; case v of None \<Rightarrow> Some (None, s) | Some q \<Rightarrow> list_loop close el k c q s }"
      have run: "parse_list close ty el k it p s = ?run"
        using s1 False a(1,2,4) cit
        by (simp add: parse_list_def cJSON_New_Item_def set_item_def s1_def s3_def x2_def Let_def)
      have e: "entry_done P s3 c (el c ?p s3) R0"
        using P(2) f3 R0 h3 by (auto simp: parses_def blank_def json_zero_def)
      have "list_done P ((heap s3)(c := None)) s3 c ?run ?R"
      proof (rule entry_list [where el = el and p = ?p and loop = "\<lambda>q s. list_loop close el k c q s" and ?R1.0 = ?R1,
            OF P(1) a(2) e])
        fix t q s4 y assume *: "R0 = Some (t, q)" "fresh s4" "heap s4 c = Some (Item y)" "j_next y = NULL"
        then obtain R2 where "read_loop close rel k q = Some R2"
          using R False R0 by (cases "read_loop close rel k q") (auto simp: read_list_def)
        from list_loop_done [OF P this *(2-4)] this
        show "\<exists>m. list_done P ((heap s4)(c \<mapsto> Item (y\<lparr>j_next := m\<rparr>))) s4 m (list_loop close el k c q s4) (?R1 q)"
          by (simp only: option.sel)
      qed
      moreover have "(heap s3)(c := None) = (heap s)(it \<mapsto> Item x2)"
        using h3 a(3) cit by (auto simp: fun_eq_iff s1_def)
      ultimately have "list_done P ((heap s)(it \<mapsto> Item x2)) s c (parse_list close ty el k it p s) R"
        using list_done_grown [OF _ g3] RR run by metis
      then obtain v s4 as where d: "parse_list close ty el k it p s = Some (v, s4)" "fresh s4" "grown s s4"
        "forest (heap s4) c as" "owned ((heap s)(it \<mapsto> Item x2)) as (heap s4)"
        "outcome s v R (\<lambda>ts. \<exists>qs. chain (heap s4 |` set as) c qs \<and> list_all2 (entry P (heap s4 |` set as)) qs ts)"
        unfolding list_done_def by blast
      have "owned ?H ([it] @ as) (heap s4)" using owned_trans [OF one [of x2], of as] d(5) by simp
      then have o: "owned ?H (as @ [it]) (heap s4)" by (subst owned_swap)
      have at: "heap s4 it = Some (Item x2)" using owned_kept [OF d(5), of it] by simp
      have "outcome s v (map_option (\<lambda>(ts, q). (mk ts, q)) R) (has_value (heap s4 |` set as) x2)"
      proof (cases v)
        case (Some q)
        then obtain ts qs where "R = Some (ts, q)" "chain (heap s4 |` set as) c qs"
          "list_all2 (entry P (heap s4 |` set as)) qs ts" using d(6) by auto
        then show ?thesis using Some mk [of x2 "heap s4 |` set as" qs ts] by (auto simp: x2_def x1_def)
      qed (use d(6) in auto)
      then show ?thesis using d(1-4) at o b ty unfolding value_done_def
        by (intro exI [of _ v] exI [of _ s4] exI [of _ x2] exI [of _ as]) (simp add: x2_def x1_def)
    qed
  qed
qed

section \<open>Entries\<close>

lemma own_value: "j_string x = NULL \<Longrightarrow> j_next x = NULL \<Longrightarrow> it \<noteq> NULL \<Longrightarrow> h it = Some (Item x) \<Longrightarrow>
   j_type x AND cJSON_IsReference = 0 \<Longrightarrow> forest h (j_child x) cs \<Longrightarrow>
   forest h it ((cs @ own (j_valuestring x)) @ [it])"
  using forest.plain [of it h x cs "[]"] by simp

lemma element_parses:
  assumes "\<And>it p s x R. fresh s \<Longrightarrow> heap s it = Some (Item x) \<Longrightarrow> blank x \<Longrightarrow> rv p = Some R \<Longrightarrow>
      value_done s it x (pv it (Some p) s) R"
  shows "parses has_value (element pv) (read_element rv)"
  unfolding parses_def
proof (intro allI impI)
  fix n p s x R assume s: "fresh s" "heap s n = Some (Item x)" "blank x" "j_string x = NULL" "j_next x = NULL"
    and "read_element rv p = Some R"
  then obtain R0 where R0: "rv (skip_space p) = Some R0" "R = map_option (\<lambda>(t, q). (t, skip_space q)) R0"
    by (auto simp: read_element_def bind_eq_Some_conv)
  from assms [OF s(1-3) R0(1)] obtain v s' x' cs where d: "pv n (Some (skip_space p)) s = Some (v, s')" "fresh s'"
    "grown s s'" "heap s' n = Some (Item x')" "j_next x' = NULL" "j_string x' = NULL"
    "j_type x' AND cJSON_IsReference = 0" "forest (heap s') (j_child x') cs"
    "owned ((heap s)(n := None)) (cs @ own (j_valuestring x') @ [n]) (heap s')"
    "outcome s v R0 (has_value (heap s' |` set (cs @ own (j_valuestring x'))) x')"
    using s(4,5) unfolding value_done_def by auto
  have "forest (heap s') n ((cs @ own (j_valuestring x')) @ [n])"
    using d fresh_live [OF s(1,2)] by (intro own_value) auto
  moreover have "outcome s (skip v) R (has_value (heap s' |` set (cs @ own (j_valuestring x'))) x')"
    using d(10) R0(2) by (cases v) (auto simp: skip_def)
  ultimately show "entry_done has_value s n (element pv n p s) R"
    using d unfolding entry_done_def
    by (intro exI [of _ "skip v"] exI [of _ s'] exI [of _ x'] exI [of _ "cs @ own (j_valuestring x')"])
      (simp add: element_def)
qed

lemma parse_string_cases:
  assumes "fresh s" "heap s it = Some (Item x)" "read_string p = Some R"
  obtains (fail) s' where "parse_string it (Some p) s = Some (None, s')" "heap s' = heap s" "fresh s'" "grown s s'"
      "R = None \<or> (\<exists>k. \<not> alloc_ok s k)"
  | (ok) s' a t q where "parse_string it (Some p) s = Some (Some q, s')" "R = Some (t, q)" "a \<noteq> NULL" "heap s a = None"
      "heap s' = (heap s)(a \<mapsto> Text t, it \<mapsto> Item (x\<lparr>j_valuestring := a, j_type := cJSON_String\<rparr>))"
      "fresh s'" "grown s s'"
proof (cases "peek p = CHR 0x22")
  case False
  then show thesis using assms(1,3) by (intro fail [of "s\<lparr>ep := Some p\<rparr>"]) (auto simp: parse_string_def parse_fail_def read_string_def)
next
  case True
  then obtain t q where tq: "parse_string_text p = Some (t, q)" "R = Some (t, q)"
    using assms(3) by (auto simp: read_string_def)
  then obtain len where len: "raw_length (tl p) = Some len" by (auto simp: parse_string_text_def bind_eq_Some_conv)
  from assms(1) show thesis
  proof (rule jalloc_cases [of s "Text ''''"])
    fix s' assume "jalloc (Text '''') s = (NULL, s')" "heap s' = heap s" "later s s'" "fresh s'" "\<exists>k. \<not> alloc_ok s k"
    then show thesis using True len by (intro fail [of s']) (auto simp: parse_string_def later_grown)
  next
    fix a s' assume a: "jalloc (Text '''') s = (a, s')" "a \<noteq> NULL" "heap s a = None"
      "heap s' = (heap s)(a \<mapsto> Text '''')" "later s s'" "fresh s'"
    have ne: "a \<noteq> it" using a(3) assms(2) by auto
    let ?h = "(heap s)(a \<mapsto> Text t, it \<mapsto> Item (x\<lparr>j_valuestring := a, j_type := cJSON_String\<rparr>))"
    have "set_text a t s' = Some (s'\<lparr>heap := (heap s)(a \<mapsto> Text t)\<rparr>)" using a(4) by (simp add: set_text_def)
    moreover have "set_item it (\<lambda>x. x\<lparr>j_valuestring := a, j_type := cJSON_String\<rparr>) (s'\<lparr>heap := (heap s)(a \<mapsto> Text t)\<rparr>)
        = Some (s'\<lparr>heap := ?h\<rparr>)" using assms(2) ne by (simp add: set_item_at)
    ultimately have "parse_string it (Some p) s = Some (Some q, s'\<lparr>heap := ?h\<rparr>)"
      using True len a(1,2) tq(1) by (simp add: parse_string_def)
    moreover have "fresh (s'\<lparr>heap := ?h\<rparr>)" using a(4,6) assms(2) by (auto simp: fresh_def split: if_splits)
    moreover have "grown s (s'\<lparr>heap := ?h\<rparr>)" using a(5) by (simp add: grown_def later_def)
    ultimately show thesis using tq(2) a(2,3) by (intro ok [of q "s'\<lparr>heap := ?h\<rparr>" t a]) auto
  qed
qed

lemma owned_item:
  "heap s it = Some (Item x) \<Longrightarrow> it \<noteq> NULL \<Longrightarrow> owned ((heap s)(it := None)) [it] ((heap s)(it \<mapsto> y))"
  using owned_one [of "(heap s)(it := None)" it y] by simp

lemma parse_string_done:
  assumes "fresh s" "heap s it = Some (Item x)" "blank x" "read_string p = Some R"
  shows "value_done s it x (parse_string it (Some p) s) (map_option (\<lambda>(t, q). (J_str t, q)) R)"
  using assms(1,2,4)
proof (cases rule: parse_string_cases)
  case (fail s')
  have "owned ((heap s)(it := None)) [it] (heap s)"
    using owned_item [OF assms(2) fresh_live [OF assms(1,2)], of "Item x"] assms(2) by (simp add: fun_upd_idem)
  then show ?thesis using fail assms(2,3) unfolding value_done_def
    by (intro exI [of _ None] exI [of _ s'] exI [of _ x] exI [of _ "[]"]) (auto simp: blank_def)
next
  case (ok s' a t q)
  let ?x = "x\<lparr>j_valuestring := a, j_type := cJSON_String\<rparr>" and ?H = "(heap s)(it := None)"
  have itn: "it \<noteq> NULL" "a \<noteq> it" using fresh_live [OF assms(1,2)] ok(4) assms(2) by auto
  have "owned ?H [it] ((heap s)(it \<mapsto> Item ?x))" by (rule owned_item [OF assms(2) itn(1)])
  then have "owned ?H ([it] @ [a]) (((heap s)(it \<mapsto> Item ?x))(a \<mapsto> Text t))"
    by (rule owned_snoc) (use ok(3,4) itn in auto)
  then have "owned ?H ([a] @ [it]) (heap s')" unfolding ok(5) using itn(2) by (subst owned_swap) (simp add: fun_upd_twist)
  then show ?thesis using ok(1,2,3,5-7) itn(2) assms(3) unfolding value_done_def
    by (intro exI [of _ "Some q"] exI [of _ s'] exI [of _ ?x] exI [of _ "[]"]) (simp add: blank_def)
qed

lemma member_parses:
  assumes pv: "\<And>it p s x R. fresh s \<Longrightarrow> heap s it = Some (Item x) \<Longrightarrow> blank x \<Longrightarrow> rv p = Some R \<Longrightarrow>
      value_done s it x (pv it (Some p) s) R"
  shows "parses has_member (parse_member pv) (read_member rv)"
  unfolding parses_def
proof (intro allI impI)
  fix n p s x R assume s: "fresh s" "heap s n = Some (Item x)" "blank x" "j_string x = NULL" "j_next x = NULL"
    and rm: "read_member rv p = Some R"
  have nn: "n \<noteq> NULL" by (rule fresh_live [OF s(1,2)])
  let ?H = "(heap s)(n := None)"
  from rm obtain R0 where R0: "read_string (skip_space p) = Some R0" by (auto simp: read_member_def bind_eq_Some_conv)
  from s(1,2) R0 show "entry_done has_member s n (parse_member pv n p s) R"
  proof (cases rule: parse_string_cases)
    case (fail s')
    have "owned ?H [n] (heap s)"
      using owned_item [OF s(2) nn, of "Item x"] s(2) by (simp add: fun_upd_idem)
    moreover have "forest (heap s) n [n]" using s nn forest.plain [of n "heap s" x "[]" "[]"] by (simp add: blank_def)
    moreover have "R0 = None \<Longrightarrow> R = None" using rm R0 by (simp add: read_member_def)
    moreover have "parse_member pv n p s = Some (None, s')" using fail(1) by (simp add: parse_member_def skip_def)
    ultimately show ?thesis using fail(2-5) s(2,5) unfolding entry_done_def
      by (intro exI [of _ None] exI [of _ s'] exI [of _ x] exI [of _ "[]"]) auto
  next
    case (ok s1 a t q)
    let ?x = "x\<lparr>j_type := cJSON_String, j_string := a, j_valuestring := NULL\<rparr>" and ?q = "skip_space q"
    have an: "a \<noteq> n" using ok(4) s(2) by auto
    define s2 where "s2 = s1\<lparr>heap := (heap s1)(n \<mapsto> Item ?x)\<rparr>"
    have tn: "take_name n s1 = Some s2" using ok(5) by (simp add: take_name_def set_item_at s2_def)
    have h2: "heap s2 = (heap s)(a \<mapsto> Text t, n \<mapsto> Item ?x)" using ok(5) by (simp add: s2_def)
    have f2: "fresh s2" unfolding s2_def using ok(5,6) by (intro fresh_set) auto
    have g2: "grown s s2" using ok(7) by (simp add: s2_def grown_def)
    have oa: "owned ?H [a] (?H(a \<mapsto> Text t))" using ok(3,4) by (intro owned_one) auto
    show ?thesis
    proof (cases "peek ?q = CHR '':''")
      case False
      have "parse_member pv n p s = Some (None, s2\<lparr>ep := Some ?q\<rparr>)"
        using ok(1) tn False by (simp add: parse_member_def skip_def parse_fail_def)
      moreover have "R = None" using rm R0 ok(2) False by (simp add: read_member_def Let_def)
      moreover have "forest (heap s2) n ([a] @ [n])"
        using forest.plain [of n "heap s2" ?x "[]" "[]"] s nn ok(3) h2 by (simp add: blank_def)
      moreover have "owned ?H ([a] @ [n]) (heap s2)"
        using owned_snoc [OF oa, of n "Item ?x"] an nn h2 by (simp add: fun_upd_twist)
      ultimately show ?thesis using f2 g2 s(5) h2 unfolding entry_done_def
        by (intro exI [of _ None] exI [of _ "s2\<lparr>ep := Some ?q\<rparr>"] exI [of _ ?x] exI [of _ "[a]"]) (simp add: grown_def)
    next
      case True
      let ?r = "skip_space (tl ?q)"
      from rm R0 ok(2) True obtain Rv where Rv: "rv ?r = Some Rv" "R = map_option (\<lambda>(v, q). ((t, v), skip_space q)) Rv"
        by (auto simp: read_member_def Let_def bind_eq_Some_conv)
      have "heap s2 n = Some (Item ?x)" "blank ?x" using h2 s(3) by (simp_all add: blank_def)
      from pv [OF f2 this Rv(1)] obtain v s3 x3 cs where d: "pv n (Some ?r) s2 = Some (v, s3)" "fresh s3" "grown s2 s3"
        "heap s3 n = Some (Item x3)" "j_next x3 = NULL" "j_string x3 = a"
        "j_type x3 AND cJSON_IsReference = 0" "forest (heap s3) (j_child x3) cs"
        "owned ((heap s2)(n := None)) (cs @ own (j_valuestring x3) @ [n]) (heap s3)"
        "outcome s2 v Rv (has_value (heap s3 |` set (cs @ own (j_valuestring x3))) x3)"
        using s(5) unfolding value_done_def by auto
      let ?as = "cs @ own (j_valuestring x3) @ [a]"
      have "(heap s2)(n := None) = ?H(a \<mapsto> Text t)" using h2 an by (simp add: fun_upd_twist)
      then have o3: "owned ?H ([a] @ cs @ own (j_valuestring x3) @ [n]) (heap s3)"
        using owned_trans [OF oa] d(9) by simp
      have "NULL \<notin> set ([a] @ cs @ own (j_valuestring x3) @ [n])" using forest_not_NULL [OF d(8)] ok(3) nn by auto
      with o3 have o: "owned ?H (?as @ [n]) (heap s3)" by (rule owned_perm) auto
      have f: "forest (heap s3) n (?as @ [n])"
        using forest.plain [of n "heap s3" x3 cs "[]"] d(4-8) nn ok(3) by simp
      have at: "heap s3 a = Some (Text t)" using owned_kept [OF d(9), of a] h2 an by simp
      have "outcome s (skip v) R (has_member (heap s3 |` set ?as) x3)"
      proof (cases v)
        case None
        then show ?thesis using d(10) Rv(2) g2 by (auto simp: skip_def grown_def)
      next
        case (Some q3)
        then obtain u where u: "Rv = Some (u, q3)" "has_value (heap s3 |` set (cs @ own (j_valuestring x3))) x3 u"
          using d(10) by auto
        have "has_value (heap s3 |` set ?as) x3 u"
          using u(2) by (rule has_value_mono) (auto simp: map_le_def restrict_map_def)
        then show ?thesis using Some u(1) Rv(2) at ok(3) d(6) by (simp add: skip_def has_member_def)
      qed
      moreover have "parse_member pv n p s = Some (skip v, s3)"
        using ok(1) tn True d(1) by (simp add: parse_member_def skip_def)
      ultimately show ?thesis using d(2,4,5) grown_trans [OF g2 d(3)] f o unfolding entry_done_def
        by (intro exI [of _ "skip v"] exI [of _ s3] exI [of _ x3] exI [of _ ?as]) simp
    qed
  qed
qed

section \<open>Values\<close>

text \<open>Values that need no memory: the fields of the item are set.\<close>

lemma set_value_done:
  assumes "fresh s" "heap s it = Some (Item x)" "blank x"
    and "r = do { s \<leftarrow> set_item it f s; Some (Some q, s) }"
    and "f x = x'" "j_next x' = j_next x" "j_prev x' = j_prev x" "j_string x' = j_string x" "blank x'"
    and "has_value Map.empty x' t"
  shows "value_done s it x r (Some (t, q))"
proof -
  let ?s = "s\<lparr>heap := (heap s)(it \<mapsto> Item x')\<rparr>"
  have "r = Some (Some q, ?s)" using assms(2,4,5) by (simp add: set_item_at)
  moreover have "fresh ?s" using assms(1,2) by (intro fresh_set) auto
  moreover have "owned ((heap s)(it := None)) [it] (heap ?s)"
    using owned_item [OF assms(2) fresh_live [OF assms(1,2)]] by simp
  ultimately show ?thesis using assms(6-10) unfolding value_done_def
    by (intro exI [of _ "Some q"] exI [of _ ?s] exI [of _ x'] exI [of _ "[]"]) (simp add: blank_def)
qed

lemma parse_number_done:
  assumes "fresh s" "heap s it = Some (Item x)" "blank x" "read_number p = Some R"
  shows "value_done s it x (parse_number it p s) R"
proof -
  from assms(4) obtain d q i where d: "parse_number_text p = Some (d, q)" "double_to_i32 d = Some i" "R = Some (J_num i d, q)"
    by (auto simp: read_number_def bind_eq_Some_conv)
  show ?thesis unfolding d(3)
    by (rule set_value_done [OF assms(1-3), where f = "\<lambda>x. x\<lparr>j_valuedouble := d, j_valueint := i, j_type := cJSON_Number\<rparr>" and x' = "x\<lparr>j_valuedouble := d, j_valueint := i, j_type := cJSON_Number\<rparr>"])
      (use d assms(3) in \<open>auto simp: parse_number_def blank_def\<close>)
qed

lemma fail_done:
  assumes "fresh s" "heap s it = Some (Item x)" "blank x"
  shows "value_done s it x (Some (None, s\<lparr>ep := e\<rparr>)) None"
proof -
  have "owned ((heap s)(it := None)) [it] (heap s)"
    using owned_item [OF assms(2) fresh_live [OF assms(1,2)], of "Item x"] assms(2) by (simp add: fun_upd_idem)
  then show ?thesis using assms unfolding value_done_def
    by (intro exI [of _ None] exI [of _ "s\<lparr>ep := e\<rparr>"] exI [of _ x] exI [of _ "[]"]) (simp add: blank_def)
qed

lemma chain_elements: "j_type y = cJSON_Array \<Longrightarrow> chain h (j_child y) qs \<Longrightarrow> list_all2 (entry has_value h) qs ts \<Longrightarrow> has_value h y (J_arr ts)"
  by (auto simp: entry_has_value [abs_def] elim!: list_all2_mono)

lemma chain_members: "j_type y = cJSON_Object \<Longrightarrow> chain h (j_child y) qs \<Longrightarrow> list_all2 (entry has_member h) qs ms \<Longrightarrow> has_value h y (J_obj ms)"
  by (auto simp: entry_has_member elim!: list_all2_mono)

lemma value_parsed:
  "fresh s \<Longrightarrow> heap s it = Some (Item x) \<Longrightarrow> blank x \<Longrightarrow> read_value k p = Some R \<Longrightarrow>
     value_done s it x (parse_value k it (Some p) s) R"
proof (induction k arbitrary: s it x p R)
  case (Suc k)
  note s = Suc.prems(1-3) and R = Suc.prems(4)
  have el: "parses has_value (element (parse_value k)) (read_element (read_value k))"
    by (rule element_parses) (rule Suc.IH)
  have mem: "parses has_member (parse_member (parse_value k)) (read_member (read_value k))"
    by (rule member_parses) (rule Suc.IH)
  consider "starts_with ''null'' p"
    | "\<not> starts_with ''null'' p" "starts_with ''false'' p"
    | "\<not> starts_with ''null'' p" "\<not> starts_with ''false'' p" "starts_with ''true'' p"
    | (other) "\<not> starts_with ''null'' p" "\<not> starts_with ''false'' p" "\<not> starts_with ''true'' p" by blast
  then show ?case
  proof cases
    case 1
    have "value_done s it x (parse_value (Suc k) it (Some p) s) (Some (J_null, drop 4 p))"
      by (rule set_value_done [OF s, where f = "\<lambda>x. x\<lparr>j_type := cJSON_NULL\<rparr>" and x' = "x\<lparr>j_type := cJSON_NULL\<rparr>"]) (use 1 s(3) in \<open>auto simp: blank_def\<close>)
    then show ?thesis using R 1 by simp
  next
    case 2
    have "value_done s it x (parse_value (Suc k) it (Some p) s) (Some (J_false, drop 5 p))"
      by (rule set_value_done [OF s, where f = "\<lambda>x. x\<lparr>j_type := cJSON_False\<rparr>" and x' = "x\<lparr>j_type := cJSON_False\<rparr>"]) (use 2 s(3) in \<open>auto simp: blank_def\<close>)
    then show ?thesis using R 2 by simp
  next
    case 3
    have "value_done s it x (parse_value (Suc k) it (Some p) s) (Some (J_true, drop 4 p))"
      by (rule set_value_done [OF s, where f = "\<lambda>x. x\<lparr>j_type := cJSON_True, j_valueint := 1\<rparr>" and x' = "x\<lparr>j_type := cJSON_True, j_valueint := 1\<rparr>"])
        (use 3 s(3) in \<open>auto simp: blank_def\<close>)
    then show ?thesis using R 3 by simp
  next
    case other
    consider (str) "peek p = CHR 0x22"
      | (num) "peek p \<noteq> CHR 0x22" "peek p = CHR ''-'' \<or> digit (peek p)"
      | (arr) "peek p \<noteq> CHR 0x22" "\<not> (peek p = CHR ''-'' \<or> digit (peek p))" "peek p = CHR ''[''"
      | (obj) "peek p \<noteq> CHR 0x22" "\<not> (peek p = CHR ''-'' \<or> digit (peek p))" "peek p = CHR ''{''"
      | (bad) "peek p \<noteq> CHR 0x22" "\<not> (peek p = CHR ''-'' \<or> digit (peek p))" "peek p \<noteq> CHR ''[''" "peek p \<noteq> CHR ''{''"
      by blast
    then show ?thesis
    proof cases
      case str
      then obtain R0 where "read_string p = Some R0" "R = map_option (\<lambda>(t, q). (J_str t, q)) R0" using R other by auto
      with parse_string_done [OF s this(1)] show ?thesis using other str by simp
    next
      case num
      then have "read_number p = Some R" using R other by simp
      from parse_number_done [OF s this] show ?thesis using other num by simp
    next
      case arr
      then obtain R0 where R0: "read_array (read_value k) k p = Some R0" "R = map_option (\<lambda>(ts, q). (J_arr ts, q)) R0"
        using R other by auto
      from parse_list_done [OF stable_has_value el s R0(1) [unfolded read_array_list] _ chain_elements]
      show ?thesis using other arr parse_array_list R0(2) by simp
    next
      case obj
      then obtain R0 where R0: "read_object (read_value k) k p = Some R0" "R = map_option (\<lambda>(ms, q). (J_obj ms, q)) R0"
        using R other by auto
      from parse_list_done [OF stable_has_member mem s R0(1) [unfolded read_object_list] _ chain_members]
      show ?thesis using other obj parse_object_list R0(2) by simp
    next
      case bad
      then have "R = None" using R other by simp
      with fail_done [OF s, of "Some p"] show ?thesis using other bad by (simp add: parse_fail_def)
    qed
  qed
qed simp

text \<open>The entry point: the item is new, and freed again unless the value was read.\<close>

definition parsed :: "jstate \<Rightarrow> (addr \<times> jstate) option \<Rightarrow> (json \<times> string) option \<Rightarrow> bool" where
  "parsed s r R \<longleftrightarrow> (\<exists>c s'. r = Some (c, s') \<and> fresh s'
     \<and> (if c = NULL then heap s' = heap s \<and> (R = None \<or> (\<exists>k. \<not> alloc_ok s k))
        else \<exists>t q as. R = Some (t, q) \<and> holds (heap s') c t \<and> forest (heap s') c as \<and> owned (heap s) as (heap s')))"

lemma cJSON_Parse_parsed:
  assumes "fresh s" and R: "read_text p = Some R"
  shows "parsed s (cJSON_Parse (Some p) s) R"
proof -
  let ?pv = "\<lambda>c. parse_value (length p + 1) c (Some (skip_space p))"
  from assms(1) show ?thesis
  proof (rule jalloc_cases [of s "Item json_zero"])
    fix s' assume "jalloc (Item json_zero) s = (NULL, s')" "heap s' = heap s" "later s s'" "fresh s'" "\<exists>k. \<not> alloc_ok s k"
    then show ?thesis by (simp add: parsed_def cJSON_Parse_def cJSON_ParseWithOpts_def cJSON_New_Item_def Let_def)
  next
    fix c s1 assume a: "jalloc (Item json_zero) s = (c, s1)" "c \<noteq> NULL" "heap s c = None"
      "heap s1 = (heap s)(c \<mapsto> Item json_zero)" "later s s1" "fresh s1"
    let ?s1 = "s1\<lparr>ep := None\<rparr>"
    have "value_done ?s1 c json_zero (?pv c ?s1) R"
      using R a(4,6) by (intro value_parsed) (simp_all add: read_text_def blank_def json_zero_def)
    then obtain v s2 x cs where d: "?pv c ?s1 = Some (v, s2)" "fresh s2" "grown ?s1 s2" "heap s2 c = Some (Item x)"
      "j_next x = NULL" "j_string x = NULL" "j_type x AND cJSON_IsReference = 0" "forest (heap s2) (j_child x) cs"
      "owned ((heap ?s1)(c := None)) (cs @ own (j_valuestring x) @ [c]) (heap s2)"
      "outcome ?s1 v R (has_value (heap s2 |` set (cs @ own (j_valuestring x))) x)"
      unfolding value_done_def by (auto simp: json_zero_def)
    have H: "(heap ?s1)(c := None) = heap s" using a(3,4) by (simp add: fun_upd_idem)
    have o: "owned (heap s) ((cs @ own (j_valuestring x)) @ [c]) (heap s2)" using d(9) unfolding H by simp
    have f: "forest (heap s2) c ((cs @ own (j_valuestring x)) @ [c])" using d(4-8) a(2) by (intro own_value)
    have ok: "alloc_ok s2 = alloc_ok s" using a(5) d(3) by (simp add: grown_def later_def)
    show ?thesis
    proof (cases v)
      case None
      from Delete_owned [OF f o] obtain s3 where s3: "cJSON_Delete c s2 = Some s3" "heap s3 = heap s" "n_alloc s3 = n_alloc s2"
        by auto
      have "fresh s3" using d(3) a(5) assms(1) s3(2,3) by (fastforce simp: fresh_def grown_def later_def)
      moreover have "R = None \<or> (\<exists>k. \<not> alloc_ok s k)" using d(10) None a(5) by (simp add: later_def)
      ultimately show ?thesis using a(1,2) d(1) None s3(1,2) R
        by (simp add: parsed_def cJSON_Parse_def cJSON_ParseWithOpts_def cJSON_New_Item_def skip_def Let_def del: parse_value.simps)
    next
      case (Some q)
      then obtain t where t: "R = Some (t, q)" "has_value (heap s2 |` set (cs @ own (j_valuestring x))) x t"
        using d(10) by auto
      have "has_value (heap s2) x t" using t(2) by (rule has_value_mono) (auto simp: map_le_def restrict_map_def)
      then have "holds (heap s2) c t" using d(4) by (auto simp: holds_has_value)
      then show ?thesis using a(1,2) d(1,2) Some t(1) R f o
        by (auto simp: parsed_def cJSON_Parse_def cJSON_ParseWithOpts_def cJSON_New_Item_def skip_def Let_def
            simp del: parse_value.simps)
    qed
  qed
qed

section \<open>Printing and reading back\<close>

lemma plain_doubles: "plain t \<Longrightarrow> all_doubles t"
proof (induction t rule: plain.induct)
  case (1 i d)
  have "sint i \<in> {- (2 ^ 31)..2 ^ 31 - 1}" using sint_greater_eq [of i] sint_less [of i] by simp
  then have "int_to_double (sint i) = Fin (sint i < 0) (nat \<bar>sint i\<bar>) 0" "nat \<bar>sint i\<bar> \<le> 2 ^ 53"
    by (auto simp: int_to_double_exact)
  with 1 show ?case by simp
qed (auto simp: list_all_iff)

section \<open>Properties\<close>

text \<open>C37. \<open>cJSON_Parse\<close> of any text in which, wherever one begins to read, no number is too large for an \<open>int\<close> and
  no string is cut off or overflows its buffer (\<open>readable\<close>): it returns, never reads outside the text nor writes outside an object, and gives either an item
  that holds the value the reference reader finds, in memory that is new and that one deletion of the item
  frees, or a null pointer, because the text is not JSON or an allocation failed, with every object it had
  made freed again.\<close>

theorem cJSON_Parse_reads:
  assumes "fresh s" and "readable p"
  shows "\<exists>R c s'. read_text p = Some R \<and> cJSON_Parse (Some p) s = Some (c, s')
    \<and> (if c = NULL then heap s' = heap s \<and> (R = None \<or> (\<exists>k. \<not> alloc_ok s k))
        else \<exists>t q as. R = Some (t, q) \<and> holds (heap s') c t \<and> forest (heap s') c as \<and> owned (heap s) as (heap s'))"
proof -
  obtain R where R: "read_text p = Some R" using read_text_off [OF assms(2)] by (auto simp: reads_off_def)
  from cJSON_Parse_parsed [OF assms(1) R] show ?thesis unfolding parsed_def using R by fast
qed

text \<open>\<open>{"a":[12,"b\n",-2.5e1]}\<close>, and the value of it.\<close>

definition demo_text :: string where
  "demo_text = ''{'' @ [CHR 0x22] @ ''a'' @ [CHR 0x22] @ '':[12,'' @ [CHR 0x22] @ ''b'' @ [CHR 0x5C, CHR ''n'', CHR 0x22]
     @ '',-2.5e1]}''"

definition demo_value :: json where
  "demo_value = J_obj [(''a'', J_arr [J_num 12 (int_to_double 12), J_str (''b'' @ [LF]), J_num (- 25) (int_to_double (- 25))])]"

lemma readable_code: "readable p = list_all (\<lambda>q. (peek q = CHR 0x22 \<longrightarrow> parse_string_text q \<noteq> None)
     \<and> (peek q = CHR ''-'' \<or> digit (peek q) \<longrightarrow> read_number q \<noteq> None)) (suffixes p)"
  by (simp only: readable_def list_all_iff Ball_def in_set_suffixes)

lemma demo_readable: "readable demo_text"
  unfolding readable_code by code_simp

lemma demo_read: "read_text demo_text = Some (Some (demo_value, []))"
  by code_simp

theorem cJSON_Parse_reads_witness:
  "\<exists>c s'. cJSON_Parse (Some demo_text) demo_state = Some (c, s') \<and> c \<noteq> NULL \<and> holds (heap s') c demo_value"
proof -
  have "\<forall>k. alloc_ok demo_state k" by (simp add: demo_state_def)
  with cJSON_Parse_reads [OF demo_fresh demo_readable] demo_read show ?thesis by (auto split: if_splits)
qed

text \<open>C38. Printing an item that holds a plain value and parsing the text, formatted or not, when no allocation
  fails: the new item holds the same value, and the item that was printed still does. A value is plain when its strings
  are C strings and each of its numbers is the \<open>double\<close> of its \<open>int\<close>; other numbers are printed with limited precision
  and need not come back.\<close>

theorem cJSON_round_trip:
  assumes "fresh s" and "holds (heap s) p t" and "p \<noteq> NULL" and "plain t" and "\<And>k. alloc_ok s k"
  shows "\<exists>a cs s1 c s2. (if fmt then cJSON_Print p s else cJSON_PrintUnformatted p s) = Some (a, s1)
    \<and> heap s1 a = Some (Text cs) \<and> cJSON_Parse (Some cs) s1 = Some (c, s2)
    \<and> holds (heap s2) c t \<and> holds (heap s2) p t"
proof -
  from print_printed [OF assms(1-3) plain_doubles [OF assms(4)], of fmt] obtain a s1 where
    a: "(if fmt then cJSON_Print p s else cJSON_PrintUnformatted p s) = Some (a, s1)" "fresh s1" "later s s1"
      "owned (heap s) [a] (heap s1)" "heap s1 a = Some (Text (render fmt 0 t))"
    using assms(5) by (cases rule: printedE) auto
  from cJSON_Parse_parsed [OF a(2) read_text_render [OF assms(4)], of fmt] obtain c s2 as where
    c: "cJSON_Parse (Some (render fmt 0 t)) s1 = Some (c, s2)" "holds (heap s2) c t" "owned (heap s1) as (heap s2)"
    using a(3) assms(5) unfolding parsed_def by (auto simp: later_def split: if_splits)
  have "heap s \<subseteq>\<^sub>m heap s2" using owned_le [OF a(4)] owned_le [OF c(3)] by (rule map_le_trans)
  then have "holds (heap s2) p t" using assms(2) by (rule holds_mono [rotated])
  then show ?thesis using a(1,5) c(1,2) by blast
qed

theorem cJSON_round_trip_witness:
  "\<exists>a cs s1 c s2. cJSON_Print 1 demo_state = Some (a, s1)
    \<and> heap s1 a = Some (Text cs) \<and> cJSON_Parse (Some cs) s1 = Some (c, s2)
    \<and> holds (heap s2) c (J_arr [J_str ''a'']) \<and> holds (heap s2) 1 (J_arr [J_str ''a''])"
  using cJSON_round_trip [OF demo_fresh demo_holds, of True] by (simp add: demo_state_def)

end
