(* ===== verification/Domain_Sockets.thy ===== *)
theory Domain_Sockets
  imports C_Prelude
begin

text \<open>
  The demonstration of domain sockets (\<open>linux/domain_socket/\<close>): after \<open>fork\<close> the parent is the server
  and the child the client. Each call of the operating system is one step, so that the steps of the two
  processes interleave. With \<open>sys\<close>, a call may also fail for reasons outside the program. Messages about
  errors and the lines with the process numbers are left out of the output.
\<close>

section \<open>The two processes\<close>

text \<open>What the name of the socket stands for: nothing, a file left by an earlier run, or the socket of
  the parent.\<close>

datatype binding = No_name | Stale | Ours

text \<open>\<open>P_close\<close> and \<open>P_drop\<close> are the two calls on the error paths of \<open>init_listen_server\<close>.\<close>

datatype ppc = P_socket | P_unlink | P_bind | P_listen | P_close | P_drop | P_accept | P_read | P_end

datatype cpc = C_socket | C_connect | C_close | C_unlink | C_write | C_end

text \<open>\<open>d_lsn\<close> and \<open>d_apt\<close>: \<open>lsn_fd\<close> and \<open>apt_fd\<close> are descriptors, not -1. \<open>d_queue\<close>: the connection of the
  child waits to be accepted.\<close>

record domain =
  d_name :: binding
  d_lsn :: bool
  d_listening :: bool
  d_queue :: bool
  d_apt :: bool
  d_data :: "string option"
  d_ppc :: ppc
  d_cpc :: cpc
  d_out :: "string list"

definition domain_init :: "binding \<Rightarrow> domain" where
  "domain_init b = \<lparr>d_name = b, d_lsn = False, d_listening = False, d_queue = False, d_apt = False,
     d_data = None, d_ppc = P_socket, d_cpc = C_socket, d_out = []\<rparr>"

text \<open>The child writes twelve bytes of a literal of eleven: \<open>junk\<close> is what follows it in memory.\<close>

definition child_text :: "char \<Rightarrow> string" where
  "child_text junk = ''I am child'' @ [CHR 0x00, junk]"

text \<open>The bytes received, as \<open>%s\<close> prints them.\<close>

definition shown :: "string \<Rightarrow> string" where
  "shown d = takeWhile (\<lambda>c. c \<noteq> CHR 0x00) (take 124 d @ [CHR 0x00])"

inductive d_step :: "bool \<Rightarrow> domain \<Rightarrow> domain \<Rightarrow> bool" for sys :: bool where
  p_socket: "d_ppc s = P_socket \<Longrightarrow> d_step sys s (s\<lparr>d_lsn := True, d_ppc := P_unlink\<rparr>)"
| p_socket_fail: "d_ppc s = P_socket \<Longrightarrow> sys \<Longrightarrow> d_step sys s (s\<lparr>d_ppc := P_accept\<rparr>)"
| p_unlink: "d_ppc s = P_unlink \<Longrightarrow> d_step sys s (s\<lparr>d_name := No_name, d_ppc := P_bind\<rparr>)"
| p_bind: "d_ppc s = P_bind \<Longrightarrow> d_name s = No_name \<Longrightarrow> d_step sys s (s\<lparr>d_name := Ours, d_ppc := P_listen\<rparr>)"
| p_bind_fail: "d_ppc s = P_bind \<Longrightarrow> sys \<or> d_name s \<noteq> No_name \<Longrightarrow> d_step sys s (s\<lparr>d_ppc := P_close\<rparr>)"
| p_listen: "d_ppc s = P_listen \<Longrightarrow> d_step sys s (s\<lparr>d_listening := True, d_ppc := P_accept\<rparr>)"
| p_listen_fail: "d_ppc s = P_listen \<Longrightarrow> sys \<Longrightarrow> d_step sys s (s\<lparr>d_ppc := P_close\<rparr>)"
| p_close: "d_ppc s = P_close \<Longrightarrow> d_step sys s (s\<lparr>d_lsn := False, d_ppc := P_drop\<rparr>)"
| p_drop: "d_ppc s = P_drop \<Longrightarrow> d_step sys s (s\<lparr>d_name := No_name, d_ppc := P_accept\<rparr>)"
| p_accept: "d_ppc s = P_accept \<Longrightarrow> d_lsn s \<Longrightarrow> d_queue s \<Longrightarrow>
    d_step sys s (s\<lparr>d_queue := False, d_apt := True, d_ppc := P_read\<rparr>)"
| p_accept_fail: "d_ppc s = P_accept \<Longrightarrow> \<not> d_lsn s \<or> sys \<Longrightarrow> d_step sys s (s\<lparr>d_ppc := P_read\<rparr>)"
| p_read: "d_ppc s = P_read \<Longrightarrow> d_apt s \<Longrightarrow> d_data s = Some d \<Longrightarrow>
    d_step sys s (s\<lparr>d_out := d_out s @ [shown d], d_ppc := P_end\<rparr>)"
| p_read_closed: "d_ppc s = P_read \<Longrightarrow> d_apt s \<Longrightarrow> d_data s = None \<Longrightarrow> d_cpc s = C_end \<Longrightarrow>
    d_step sys s (s\<lparr>d_ppc := P_end\<rparr>)"
| p_read_fail: "d_ppc s = P_read \<Longrightarrow> \<not> d_apt s \<or> sys \<Longrightarrow> d_step sys s (s\<lparr>d_ppc := P_end\<rparr>)"
| c_socket: "d_cpc s = C_socket \<Longrightarrow> d_step sys s (s\<lparr>d_cpc := C_connect\<rparr>)"
| c_socket_fail: "d_cpc s = C_socket \<Longrightarrow> sys \<Longrightarrow> d_step sys s (s\<lparr>d_cpc := C_end\<rparr>)"
| c_connect: "d_cpc s = C_connect \<Longrightarrow> d_name s = Ours \<Longrightarrow> d_listening s \<Longrightarrow>
    d_step sys s (s\<lparr>d_queue := True, d_cpc := C_write\<rparr>)"
| c_connect_fail: "d_cpc s = C_connect \<Longrightarrow> sys \<or> \<not> (d_name s = Ours \<and> d_listening s) \<Longrightarrow>
    d_step sys s (s\<lparr>d_cpc := C_close\<rparr>)"
| c_close: "d_cpc s = C_close \<Longrightarrow> d_step sys s (s\<lparr>d_cpc := C_unlink\<rparr>)"
| c_unlink: "d_cpc s = C_unlink \<Longrightarrow> d_step sys s (s\<lparr>d_name := No_name, d_cpc := C_end\<rparr>)"
| c_write: "d_cpc s = C_write \<Longrightarrow> d_step sys s (s\<lparr>d_data := Some (child_text junk), d_cpc := C_end\<rparr>)"
| c_write_fail: "d_cpc s = C_write \<Longrightarrow> sys \<Longrightarrow> d_step sys s (s\<lparr>d_cpc := C_end\<rparr>)"

definition d_reach :: "bool \<Rightarrow> domain \<Rightarrow> domain \<Rightarrow> bool" where
  "d_reach sys = (d_step sys)\<^sup>*\<^sup>*"

definition d_stuck :: "bool \<Rightarrow> domain \<Rightarrow> bool" where
  "d_stuck sys s \<longleftrightarrow> (\<nexists>t. d_step sys s t)"

section \<open>Every run ends\<close>

fun p_left :: "ppc \<Rightarrow> nat" where
  "p_left P_socket = 8" | "p_left P_unlink = 7" | "p_left P_bind = 6" | "p_left P_listen = 5"
| "p_left P_close = 4" | "p_left P_drop = 3" | "p_left P_accept = 2" | "p_left P_read = 1" | "p_left P_end = 0"

fun c_left :: "cpc \<Rightarrow> nat" where
  "c_left C_socket = 4" | "c_left C_connect = 3" | "c_left C_close = 2" | "c_left C_unlink = 1"
| "c_left C_write = 1" | "c_left C_end = 0"

lemma p_left_le [simp]:
  "p_left p \<le> 2 \<longleftrightarrow> p = P_accept \<or> p = P_read \<or> p = P_end"
  "p_left p \<le> Suc 0 \<longleftrightarrow> p = P_read \<or> p = P_end"
  by (cases p; simp)+

text \<open>A bound on the calls still to come.\<close>

definition calls_left :: "domain \<Rightarrow> nat" where
  "calls_left s = p_left (d_ppc s) + c_left (d_cpc s)"

lemma calls_left_step: "d_step sys s t \<Longrightarrow> calls_left t < calls_left s"
  by (induction rule: d_step.induct) (simp_all add: calls_left_def)

lemma run_to_end: "\<exists>t. d_reach sys s t \<and> d_stuck sys t"
proof (induction "calls_left s" arbitrary: s rule: less_induct)
  case less
  show ?case
  proof (cases "d_stuck sys s")
    case False
    then obtain s' where s': "d_step sys s s'" by (auto simp: d_stuck_def)
    from less [OF calls_left_step [OF s']] s' show ?thesis
      unfolding d_reach_def by (blast intro: converse_rtranclp_into_rtranclp)
  qed (auto simp: d_reach_def)
qed

section \<open>Where runs end\<close>

text \<open>What holds at every point when no call fails for other reasons.\<close>

definition d_inv :: "domain \<Rightarrow> bool" where
  "d_inv s \<longleftrightarrow> d_ppc s \<noteq> P_close \<and> d_ppc s \<noteq> P_drop
     \<and> d_lsn s = (d_ppc s \<noteq> P_socket) \<and> d_listening s = (p_left (d_ppc s) \<le> 2)
     \<and> (d_ppc s = P_bind \<longrightarrow> d_name s = No_name)
     \<and> (d_queue s \<longrightarrow> d_ppc s = P_accept) \<and> d_apt s = (p_left (d_ppc s) \<le> 1)
     \<and> (d_queue s \<or> d_apt s \<longrightarrow> d_cpc s = C_write \<or> d_cpc s = C_end)
     \<and> (d_cpc s = C_write \<longrightarrow> d_queue s \<or> d_apt s)
     \<and> (d_cpc s = C_end \<and> (d_queue s \<or> d_apt s) \<longrightarrow> d_data s \<noteq> None)
     \<and> (\<forall>d. d_data s = Some d \<longrightarrow> shown d = ''I am child'')
     \<and> d_out s = (if d_ppc s = P_end then [''I am child''] else [])"

lemma shown_child [simp]: "shown (child_text junk) = ''I am child''"
  by (simp add: shown_def child_text_def)

lemma d_inv_step: "d_step False s t \<Longrightarrow> d_inv s \<Longrightarrow> d_inv t"
  by (induction rule: d_step.induct) (auto simp: d_inv_def)

lemma d_inv_init: "d_inv (domain_init b)"
  by (simp add: d_inv_def domain_init_def)

text \<open>The child has reached the parent, or still can.\<close>

definition d_met :: "domain \<Rightarrow> bool" where
  "d_met s \<longleftrightarrow> d_queue s \<or> d_apt s
     \<or> d_listening s \<and> d_name s = Ours \<and> (d_cpc s = C_socket \<or> d_cpc s = C_connect)"

lemma d_met_step: "d_step False s t \<Longrightarrow> d_inv s \<Longrightarrow> d_met s \<Longrightarrow> d_met t"
  by (induction rule: d_step.induct) (auto simp: d_inv_def d_met_def)

lemma d_reach_inv: "d_reach False s t \<Longrightarrow> d_inv s \<Longrightarrow> d_inv t \<and> (d_met s \<longrightarrow> d_met t)"
  unfolding d_reach_def by (induction rule: rtranclp_induct) (auto intro: d_inv_step d_met_step)

text \<open>The child has been refused.\<close>

definition d_refused :: "domain \<Rightarrow> bool" where
  "d_refused s \<longleftrightarrow> c_left (d_cpc s) \<le> 2 \<and> d_cpc s \<noteq> C_write \<and> \<not> d_queue s \<and> \<not> d_apt s"

lemma d_refused_step: "d_step False s t \<Longrightarrow> d_inv s \<Longrightarrow> d_refused s \<Longrightarrow> d_refused t"
  by (induction rule: d_step.induct) (auto simp: d_inv_def d_refused_def)

lemma d_refused_reach: "d_reach False s t \<Longrightarrow> d_inv s \<Longrightarrow> d_refused s \<Longrightarrow> d_refused t"
  unfolding d_reach_def
proof (induction rule: rtranclp_induct)
  case (step t u)
  then have "d_inv t" using d_reach_inv [of s t] by (simp add: d_reach_def)
  with step show ?case by (blast intro: d_refused_step)
qed

lemma d_stuck_ends:
  assumes "d_inv s" and "d_stuck False s"
  shows "d_cpc s = C_end \<and> (d_ppc s = P_end \<or> d_ppc s = P_accept \<and> \<not> d_queue s)"
proof -
  note no = assms(2) [unfolded d_stuck_def]
  have c: "d_cpc s = C_end"
    using no by (cases "d_cpc s") (metis d_step.c_socket d_step.c_connect d_step.c_connect_fail d_step.c_close
      d_step.c_unlink d_step.c_write)+
  have "d_ppc s = P_end \<or> d_ppc s = P_accept \<and> \<not> d_queue s"
  proof (cases "d_ppc s")
    case P_read
    then have "d_apt s" "d_data s \<noteq> None" using assms(1) c by (auto simp: d_inv_def)
    then show ?thesis using no P_read by (metis d_step.p_read not_Some_eq)
  next
    case P_accept
    then have "d_lsn s" using assms(1) by (simp add: d_inv_def)
    then show ?thesis using no P_accept by (metis d_step.p_accept)
  next
    case P_bind
    then have "d_name s = No_name" using assms(1) by (simp add: d_inv_def)
    then show ?thesis using no P_bind by (metis d_step.p_bind)
  qed (use no assms(1) in \<open>simp_all add: d_inv_def, (metis d_step.p_socket d_step.p_unlink d_step.p_listen)+\<close>)
  with c show ?thesis by simp
qed

lemma d_race: "\<exists>u. d_reach False (domain_init b) u \<and> d_stuck False u \<and> d_ppc u = P_accept \<and> d_out u = []"
proof -
  let ?c1 = "domain_init b\<lparr>d_cpc := C_connect\<rparr>"
  have "d_step False (domain_init b) ?c1"
    by (rule d_step.c_socket) (simp add: domain_init_def)
  moreover have "d_step False ?c1 (?c1\<lparr>d_cpc := C_close\<rparr>)"
    by (rule d_step.c_connect_fail) (simp_all add: domain_init_def)
  moreover obtain u where u: "d_reach False (?c1\<lparr>d_cpc := C_close\<rparr>) u" "d_stuck False u"
    using run_to_end by blast
  ultimately have r: "d_reach False (domain_init b) u" by (simp add: d_reach_def)
  have i: "d_inv (?c1\<lparr>d_cpc := C_close\<rparr>)" "d_refused (?c1\<lparr>d_cpc := C_close\<rparr>)"
    by (simp_all add: d_inv_def d_refused_def domain_init_def)
  have v: "d_inv u" using d_reach_inv [OF u(1) i(1)] by simp
  have "\<not> d_apt u" using d_refused_reach [OF u(1) i] by (simp add: d_refused_def)
  then have "d_ppc u \<noteq> P_end" using v by (simp add: d_inv_def)
  then have "d_ppc u = P_accept" "d_out u = []"
    using d_stuck_ends [OF v u(2)] v by (simp_all add: d_inv_def)
  with r u(2) show ?thesis by blast
qed

lemma d_wf: "wf {(t, s). d_step sys s t}"
  by (rule wf_subset [OF wf_measure [of calls_left]]) (auto dest: calls_left_step)

section \<open>Properties\<close>

text \<open>C39. When no call fails for other reasons, every run of the two processes ends. If at some point the
  parent listens and the child has not called \<open>connect\<close> yet, then whatever the order of the other calls the
  parent prints the message of the child; in any case the child ends, and the parent has either printed
  the message or waits in \<open>accept\<close> for ever, which does happen: nothing makes the child wait for the
  parent.\<close>

theorem domain_sockets_run:
  assumes "d_reach False (domain_init b) s" and "d_reach False s t" and "d_stuck False t"
  shows "wf {(t, s). d_step False s t} \<and> d_cpc t = C_end
    \<and> (d_out t = [''I am child''] \<or> d_ppc t = P_accept \<and> d_out t = [] \<and> \<not> d_met s)
    \<and> (\<exists>u. d_reach False (domain_init b) u \<and> d_stuck False u \<and> d_ppc u = P_accept \<and> d_out u = [])"
proof -
  have r: "d_inv t" "d_met s \<longrightarrow> d_met t" using d_reach_inv d_inv_init assms(1,2) by blast+
  have t: "d_cpc t = C_end" "d_ppc t = P_end \<or> d_ppc t = P_accept \<and> \<not> d_queue t"
    using d_stuck_ends [OF r(1) assms(3)] by auto
  then have a: "d_ppc t = P_accept \<Longrightarrow> \<not> d_met t" using r(1) by (auto simp: d_met_def d_inv_def)
  have o: "d_out t = (if d_ppc t = P_end then [''I am child''] else [])" using r(1) by (simp add: d_inv_def)
  have "d_out t = [''I am child''] \<or> d_ppc t = P_accept \<and> d_out t = [] \<and> \<not> d_met s"
    using t(2) a o r(2) by auto
  then show ?thesis using d_wf d_race t(1) by blast
qed

text \<open>The parent listens first.\<close>

theorem domain_sockets_run_witness:
  "\<exists>t. d_reach False (domain_init Stale) t \<and> d_stuck False t \<and> d_out t = [''I am child'']"
proof -
  let ?s1 = "domain_init Stale\<lparr>d_lsn := True, d_ppc := P_unlink\<rparr>"
  let ?s2 = "?s1\<lparr>d_name := No_name, d_ppc := P_bind\<rparr>"
  let ?s3 = "?s2\<lparr>d_name := Ours, d_ppc := P_listen\<rparr>"
  let ?s4 = "?s3\<lparr>d_listening := True, d_ppc := P_accept\<rparr>"
  have "d_step False (domain_init Stale) ?s1" by (rule d_step.p_socket) (simp add: domain_init_def)
  moreover have "d_step False ?s1 ?s2" by (rule d_step.p_unlink) simp
  moreover have "d_step False ?s2 ?s3" by (rule d_step.p_bind) simp_all
  moreover have "d_step False ?s3 ?s4" by (rule d_step.p_listen) simp
  ultimately have r: "d_reach False (domain_init Stale) ?s4" by (simp add: d_reach_def)
  obtain t where t: "d_reach False ?s4 t" "d_stuck False t" using run_to_end by blast
  have "d_met ?s4" by (simp add: d_met_def domain_init_def)
  then have "d_out t = [''I am child'']" using domain_sockets_run [OF r t] by blast
  moreover have "d_reach False (domain_init Stale) t" using r t(1) by (simp add: d_reach_def)
  ultimately show ?thesis using t(2) by blast
qed

end
