(* ===== verification/Curl_Blacklist.thy ===== *)
theory Curl_Blacklist
  imports C_Prelude
begin

text \<open>
  The download of the black list (\<open>linux/libcurl/\<close>): the callback, the request and the program. The library
  \<open>libcurl\<close> is not part of the sources: \<open>curl_easy_perform\<close> is the parameter \<open>perform\<close> of the model, which
  gets what the program has set (address, header, body of the post, callback and memory of the callback), and what is
  used of its documentation is the hypothesis \<open>curl_documented\<close>.
\<close>

section \<open>The callback\<close>

type_synonym size_t = "64 word"

text \<open>The chunk has \<open>sz * nmemb\<close> bytes; \<open>buf\<close> is the memory of the user.\<close>

definition write_callback :: "size_t \<Rightarrow> byte list \<Rightarrow> size_t \<Rightarrow> size_t \<Rightarrow> byte list \<Rightarrow> (size_t \<times> byte list) option" where
  "write_callback curl_callback_buf_len chunk sz nmemb buf = do {
     let cpy_size = (if sz * nmemb < curl_callback_buf_len then sz * nmemb else curl_callback_buf_len - 1);
     bs \<leftarrow> rd_block chunk 0 (unat cpy_size);
     buf \<leftarrow> wr_block buf 0 bs;
     buf \<leftarrow> wr buf (unat cpy_size) 0;
     Some (cpy_size, buf)
   }"

section \<open>The request\<close>

definition get_dev_id :: string where
  "get_dev_id = ''RJ201410162001''"

text \<open>\<open>snprintf\<close> to 256 bytes.\<close>

definition get_blacklist_post_str :: string where
  "get_blacklist_post_str = take 255
     (''{'' @ [CHR 0x22] @ ''request'' @ [CHR 0x22] @ '':'' @ [CHR 0x22] @ ''3GBlackList'' @ [CHR 0x22] @ '',''
      @ [CHR 0x22] @ ''device'' @ [CHR 0x22] @ '':'' @ [CHR 0x22] @ get_dev_id @ [CHR 0x22] @ '',''
      @ [CHR 0x22] @ ''param'' @ [CHR 0x22] @ '':[]}'')"

definition UPDATE_BLACK_LIST :: string where
  "UPDATE_BLACK_LIST = ''box.uhappybox.com:81'' @ ''/uApi.php''"

type_synonym curl_callback = "byte list \<Rightarrow> size_t \<Rightarrow> size_t \<Rightarrow> byte list \<Rightarrow> (size_t \<times> byte list) option"

text \<open>Address, header, body of the post, callback, memory of the callback; the result is the code of the
  transfer and the memory.\<close>

type_synonym curl_perform =
  "string \<Rightarrow> string \<Rightarrow> string \<Rightarrow> curl_callback \<Rightarrow> byte list \<Rightarrow> (int \<times> byte list) option"

text \<open>The code of the transfer is not looked at.\<close>

definition get_blacklist :: "curl_perform \<Rightarrow> byte list \<Rightarrow> size_t \<Rightarrow> byte list option" where
  "get_blacklist perform buf buf_len = do {
     let curl_callback_buf_len = buf_len;
     (code, buf) \<leftarrow> perform UPDATE_BLACK_LIST ''Content-Type: application/json'' get_blacklist_post_str
                       (write_callback curl_callback_buf_len) buf;
     Some buf
   }"

text \<open>The bytes \<open>printf\<close> writes for \<open>%s\<close>; there has to be an end of the string.\<close>

fun c_string :: "byte list \<Rightarrow> byte list option" where
  "c_string [] = None"
| "c_string (b # bs) = (if b = 0 then Some [] else map_option ((#) b) (c_string bs))"

abbreviation (input) CB_BUF_SIZE :: nat where "CB_BUF_SIZE \<equiv> 1024"

text \<open>\<open>stack\<close> is what the buffer happens to hold.\<close>

definition blacklist_main :: "curl_perform \<Rightarrow> byte list \<Rightarrow> byte list option" where
  "blacklist_main perform stack = do {
     buf \<leftarrow> get_blacklist perform (take CB_BUF_SIZE stack) (of_nat CB_BUF_SIZE);
     out \<leftarrow> c_string buf;
     Some (out @ [10])
   }"

section \<open>What the documentation of the library promises\<close>





section \<open>What the buffer holds\<close>





text \<open>The chunk whose text is in the buffer at the end: the first one that is too long, or the last.\<close>

fun last_taken :: "nat \<Rightarrow> byte list list \<Rightarrow> byte list" where
  "last_taken n [] = []"
| "last_taken n (chunk # chunks) = (if chunks = [] \<or> n \<le> length chunk then chunk else last_taken n chunks)"

lemma last_taken_last: "chunks \<noteq> [] \<Longrightarrow> \<forall>chunk \<in> set chunks. length chunk < n \<Longrightarrow> last_taken n chunks = last chunks"
  by (induction chunks) auto



section \<open>Properties\<close>






end
