(* ===== verification/Spec2Isabelle.thy ===== *)
theory Spec2Isabelle
  imports Kernel_List_Demo Uart_Main Config_Buffers_Rounds Config_Sentences Json_Tools Json_Parse_Facts Domain_Sockets Curl_Blacklist
begin

text \<open>
  A verification library for the C programs of the repository: a collection of independent
  demonstrations. Four of them carry logic of their own and are modelled here, with two small ones.

  \<^bold>\<open>1. The kernel list\<close> (\<open>linux/linux_kernel_list/\<close>). \<open>Kernel_List\<close> models \<open>list.h\<close> over a heap of link
  nodes, every store of the code included; \<open>linked\<close> and \<open>ring\<close> are the abstraction to a list of nodes,
  and the lemmas \<open>..._ring\<close> give each operation its effect on it. The locale \<open>list_pushes\<close> states what a
  user of the list relies on; it is interpreted on \<open>list_add\<close> and \<open>list_add_tail\<close>. \<open>Kernel_List_Demo\<close>
  is the program \<open>main.c\<close> with \<open>container_of\<close> as address arithmetic and its output as a string.

  \<^bold>\<open>2. The UART protocol\<close> (\<open>linux/uart_communicate_protocol/\<close>). \<open>C_Blocks\<close> is byte memory with \<open>malloc\<close> and
  \<open>free\<close>; \<open>Uart_Packet\<close> the packets and their checksum (\<open>ser_cmd.c\<close>, \<open>ser_cmd.h\<close>); \<open>Uart_Hal\<close> the device
  and the mail slot (\<open>ser_hal.c\<close>, \<open>debug.c\<close>); \<open>Uart_Commands\<close> the dispatcher and the handlers (\<open>ser_cmd.c\<close>,
  \<open>ser_handler.c\<close>); \<open>Uart_Receiver\<close> the receive loop with its refinement of a deframer on byte streams (\<open>deframe\<close>, a
  specification that stands for no code: every property of the receiver is about \<open>rcv_byte\<close> and \<open>ser_cmd_rcv\<close>);
  \<open>Uart_Mailbox\<close> the exchange between two peers, and the statements of the receiving and the sending
  thread as a step relation, with reachability and an invariant under every interleaving;
  \<open>Uart_Main\<close> is \<open>main.c\<close>: options, the attributes of the device, and the sending loop with its peer.

  \<^bold>\<open>3. libconfig\<close> (\<open>linux/linux_libconfig/\<close>). The library part of \<open>libconfig.c\<close>: \<open>Config_State\<close> (settings
  found by address, options, well-formedness), \<open>Config_Access\<close> (names, members, paths, getters),
  \<open>Config_Update\<close> (setters, creation, removal, life cycle), \<open>Config_Write\<close> (the writer). \<open>Config_Tree\<close>
  represents a setting as a tree of addresses, \<open>Config_Safety\<close> proves each modifying call safe and
  well-formedness preserved, \<open>Config_Reads\<close> each getter and lookup safe (the locale \<open>safe_interface\<close> of the prelude
  lifts this to sequences of calls; \<open>call_allowed\<close> and \<open>may_ask\<close> say what the caller has to see to) and
  \<open>Config_Properties\<close> holds the promises to callers. The reading part: \<open>Config_Strbuf\<close> (\<open>strbuf.c\<close>, with the
  locale \<open>string_builder\<close>), \<open>Config_Scan_Context\<close> (\<open>scanctx.c\<close>: include stack, over an environment of
  files), \<open>Config_Scanner\<close> (\<open>scanner.c\<close>: the tables of the automaton, the matching loop, all actions),
  \<open>Config_Grammar\<close> (\<open>grammar.c\<close>: the LALR tables, the semantic actions, the loop of the parser with its
  stack limits and error handling), \<open>Config_Reader\<close> (\<open>config_read*\<close>, \<open>config_write_file\<close> and \<open>main.c\<close>).
  That reading is safe and ends is shown in layers: \<open>Config_Match\<close> (what the matching loop finds, from the
  tables), \<open>Config_Lexing\<close> (each token has its type and leaves less to read, over all buffers of the include
  stack), \<open>Config_Automaton\<close> (which states can lie below each other on the stack, a potential that every
  reduction lowers), \<open>Config_Parsing\<close> (an invariant of the parser's state in the style of a type system: the open
  arrays, lists and groups on the stack are the types of the parent settings; every step keeps it and comes
  nearer to the end) and \<open>Config_Reading\<close> (a file is read, and every include file closed again). \<open>Config_Sentences\<close>
  has the grammar and shows that what is accepted is a sentence of it.
  \<open>Config_Scanner\<close> reads a text as a whole; \<open>Config_Buffers\<close> models the buffers of \<open>flex\<close> below it: the array with the
  two NULs behind the text, the character held back behind \<open>yytext\<close>, reading on in the middle of a match, the
  growth of the array, and changing buffers. \<open>Config_Buffers_Facts\<close> shows that the match does not depend on where the
  array ends, \<open>Config_Buffers_Rounds\<close> that a round of the scanner on its buffers is a round on the text
  (\<open>scans\<close> relates the two), for a buffer of any size.
  \<open>C_Float\<close> has the \<open>double\<close> values: sign, mantissa and exponent, infinities and NaN, without an
  assumption about rounding other than to nearest even.

  \<^bold>\<open>4. cJSON and the JSON tools\<close> (\<open>cJSON/\<close>). \<open>Json_Number\<close> and \<open>Json_Text\<close> are the text level of \<open>cJSON.c\<close>:
  numbers, escapes, \<open>cJSON_Minify\<close>; \<open>Json_Heap\<close> the memory of items, strings and pointer arrays whose
  allocations may fail at any call, with \<open>cJSON_Delete\<close>; \<open>Json_Parse\<close>, \<open>Json_Print\<close> and \<open>Json_List\<close> the parser,
  the printer with its intermediate strings and failure paths, and the operations on chains of
  elements; \<open>Json_Tools\<close> is \<open>json_wrap.c\<close>, \<open>manipulate_list.c\<close> and \<open>main.c\<close> over a world of files and shell
  commands. \<open>Json_Text_Facts\<close>, \<open>Json_Number_Facts\<close>: the texts are as promised and fit their buffers.
  \<open>Json_Tree\<close>: JSON values and the reference text \<open>render\<close>. \<open>Json_Memory\<close>: what a piece of code owns on
  top of a memory (\<open>owned\<close>) and the value an item holds (\<open>holds\<close>). \<open>Json_Print_Facts\<close>: the printer
  computes \<open>render\<close> and leaks nothing, whichever allocations fail. \<open>Json_Forest\<close>: \<open>cJSON_Delete\<close>.
  \<open>Json_Read\<close>: a reference reader without memory, which reads \<open>render\<close> back and ends on every text.
  \<open>Json_Parse_Facts\<close>: the parser computes that reader, again whichever allocations fail, and with it
  the round trip through \<open>cJSON_Print\<close> and \<open>cJSON_Parse\<close>.

  \<^bold>\<open>5. Small programs.\<close> \<open>Domain_Sockets\<close> (\<open>linux/domain_socket/\<close>): server and client as a step relation on
  their calls, with the runs that print the message and the one that waits for ever. \<open>Curl_Blacklist\<close>
  (\<open>linux/libcurl/\<close>): the callback of a download and what it leaves in the buffer. The library \<open>libcurl\<close> is a
  parameter; \<open>curl_documented\<close> is what is used of its documentation, a hypothesis of the property.

  \<^bold>\<open>Conventions.\<close> \<open>C_Prelude\<close> has the machine types (words of the C widths), the option monad, in which
  \<open>None\<close> is an access that C leaves undefined (so that a theorem that an operation returns \<open>Some\<close>
  says that it is safe and terminates), buffers, and strings. Errors the code reports are values. State is
  passed explicitly. Loops over pointers that need not end are \<open>partial_function (option)\<close>.

  \<^bold>\<open>Bounds and fuel.\<close> The recursion of \<open>print_value\<close> and \<open>duplicate\<close> is bounded by the number of allocations
  so far: an item is not nested in itself, so that its depth is less than the number of live objects
  (\<open>height_less_n_alloc\<close>). The parser of JSON is bounded by the length of the text plus one: every call
  consumes a character (\<open>read_text_off\<close>, \<open>cJSON_Parse_parsed\<close>). The text of a number is computed with exact integers.
  The scanner and the parser of libconfig have no fuel: \<open>yylex\<close> and \<open>yyrun\<close> are partial functions, and that they return is
  proved (\<open>yylex_lexes\<close>, \<open>yyrun_returns\<close>). The chain of defaults in the scanner's tables is shorter than the five steps
  allowed for it (\<open>next_state_ok\<close>).

  \<^bold>\<open>Lengths.\<close> Where the code keeps a length or a number of entries in an \<open>int\<close> and the model has a natural number
  (the lengths of texts, arrays and objects in \<open>print_array\<close>, \<open>print_object\<close>, \<open>raw_length\<close> and \<open>printed_length\<close> of cJSON,
  the length of a token in \<open>yy_get_next_buffer\<close> and \<open>end_of_buffer\<close> of \<open>flex\<close>), the two agree up to \<open>INT_MAX\<close>; larger
  objects are outside of the model.

  \<^bold>\<open>Protocol and README.\<close> The packets and the commands of the UART programs are those of the code. The README of the
  protocol describes others: a length of two bytes that counts the data (the code: one byte, the whole packet), and
  0x00 discover, 0x01 name, 0x02 methods (the code: 0x01 discover, 0x02 send_05, nothing at 0x00).

  \<^bold>\<open>Not modelled.\<close> NUL characters in the input of the scanner are in the model of its buffers, but the theorems
  exclude them; allocations of the scanner do not fail; numbers that do not fit an \<open>int\<close> make \<open>atoi\<close> undefined, so that the
  theorems on reading ask for texts without them (\<open>good_text\<close>); the debug output of both generated parsers;
  \<open>wincompat\<close>; \<open>cJSON_InitHooks\<close> (the allocator is a parameter); programs that only call the operating
  system or a library (netlink, \<open>getopt\<close>, daemon, semaphores, SQLite, Lua, the kernel modules, protobuf), which have no
  logic of their own between the calls; and the projects in other languages.
\<close>

end
